(* ===== verification/Prelude.thy ===== *)
theory Prelude
  imports Main "HOL-Library.Word"
begin

text \<open>
  What every theory of the development shares: the names of the machine types of
  the Go sources, Go's \<open>error\<close> values as one datatype, the result of a fallible
  and stateful Go function, and the generic lemmas on lists that the byte
  buffers rest on.

  A Go function \<open>func (x *T) F(a A) (B, error)\<close> that mutates its receiver is a
  function from the argument and the state to a pair of a result and the new
  state. The state after an error is kept, as in Go: an early return does not
  undo what was done before it.
\<close>

unbundle bit_operations_syntax

named_theorems codec_simps \<open>lengths and round trips of the byte codecs\<close>
named_theorems store_defs \<open>definitions of the page store operations\<close>

type_synonym byte = "8 word"
type_synonym u16 = "16 word"
type_synonym u32 = "32 word"
type_synonym u64 = "64 word"

text \<open>
  The errors the modelled packages return. A constructor stands for one
  \<open>fmt.Errorf\<close> of the source, with the operands that matter; the contexts that
  callers wrap around an error (\<open>"read node %d: %w"\<close>) carry no behaviour and are
  dropped. \<open>Panic\<close> is a run-time panic (an index out of range).
  \<open>OutOfFuel\<close> is not an error of the source: it is the value of a loop whose
  fuel was too small, and is excluded by the theorems.
\<close>

datatype go_error =
    BadMagic u32
  | ChecksumMismatch u32
  | NotEnoughSpace u32
  | ReadEOF
  | WriteFault
  | PageOutOfRange u32
  | FreeMetaPage
  | FreeListFull
  | WrongNodeType u32
  | TooManyEntries u32
  | ChildCountMismatch u32
  | UnknownNodeType u32
  | NotBTreeHeader u32
  | FileNotRegistered u16
  | PoolNoVictim
  | WalCrcMismatch
  | TableExists string
  | TableMissing string
  | ColumnMissing string
  | ColumnNotInt string
  | IndexExists string
  | IndexMissing string
  | ColumnHasIndex string
  | BadCatalogMagic u32
  | CatalogV1
  | ColumnCountMismatch
  | ColumnTypeMismatch string
  | NoPrimaryKey string
  | RowTooLarge string
  | UpdatesPrimaryKey string
  | UniqueViolation string u64
  | TransactionInProgress
  | NoTransaction
  | OrNeedsPrimaryKey
  | OrInMultiTable
  | TableCountMismatch
  | ColumnUnresolved string
  | ColumnAmbiguous string
  | QualifierUnknown string
  | GroupByColumnMissing string
  | OrderByColumnMissing string
  | HavingColumnMissing string
  | ScalarSubqueryRows
  | UnterminatedString nat
  | IntegerOutOfRange string
  | UnexpectedCharacter char nat
  | NotStatsFile
  | UnexpectedEOF
  | FrameTooLarge u32
  | JsonError string
  | ServerError string
  | SyntaxError string
  | Panic
  | OutOfFuel

type_synonym ('s, 'a) go = "'s \<Rightarrow> (go_error + 'a) \<times> 's"

definition returnG :: "'a \<Rightarrow> ('s, 'a) go" where
  "returnG x s = (Inr x, s)"

definition failG :: "go_error \<Rightarrow> ('s, 'a) go" where
  "failG e s = (Inl e, s)"

text \<open>The sequencing \<open>x, err := m(); if err != nil { return err }; ...\<close>.\<close>

definition bindG :: "('s, 'a) go \<Rightarrow> ('a \<Rightarrow> ('s, 'b) go) \<Rightarrow> ('s, 'b) go" where
  "bindG m f s = (case m s of (Inl e, s') \<Rightarrow> (Inl e, s') | (Inr x, s') \<Rightarrow> f x s')"

text \<open>A pure fallible function used in a stateful one.\<close>

definition liftG :: "go_error + 'a \<Rightarrow> ('s, 'a) go" where
  "liftG r s = (r, s)"

lemma returnG_run [simp]: "returnG x s = (Inr x, s)"
  by (simp add: returnG_def)

lemma failG_run [simp]: "failG e s = (Inl e, s)"
  by (simp add: failG_def)

lemma liftG_run [simp]: "liftG r s = (r, s)"
  by (simp add: liftG_def)

lemma bindG_Inr [simp]: "m s = (Inr x, s') \<Longrightarrow> bindG m f s = f x s'"
  by (simp add: bindG_def)

lemma bindG_Inl [simp]: "m s = (Inl e, s') \<Longrightarrow> bindG m f s = (Inl e, s')"
  by (simp add: bindG_def)

lemma bindG_InrE:
  assumes "bindG m f s = (Inr y, t)"
  obtains x s' where "m s = (Inr x, s')" and "f x s' = (Inr y, t)"
  using assms by (auto simp: bindG_def split: prod.splits sum.splits)

text \<open>The same sequencing for functions without state, and a loop over a slice that returns at
  the first error.\<close>

definition bindE :: "go_error + 'a \<Rightarrow> ('a \<Rightarrow> go_error + 'b) \<Rightarrow> go_error + 'b" where
  "bindE r f = (case r of Inl e \<Rightarrow> Inl e | Inr x \<Rightarrow> f x)"

primrec mapE :: "('a \<Rightarrow> go_error + 'b) \<Rightarrow> 'a list \<Rightarrow> go_error + 'b list" where
  "mapE f [] = Inr []"
| "mapE f (x # xs) = bindE (f x) (\<lambda>y. bindE (mapE f xs) (\<lambda>ys. Inr (y # ys)))"

lemma bindE_simps [simp]: "bindE (Inr x) f = f x" "bindE (Inl e) f = Inl e"
  by (simp_all add: bindE_def)

lemma bindE_InrE:
  assumes "bindE r f = Inr y"
  obtains x where "r = Inr x" and "f x = Inr y"
  using assms by (cases r) auto

lemma mapE_Inr: "(\<And>x. x \<in> set xs \<Longrightarrow> f x = Inr (g x)) \<Longrightarrow> mapE f xs = Inr (map g xs)"
  by (induction xs) simp_all

lemma mapE_Inr_in: "mapE f xs = Inr ys \<Longrightarrow> y \<in> set ys \<Longrightarrow> \<exists>x\<in>set xs. f x = Inr y"
  by (induction xs arbitrary: ys) (auto elim!: bindE_InrE)

section \<open>Buffers\<close>

text \<open>
  A Go array or slice of bytes is a list. \<open>seg off n b\<close> is \<open>b[off:off+n]\<close>;
  \<open>put off xs b\<close> is the buffer after \<open>copy(b[off:], xs)\<close> for an \<open>xs\<close> that
  fits.
\<close>

definition seg :: "nat \<Rightarrow> nat \<Rightarrow> 'a list \<Rightarrow> 'a list" where
  "seg off n b = take n (drop off b)"

definition put :: "nat \<Rightarrow> 'a list \<Rightarrow> 'a list \<Rightarrow> 'a list" where
  "put off xs b = take off b @ xs @ drop (off + length xs) b"

lemma length_put [simp]:
  "off + length xs \<le> length b \<Longrightarrow> length (put off xs b) = length b"
  by (simp add: put_def)

lemma length_seg [simp]:
  "off + n \<le> length b \<Longrightarrow> length (seg off n b) = n"
  by (simp add: seg_def)

lemma seg_put_same [simp]:
  "n = length xs \<Longrightarrow> off + length xs \<le> length b \<Longrightarrow> seg off n (put off xs b) = xs"
  by (simp add: seg_def put_def)

lemma seg_put_before:
  "i + n \<le> off \<Longrightarrow> off + length xs \<le> length b \<Longrightarrow>
   seg i n (put off xs b) = seg i n b"
  by (rule nth_equalityI) (auto simp: seg_def put_def nth_append)

lemma seg_put_after:
  assumes "off + length xs \<le> i" and "off + length xs \<le> length b"
  shows "seg i n (put off xs b) = seg i n b"
proof -
  have "i - (off + length xs) + (off + length xs) = i" using assms(1) by simp
  then show ?thesis using assms by (simp add: seg_def put_def)
qed

lemma seg_put_other [simp]:
  "i + n \<le> off \<or> off + length xs \<le> i \<Longrightarrow> off + length xs \<le> length b \<Longrightarrow>
   seg i n (put off xs b) = seg i n b"
  using seg_put_before seg_put_after by blast

lemma seg_put_prefix:
  "off + n \<le> length b \<Longrightarrow> length xs \<le> n \<Longrightarrow>
   seg off n (put off xs b) = xs @ drop (length xs) (seg off n b)"
  by (simp add: seg_def put_def drop_take add.commute)

lemma nth_put:
  "off + length xs \<le> length b \<Longrightarrow> i < length b \<Longrightarrow>
   put off xs b ! i =
     (if off \<le> i \<and> i < off + length xs then xs ! (i - off) else b ! i)"
  by (auto simp: put_def nth_append min_def)

lemma seg_all [simp]: "n = length b \<Longrightarrow> seg 0 n b = b"
  by (simp add: seg_def)

lemma seg_seg [simp]:
  "j + m \<le> n \<Longrightarrow> seg j m (seg i n b) = seg (i + j) m b"
  by (simp add: seg_def drop_take add.commute)

lemma seg_replicate [simp]:
  "i + n \<le> k \<Longrightarrow> seg i n (replicate k x) = replicate n x"
  by (simp add: seg_def)

lemma nth_seg [simp]:
  "i < n \<Longrightarrow> off + n \<le> length b \<Longrightarrow> seg off n b ! i = b ! (off + i)"
  by (simp add: seg_def)

lemma seg_append_left:
  "i + n \<le> length xs \<Longrightarrow> seg i n (xs @ ys) = seg i n xs"
  by (simp add: seg_def)

lemma seg_append_right:
  "length xs \<le> i \<Longrightarrow> seg i n (xs @ ys) = seg (i - length xs) n ys"
  by (simp add: seg_def)

lemma seg_list_update_other:
  "k < i \<or> i + n \<le> k \<Longrightarrow> seg i n (b[k := v]) = seg i n b"
  by (rule nth_equalityI) (auto simp: seg_def)

lemma seg_list_update_same:
  "i \<le> k \<Longrightarrow> k < i + n \<Longrightarrow> seg i n (b[k := v]) = (seg i n b)[k - i := v]"
  by (simp add: seg_def drop_update_swap take_update_swap)

section \<open>Searching a slice\<close>

text \<open>A \<open>for i, x := range xs\<close> that returns at the first match.\<close>

primrec find_index :: "('a \<Rightarrow> bool) \<Rightarrow> 'a list \<Rightarrow> nat option" where
  "find_index P [] = None"
| "find_index P (x # xs) = (if P x then Some 0 else map_option Suc (find_index P xs))"

lemma find_index_SomeD:
  "find_index P xs = Some i \<Longrightarrow> i < length xs \<and> P (xs ! i) \<and> (\<forall>j < i. \<not> P (xs ! j))"
proof (induction xs arbitrary: i)
  case (Cons x xs)
  then show ?case
    by (cases i) (auto split: if_splits simp: less_Suc_eq_0_disj)
qed simp

lemma find_index_None: "find_index P xs = None \<longleftrightarrow> (\<forall>x \<in> set xs. \<not> P x)"
  by (induction xs) auto

lemma find_index_length: "find_index P xs = Some i \<Longrightarrow> i < length xs"
  using find_index_SomeD by blast

end
