(* ===== verification/Bytes.thy ===== *)
theory Bytes
  imports Prelude
begin

text \<open>
  The parts of the Go standard library that the storage layers call:
  \<open>encoding/binary\<close> (little-endian integers), \<open>hash/crc32\<close> (the IEEE
  checksum), \<open>strings\<close> (ASCII lower case), conversions between strings and
  bytes, and \<open>os.File\<close> (\<open>ReadAt\<close>, \<open>WriteAt\<close>) as a byte array with a schedule
  of write faults.
\<close>

section \<open>Little-endian integers\<close>

text \<open>\<open>to_le n w\<close> is what \<open>binary.LittleEndian.PutUint16/32/64\<close> stores in \<open>n\<close>
  bytes; \<open>from_le\<close> is what \<open>Uint16/32/64\<close> reads back.\<close>

primrec to_le :: "nat \<Rightarrow> 'a::len word \<Rightarrow> byte list" where
  "to_le 0 w = []"
| "to_le (Suc n) w = ucast w # to_le n (drop_bit 8 w)"

primrec from_le :: "byte list \<Rightarrow> 'a::len word" where
  "from_le [] = 0"
| "from_le (b # bs) = ucast b OR push_bit 8 (from_le bs)"

abbreviation le16 :: "u16 \<Rightarrow> byte list" where "le16 \<equiv> to_le 2"
abbreviation le32 :: "u32 \<Rightarrow> byte list" where "le32 \<equiv> to_le 4"
abbreviation le64 :: "u64 \<Rightarrow> byte list" where "le64 \<equiv> to_le 8"

lemma length_to_le [simp, codec_simps]: "length (to_le n w) = n"
  by (induction n arbitrary: w) auto

lemma from_le_to_le_take: "from_le (to_le n w) = (take_bit (8 * n) w :: 'a::len word)"
proof (induction n arbitrary: w)
  case 0
  then show ?case by simp
next
  case (Suc n)
  show ?case
  proof (rule bit_word_eqI)
    fix i assume "i < LENGTH('a)"
    then show "bit (from_le (to_le (Suc n) w) :: 'a word) i = bit (take_bit (8 * Suc n) w) i"
      by (cases "i < 8") (auto simp: Suc bit_simps)
  qed
qed

lemma from_le_to_le [simp, codec_simps]:
  "LENGTH('a) \<le> 8 * n \<Longrightarrow> from_le (to_le n w) = (w :: 'a::len word)"
  by (simp add: from_le_to_le_take take_bit_word_eq_self)

lemma to_le_from_le_aux:
  "8 * length bs \<le> LENGTH('a) \<Longrightarrow> to_le (length bs) (from_le bs :: 'a::len word) = bs"
proof (induction bs)
  case Nil
  then show ?case by simp
next
  case (Cons b bs)
  let ?w = "from_le bs :: 'a word"
  have fits: "8 * length bs + 8 \<le> LENGTH('a)" using Cons.prems by simp
  have bound: "take_bit (8 * length bs) ?w = ?w"
  proof -
    have "to_le (length bs) ?w = bs" using Cons by simp
    then show ?thesis using from_le_to_le_take [of "length bs" ?w] by simp
  qed
  have lo: "ucast (ucast b OR push_bit 8 ?w) = b"
    by (rule bit_word_eqI) (use fits in \<open>auto simp: bit_simps\<close>)
  have hi: "drop_bit 8 (ucast b OR push_bit 8 ?w) = ?w"
  proof (rule bit_word_eqI)
    fix i assume i: "i < LENGTH('a)"
    have "bit ?w i \<Longrightarrow> i < 8 * length bs"
      using bound by (metis bit_take_bit_iff)
    then show "bit (drop_bit 8 (ucast b OR push_bit 8 ?w)) i = bit ?w i"
      using fits i by (auto simp: bit_simps dest: bit_imp_le_length)
  qed
  show ?case unfolding from_le.simps list.size to_le.simps add_Suc_right add_0_right lo hi
    using Cons fits by simp
qed

lemma to_le_from_le [simp, codec_simps]:
  "length bs = n \<Longrightarrow> 8 * n \<le> LENGTH('a) \<Longrightarrow> to_le n (from_le bs :: 'a::len word) = bs"
  using to_le_from_le_aux by blast

lemma to_le_inject:
  "LENGTH('a) \<le> 8 * n \<Longrightarrow> to_le n v = to_le n w \<longleftrightarrow> v = (w :: 'a::len word)"
  by (metis from_le_to_le)

lemma from_le_zeros [simp]: "from_le (replicate n 0) = 0"
  by (induction n) auto

section \<open>CRC-32\<close>

text \<open>\<open>crc32.ChecksumIEEE\<close>: the reflected polynomial \<open>0xEDB88320\<close>, bit by bit.\<close>

definition crc_bit :: "u32 \<Rightarrow> u32" where
  "crc_bit c = (if bit c 0 then drop_bit 1 c XOR 0xEDB88320 else drop_bit 1 c)"

definition crc_byte :: "u32 \<Rightarrow> byte \<Rightarrow> u32" where
  "crc_byte c b = (crc_bit ^^ 8) (c XOR ucast b)"

definition crc_update :: "u32 \<Rightarrow> byte list \<Rightarrow> u32" where
  "crc_update = foldl crc_byte"

definition ChecksumIEEE :: "byte list \<Rightarrow> u32" where
  "ChecksumIEEE bs = crc_update 0xFFFFFFFF bs XOR 0xFFFFFFFF"

lemma xor_cancel_right [simp]: "(x XOR z = y XOR z) = (x = (y :: 'a::len word))"
  by (metis xor.assoc xor.right_neutral xor_self_eq)

lemma xor_cancel_left [simp]: "(z XOR x = z XOR y) = (x = (y :: 'a::len word))"
  by (metis xor.commute xor_cancel_right)

lemma ucast_u8_u32_inject [simp]: "(ucast (a :: byte) :: u32) = ucast b \<longleftrightarrow> a = b"
  by transfer simp

lemma funpow_8: "(f ^^ 8) x = f (f (f (f (f (f (f (f x)))))))"
  by (simp add: eval_nat_numeral)

lemmas crc_eval = ChecksumIEEE_def crc_update_def crc_byte_def crc_bit_def funpow_8

text \<open>The standard check value of CRC-32/IEEE: the checksum of \<open>123456789\<close>.\<close>

lemma crc32_check_value: "ChecksumIEEE [0x31,0x32,0x33,0x34,0x35,0x36,0x37,0x38,0x39] = 0xCBF43926"
  by (simp add: crc_eval)

lemma crc_bit_msb: "bit (crc_bit c) 31 \<longleftrightarrow> bit c 0"
  by (auto simp: crc_bit_def bit_simps dest: bit_imp_le_length)

lemma crc_bit_inj: "crc_bit c = crc_bit d \<Longrightarrow> c = d"
proof -
  assume eq: "crc_bit c = crc_bit d"
  have low: "bit c 0 \<longleftrightarrow> bit d 0" using eq crc_bit_msb by metis
  then have "drop_bit 1 c = drop_bit 1 d"
    using eq by (auto simp: crc_bit_def split: if_splits)
  then have "\<And>i. bit c (Suc i) \<longleftrightarrow> bit d (Suc i)"
    by (metis bit_drop_bit_eq comp_apply plus_1_eq_Suc)
  with low show "c = d"
    by (metis bit_word_eqI not0_implies_Suc)
qed

lemma crc_bits_inj: "(crc_bit ^^ n) c = (crc_bit ^^ n) d \<Longrightarrow> c = d"
  by (induction n) (auto dest: crc_bit_inj)

lemma crc_byte_state_inj: "crc_byte c b = crc_byte d b \<Longrightarrow> c = d"
  by (auto simp: crc_byte_def dest!: crc_bits_inj)

lemma crc_byte_byte_inj: "crc_byte c a = crc_byte c b \<Longrightarrow> a = b"
proof -
  assume "crc_byte c a = crc_byte c b"
  then have "c XOR ucast a = c XOR (ucast b :: u32)"
    unfolding crc_byte_def by (rule crc_bits_inj)
  then show "a = b" by simp
qed

lemma crc_update_append: "crc_update c (xs @ ys) = crc_update (crc_update c xs) ys"
  by (simp add: crc_update_def)

lemma crc_update_inj: "crc_update c xs = crc_update d xs \<Longrightarrow> c = d"
  by (induction xs arbitrary: c d)
    (auto simp: crc_update_def dest: crc_byte_state_inj)

text \<open>The checksum changes whenever exactly one byte of the input changes.\<close>

lemma ChecksumIEEE_one_byte:
  assumes "i < length xs" and "v \<noteq> xs ! i"
  shows "ChecksumIEEE (xs[i := v]) \<noteq> ChecksumIEEE xs"
proof
  assume "ChecksumIEEE (xs[i := v]) = ChecksumIEEE xs"
  then have eq: "crc_update 0xFFFFFFFF (xs[i := v]) = crc_update 0xFFFFFFFF xs"
    by (simp add: ChecksumIEEE_def)
  let ?c = "crc_update 0xFFFFFFFF (take i xs)"
  have "crc_update (crc_byte ?c v) (drop (Suc i) xs) =
        crc_update (crc_byte ?c (xs ! i)) (drop (Suc i) xs)"
    using eq assms(1)
    by (metis (no_types, lifting) append_Cons append_Nil crc_update_append crc_update_def
        foldl_Cons id_take_nth_drop upd_conv_take_nth_drop)
  then have "crc_byte ?c v = crc_byte ?c (xs ! i)"
    by (rule crc_update_inj)
  then have "v = xs ! i" by (rule crc_byte_byte_inj)
  with assms(2) show False ..
qed

section \<open>Strings\<close>

text \<open>
  A Go string is a byte sequence; in HOL it is a \<^typ>\<open>string\<close>, whose characters
  are bytes. \<open>strings.ToLower\<close> is modelled on ASCII: a byte outside A--Z is kept.
\<close>

definition byte_of_char :: "char \<Rightarrow> byte" where
  "byte_of_char c = word_of_nat (of_char c)"

definition char_of_byte :: "byte \<Rightarrow> char" where
  "char_of_byte b = char_of (unat b)"

definition string_bytes :: "string \<Rightarrow> byte list" where
  "string_bytes = map byte_of_char"

definition bytes_string :: "byte list \<Rightarrow> string" where
  "bytes_string = map char_of_byte"

definition ascii_lower :: "char \<Rightarrow> char" where
  "ascii_lower c = (let n = of_char c :: nat in
     if 65 \<le> n \<and> n \<le> 90 then char_of (n + 32) else c)"

definition ToLower :: "string \<Rightarrow> string" where
  "ToLower = map ascii_lower"

lemma char_of_byte_of_char [simp]: "char_of_byte (byte_of_char c) = c"
proof -
  have "unat (word_of_nat (of_char c) :: byte) = of_char c mod 256"
    by (simp add: unat_of_nat)
  then show ?thesis by (simp add: char_of_byte_def byte_of_char_def)
qed

lemma byte_of_char_of_byte [simp]: "byte_of_char (char_of_byte b) = b"
proof -
  have "unat b < 2 ^ LENGTH(8)" by (rule unsigned_less)
  then show ?thesis by (simp add: char_of_byte_def byte_of_char_def)
qed

lemma byte_of_char_inject [simp]: "byte_of_char c = byte_of_char d \<longleftrightarrow> c = d"
  by (metis char_of_byte_of_char)

lemma length_string_bytes [simp, codec_simps]: "length (string_bytes s) = length s"
  by (simp add: string_bytes_def)

lemma bytes_string_bytes [simp, codec_simps]: "bytes_string (string_bytes s) = s"
  by (simp add: bytes_string_def string_bytes_def o_def)

lemma string_bytes_string [simp]: "string_bytes (bytes_string b) = b"
  by (simp add: bytes_string_def string_bytes_def o_def)

lemma ascii_lower_idem [simp]: "ascii_lower (ascii_lower c) = ascii_lower c"
proof (cases "65 \<le> (of_char c :: nat) \<and> (of_char c :: nat) \<le> 90")
  case True
  then have "(of_char (char_of (of_char c + 32 :: nat)) :: nat) = of_char c + 32"
    by simp
  with True show ?thesis by (simp add: ascii_lower_def Let_def)
next
  case False
  then have "ascii_lower c = c" by (auto simp: ascii_lower_def Let_def)
  then show ?thesis by simp
qed

lemma ToLower_idem [simp]: "ToLower (ToLower s) = ToLower s"
  by (simp add: ToLower_def)

text \<open>\<open>strings.TrimRight(s, "\x00")\<close>, and the loop \<open>for end > 0 && raw[end-1] == 0\<close>.\<close>

definition trim_nul :: "byte list \<Rightarrow> byte list" where
  "trim_nul bs = rev (dropWhile (\<lambda>b. b = 0) (rev bs))"

lemma trim_nul_pad: "bs = [] \<or> last bs \<noteq> 0 \<Longrightarrow> trim_nul (bs @ replicate n 0) = bs"
proof -
  assume bs: "bs = [] \<or> last bs \<noteq> 0"
  have "dropWhile (\<lambda>b. b = 0) (replicate n 0 @ xs) = dropWhile (\<lambda>b. b = 0) xs" for xs :: "byte list"
    by (induction n) simp_all
  moreover have "dropWhile (\<lambda>b. b = 0) (rev bs) = rev bs"
    using bs by (cases bs rule: rev_cases) simp_all
  ultimately show ?thesis by (simp add: trim_nul_def)
qed

lemma byte_of_char_0: "byte_of_char c = 0 \<longleftrightarrow> c = CHR 0x00"
proof
  assume "byte_of_char c = 0"
  then have "c = char_of_byte 0" by (metis char_of_byte_of_char)
  then show "c = CHR 0x00" by (simp add: char_of_byte_def char_of_def)
qed (simp add: byte_of_char_def)

section \<open>Files\<close>

text \<open>
  An \<open>os.File\<close> is its contents and a schedule of write faults: the head of
  \<open>faults\<close> decides the next \<open>WriteAt\<close>. \<open>None\<close> (or an empty schedule) is a
  write that succeeds; \<open>Some k\<close> is a write that returns an error after \<open>k\<close> bytes
  have reached the file, a torn write. \<open>WriteAt\<close> past the end fills the gap with
  zeros. \<open>ReadAt\<close> of a full buffer fails with \<open>io.EOF\<close> when the file is too
  short. The contents model what a later read returns; durability across a power
  loss is outside this type.
\<close>

record go_file =
  contents :: "byte list"
  faults :: "nat option list"

definition empty_file :: go_file where
  "empty_file = \<lparr>contents = [], faults = []\<rparr>"

definition ReadAt :: "nat \<Rightarrow> nat \<Rightarrow> go_file \<Rightarrow> go_error + byte list" where
  "ReadAt n off f =
     (if off + n \<le> length (contents f) then Inr (seg off n (contents f)) else Inl ReadEOF)"

definition write_bytes :: "byte list \<Rightarrow> nat \<Rightarrow> byte list \<Rightarrow> byte list" where
  "write_bytes bs off c =
     (if bs = [] then c
      else put off bs (c @ replicate (off + length bs - length c) 0))"

definition WriteAt :: "byte list \<Rightarrow> nat \<Rightarrow> (go_file, unit) go" where
  "WriteAt bs off f =
     (case faults f of
        Some k # fs \<Rightarrow>
          (Inl WriteFault, f\<lparr>contents := write_bytes (take k bs) off (contents f), faults := fs\<rparr>)
      | None # fs \<Rightarrow> (Inr (), f\<lparr>contents := write_bytes bs off (contents f), faults := fs\<rparr>)
      | [] \<Rightarrow> (Inr (), f\<lparr>contents := write_bytes bs off (contents f)\<rparr>))"

lemma WriteAt_ok [simp]:
  "faults f = [] \<Longrightarrow> WriteAt bs off f = (Inr (), f\<lparr>contents := write_bytes bs off (contents f)\<rparr>)"
  by (simp add: WriteAt_def)

lemma length_write_bytes:
  "bs \<noteq> [] \<Longrightarrow> length (write_bytes bs off c) = max (length c) (off + length bs)"
  by (simp add: write_bytes_def)

lemma seg_write_same [simp]:
  "n = length bs \<Longrightarrow> seg off n (write_bytes bs off c) = bs"
  by (cases "bs = []") (simp_all add: write_bytes_def seg_def put_def)

lemma seg_write_other:
  assumes "i + n \<le> length c" and "i + n \<le> off \<or> off + length bs \<le> i"
  shows "seg i n (write_bytes bs off c) = seg i n c"
proof (cases "bs = []")
  case True
  then show ?thesis by (simp add: write_bytes_def)
next
  case False
  then show ?thesis using assms by (simp add: write_bytes_def seg_append_left)
qed

lemma ReadAt_write_same:
  "bs \<noteq> [] \<Longrightarrow> ReadAt (length bs) off (f\<lparr>contents := write_bytes bs off c\<rparr>) = Inr bs"
  by (simp add: ReadAt_def length_write_bytes)

lemma ReadAt_write_other:
  assumes "off + n \<le> length (contents f)"
    and "off + n \<le> o' \<or> o' + length bs \<le> off"
  shows "ReadAt n off (f\<lparr>contents := write_bytes bs o' (contents f)\<rparr>) = ReadAt n off f"
  using assms
  by (cases "bs = []")
    (auto simp: ReadAt_def seg_write_other length_write_bytes, auto simp: write_bytes_def)

end
