(* ===== verification/PageStore.thy ===== *)
theory PageStore
  imports Storage
begin

text \<open>
  The interfaces \<open>pager.PageStore\<close> and \<open>pager.FullStore\<close>
  (\<open>src/pager/pager.go\<close>) as records of operations over a state \<open>'s\<close>, and the laws
  their users rely on as locales. The B+ tree is written against \<open>PageStore\<close>, the
  transaction pager against \<open>FullStore\<close>; the raw pager, the buffer-pool pager and
  the transaction pager are the providers.

  A store state has a set of \<open>live\<close> pages (allocated and not freed), the data area
  of each (\<open>view\<close>), and a number of further allocations that are sure to succeed
  (\<open>room\<close>).
\<close>

record 's PageStore =
  ReadPage :: "u32 \<Rightarrow> ('s, Page) go"
  WritePage :: "Page \<Rightarrow> ('s, unit) go"
  AllocatePage :: "('s, u32) go"

record 's FullStore = "'s PageStore" +
  FreePage :: "u32 \<Rightarrow> ('s, unit) go"

locale page_store =
  fixes ps :: "('s, 'z) PageStore_scheme"
    and ok :: "'s \<Rightarrow> bool"
    and live :: "'s \<Rightarrow> u32 set"
    and view :: "'s \<Rightarrow> u32 \<Rightarrow> byte list"
    and room :: "'s \<Rightarrow> nat"
  assumes live_nonzero: "ok s \<Longrightarrow> 0 \<notin> live s"
    and view_length: "ok s \<Longrightarrow> i \<in> live s \<Longrightarrow> length (view s i) = DataSize"
    and read_live: "ok s \<Longrightarrow> i \<in> live s \<Longrightarrow>
      \<exists>p s'. ReadPage ps i s = (Inr p, s') \<and> page_id p = i \<and> Data p = view s i \<and>
        ok s' \<and> live s' = live s \<and> (\<forall>j\<in>live s. view s' j = view s j) \<and> room s \<le> room s'"
    and write_live: "ok s \<Longrightarrow> wf_page p \<Longrightarrow> page_id p \<in> live s \<Longrightarrow>
      \<exists>s'. WritePage ps p s = (Inr (), s') \<and> ok s' \<and> live s' = live s \<and>
        (\<forall>j\<in>live s. view s' j = (if j = page_id p then Data p else view s j)) \<and>
        room s \<le> room s'"
    and alloc_room: "ok s \<Longrightarrow> 0 < room s \<Longrightarrow>
      \<exists>i s'. AllocatePage ps s = (Inr i, s') \<and> i \<notin> live s \<and> ok s' \<and>
        live s' = insert i (live s) \<and> (\<forall>j\<in>live s. view s' j = view s j) \<and>
        room s \<le> Suc (room s')"
begin

lemma alloc_nonzero: "ok s \<Longrightarrow> 0 < room s \<Longrightarrow> AllocatePage ps s = (Inr i, s') \<Longrightarrow> i \<noteq> 0"
  using alloc_room [of s] live_nonzero by force

end

text \<open>A store that can also take pages back. \<open>FreePage\<close> may refuse (a full free list);
  whatever it answers, the other live pages are kept.\<close>

locale full_store = page_store fs ok live view room
  for fs :: "('s, 'z) FullStore_scheme" and ok live view room +
  assumes free_live: "ok s \<Longrightarrow> i \<in> live s \<Longrightarrow> FreePage fs i s = (r, s') \<Longrightarrow>
      ok s' \<and> live s' = (if r = Inr () then live s - {i} else live s) \<and>
      (\<forall>j\<in>live s - {i}. view s' j = view s j) \<and> room s \<le> room s'"

end
