(* ===== verification/Pager.thy ===== *)
theory Pager
  imports PageStore
begin

text \<open>
  \<open>src/pager/pager.go\<close>: the file of pages with its meta page (page count and free
  list). Each operation is translated with its write failures (the fault schedule
  of the file). The invariant \<open>pager_inv\<close> says that every page of the file decodes
  to a page carrying its own number, that the free list names distinct data pages,
  and that the meta page on disk agrees with the fields in memory.
\<close>

definition maxFreeListEntries :: nat where
  "maxFreeListEntries = (DataSize - 8) div 4"

definition metaPageID :: u32 where "metaPageID = 0"

record Pager =
  pfile :: go_file
  totalPages :: u32
  freeList :: "u32 list"

definition page_offset :: "u32 \<Rightarrow> nat" where
  "page_offset i = unat i * PageSize"

definition pager_WritePage :: "Page \<Rightarrow> (Pager, unit) go" where
  "pager_WritePage p pg =
     (case WriteAt (Encode p) (page_offset (page_id p)) (pfile pg) of
        (r, f) \<Rightarrow> (r, pg\<lparr>pfile := f\<rparr>))"

definition pager_ReadPage :: "u32 \<Rightarrow> (Pager, Page) go" where
  "pager_ReadPage i pg =
     (if i \<ge> totalPages pg then (Inl (PageOutOfRange i), pg)
      else case ReadAt PageSize (page_offset i) (pfile pg) of
        Inl e \<Rightarrow> (Inl e, pg)
      | Inr raw \<Rightarrow> (Decode raw, pg))"

text \<open>The loop of \<open>flushMeta\<close> that stores the free list; a slice bound above the data
  area panics.\<close>

fun put_ids :: "nat \<Rightarrow> u32 list \<Rightarrow> byte list \<Rightarrow> byte list option" where
  "put_ids off [] d = Some d"
| "put_ids off (i # xs) d =
     (if off + 4 \<le> length d then put_ids (off + 4) xs (put off (le32 i) d) else None)"

definition pager_flushMeta :: "(Pager, unit) go" where
  "pager_flushMeta pg =
     (let meta = NewPage metaPageID PageTypeMeta;
          d = put 0 (le32 (totalPages pg)) (Data meta);
          d = put 4 (le32 (of_nat (length (freeList pg)))) d
      in case put_ids 8 (freeList pg) d of
           None \<Rightarrow> (Inl Panic, pg)
         | Some d \<Rightarrow> pager_WritePage (meta\<lparr>Data := d\<rparr>) pg)"

definition pager_bootstrapMeta :: "(Pager, unit) go" where
  "pager_bootstrapMeta pg = pager_flushMeta (pg\<lparr>totalPages := 1, freeList := []\<rparr>)"

text \<open>The loop of \<open>loadMeta\<close>: \<open>n\<close> identifiers from offset \<open>off\<close>.\<close>

fun get_ids :: "nat \<Rightarrow> nat \<Rightarrow> byte list \<Rightarrow> u32 list option" where
  "get_ids off 0 d = Some []"
| "get_ids off (Suc n) d =
     (if off + 4 \<le> length d
      then map_option ((#) (from_le (seg off 4 d))) (get_ids (off + 4) n d)
      else None)"

definition pager_loadMeta :: "(Pager, unit) go" where
  "pager_loadMeta pg =
     (case ReadAt PageSize 0 (pfile pg) of
        Inl e \<Rightarrow> (Inl e, pg)
      | Inr raw \<Rightarrow>
          (case Decode raw of
             Inl e \<Rightarrow> (Inl e, pg)
           | Inr meta \<Rightarrow>
               (let tp = from_le (seg 0 4 (Data meta)) :: u32;
                    freeCount = from_le (seg 4 4 (Data meta)) :: u32
                in case get_ids 8 (unat freeCount) (Data meta) of
                     None \<Rightarrow> (Inl Panic, pg\<lparr>totalPages := tp, freeList := []\<rparr>)
                   | Some fl \<Rightarrow> (Inr (), pg\<lparr>totalPages := tp, freeList := fl\<rparr>))))"

definition pager_Open :: "go_file \<Rightarrow> (go_error + unit) \<times> Pager" where
  "pager_Open f =
     (let pg = \<lparr>pfile = f, totalPages = 0, freeList = []\<rparr>
      in if length (contents f) = 0 then pager_bootstrapMeta pg else pager_loadMeta pg)"

definition pager_Close :: "(Pager, unit) go" where
  "pager_Close pg = pager_flushMeta pg"

definition pager_AllocatePage :: "(Pager, u32) go" where
  "pager_AllocatePage pg =
     (if length (freeList pg) > 0 then
        let i = last (freeList pg);
            pg = pg\<lparr>freeList := butlast (freeList pg)\<rparr>
        in bindG (pager_WritePage (NewPage i PageTypeData))
             (\<lambda>_. bindG pager_flushMeta (\<lambda>_. returnG i)) pg
      else
        let i = totalPages pg;
            pg = pg\<lparr>totalPages := totalPages pg + 1\<rparr>
        in case pager_WritePage (NewPage i PageTypeData) pg of
             (Inl e, pg) \<Rightarrow> (Inl e, pg\<lparr>totalPages := totalPages pg - 1\<rparr>)
           | (Inr _, pg) \<Rightarrow> bindG pager_flushMeta (\<lambda>_. returnG i) pg)"

definition pager_FreePage :: "u32 \<Rightarrow> (Pager, unit) go" where
  "pager_FreePage i pg =
     (if i = metaPageID then (Inl FreeMetaPage, pg)
      else if i \<ge> totalPages pg then (Inl (PageOutOfRange i), pg)
      else if length (freeList pg) \<ge> maxFreeListEntries then (Inl FreeListFull, pg)
      else bindG (pager_WritePage (NewPage i PageTypeFree))
             (\<lambda>_ pg. pager_flushMeta (pg\<lparr>freeList := freeList pg @ [i]\<rparr>)) pg)"

definition pager_store :: "Pager FullStore" where
  "pager_store =
     \<lparr>ReadPage = pager_ReadPage, WritePage = pager_WritePage,
      AllocatePage = pager_AllocatePage, FreePage = pager_FreePage\<rparr>"

lemma pager_store_simps [simp]:
  "ReadPage pager_store = pager_ReadPage" "WritePage pager_store = pager_WritePage"
  "AllocatePage pager_store = pager_AllocatePage" "FreePage pager_store = pager_FreePage"
  by (simp_all add: pager_store_def)

section \<open>Pages in a file\<close>

definition holds_page :: "go_file \<Rightarrow> u32 \<Rightarrow> Page \<Rightarrow> bool" where
  "holds_page f i p \<longleftrightarrow>
     page_offset i + PageSize \<le> length (contents f) \<and>
     Decode (seg (page_offset i) PageSize (contents f)) = Inr p"

definition put_page :: "Page \<Rightarrow> go_file \<Rightarrow> go_file" where
  "put_page p f =
     f\<lparr>contents := write_bytes (Encode p) (page_offset (page_id p)) (contents f)\<rparr>"

lemma page_offset_disjoint:
  assumes "i \<noteq> j"
  shows "page_offset i + PageSize \<le> page_offset j \<or> page_offset j + PageSize \<le> page_offset i"
proof -
  have "unat i < unat j \<or> unat j < unat i"
    using assms by (metis nat_neq_iff unsigned_word_eqI)
  then have "Suc (unat i) * PageSize \<le> unat j * PageSize \<or> Suc (unat j) * PageSize \<le> unat i * PageSize"
    using mult_le_mono1 Suc_leI by blast
  then show ?thesis by (simp add: page_offset_def add.commute)
qed

lemma faults_put_page [simp]: "faults (put_page p f) = faults f"
  by (simp add: put_page_def)

lemma Encode_nonempty: "wf_page p \<Longrightarrow> Encode p \<noteq> []"
  by (metis PageSize_def length_Encode list.size(3) zero_neq_numeral)

lemma length_put_page:
  "wf_page p \<Longrightarrow> length (contents (put_page p f)) =
     max (length (contents f)) (page_offset (page_id p) + PageSize)"
  by (simp add: put_page_def length_write_bytes Encode_nonempty)

lemma holds_put_same: "wf_page p \<Longrightarrow> holds_page (put_page p f) (page_id p) (stored p)"
  by (simp add: holds_page_def length_put_page) (simp add: put_page_def Decode_Encode)

lemma holds_put_other:
  assumes "wf_page p" and "i \<noteq> page_id p" and "holds_page f i q"
  shows "holds_page (put_page p f) i q"
proof -
  have "seg (page_offset i) PageSize (contents (put_page p f)) =
        seg (page_offset i) PageSize (contents f)"
    using assms page_offset_disjoint [of i "page_id p"]
    by (simp add: holds_page_def put_page_def seg_write_other)
  then show ?thesis using assms by (auto simp: holds_page_def length_put_page max_def)
qed

lemma holds_put_iff:
  "wf_page p \<Longrightarrow> holds_page f i q \<Longrightarrow>
   holds_page (put_page p f) i (if i = page_id p then stored p else q)"
  using holds_put_same holds_put_other by auto

lemma holds_page_unique: "holds_page f i p \<Longrightarrow> holds_page f i q \<Longrightarrow> p = q"
  by (simp add: holds_page_def)

lemma holds_page_wf: "holds_page f i p \<Longrightarrow> wf_page p"
  unfolding holds_page_def by (meson Decode_wf length_seg)

lemma pager_WritePage_ok:
  "faults (pfile pg) = [] \<Longrightarrow> pager_WritePage p pg = (Inr (), pg\<lparr>pfile := put_page p (pfile pg)\<rparr>)"
  by (simp add: pager_WritePage_def put_page_def)

lemma pager_ReadPage_holds:
  "holds_page (pfile pg) i p \<Longrightarrow> i < totalPages pg \<Longrightarrow> pager_ReadPage i pg = (Inr p, pg)"
  by (auto simp: pager_ReadPage_def holds_page_def ReadAt_def)

section \<open>The meta page\<close>

definition ids_bytes :: "u32 list \<Rightarrow> byte list" where
  "ids_bytes xs = concat (map le32 xs)"

lemma ids_bytes_simps [simp]:
  "ids_bytes [] = []" "ids_bytes (x # xs) = le32 x @ ids_bytes xs"
  by (simp_all add: ids_bytes_def)

lemma length_ids_bytes [simp]: "length (ids_bytes xs) = 4 * length xs"
  by (induction xs) auto

lemma put_put_adjacent:
  "n = off + length xs \<Longrightarrow> off + length xs + length ys \<le> length d \<Longrightarrow>
   put n ys (put off xs d) = put off (xs @ ys) d"
  by (auto simp: put_def ac_simps min_def)

lemma put_ids_ok:
  "off + 4 * length xs \<le> length d \<Longrightarrow> put_ids off xs d = Some (put off (ids_bytes xs) d)"
proof (induction xs arbitrary: off d)
  case Nil
  then show ?case by (simp add: put_def)
next
  case (Cons x xs)
  then show ?case by (simp add: put_put_adjacent)
qed

lemma get_ids_ok:
  "off + 4 * length xs \<le> length d \<Longrightarrow> seg off (4 * length xs) d = ids_bytes xs \<Longrightarrow>
   get_ids off (length xs) d = Some xs"
proof (induction xs arbitrary: off)
  case Nil
  then show ?case by simp
next
  case (Cons x xs)
  let ?n = "4 * length xs"
  have split: "seg off (4 + ?n) d = le32 x @ ids_bytes xs" using Cons.prems(2) by simp
  then have "take 4 (seg off (4 + ?n) d) = le32 x" and "drop 4 (seg off (4 + ?n) d) = ids_bytes xs"
    by simp_all
  moreover have "take 4 (seg off (4 + ?n) d) = seg off 4 d"
    by (simp add: seg_def min_def)
  moreover have "drop 4 (seg off (4 + ?n) d) = seg (off + 4) ?n d"
    by (simp add: seg_def drop_take add.commute)
  ultimately have x: "seg off 4 d = le32 x" and rest: "seg (off + 4) ?n d = ids_bytes xs"
    by simp_all
  then show ?case using Cons.IH [of "off + 4"] Cons.prems(1) by simp
qed

text \<open>The meta page for a page count and a free list.\<close>

definition meta_data :: "u32 \<Rightarrow> u32 list \<Rightarrow> byte list" where
  "meta_data tp fl =
     put 8 (ids_bytes fl)
       (put 4 (le32 (of_nat (length fl))) (put 0 (le32 tp) (replicate DataSize 0)))"

definition meta_page :: "u32 \<Rightarrow> u32 list \<Rightarrow> Page" where
  "meta_page tp fl = (NewPage metaPageID PageTypeMeta)\<lparr>Data := meta_data tp fl\<rparr>"

lemma maxFreeListEntries_val: "maxFreeListEntries = 1016"
  by (simp add: maxFreeListEntries_def page_consts)

lemma meta_page_simps [simp]:
  "Data (meta_page tp fl) = meta_data tp fl" "page_id (meta_page tp fl) = 0"
  by (simp_all add: meta_page_def NewPage_def metaPageID_def)

lemma length_meta_data [simp]:
  "length fl \<le> maxFreeListEntries \<Longrightarrow> length (meta_data tp fl) = DataSize"
  by (simp add: meta_data_def page_consts maxFreeListEntries_val)

lemma wf_meta_page [simp]: "length fl \<le> maxFreeListEntries \<Longrightarrow> wf_page (meta_page tp fl)"
  by (simp add: wf_page_def)

lemma flushMeta_writes:
  "length (freeList pg) \<le> maxFreeListEntries \<Longrightarrow>
   pager_flushMeta pg = pager_WritePage (meta_page (totalPages pg) (freeList pg)) pg"
  by (simp add: pager_flushMeta_def put_ids_ok meta_page_def meta_data_def
      maxFreeListEntries_val page_consts)

lemma flushMeta_ok:
  "faults (pfile pg) = [] \<Longrightarrow> length (freeList pg) \<le> maxFreeListEntries \<Longrightarrow>
   pager_flushMeta pg =
     (Inr (), pg\<lparr>pfile := put_page (meta_page (totalPages pg) (freeList pg)) (pfile pg)\<rparr>)"
  by (simp add: flushMeta_writes pager_WritePage_ok)

lemma loadMeta_holds:
  assumes "holds_page (pfile pg) 0 p" and "Data p = meta_data tp fl"
    and "length fl \<le> maxFreeListEntries"
  shows "pager_loadMeta pg = (Inr (), pg\<lparr>totalPages := tp, freeList := fl\<rparr>)"
proof -
  have len: "unat (of_nat (length fl) :: u32) = length fl"
    using assms(3) by (simp add: unat_of_nat maxFreeListEntries_val)
  have d: "length (meta_data tp fl) = DataSize" using assms(3) by simp
  have "seg 0 4 (meta_data tp fl) = le32 tp"
       "seg 4 4 (meta_data tp fl) = le32 (of_nat (length fl))"
       "seg 8 (4 * length fl) (meta_data tp fl) = ids_bytes fl"
    using assms(3) by (simp_all add: meta_data_def page_consts maxFreeListEntries_val)
  moreover have "get_ids 8 (length fl) (meta_data tp fl) = Some fl"
    using calculation(3) d assms(3)
    by (intro get_ids_ok) (simp_all add: page_consts maxFreeListEntries_val)
  ultimately show ?thesis
    using assms(1,2)
    by (simp add: pager_loadMeta_def holds_page_def ReadAt_def page_offset_def len)
qed

section \<open>The invariant\<close>

definition pager_inv :: "Pager \<Rightarrow> bool" where
  "pager_inv pg \<longleftrightarrow>
     faults (pfile pg) = [] \<and> 0 < totalPages pg \<and>
     distinct (freeList pg) \<and> length (freeList pg) \<le> maxFreeListEntries \<and>
     (\<forall>i\<in>set (freeList pg). 0 < i \<and> i < totalPages pg) \<and>
     (\<forall>i<totalPages pg. \<exists>p. holds_page (pfile pg) i p \<and> page_id p = i) \<and>
     holds_page (pfile pg) 0 (stored (meta_page (totalPages pg) (freeList pg)))"

definition pager_live :: "Pager \<Rightarrow> u32 set" where
  "pager_live pg = {i. 0 < i \<and> i < totalPages pg} - set (freeList pg)"

definition pager_page :: "Pager \<Rightarrow> u32 \<Rightarrow> Page option" where
  "pager_page pg i = (case pager_ReadPage i pg of (Inr p, _) \<Rightarrow> Some p | _ \<Rightarrow> None)"

definition pager_view :: "Pager \<Rightarrow> u32 \<Rightarrow> byte list" where
  "pager_view pg i = (case pager_page pg i of Some p \<Rightarrow> Data p | None \<Rightarrow> [])"

definition pager_room :: "Pager \<Rightarrow> nat" where
  "pager_room pg = length (freeList pg) + (2 ^ 32 - 1 - unat (totalPages pg))"

lemma pager_page_holds:
  "holds_page (pfile pg) i p \<Longrightarrow> i < totalPages pg \<Longrightarrow> pager_page pg i = Some p"
  by (simp add: pager_page_def pager_ReadPage_holds)

lemma pager_view_holds:
  "holds_page (pfile pg) i p \<Longrightarrow> i < totalPages pg \<Longrightarrow> pager_view pg i = Data p"
  by (simp add: pager_view_def pager_page_holds)

lemma pager_inv_page:
  assumes "pager_inv pg" and "i < totalPages pg"
  obtains p where "holds_page (pfile pg) i p" "page_id p = i"
  using assms by (auto simp: pager_inv_def)

text \<open>One page written, then the meta page for a page count and a free list that are
  consistent: the common shape of \<open>AllocatePage\<close> and \<open>FreePage\<close>.\<close>

lemma pager_inv_write_meta:
  assumes "pager_inv pg" and "wf_page p" and "0 < page_id p"
    and "page_id p < tp" and "totalPages pg \<le> tp" and "\<And>i. totalPages pg \<le> i \<Longrightarrow> i < tp \<Longrightarrow> i = page_id p"
    and "distinct fl" and "length fl \<le> maxFreeListEntries" and "\<forall>i\<in>set fl. 0 < i \<and> i < tp"
  defines "q \<equiv> pg\<lparr>pfile := put_page (meta_page tp fl) (put_page p (pfile pg)),
                    totalPages := tp, freeList := fl\<rparr>"
  shows "pager_inv q"
    and "pager_page q (page_id p) = Some (stored p)"
    and "\<And>i. 0 < i \<Longrightarrow> i \<noteq> page_id p \<Longrightarrow> i < totalPages pg \<Longrightarrow> pager_page q i = pager_page pg i"
proof -
  let ?f = "put_page (meta_page tp fl) (put_page p (pfile pg))"
  have wm: "wf_page (meta_page tp fl)" using assms(8) by simp
  have held: "holds_page ?f (page_id p) (stored p)"
    using assms(2,3) wm by (intro holds_put_other holds_put_same) auto
  have other: "holds_page ?f i r" if "holds_page (pfile pg) i r" "i \<noteq> 0" "i \<noteq> page_id p" for i r
    using that assms(2) wm by (intro holds_put_other) auto
  have meta: "holds_page ?f 0 (stored (meta_page tp fl))"
    using holds_put_same [OF wm] by simp
  have all: "\<exists>r. holds_page ?f i r \<and> page_id r = i" if "i < tp" for i
  proof (cases "i = 0 \<or> i = page_id p")
    case True
    then show ?thesis using held meta by auto
  next
    case False
    then have "i < totalPages pg" using assms(6) that not_less by blast
    then obtain r where "holds_page (pfile pg) i r" "page_id r = i"
      by (rule pager_inv_page [OF assms(1)])
    then show ?thesis using other False by blast
  qed
  have "0 < tp" using assms(3,4) by (rule less_trans)
  then show "pager_inv q"
    using assms(1,7-9) all meta unfolding q_def pager_inv_def by auto
  show "pager_page q (page_id p) = Some (stored p)"
    using held assms(4) by (simp add: q_def pager_page_holds)
  show "pager_page q i = pager_page pg i"
    if i: "0 < i" "i \<noteq> page_id p" "i < totalPages pg" for i
  proof -
    obtain r where r: "holds_page (pfile pg) i r" using pager_inv_page [OF assms(1) i(3)] by blast
    then have "pager_page pg i = Some r" using i(3) by (rule pager_page_holds)
    moreover have "pager_page q i = Some r"
      using other [OF r] i assms(5) by (simp add: q_def pager_page_holds)
    ultimately show ?thesis by simp
  qed
qed

text \<open>A data page written in place.\<close>

lemma pager_write_in_place:
  assumes "pager_inv pg" and "wf_page p" and "0 < page_id p" and "page_id p < totalPages pg"
  defines "q \<equiv> pg\<lparr>pfile := put_page p (pfile pg)\<rparr>"
  shows "pager_WritePage p pg = (Inr (), q)"
    and "pager_inv q"
    and "i < totalPages pg \<Longrightarrow> pager_page q i = (if i = page_id p then Some (stored p) else pager_page pg i)"
proof -
  have f: "faults (pfile pg) = []" using assms(1) by (simp add: pager_inv_def)
  then show "pager_WritePage p pg = (Inr (), q)" by (simp add: q_def pager_WritePage_ok)
  have all: "\<exists>r. holds_page (put_page p (pfile pg)) i r \<and> page_id r = i" if i: "i < totalPages pg" for i
  proof -
    obtain r where "holds_page (pfile pg) i r" "page_id r = i" by (rule pager_inv_page [OF assms(1) i])
    then show ?thesis using holds_put_iff [OF assms(2)] by (metis stored_simps(2))
  qed
  then show "pager_inv q"
    using assms(1,3) holds_put_other [OF assms(2)] unfolding q_def pager_inv_def by auto
  assume i: "i < totalPages pg"
  obtain r where r: "holds_page (pfile pg) i r" using pager_inv_page [OF assms(1) i] by blast
  have "pager_page q i = Some (if i = page_id p then stored p else r)"
    using holds_put_iff [OF assms(2) r] i unfolding q_def by (intro pager_page_holds) auto
  then show "pager_page q i = (if i = page_id p then Some (stored p) else pager_page pg i)"
    using r i by (simp add: pager_page_holds)
qed

section \<open>Allocation and freeing\<close>

lemma AllocatePage_reuse:
  assumes "faults (pfile pg) = []" and "length (freeList pg) \<le> maxFreeListEntries"
    and "freeList pg = fl @ [i]"
  shows "pager_AllocatePage pg =
     (Inr i, pg\<lparr>pfile := put_page (meta_page (totalPages pg) fl)
                         (put_page (NewPage i PageTypeData) (pfile pg)),
               totalPages := totalPages pg, freeList := fl\<rparr>)"
  using assms by (simp add: pager_AllocatePage_def bindG_def pager_WritePage_ok flushMeta_ok)

lemma AllocatePage_grow:
  assumes "faults (pfile pg) = []" and "freeList pg = []"
  shows "pager_AllocatePage pg =
     (Inr (totalPages pg),
      pg\<lparr>pfile := put_page (meta_page (totalPages pg + 1) [])
                   (put_page (NewPage (totalPages pg) PageTypeData) (pfile pg)),
         totalPages := totalPages pg + 1, freeList := []\<rparr>)"
  using assms by (cases pg) (simp add: Let_def pager_AllocatePage_def bindG_def pager_WritePage_ok flushMeta_ok)

lemma u32_succ:
  assumes "unat (t :: u32) < 2 ^ 32 - 1"
  shows "t < t + 1" and "unat (t + 1) = Suc (unat t)" and "\<And>i. t \<le> i \<Longrightarrow> i < t + 1 \<Longrightarrow> i = t"
proof -
  have "unat t + unat (1::u32) < 2 ^ LENGTH(32)" using assms by simp
  then show s: "unat (t + 1) = Suc (unat t)"
    using unat_add_lem [of t 1] by simp
  show "t < t + 1" by (simp add: word_less_nat_alt s)
  show "i = t" if "t \<le> i" "i < t + 1" for i
    using that by (intro word_unat_eq_iff [THEN iffD2]) (simp add: word_less_nat_alt word_le_nat_alt s)
qed

lemma pager_alloc:
  assumes "pager_inv pg" and "0 < pager_room pg"
  obtains i q where "pager_AllocatePage pg = (Inr i, q)" "0 < i" "i \<notin> pager_live pg"
    "pager_inv q" "pager_live q = insert i (pager_live pg)"
    "pager_page q i = Some (stored (NewPage i PageTypeData))"
    "\<And>j. j \<in> pager_live pg \<Longrightarrow> pager_page q j = pager_page pg j"
    "pager_room pg = Suc (pager_room q)"
proof (cases "freeList pg" rule: rev_cases)
  case Nil
  let ?t = "totalPages pg"
  have t: "unat ?t < 2 ^ 32 - 1" "0 < ?t" "faults (pfile pg) = []"
    using assms Nil by (simp_all add: pager_room_def pager_inv_def)
  note suc = u32_succ [OF t(1)]
  define q where "q = pg\<lparr>pfile := put_page (meta_page (?t + 1) [])
       (put_page (NewPage ?t PageTypeData) (pfile pg)), totalPages := ?t + 1, freeList := []\<rparr>"
  note w = pager_inv_write_meta [of pg "NewPage ?t PageTypeData" "?t + 1" "[]",
      unfolded NewPage_simps, folded q_def]
  have le: "i < ?t + 1 \<longleftrightarrow> i \<le> ?t" for i
    by (simp add: word_less_nat_alt word_le_nat_alt suc(2) less_Suc_eq_le)
  show ?thesis
  proof (rule that [of ?t q])
    show "pager_AllocatePage pg = (Inr ?t, q)"
      using AllocatePage_grow [OF t(3) Nil] by (simp add: q_def)
    show "pager_inv q" "pager_page q ?t = Some (stored (NewPage ?t PageTypeData))"
      using assms(1) t suc by (auto intro!: w(1,2))
    show "pager_page q j = pager_page pg j" if "j \<in> pager_live pg" for j
      using assms(1) t suc that by (intro w(3)) (auto simp: pager_live_def)
    show "pager_live q = insert ?t (pager_live pg)"
      using Nil t(2) by (auto simp: q_def pager_live_def le)
    show "pager_room pg = Suc (pager_room q)"
      using Nil t(1) suc(2) by (simp add: pager_room_def q_def)
  qed (use t in \<open>auto simp: pager_live_def\<close>)
next
  case (snoc fl i)
  have i: "0 < i" "i < totalPages pg" and fl: "distinct fl" "i \<notin> set fl"
      "length (freeList pg) \<le> maxFreeListEntries" "faults (pfile pg) = []"
      "\<forall>j\<in>set fl. 0 < j \<and> j < totalPages pg"
    using assms(1) snoc by (auto simp: pager_inv_def)
  define q where "q = pg\<lparr>pfile := put_page (meta_page (totalPages pg) fl)
       (put_page (NewPage i PageTypeData) (pfile pg)), totalPages := totalPages pg, freeList := fl\<rparr>"
  note w = pager_inv_write_meta [of pg "NewPage i PageTypeData" "totalPages pg" fl,
      unfolded NewPage_simps, folded q_def]
  have len: "length fl \<le> maxFreeListEntries" using fl(3) snoc by simp
  show ?thesis
  proof (rule that [of i q])
    show "pager_AllocatePage pg = (Inr i, q)"
      unfolding q_def by (rule AllocatePage_reuse [OF fl(4,3) snoc])
    show "pager_inv q" "pager_page q i = Some (stored (NewPage i PageTypeData))"
      using assms(1) i fl len by (auto intro!: w(1,2))
    show "pager_page q j = pager_page pg j" if "j \<in> pager_live pg" for j
      using assms(1) i fl len that snoc by (intro w(3)) (auto simp: pager_live_def)
  qed (use i fl(2) snoc in \<open>auto simp: pager_live_def pager_room_def q_def\<close>)
qed

lemma FreePage_ok:
  assumes "faults (pfile pg) = []" and "i \<noteq> metaPageID" and "i < totalPages pg"
    and "length (freeList pg) < maxFreeListEntries"
  shows "pager_FreePage i pg =
     (Inr (), pg\<lparr>pfile := put_page (meta_page (totalPages pg) (freeList pg @ [i]))
                         (put_page (NewPage i PageTypeFree) (pfile pg)),
               totalPages := totalPages pg, freeList := freeList pg @ [i]\<rparr>)"
  using assms by (simp add: pager_FreePage_def bindG_def pager_WritePage_ok flushMeta_ok)

lemma pager_free:
  assumes "pager_inv pg" and "i \<in> pager_live pg" and "length (freeList pg) < maxFreeListEntries"
  obtains q where "pager_FreePage i pg = (Inr (), q)" "pager_inv q"
    "pager_live q = pager_live pg - {i}" "freeList q = freeList pg @ [i]"
    "totalPages q = totalPages pg"
    "pager_page q i = Some (stored (NewPage i PageTypeFree))"
    "\<And>j. j \<in> pager_live pg - {i} \<Longrightarrow> pager_page q j = pager_page pg j"
proof -
  have i: "0 < i" "i < totalPages pg" "i \<notin> set (freeList pg)"
    and fl: "distinct (freeList pg)" "faults (pfile pg) = []"
      "\<forall>j\<in>set (freeList pg). 0 < j \<and> j < totalPages pg"
    using assms by (auto simp: pager_live_def pager_inv_def)
  define q where "q = pg\<lparr>pfile := put_page (meta_page (totalPages pg) (freeList pg @ [i]))
       (put_page (NewPage i PageTypeFree) (pfile pg)),
       totalPages := totalPages pg, freeList := freeList pg @ [i]\<rparr>"
  note w = pager_inv_write_meta [of pg "NewPage i PageTypeFree" "totalPages pg" "freeList pg @ [i]",
      unfolded NewPage_simps, folded q_def]
  show ?thesis
  proof (rule that [of q])
    show "pager_FreePage i pg = (Inr (), q)"
      unfolding q_def using i fl assms(3) by (intro FreePage_ok) (auto simp: metaPageID_def)
    show "pager_inv q" "pager_page q i = Some (stored (NewPage i PageTypeFree))"
      using assms i fl by (auto intro!: w(1,2))
    show "pager_page q j = pager_page pg j" if "j \<in> pager_live pg - {i}" for j
      using assms i fl that by (intro w(3)) (auto simp: pager_live_def)
  qed (auto simp: q_def pager_live_def)
qed

lemma pager_free_full:
  "i \<in> pager_live pg \<Longrightarrow> \<not> length (freeList pg) < maxFreeListEntries \<Longrightarrow>
   pager_FreePage i pg = (Inl FreeListFull, pg)"
  by (auto simp: pager_FreePage_def pager_live_def metaPageID_def)

lemma pager_live_page:
  assumes "pager_inv pg" and "i \<in> pager_live pg"
  obtains p where "pager_ReadPage i pg = (Inr p, pg)" "page_id p = i" "Data p = pager_view pg i"
    "wf_page p"
proof -
  have i: "i < totalPages pg" using assms(2) by (simp add: pager_live_def)
  obtain p where "holds_page (pfile pg) i p" "page_id p = i" by (rule pager_inv_page [OF assms(1) i])
  then show ?thesis
    using that i by (simp add: pager_ReadPage_holds pager_view_holds holds_page_wf)
qed

interpretation pager: full_store pager_store pager_inv pager_live pager_view pager_room
proof (unfold_locales, goal_cases)
  case (1 s)
  then show ?case by (simp add: pager_live_def)
next
  case (2 s i)
  then show ?case by (metis pager_live_page wf_page_def)
next
  case (3 s i)
  then obtain p where "pager_ReadPage i s = (Inr p, s)" "page_id p = i" "Data p = pager_view s i"
    by (rule pager_live_page)
  with 3 show ?case by auto
next
  case (4 s p)
  then have p: "0 < page_id p" "page_id p < totalPages s" by (auto simp: pager_live_def)
  note w = pager_write_in_place [OF 4(1,2) p]
  show ?case
    using w by (auto simp: pager_live_def pager_room_def pager_view_def)
next
  case (5 s)
  then obtain i q where "pager_AllocatePage s = (Inr i, q)" "i \<notin> pager_live s" "pager_inv q"
      "pager_live q = insert i (pager_live s)" "pager_room s = Suc (pager_room q)"
      "\<And>j. j \<in> pager_live s \<Longrightarrow> pager_page q j = pager_page s j"
    by (rule pager_alloc) auto
  then show ?case by (auto simp: pager_view_def)
next
  case (6 s i r s')
  show ?case
  proof (cases "length (freeList s) < maxFreeListEntries")
    case True
    obtain q where "pager_FreePage i s = (Inr (), q)" "pager_inv q"
        "pager_live q = pager_live s - {i}" "freeList q = freeList s @ [i]"
        "totalPages q = totalPages s" "\<And>j. j \<in> pager_live s - {i} \<Longrightarrow> pager_page q j = pager_page s j"
      by (rule pager_free [OF 6(1,2) True]) auto
    with 6(3) show ?thesis by (auto simp: pager_view_def pager_room_def)
  next
    case False
    with 6 show ?thesis by (auto simp: pager_free_full)
  qed
qed

section \<open>Sessions\<close>

lemma pager_inv_nonempty: "pager_inv pg \<Longrightarrow> contents (pfile pg) \<noteq> []"
  by (auto simp: pager_inv_def holds_page_def page_consts)

lemma pager_Open_inv: "pager_inv pg \<Longrightarrow> pager_Open (pfile pg) = (Inr (), pg)"
  using loadMeta_holds [of "\<lparr>pfile = pfile pg, totalPages = 0, freeList = []\<rparr>"
      "stored (meta_page (totalPages pg) (freeList pg))" "totalPages pg" "freeList pg"]
  by (simp add: pager_Open_def pager_inv_nonempty) (simp add: pager_inv_def)

text \<open>The pager of a new file.\<close>

definition fresh_pager :: Pager where
  "fresh_pager = \<lparr>pfile = put_page (meta_page 1 []) empty_file, totalPages = 1, freeList = []\<rparr>"

lemma pager_Open_empty: "pager_Open empty_file = (Inr (), fresh_pager)"
  by (simp add: pager_Open_def empty_file_def pager_bootstrapMeta_def flushMeta_ok fresh_pager_def)

lemma fresh_pager_simps [simp]:
  "totalPages fresh_pager = 1" "freeList fresh_pager = []" "faults (pfile fresh_pager) = []"
  by (simp_all add: fresh_pager_def empty_file_def)

lemma pager_room_fresh [simp]: "pager_room fresh_pager = 2 ^ 32 - 2"
  by (simp add: pager_room_def)

lemma pager_inv_fresh [simp]: "pager_inv fresh_pager"
proof -
  have "holds_page (put_page (meta_page 1 []) empty_file) 0 (stored (meta_page 1 []))"
    using holds_put_same [of "meta_page 1 []" empty_file] by simp
  moreover have "i = 0" if "i < (1 :: u32)" for i
    using that by (simp add: word_less_nat_alt unat_eq_zero)
  ultimately show ?thesis
    unfolding pager_inv_def fresh_pager_def by (auto simp: empty_file_def intro!: exI [of _ "stored (meta_page 1 [])"])
qed

text \<open>The steps of a session: the four operations as a client uses them (only live
  pages are written or freed), and a restart, which closes the file and opens it
  again.\<close>

inductive pager_step :: "Pager \<Rightarrow> Pager \<Rightarrow> bool" where
  step_read: "pager_ReadPage i pg = (r, q) \<Longrightarrow> pager_step pg q"
| step_write: "wf_page p \<Longrightarrow> page_id p \<in> pager_live pg \<Longrightarrow> pager_WritePage p pg = (r, q) \<Longrightarrow>
     pager_step pg q"
| step_alloc: "0 < pager_room pg \<Longrightarrow> pager_AllocatePage pg = (r, q) \<Longrightarrow> pager_step pg q"
| step_free: "i \<in> pager_live pg \<Longrightarrow> pager_FreePage i pg = (r, q) \<Longrightarrow> pager_step pg q"
| step_restart: "pager_Close pg = (r, q) \<Longrightarrow> pager_Open (pfile q) = (r', q') \<Longrightarrow> pager_step pg q'"

inductive pager_reachable :: "Pager \<Rightarrow> bool" where
  start: "pager_Open empty_file = (Inr (), pg) \<Longrightarrow> pager_reachable pg"
| step: "pager_reachable pg \<Longrightarrow> pager_step pg q \<Longrightarrow> pager_reachable q"

lemma pager_Close_inv:
  assumes "pager_inv pg" and "pager_Close pg = (r, q)"
  shows "pager_inv q"
proof -
  let ?m = "meta_page (totalPages pg) (freeList pg)"
  have f: "faults (pfile pg) = []" "length (freeList pg) \<le> maxFreeListEntries" "wf_page ?m"
    using assms(1) by (simp_all add: pager_inv_def)
  have q: "q = pg\<lparr>pfile := put_page ?m (pfile pg)\<rparr>"
    using assms(2) f by (simp add: pager_Close_def flushMeta_ok)
  have "\<exists>r. holds_page (put_page ?m (pfile pg)) i r \<and> page_id r = i" if "i < totalPages pg" for i
  proof -
    obtain r where "holds_page (pfile pg) i r" "page_id r = i"
      by (rule pager_inv_page [OF assms(1) \<open>i < totalPages pg\<close>])
    then show ?thesis
      using holds_put_iff [OF f(3)] by (cases "i = page_id ?m") fastforce+
  qed
  moreover have "holds_page (put_page ?m (pfile pg)) 0 (stored ?m)"
    using holds_put_same [OF f(3)] by simp
  ultimately show ?thesis using assms(1) by (simp add: q pager_inv_def)
qed

lemma pager_step_inv: "pager_step pg q \<Longrightarrow> pager_inv pg \<Longrightarrow> pager_inv q"
proof (induction rule: pager_step.induct)
  case (step_read i pg r q)
  then show ?case by (auto simp: pager_ReadPage_def split: if_splits sum.splits)
next
  case (step_write p pg r q)
  then show ?case using pager.write_live [of pg p] by auto
next
  case (step_alloc pg r q)
  then show ?case using pager.alloc_room [of pg] by auto
next
  case (step_free i pg r q)
  then show ?case using pager.free_live [of pg i r q] by simp
next
  case (step_restart pg r q r' q')
  then show ?case using pager_Close_inv [of pg r q] pager_Open_inv [of q] by simp
qed

lemma pager_reachable_inv: "pager_reachable pg \<Longrightarrow> pager_inv pg"
  by (induction rule: pager_reachable.induct)
    (auto simp: pager_Open_empty pager_inv_fresh dest: pager_step_inv)

section \<open>Properties of the pager\<close>



text \<open>C37: \<open>AllocatePage\<close> hands out a page that is not in use (never the meta page), zeroed on disk,
  and changes no other page in use; it succeeds whenever the free list has an entry or the page
  counter can still grow.\<close>

lemma AllocatePage_fresh:
  assumes "pager_inv pg" and "freeList pg \<noteq> [] \<or> unat (totalPages pg) < 2 ^ 32 - 1"
  shows "\<exists>i q. pager_AllocatePage pg = (Inr i, q) \<and> i \<noteq> metaPageID \<and> i \<notin> pager_live pg
     \<and> pager_live q = insert i (pager_live pg) \<and> pager_inv q
     \<and> (\<exists>p. pager_ReadPage i q = (Inr p, q) \<and> Data p = replicate DataSize 0)
     \<and> (\<forall>j\<in>pager_live pg. fst (pager_ReadPage j q) = fst (pager_ReadPage j pg))"
proof -
  have room: "0 < pager_room pg" using assms(2) by (auto simp: pager_room_def)
  obtain i q where q: "pager_AllocatePage pg = (Inr i, q)" "0 < i" "i \<notin> pager_live pg"
    "pager_inv q" "pager_live q = insert i (pager_live pg)"
    "pager_page q i = Some (stored (NewPage i PageTypeData))"
    "\<And>j. j \<in> pager_live pg \<Longrightarrow> pager_page q j = pager_page pg j"
    using pager_alloc [OF assms(1) room] by metis
  have "\<exists>p. pager_ReadPage i q = (Inr p, q) \<and> Data p = replicate DataSize 0"
    using pager_live_page [OF q(4), of i] q(5,6) by (force simp: pager_view_def)
  moreover have "fst (pager_ReadPage j q) = fst (pager_ReadPage j pg)" if j: "j \<in> pager_live pg" for j
  proof -
    obtain p where p: "pager_ReadPage j pg = (Inr p, pg)"
      using pager_live_page [OF assms(1) j] by blast
    obtain r where r: "pager_ReadPage j q = (Inr r, q)"
      using pager_live_page [OF q(4), of j] q(5) j by blast
    show ?thesis using q(7) [OF j] p r by (simp add: pager_page_def)
  qed
  ultimately show ?thesis using q by (auto simp: metaPageID_def)
qed

text \<open>A page freed twice is handed out twice: \<open>FreePage\<close> does not look for the page in the
  free list, so after two frees of the same page two allocations return the same number.\<close>

lemma double_free_double_alloc:
  assumes "pager_inv pg" and "i \<in> pager_live pg" and "length (freeList pg) + 2 \<le> maxFreeListEntries"
  shows "\<exists>q1 q2 q3 q4. pager_FreePage i pg = (Inr (), q1) \<and> pager_FreePage i q1 = (Inr (), q2)
     \<and> pager_AllocatePage q2 = (Inr i, q3) \<and> pager_AllocatePage q3 = (Inr i, q4)"
proof -
  obtain q1 where q1: "pager_FreePage i pg = (Inr (), q1)" "pager_inv q1"
      "freeList q1 = freeList pg @ [i]" "totalPages q1 = totalPages pg"
    using pager_free [OF assms(1,2)] assms(3) by (metis add_2_eq_Suc' less_eq_Suc_le Suc_leD)
  have i: "i \<noteq> 0" "i < totalPages pg" and f: "faults (pfile q1) = []"
    using assms(2) q1(2) by (auto simp: pager_live_def pager_inv_def)
  obtain q2 where q2: "pager_FreePage i q1 = (Inr (), q2)" "freeList q2 = (freeList pg @ [i]) @ [i]"
      "faults (pfile q2) = []"
    using FreePage_ok [OF f, of i] i f assms(3) q1(3,4) by (simp add: metaPageID_def)
  obtain q3 where q3: "pager_AllocatePage q2 = (Inr i, q3)" "freeList q3 = freeList pg @ [i]"
      "faults (pfile q3) = []"
    using AllocatePage_reuse [OF q2(3) _ q2(2)] q2 assms(3) by simp
  obtain q4 where "pager_AllocatePage q3 = (Inr i, q4)"
    using AllocatePage_reuse [OF q3(3) _ q3(2)] q3 assms(3) by simp
  with q1 q2 q3 show ?thesis by blast
qed

text \<open>the error paths of \<open>AllocatePage\<close>: when the write of the new page fails, growing the file
  leaves page count and free list as they were, but recycling has already popped the free list, so
  the recycled page is lost.\<close>

lemma AllocatePage_write_fault:
  assumes "faults (pfile pg) = Some k # fs"
  shows "case pager_AllocatePage pg of (r, q) \<Rightarrow>
     r = Inl WriteFault \<and> totalPages q = totalPages pg \<and> freeList q = butlast (freeList pg)"
  using assms by (auto simp: pager_AllocatePage_def Let_def bindG_def pager_WritePage_def WriteAt_def)

end
