(* ===== verification/Wal.thy ===== *)
theory Wal
  imports Pager
begin

text \<open>
  \<open>src/wal/wal.go\<close>: the write-ahead log. The records and their codec, the scan of an
  existing log, the append operations with their torn writes, and redo recovery into a
  directory of page files. The log file, its record count and the two counters are the
  state; the mutex makes each method one step. Record numbers are multiplied by the
  record size in natural numbers: a log whose byte offsets leave 63 bits is excluded.

  Go iterates over maps in an unspecified order. \<open>wal_Recover\<close> takes the orders in
  which it enumerates its three maps as arguments; the theorems hold for all of them.
\<close>

definition tableNameSize :: nat where "tableNameSize = 32"
definition RecordSize :: nat where "RecordSize = 8 + 4 + 1 + tableNameSize + 4 + PageSize + 4"

lemmas wal_consts = tableNameSize_def RecordSize_def

definition RecordBegin :: byte where "RecordBegin = 1"
definition RecordWrite :: byte where "RecordWrite = 2"
definition RecordCommit :: byte where "RecordCommit = 3"
definition RecordRollback :: byte where "RecordRollback = 4"

lemmas record_types = RecordBegin_def RecordWrite_def RecordCommit_def RecordRollback_def

record WalRecord =
  RLSN :: u64
  RXID :: u32
  RType :: byte
  TableName :: string
  RPageID :: u32
  PageData :: "byte list"

record WAL =
  wfile :: go_file
  wrecords :: u64
  nextLSN :: u64
  nextXID :: u32

section \<open>The record codec\<close>

definition encodeRecord :: "WalRecord \<Rightarrow> byte list" where
  "encodeRecord r =
     (let buf = replicate RecordSize 0;
          buf = put 0 (le64 (RLSN r)) buf;
          buf = put 8 (le32 (RXID r)) buf;
          buf = put 12 [RType r] buf;
          name = string_bytes (TableName r);
          name = (if length name > tableNameSize then take tableNameSize name else name);
          buf = put 13 name buf;
          buf = put 45 (le32 (RPageID r)) buf;
          buf = put 49 (PageData r) buf;
          crc = ChecksumIEEE (seg 0 (RecordSize - 4) buf)
      in put (RecordSize - 4) (le32 crc) buf)"

definition decodeRecord :: "byte list \<Rightarrow> go_error + WalRecord" where
  "decodeRecord buf =
     (let stored = from_le (seg (RecordSize - 4) 4 buf) :: u32;
          got = ChecksumIEEE (seg 0 (RecordSize - 4) buf)
      in if stored \<noteq> got then Inl WalCrcMismatch
         else Inr \<lparr>RLSN = from_le (seg 0 8 buf), RXID = from_le (seg 8 4 buf), RType = buf ! 12,
                   TableName = bytes_string (trim_nul (seg 13 tableNameSize buf)),
                   RPageID = from_le (seg 45 4 buf), PageData = seg 49 PageSize buf\<rparr>)"

definition readRecordAt :: "nat \<Rightarrow> go_file \<Rightarrow> go_error + WalRecord" where
  "readRecordAt index f =
     (case ReadAt RecordSize (index * RecordSize) f of
        Inl e \<Rightarrow> Inl e
      | Inr buf \<Rightarrow> decodeRecord buf)"

section \<open>Opening and appending\<close>

text \<open>The loop of \<open>scanInit\<close>: \<open>n\<close> records are left, the next has number \<open>i\<close>.\<close>

fun scan_records :: "nat \<Rightarrow> nat \<Rightarrow> WAL \<Rightarrow> WAL" where
  "scan_records 0 i w = w"
| "scan_records (Suc n) i w =
     (case readRecordAt i (wfile w) of
        Inl e \<Rightarrow> w
      | Inr r \<Rightarrow>
          let w = w\<lparr>wrecords := wrecords w + 1\<rparr>;
              w = (if RLSN r \<ge> nextLSN w then w\<lparr>nextLSN := RLSN r + 1\<rparr> else w);
              w = (if RXID r \<ge> nextXID w then w\<lparr>nextXID := RXID r + 1\<rparr> else w)
          in scan_records n (i + 1) w)"

definition scanInit :: "WAL \<Rightarrow> WAL" where
  "scanInit w =
     scan_records (length (contents (wfile w)) div RecordSize) 0 (w\<lparr>wrecords := 0\<rparr>)"

definition wal_Open :: "go_file \<Rightarrow> WAL" where
  "wal_Open f = scanInit \<lparr>wfile = f, wrecords = 0, nextLSN = 1, nextXID = 1\<rparr>"

definition allocLSN :: "WAL \<Rightarrow> u64 \<times> WAL" where
  "allocLSN w = (nextLSN w, w\<lparr>nextLSN := nextLSN w + 1\<rparr>)"

definition appendLocked :: "WalRecord \<Rightarrow> (WAL, unit) go" where
  "appendLocked r w =
     (case WriteAt (encodeRecord r) (unat (wrecords w) * RecordSize) (wfile w) of
        (Inl e, f) \<Rightarrow> (Inl e, w\<lparr>wfile := f\<rparr>)
      | (Inr _, f) \<Rightarrow> (Inr (), w\<lparr>wfile := f, wrecords := wrecords w + 1\<rparr>))"

text \<open>A record without table name, page number and image.\<close>

definition mark_record :: "u64 \<Rightarrow> u32 \<Rightarrow> byte \<Rightarrow> WalRecord" where
  "mark_record lsn xid ty =
     \<lparr>RLSN = lsn, RXID = xid, RType = ty, TableName = [], RPageID = 0, PageData = replicate PageSize 0\<rparr>"

definition AllocXID :: "(WAL, u32) go" where
  "AllocXID w =
     (let xid = nextXID w;
          w = w\<lparr>nextXID := nextXID w + 1\<rparr>;
          (lsn, w) = allocLSN w
      in bindG (appendLocked (mark_record lsn xid RecordBegin)) (\<lambda>_. returnG xid) w)"

definition AppendWrite :: "u32 \<Rightarrow> string \<Rightarrow> u32 \<Rightarrow> byte list \<Rightarrow> (WAL, unit) go" where
  "AppendWrite xid tableName pageID dat w =
     (let (lsn, w) = allocLSN w
      in appendLocked \<lparr>RLSN = lsn, RXID = xid, RType = RecordWrite, TableName = tableName,
                       RPageID = pageID, PageData = dat\<rparr> w)"

definition AppendCommit :: "u32 \<Rightarrow> (WAL, unit) go" where
  "AppendCommit xid w =
     (let (lsn, w) = allocLSN w in appendLocked (mark_record lsn xid RecordCommit) w)"

definition AppendRollback :: "u32 \<Rightarrow> (WAL, unit) go" where
  "AppendRollback xid w =
     (let (lsn, w) = allocLSN w in appendLocked (mark_record lsn xid RecordRollback) w)"

definition RecordCount :: "WAL \<Rightarrow> u64" where
  "RecordCount w = wrecords w"

section \<open>Reading the log and recovery\<close>

fun read_records :: "nat \<Rightarrow> nat \<Rightarrow> go_file \<Rightarrow> go_error + WalRecord list" where
  "read_records 0 i f = Inr []"
| "read_records (Suc n) i f =
     (case readRecordAt i f of
        Inl e \<Rightarrow> Inl e
      | Inr r \<Rightarrow> (case read_records n (i + 1) f of Inl e \<Rightarrow> Inl e | Inr rs \<Rightarrow> Inr (r # rs)))"

definition readAllLocked :: "WAL \<Rightarrow> go_error + WalRecord list" where
  "readAllLocked w = read_records (unat (wrecords w)) 0 (wfile w)"

definition committed_xids :: "WalRecord list \<Rightarrow> u32 set" where
  "committed_xids rs = set (map RXID (filter (\<lambda>r. RType r = RecordCommit) rs))"

text \<open>\<open>enum\<close> is the order in which the runtime enumerates the map \<open>seen\<close>.\<close>

definition CommittedXIDs :: "(u32 set \<Rightarrow> u32 list) \<Rightarrow> WAL \<Rightarrow> go_error + u32 list" where
  "CommittedXIDs enum w =
     (case readAllLocked w of Inl e \<Rightarrow> Inl e | Inr rs \<Rightarrow> Inr (enum (committed_xids rs)))"

type_synonym latest_map = "string \<times> u32 \<rightharpoonup> byte list \<times> u64"

text \<open>Phase 2: the write with the highest LSN for each page; a missing entry has LSN 0.\<close>

definition latest_step :: "u32 set \<Rightarrow> latest_map \<Rightarrow> WalRecord \<Rightarrow> latest_map" where
  "latest_step committed latest r =
     (if RType r \<noteq> RecordWrite \<or> RXID r \<notin> committed then latest
      else
        let k = (TableName r, RPageID r);
            lsn = (case latest k of None \<Rightarrow> 0 | Some (d, l) \<Rightarrow> l)
        in if RLSN r > lsn then latest(k \<mapsto> (PageData r, RLSN r)) else latest)"

definition latest_writes :: "WalRecord list \<Rightarrow> latest_map" where
  "latest_writes rs = foldl (latest_step (committed_xids rs)) Map.empty rs"

text \<open>Phase 3: the grouping by table, over an enumeration of the keys.\<close>

definition group_step :: "latest_map \<Rightarrow> (string \<rightharpoonup> (u32 \<rightharpoonup> byte list)) \<Rightarrow> string \<times> u32 \<Rightarrow>
    (string \<rightharpoonup> (u32 \<rightharpoonup> byte list))" where
  "group_step latest by k =
     (let pages = (case by (fst k) of None \<Rightarrow> Map.empty | Some m \<Rightarrow> m)
      in by(fst k \<mapsto> pages(snd k \<mapsto> fst (the (latest k)))))"

definition by_table :: "latest_map \<Rightarrow> (string \<times> u32) list \<Rightarrow> (string \<rightharpoonup> (u32 \<rightharpoonup> byte list))" where
  "by_table latest ks = foldl (group_step latest) Map.empty ks"

text \<open>The loop over the pages of one table. An error closes the pager, ignoring the result.\<close>

fun replay_pages :: "(u32 \<rightharpoonup> byte list) \<Rightarrow> u32 list \<Rightarrow> (Pager, unit) go" where
  "replay_pages pages [] pg = pager_Close pg"
| "replay_pages pages (i # is') pg =
     (case Decode (the (pages i)) of
        Inl e \<Rightarrow> (Inl e, snd (pager_Close pg))
      | Inr page \<Rightarrow>
          (case pager_WritePage page pg of
             (Inl e, pg) \<Rightarrow> (Inl e, snd (pager_Close pg))
           | (Inr _, pg) \<Rightarrow> replay_pages pages is' pg))"

type_synonym dir = "string \<rightharpoonup> go_file"

fun replay_tables :: "(string \<rightharpoonup> (u32 \<rightharpoonup> byte list)) \<Rightarrow> (string \<Rightarrow> u32 list) \<Rightarrow> string list \<Rightarrow> (dir, unit) go" where
  "replay_tables by pord [] d = (Inr (), d)"
| "replay_tables by pord (t # ts) d =
     (case d t of
        None \<Rightarrow> replay_tables by pord ts d
      | Some f \<Rightarrow>
          (case pager_Open f of
             (Inl e, pg) \<Rightarrow> (Inl e, d(t \<mapsto> pfile pg))
           | (Inr _, pg) \<Rightarrow>
               (case replay_pages (the (by t)) (pord t) pg of
                  (Inl e, pg) \<Rightarrow> (Inl e, d(t \<mapsto> pfile pg))
                | (Inr _, pg) \<Rightarrow> replay_tables by pord ts (d(t \<mapsto> pfile pg)))))"

definition wal_Recover :: "(string \<times> u32) list \<Rightarrow> string list \<Rightarrow> (string \<Rightarrow> u32 list) \<Rightarrow> WAL \<Rightarrow> (dir, unit) go" where
  "wal_Recover kord tord pord w d =
     (case readAllLocked w of
        Inl e \<Rightarrow> (Inl e, d)
      | Inr rs \<Rightarrow>
          if rs = [] then (Inr (), d)
          else
            let latest = latest_writes rs in
            if kord = [] then (Inr (), d)
            else replay_tables (by_table latest kord) pord tord d)"

section \<open>The codec inverts\<close>

definition wf_record :: "WalRecord \<Rightarrow> bool" where
  "wf_record r \<longleftrightarrow> length (PageData r) = PageSize \<and> length (TableName r) \<le> tableNameSize \<and>
     (TableName r = [] \<or> last (TableName r) \<noteq> CHR 0x00)"

lemma length_encodeRecord [simp]: "length (PageData r) = PageSize \<Longrightarrow> length (encodeRecord r) = RecordSize"
  by (simp add: encodeRecord_def Let_def wal_consts page_consts)

lemma encodeRecord_fields:
  assumes "wf_record r"
  shows "seg 0 8 (encodeRecord r) = le64 (RLSN r)" and "seg 8 4 (encodeRecord r) = le32 (RXID r)"
    and "encodeRecord r ! 12 = RType r"
    and "seg 13 tableNameSize (encodeRecord r) =
          string_bytes (TableName r) @ replicate (tableNameSize - length (TableName r)) 0"
    and "seg 45 4 (encodeRecord r) = le32 (RPageID r)" and "seg 49 PageSize (encodeRecord r) = PageData r"
    and "seg (RecordSize - 4) 4 (encodeRecord r) = le32 (ChecksumIEEE (seg 0 (RecordSize - 4) (encodeRecord r)))"
  using assms by (simp_all add: encodeRecord_def Let_def wf_record_def wal_consts page_consts
      nth_put seg_put_prefix)

lemma decode_encodeRecord:
  assumes "wf_record r"
  shows "decodeRecord (encodeRecord r) = Inr r"
proof -
  have "TableName r = [] \<or> byte_of_char (last (TableName r)) \<noteq> 0"
    using assms by (auto simp: wf_record_def byte_of_char_0)
  then have "string_bytes (TableName r) = [] \<or> last (string_bytes (TableName r)) \<noteq> 0"
    by (auto simp: string_bytes_def last_map)
  then show ?thesis by (simp add: decodeRecord_def encodeRecord_fields [OF assms] trim_nul_pad)
qed

lemma wf_mark_record [simp]: "wf_record (mark_record lsn xid ty)"
  by (simp add: wf_record_def mark_record_def)

section \<open>The log as a list of records\<close>

text \<open>
  \<open>wal_log w rs\<close>: the file begins with the images of \<open>rs\<close>, the record count is their
  number, the LSNs ascend, and the counters are above everything in the log. Bytes after
  the last record may be anything: the remains of a torn write.
\<close>

definition holds_log :: "go_file \<Rightarrow> WalRecord list \<Rightarrow> bool" where
  "holds_log f rs \<longleftrightarrow> length rs * RecordSize \<le> length (contents f) \<and>
     (\<forall>i<length rs. seg (i * RecordSize) RecordSize (contents f) = encodeRecord (rs ! i) \<and> wf_record (rs ! i))"

definition wal_log :: "WAL \<Rightarrow> WalRecord list \<Rightarrow> bool" where
  "wal_log w rs \<longleftrightarrow> holds_log (wfile w) rs \<and> length rs < 2 ^ 64 \<and> wrecords w = of_nat (length rs) \<and>
     sorted_wrt (<) (map RLSN rs) \<and> (\<forall>r\<in>set rs. 0 < RLSN r \<and> RLSN r < nextLSN w \<and> RXID r < nextXID w) \<and>
     0 < nextLSN w \<and> 0 < nextXID w"

lemma RecordSize_pos [simp]: "0 < RecordSize"
  by (simp add: wal_consts)

lemma readRecordAt_log:
  assumes "holds_log f rs" and "i < length rs"
  shows "readRecordAt i f = Inr (rs ! i)"
proof -
  have "i * RecordSize + RecordSize \<le> length rs * RecordSize"
    using assms(2) mult_le_mono1 [of "Suc i" "length rs" RecordSize] by simp
  then show ?thesis using assms decode_encodeRecord
    by (auto simp: readRecordAt_def ReadAt_def holds_log_def)
qed

lemma read_records_log:
  "holds_log f rs \<Longrightarrow> i + n \<le> length rs \<Longrightarrow> read_records n i f = Inr (take n (drop i rs))"
proof (induction n arbitrary: i)
  case (Suc n)
  then show ?case using Suc.IH [of "i + 1"] readRecordAt_log [of f rs i]
    by (simp add: Cons_nth_drop_Suc [symmetric])
qed simp

lemma unat_u64_of_nat: "n < 2 ^ 64 \<Longrightarrow> unat (of_nat n :: u64) = n"
  by (simp add: unat_of_nat)

lemma readAll_log: "wal_log w rs \<Longrightarrow> readAllLocked w = Inr rs"
  using read_records_log [of "wfile w" rs 0 "length rs"]
  by (simp add: readAllLocked_def wal_log_def unat_u64_of_nat)

section \<open>Opening an existing log\<close>

definition scan_inv :: "WalRecord list \<Rightarrow> nat \<Rightarrow> WAL \<Rightarrow> bool" where
  "scan_inv rs i w \<longleftrightarrow> wrecords w = of_nat i \<and> 0 < nextLSN w \<and> 0 < nextXID w \<and>
     (\<forall>r\<in>set (take i rs). RLSN r < nextLSN w \<and> RXID r < nextXID w)"

text \<open>No LSN or XID is the last of its type, so that the successor does not wrap.\<close>

definition counters_ok :: "WalRecord list \<Rightarrow> bool" where
  "counters_ok rs \<longleftrightarrow> length rs < 2 ^ 64 \<and> (\<forall>r\<in>set rs. RLSN r < - 1 \<and> RXID r < - 1)"

lemma word_less_plus_1: "(x :: 'a::len word) < - 1 \<Longrightarrow> x < x + 1 \<and> 0 < x + 1"
  by (metis add_neg_numeral_special(8) add_right_cancel inc_less_eq_self_iff_eq
      verit_comp_simplify1(3) word_gt_0 word_order.not_eq_extremum)

lemma scan_records_log:
  assumes "holds_log (wfile w) rs" and "counters_ok rs" and "scan_inv rs i w" and "i \<le> length rs"
    and "length rs \<le> i + n" and "length rs < i + n \<longrightarrow> (\<exists>e. readRecordAt (length rs) (wfile w) = Inl e)"
  shows "scan_inv rs (length rs) (scan_records n i w) \<and> wfile (scan_records n i w) = wfile w"
  using assms
proof (induction n arbitrary: i w)
  case 0
  then show ?case by simp
next
  case (Suc n)
  show ?case
  proof (cases "i = length rs")
    case True
    then show ?thesis using Suc.prems(3,6) by auto
  next
    case False
    then have i: "i < length rs" using Suc.prems(4) by simp
    let ?r = "rs ! i"
    have r: "RLSN ?r < RLSN ?r + 1" "0 < RLSN ?r + 1" "RXID ?r < RXID ?r + 1" "0 < RXID ?r + 1"
      using Suc.prems(2) i word_less_plus_1 [of "RLSN ?r"] word_less_plus_1 [of "RXID ?r"]
      by (simp_all add: counters_ok_def)
    define w1 where "w1 = w\<lparr>wrecords := wrecords w + 1\<rparr>"
    define w2 where "w2 = (if RLSN ?r \<ge> nextLSN w1 then w1\<lparr>nextLSN := RLSN ?r + 1\<rparr> else w1)"
    define w3 where "w3 = (if RXID ?r \<ge> nextXID w2 then w2\<lparr>nextXID := RXID ?r + 1\<rparr> else w2)"
    have "scan_records (Suc n) i w = scan_records n (i + 1) w3"
      using readRecordAt_log [OF Suc.prems(1) i] by (simp add: w1_def w2_def w3_def Let_def)
    moreover have f: "wfile w3 = wfile w" by (simp add: w1_def w2_def w3_def)
    moreover have "scan_inv rs (i + 1) w3"
      using Suc.prems(3) r i less_trans
      by (fastforce simp: scan_inv_def w1_def w2_def w3_def take_Suc_conv_app_nth not_le)
    ultimately show ?thesis using Suc.IH [of w3 "i + 1"] Suc.prems i by simp
  qed
qed

lemma wal_Open_log:
  assumes "holds_log f rs" and "counters_ok rs" and "sorted_wrt (<) (map RLSN rs)"
    and "\<forall>r\<in>set rs. 0 < RLSN r"
    and "length rs < length (contents f) div RecordSize \<longrightarrow> (\<exists>e. readRecordAt (length rs) f = Inl e)"
  shows "wal_log (wal_Open f) rs \<and> wfile (wal_Open f) = f"
proof -
  let ?w = "\<lparr>wfile = f, wrecords = 0, nextLSN = 1, nextXID = 1\<rparr>"
  have le: "length rs \<le> length (contents f) div RecordSize"
    using assms(1) by (simp add: holds_log_def less_eq_div_iff_mult_less_eq)
  have "scan_inv rs 0 ?w" by (simp add: scan_inv_def)
  then have "scan_inv rs (length rs) (wal_Open f) \<and> wfile (wal_Open f) = f"
    using scan_records_log [of ?w rs 0 "length (contents f) div RecordSize"] assms(1,2,5) le
    by (simp add: wal_Open_def scanInit_def)
  then show ?thesis using assms by (simp add: wal_log_def scan_inv_def counters_ok_def)
qed

section \<open>Appending\<close>

lemma holds_log_write_after:
  assumes "holds_log f rs" and "contents g = write_bytes bs (length rs * RecordSize) (contents f)"
  shows "holds_log g rs"
proof -
  have seg: "seg (i * RecordSize) RecordSize (contents g) = seg (i * RecordSize) RecordSize (contents f)"
    if "i < length rs" for i
  proof -
    have "i * RecordSize + RecordSize \<le> length rs * RecordSize"
      using that mult_le_mono1 [of "Suc i" "length rs" RecordSize] by simp
    then show ?thesis using assms by (simp add: seg_write_other holds_log_def)
  qed
  have "length (contents f) \<le> length (contents g)"
    using assms(2) length_write_bytes [of bs] by (cases "bs = []") (simp_all add: write_bytes_def)
  then show ?thesis using assms(1) seg by (simp add: holds_log_def)
qed

lemma holds_log_append:
  assumes "holds_log f rs" and "wf_record r"
    and "contents g = write_bytes (encodeRecord r) (length rs * RecordSize) (contents f)"
  shows "holds_log g (rs @ [r])"
proof -
  have len: "length (encodeRecord r) = RecordSize" using assms(2) by (simp add: wf_record_def)
  then have "encodeRecord r \<noteq> []" using RecordSize_pos by (metis less_irrefl list.size(3))
  then have "length (rs @ [r]) * RecordSize \<le> length (contents g)"
    using assms(3) len length_write_bytes [of "encodeRecord r"] by simp
  moreover have "seg (length rs * RecordSize) RecordSize (contents g) = encodeRecord r"
    using assms(3) len by simp
  ultimately show ?thesis
    using holds_log_write_after [OF assms(1,3)] assms(2)
    by (auto simp: holds_log_def nth_append less_Suc_eq)
qed

text \<open>An append with a fresh LSN extends the log, or fails and leaves it as it was; the
  counters move on in both cases.\<close>

lemma append_log:
  assumes log: "wal_log w rs" and r: "wf_record r" "RLSN r = nextLSN w" "RXID r < x" "nextXID w \<le> x"
    and bounds: "nextLSN w < - 1" "length rs + 1 < 2 ^ 64"
    and run: "appendLocked r (w\<lparr>nextLSN := nextLSN w + 1, nextXID := x\<rparr>) = (res, w')"
  shows "wal_log w' (if res = Inr () then rs @ [r] else rs) \<and> nextXID w' = x"
proof -
  have off: "unat (wrecords w) = length rs" using log by (simp add: wal_log_def unat_u64_of_nat)
  have lsn: "nextLSN w < nextLSN w + 1" "0 < nextLSN w + 1" using bounds(1) word_less_plus_1 by auto
  have old: "\<forall>q\<in>set rs. 0 < RLSN q \<and> RLSN q < nextLSN w + 1 \<and> RXID q < x"
    using log lsn(1) r(4) by (auto simp: wal_log_def intro: less_trans less_le_trans)
  have inv: "sorted_wrt (<) (map RLSN rs)" "holds_log (wfile w) rs" "0 < nextLSN w" "0 < nextXID w"
      "wrecords w = of_nat (length rs)" "\<forall>q\<in>set rs. RLSN q < nextLSN w"
    using log by (auto simp: wal_log_def)
  have x: "0 < x" using inv(4) r(4) by (rule less_le_trans)
  obtain res' f where wr: "WriteAt (encodeRecord r) (length rs * RecordSize) (wfile w) = (res', f)"
    by fastforce
  show ?thesis
  proof (cases res')
    case (Inl e)
    then obtain k where "contents f = write_bytes (take k (encodeRecord r)) (length rs * RecordSize) (contents (wfile w))"
      using wr by (auto simp: WriteAt_def split: list.splits option.splits)
    then have "holds_log f rs" by (rule holds_log_write_after [OF inv(2)])
    moreover have "res = Inl e" "w' = w\<lparr>nextLSN := nextLSN w + 1, nextXID := x, wfile := f\<rparr>"
      using run wr Inl off by (simp_all add: appendLocked_def)
    ultimately show ?thesis using log inv(1) old lsn(2) x by (simp add: wal_log_def)
  next
    case (Inr u)
    then have "contents f = write_bytes (encodeRecord r) (length rs * RecordSize) (contents (wfile w))"
      using wr by (auto simp: WriteAt_def split: list.splits option.splits)
    then have "holds_log f (rs @ [r])" by (rule holds_log_append [OF inv(2) r(1)])
    moreover have "res = Inr ()"
        "w' = w\<lparr>nextLSN := nextLSN w + 1, nextXID := x, wfile := f, wrecords := wrecords w + 1\<rparr>"
      using run wr Inr off by (simp_all add: appendLocked_def)
    ultimately show ?thesis
      using bounds(2) inv old lsn x r(2,3) by (simp add: wal_log_def sorted_wrt_append add.commute)
  qed
qed

text \<open>Fewer than \<open>2 ^ 64 - 1\<close> records and LSNs, and fewer than \<open>2 ^ 32 - 1\<close> transactions.\<close>

definition wal_small :: "WAL \<Rightarrow> bool" where
  "wal_small w \<longleftrightarrow> nextLSN w < - 1 \<and> nextXID w < - 1 \<and> wrecords w < - 1"

lemma wal_small_length: "wal_log w rs \<Longrightarrow> wal_small w \<Longrightarrow> length rs + 1 < 2 ^ 64"
  by (auto simp: wal_small_def wal_log_def word_less_nat_alt unat_u64_of_nat
      unsigned_minus_1_eq_mask mask_eq_exp_minus_1)

lemma AllocXID_log:
  assumes "wal_log w rs" and "wal_small w" and "AllocXID w = (res, w')"
  shows "\<exists>rs'. wal_log w' rs' \<and> (case res of Inl e \<Rightarrow> rs' = rs
     | Inr xid \<Rightarrow> xid = nextXID w \<and> rs' = rs @ [mark_record (nextLSN w) xid RecordBegin])"
proof -
  let ?r = "mark_record (nextLSN w) (nextXID w) RecordBegin"
  obtain a w1 where a: "appendLocked ?r (w\<lparr>nextLSN := nextLSN w + 1, nextXID := nextXID w + 1\<rparr>) = (a, w1)"
    by fastforce
  have x: "nextXID w < nextXID w + 1" using assms(2) word_less_plus_1 by (auto simp: wal_small_def)
  have "wal_log w1 (if a = Inr () then rs @ [?r] else rs)"
    using append_log [OF assms(1) wf_mark_record _ _ _ _ _ a] x assms(2) wal_small_length [OF assms(1,2)]
    by (simp add: mark_record_def wal_small_def)
  moreover have "w\<lparr>nextXID := nextXID w + 1, nextLSN := nextLSN w + 1\<rparr> =
      w\<lparr>nextLSN := nextLSN w + 1, nextXID := nextXID w + 1\<rparr>" by simp
  then have "appendLocked ?r (w\<lparr>nextXID := nextXID w + 1, nextLSN := nextLSN w + 1\<rparr>) = (a, w1)"
    using a by (simp only:)
  ultimately show ?thesis
    using assms(3) by (cases a) (auto simp: AllocXID_def allocLSN_def bindG_def Let_def)
qed

lemma append_xid_log:
  assumes "wal_log w rs" and "wal_small w" and "wf_record r" and "RLSN r = nextLSN w" and "RXID r < nextXID w"
    and "appendLocked r (w\<lparr>nextLSN := nextLSN w + 1\<rparr>) = (res, w')"
  shows "wal_log w' (if res = Inr () then rs @ [r] else rs) \<and> nextXID w' = nextXID w"
  using append_log [of w rs r "nextXID w" res w'] assms wal_small_length [OF assms(1,2)]
  by (simp add: wal_small_def)

lemma append_xid_ext:
  assumes "wal_log w rs" and "wal_small w" and "wf_record r" and "RLSN r = nextLSN w" and "RXID r < nextXID w"
    and "appendLocked r (w\<lparr>nextLSN := nextLSN w + 1\<rparr>) = (res, w')"
  shows "\<exists>ext. wal_log w' (rs @ ext)"
  using append_xid_log [OF assms] by (cases "res = Inr ()") (auto intro: exI [of _ "[]"])

inductive wal_step :: "WAL \<Rightarrow> WAL \<Rightarrow> bool" where
  wal_alloc: "wal_small w \<Longrightarrow> AllocXID w = (res, w') \<Longrightarrow> wal_step w w'"
| wal_write: "wal_small w \<Longrightarrow> xid < nextXID w \<Longrightarrow> length dat = PageSize \<Longrightarrow>
     length name \<le> tableNameSize \<Longrightarrow> name = [] \<or> last name \<noteq> CHR 0x00 \<Longrightarrow>
     AppendWrite xid name i dat w = (res, w') \<Longrightarrow> wal_step w w'"
| wal_commit: "wal_small w \<Longrightarrow> xid < nextXID w \<Longrightarrow> AppendCommit xid w = (res, w') \<Longrightarrow> wal_step w w'"
| wal_rollback: "wal_small w \<Longrightarrow> xid < nextXID w \<Longrightarrow> AppendRollback xid w = (res, w') \<Longrightarrow> wal_step w w'"

lemma wal_step_log:
  assumes "wal_step w w'" and log: "wal_log w rs"
  shows "\<exists>ext. wal_log w' (rs @ ext)"
  using assms(1)
proof cases
  case (wal_alloc res)
  then obtain rs' where "wal_log w' rs'" "rs' = rs \<or> (\<exists>r. rs' = rs @ [r])"
    using AllocXID_log [OF log] by (cases res) auto
  then show ?thesis by (auto intro: exI [of _ "[]"])
next
  case (wal_write xid dat name i res)
  let ?r = "\<lparr>RLSN = nextLSN w, RXID = xid, RType = RecordWrite, TableName = name, RPageID = i, PageData = dat\<rparr>"
  have "appendLocked ?r (w\<lparr>nextLSN := nextLSN w + 1\<rparr>) = (res, w')"
    using wal_write(6) by (simp add: AppendWrite_def allocLSN_def)
  then show ?thesis using wal_write by (intro append_xid_ext [OF log wal_write(1)]) (simp_all add: wf_record_def)
next
  case (wal_commit xid res)
  then have "appendLocked (mark_record (nextLSN w) xid RecordCommit) (w\<lparr>nextLSN := nextLSN w + 1\<rparr>) = (res, w')"
    by (simp add: AppendCommit_def allocLSN_def)
  then show ?thesis using wal_commit(2)
    by (intro append_xid_ext [OF log wal_commit(1) wf_mark_record]) (simp_all add: mark_record_def)
next
  case (wal_rollback xid res)
  then have "appendLocked (mark_record (nextLSN w) xid RecordRollback) (w\<lparr>nextLSN := nextLSN w + 1\<rparr>) = (res, w')"
    by (simp add: AppendRollback_def allocLSN_def)
  then show ?thesis using wal_rollback(2)
    by (intro append_xid_ext [OF log wal_rollback(1) wf_mark_record]) (simp_all add: mark_record_def)
qed

lemma wal_steps_log:
  "wal_step\<^sup>*\<^sup>* w w' \<Longrightarrow> wal_log w rs \<Longrightarrow> \<exists>ext. wal_log w' (rs @ ext)"
proof (induction rule: rtranclp_induct)
  case base
  then show ?case by (intro exI [of _ "[]"]) simp
next
  case (step y z)
  then obtain ext where "wal_log y (rs @ ext)" by blast
  from wal_step_log [OF step(2) this] show ?case by auto
qed

lemma wal_Open_empty: "contents f = [] \<Longrightarrow> wal_log (wal_Open f) []"
  using wal_Open_log [of f "[]"] by (simp add: holds_log_def counters_ok_def)

section \<open>What recovery applies\<close>

definition is_committed_write :: "WalRecord list \<Rightarrow> string \<Rightarrow> u32 \<Rightarrow> WalRecord \<Rightarrow> bool" where
  "is_committed_write rs t i r \<longleftrightarrow> RType r = RecordWrite \<and> RXID r \<in> committed_xids rs \<and>
     TableName r = t \<and> RPageID r = i"

text \<open>The specification: the last image of the page in the log that a committed transaction wrote.\<close>

definition last_image :: "WalRecord list \<Rightarrow> string \<Rightarrow> u32 \<Rightarrow> byte list option" where
  "last_image rs t i =
     (case filter (is_committed_write rs t i) rs of [] \<Rightarrow> None | ws \<Rightarrow> Some (PageData (last ws)))"

lemma latest_step_hit:
  "is_committed_write all t i r \<Longrightarrow> (case m (t, i) of None \<Rightarrow> 0 | Some (d, l) \<Rightarrow> l) < RLSN r \<Longrightarrow>
   latest_step (committed_xids all) m r (t, i) = Some (PageData r, RLSN r)"
  by (auto simp: latest_step_def is_committed_write_def)

lemma latest_step_miss:
  "\<not> is_committed_write all t i r \<Longrightarrow> latest_step (committed_xids all) m r (t, i) = m (t, i)"
  by (auto simp: latest_step_def is_committed_write_def Let_def)

lemma latest_fold:
  assumes "sorted_wrt (<) (map RLSN rs)" and "\<forall>r\<in>set rs. 0 < RLSN r"
  shows "foldl (latest_step (committed_xids all)) Map.empty rs (t, i) =
     (case filter (is_committed_write all t i) rs of [] \<Rightarrow> None
      | ws \<Rightarrow> Some (PageData (last ws), RLSN (last ws)))"
  using assms
proof (induction rs rule: rev_induct)
  case (snoc r rs)
  let ?m = "foldl (latest_step (committed_xids all)) Map.empty rs"
  let ?ws = "filter (is_committed_write all t i) rs"
  have IH: "?m (t, i) = (case ?ws of [] \<Rightarrow> None | ws \<Rightarrow> Some (PageData (last ws), RLSN (last ws)))"
    using snoc by (simp add: sorted_wrt_append)
  have lt: "RLSN (last ?ws) < RLSN r" if "?ws \<noteq> []"
    using that snoc.prems(1) last_in_set [OF that] by (auto simp: sorted_wrt_append)
  show ?case
  proof (cases "is_committed_write all t i r")
    case True
    have "(case ?m (t, i) of None \<Rightarrow> 0 | Some (d, l) \<Rightarrow> l) < RLSN r"
      using IH lt snoc.prems(2) by (cases ?ws) auto
    then show ?thesis using True latest_step_hit [of all t i r ?m]
      by (cases ?ws) simp_all
  next
    case False
    then show ?thesis using IH latest_step_miss [OF False] by simp
  qed
qed simp

lemma latest_writes_image:
  assumes "wal_log w rs"
  shows "map_option fst (latest_writes rs (t, i)) = last_image rs t i"
  using latest_fold [of rs rs t i] assms
  by (simp add: latest_writes_def last_image_def wal_log_def split: list.splits)

end
