(* ===== verification/WalRecover.thy ===== *)
theory WalRecover
  imports Wal
begin

text \<open>
  The correctness of \<open>wal_Recover\<close>: it is total on the logs the append operations
  produce, it does not depend on the order in which Go enumerates its maps, and it
  repairs every page that a committed transaction wrote, also a page that a crash left
  half written.
\<close>

section \<open>Page files with damaged pages\<close>

text \<open>The pager invariant with the exception of the pages \<open>S\<close>, whose bytes may be anything.\<close>

definition pager_inv_but :: "u32 set \<Rightarrow> Pager \<Rightarrow> bool" where
  "pager_inv_but S pg \<longleftrightarrow>
     faults (pfile pg) = [] \<and> 0 < totalPages pg \<and>
     distinct (freeList pg) \<and> length (freeList pg) \<le> maxFreeListEntries \<and>
     (\<forall>i\<in>set (freeList pg). 0 < i \<and> i < totalPages pg) \<and> 0 \<notin> S \<and>
     (\<forall>i<totalPages pg. i \<notin> S \<longrightarrow> (\<exists>p. holds_page (pfile pg) i p \<and> page_id p = i)) \<and>
     holds_page (pfile pg) 0 (stored (meta_page (totalPages pg) (freeList pg)))"

lemma pager_inv_but_empty: "pager_inv_but {} pg \<longleftrightarrow> pager_inv pg"
  by (auto simp: pager_inv_but_def pager_inv_def)

lemma pager_Open_but: "pager_inv_but S pg \<Longrightarrow> pager_Open (pfile pg) = (Inr (), pg)"
proof -
  assume inv: "pager_inv_but S pg"
  then have "contents (pfile pg) \<noteq> []"
    by (auto simp: pager_inv_but_def holds_page_def page_consts)
  then show ?thesis
    using loadMeta_holds [of "\<lparr>pfile = pfile pg, totalPages = 0, freeList = []\<rparr>"
        "stored (meta_page (totalPages pg) (freeList pg))" "totalPages pg" "freeList pg"] inv
    by (simp add: pager_Open_def) (simp add: pager_inv_but_def)
qed

lemma pager_but_write:
  assumes "pager_inv_but S pg" and "wf_page p" and "page_id p < totalPages pg"
    and "page_id p = 0 \<Longrightarrow> p = meta_page (totalPages pg) (freeList pg)"
  defines "q \<equiv> pg\<lparr>pfile := put_page p (pfile pg)\<rparr>"
  shows "pager_WritePage p pg = (Inr (), q)" and "pager_inv_but (S - {page_id p}) q"
    and "pager_page q (page_id p) = Some (stored p)"
    and "i < totalPages pg \<Longrightarrow> i \<notin> S \<Longrightarrow> i \<noteq> page_id p \<Longrightarrow> pager_page q i = pager_page pg i"
proof -
  have f: "faults (pfile pg) = []" using assms(1) by (simp add: pager_inv_but_def)
  then show "pager_WritePage p pg = (Inr (), q)" by (simp add: q_def pager_WritePage_ok)
  have hp: "holds_page (put_page p (pfile pg)) (page_id p) (stored p)"
    using assms(2) by (rule holds_put_same)
  then show "pager_page q (page_id p) = Some (stored p)"
    using assms(3) by (simp add: q_def pager_page_holds)
  have other: "holds_page (put_page p (pfile pg)) i r" if "holds_page (pfile pg) i r" "i \<noteq> page_id p" for i r
    using that assms(2) holds_put_other by blast
  have "\<exists>r. holds_page (put_page p (pfile pg)) i r \<and> page_id r = i"
    if i: "i < totalPages pg" "i \<notin> S - {page_id p}" for i
  proof (cases "i = page_id p")
    case True
    then show ?thesis using hp by auto
  next
    case False
    then obtain r where "holds_page (pfile pg) i r" "page_id r = i"
      using i assms(1) by (auto simp: pager_inv_but_def)
    then show ?thesis using other False by blast
  qed
  moreover have "holds_page (put_page p (pfile pg)) 0 (stored (meta_page (totalPages pg) (freeList pg)))"
    using assms(1,4) other hp by (cases "page_id p = 0") (auto simp: pager_inv_but_def)
  ultimately show "pager_inv_but (S - {page_id p}) q"
    using assms(1) unfolding q_def pager_inv_but_def by simp
  assume i: "i < totalPages pg" "i \<notin> S" "i \<noteq> page_id p"
  then obtain r where "holds_page (pfile pg) i r" using assms(1) by (auto simp: pager_inv_but_def)
  then show "pager_page q i = pager_page pg i"
    using i other by (simp add: q_def pager_page_holds)
qed

lemma Decode_stored: "Decode raw = Inr p \<Longrightarrow> stored p = p"
  by (auto simp: Decode_def Let_def stored_def split: if_splits)

lemma pager_Close_but:
  assumes "pager_inv_but S pg"
  shows "\<exists>q. pager_Close pg = (Inr (), q) \<and> pager_inv_but S q \<and> totalPages q = totalPages pg \<and>
     freeList q = freeList pg \<and>
     (\<forall>i. 0 < i \<longrightarrow> i < totalPages pg \<longrightarrow> i \<notin> S \<longrightarrow> pager_page q i = pager_page pg i)"
proof -
  let ?m = "meta_page (totalPages pg) (freeList pg)"
  let ?q = "pg\<lparr>pfile := put_page ?m (pfile pg)\<rparr>"
  have len: "length (freeList pg) \<le> maxFreeListEntries" and S: "0 \<notin> S" "0 < totalPages pg"
    using assms by (auto simp: pager_inv_but_def)
  have m: "wf_page ?m" "page_id ?m < totalPages pg" using len S by simp_all
  note w = pager_but_write [OF assms m, simplified]
  have "pager_Close pg = (Inr (), ?q)"
    using w(1) len by (simp add: pager_Close_def flushMeta_writes)
  then show ?thesis using w(2,4) S by auto
qed

section \<open>Replaying one table\<close>

definition replayable :: "(u32 \<rightharpoonup> byte list) \<Rightarrow> Pager \<Rightarrow> u32 \<Rightarrow> bool" where
  "replayable pages pg i \<longleftrightarrow> 0 < i \<and> i < totalPages pg \<and>
     (\<exists>raw p. pages i = Some raw \<and> Decode raw = Inr p \<and> wf_page p \<and> page_id p = i)"

lemma replay_pages_spec:
  assumes "pager_inv_but S pg" and "\<forall>i\<in>set js. replayable pages pg i"
  shows "\<exists>q. replay_pages pages js pg = (Inr (), q) \<and> pager_inv_but (S - set js) q \<and>
     totalPages q = totalPages pg \<and> freeList q = freeList pg \<and>
     (\<forall>i\<in>set js. \<exists>p. Decode (the (pages i)) = Inr p \<and> pager_page q i = Some p) \<and>
     (\<forall>i. 0 < i \<longrightarrow> i < totalPages pg \<longrightarrow> i \<notin> S \<longrightarrow> i \<notin> set js \<longrightarrow> pager_page q i = pager_page pg i)"
  using assms
proof (induction js arbitrary: S pg)
  case Nil
  then show ?case using pager_Close_but [OF Nil(1)] by simp
next
  case (Cons j js)
  then obtain raw p where p: "pages j = Some raw" "Decode raw = Inr p" "wf_page p" "page_id p = j"
      "0 < j" "j < totalPages pg"
    by (auto simp: replayable_def)
  let ?pg = "pg\<lparr>pfile := put_page p (pfile pg)\<rparr>"
  have w: "pager_WritePage p pg = (Inr (), ?pg)" "pager_inv_but (S - {j}) ?pg"
      "pager_page ?pg j = Some p"
      "\<And>i. i < totalPages pg \<Longrightarrow> i \<notin> S \<Longrightarrow> i \<noteq> j \<Longrightarrow> pager_page ?pg i = pager_page pg i"
    using pager_but_write [OF Cons.prems(1) p(3)] p Decode_stored [OF p(2)] by auto
  have js: "\<forall>i\<in>set js. replayable pages ?pg i" using Cons.prems(2) by (simp add: replayable_def)
  obtain q where q: "replay_pages pages js ?pg = (Inr (), q)" "pager_inv_but (S - {j} - set js) q"
      "totalPages q = totalPages pg" "freeList q = freeList pg"
      "\<forall>i\<in>set js. \<exists>p. Decode (the (pages i)) = Inr p \<and> pager_page q i = Some p"
      "\<forall>i. 0 < i \<longrightarrow> i < totalPages pg \<longrightarrow> i \<notin> S - {j} \<longrightarrow> i \<notin> set js \<longrightarrow> pager_page q i = pager_page ?pg i"
    using Cons.IH [OF w(2) js] by auto
  have "S - set (j # js) = S - {j} - set js" by auto
  moreover have "\<forall>i\<in>set (j # js). \<exists>p. Decode (the (pages i)) = Inr p \<and> pager_page q i = Some p"
    using q(5,6) w(3) p by (cases "j \<in> set js") auto
  moreover have "replay_pages pages (j # js) pg = (Inr (), q)" using p(1,2) w(1) q(1) by simp
  ultimately show ?case using q w(4) by auto
qed

section \<open>The grouping by table\<close>

lemma by_table_pages:
  "by_table latest ks t =
     (if \<exists>i. (t, i) \<in> set ks
      then Some (\<lambda>i. if (t, i) \<in> set ks then Some (fst (the (latest (t, i)))) else None) else None)"
proof (induction ks rule: rev_induct)
  case Nil
  then show ?case by (simp add: by_table_def)
next
  case (snoc k ks)
  obtain t' i' where k: "k = (t', i')" by fastforce
  have "by_table latest (ks @ [k]) = group_step latest (by_table latest ks) k"
    by (simp add: by_table_def)
  then show ?case using snoc k by (cases "t = t'") (auto simp: group_step_def Let_def fun_eq_iff)
qed

section \<open>Recovery of a directory\<close>

text \<open>Before recovery: every page file opens, except that the pages with a committed image in the
  log may be damaged; the images are images of those pages.\<close>

definition recoverable_file :: "WalRecord list \<Rightarrow> string \<Rightarrow> go_file \<Rightarrow> bool" where
  "recoverable_file rs t f \<longleftrightarrow>
     (\<exists>pg. pfile pg = f \<and> pager_inv_but {i. last_image rs t i \<noteq> None} pg \<and>
        (\<forall>i raw. last_image rs t i = Some raw \<longrightarrow> 0 < i \<and> i < totalPages pg \<and>
           (\<exists>p. Decode raw = Inr p \<and> wf_page p \<and> page_id p = i)))"

definition recoverable :: "WalRecord list \<Rightarrow> dir \<Rightarrow> bool" where
  "recoverable rs d \<longleftrightarrow> (\<forall>t f. d t = Some f \<longrightarrow> recoverable_file rs t f)"

text \<open>After recovery: the file opens to a consistent pager of the same size, each page with a committed
  image reads as the last one, and the other pages read as before.\<close>

definition recovered_file :: "WalRecord list \<Rightarrow> string \<Rightarrow> Pager \<Rightarrow> Pager \<Rightarrow> bool" where
  "recovered_file rs t pg q \<longleftrightarrow>
     pager_inv q \<and> totalPages q = totalPages pg \<and> freeList q = freeList pg \<and>
     (\<forall>i. 0 < i \<longrightarrow> i < totalPages pg \<longrightarrow>
        pager_page q i = (case last_image rs t i of
            None \<Rightarrow> pager_page pg i
          | Some raw \<Rightarrow> (case Decode raw of Inl e \<Rightarrow> None | Inr p \<Rightarrow> Some p)))"

text \<open>The enumerations of the three maps of \<open>Recover\<close>.\<close>

definition recover_orders ::
  "WalRecord list \<Rightarrow> (string \<times> u32) list \<Rightarrow> string list \<Rightarrow> (string \<Rightarrow> u32 list) \<Rightarrow> bool" where
  "recover_orders rs kord tord pord \<longleftrightarrow>
     set kord = {(t, i). last_image rs t i \<noteq> None} \<and> distinct tord \<and> set tord = fst ` set kord \<and>
     (\<forall>t. set (pord t) = {i. last_image rs t i \<noteq> None})"

lemma untouched_recovered:
  assumes "pager_inv_but {i. last_image rs t i \<noteq> None} pg" and "\<forall>i. last_image rs t i = None"
  shows "recovered_file rs t pg pg"
  using assms by (simp add: recovered_file_def pager_inv_but_empty)

lemma replay_recovered:
  assumes log: "wal_log w rs" and ords: "recover_orders rs kord tord pord" and t: "t \<in> set tord"
    and inv: "pager_inv_but {i. last_image rs t i \<noteq> None} pg"
    and imgs: "\<And>i raw. last_image rs t i = Some raw \<Longrightarrow> 0 < i \<and> i < totalPages pg \<and>
        (\<exists>p. Decode raw = Inr p \<and> wf_page p \<and> page_id p = i)"
  shows "\<exists>q. replay_pages (the (by_table (latest_writes rs) kord t)) (pord t) pg = (Inr (), q) \<and>
     recovered_file rs t pg q"
proof -
  let ?pages = "the (by_table (latest_writes rs) kord t)"
  have kord: "(t, i) \<in> set kord \<longleftrightarrow> last_image rs t i \<noteq> None" for i
    using ords by (auto simp: recover_orders_def)
  have pord: "set (pord t) = {i. last_image rs t i \<noteq> None}" using ords by (simp add: recover_orders_def)
  have "t \<in> fst ` set kord" using t ords by (simp add: recover_orders_def)
  then have "\<exists>i. (t, i) \<in> set kord" by force
  then have by_t: "?pages i = (if (t, i) \<in> set kord then Some (fst (the (latest_writes rs (t, i)))) else None)" for i
    by (simp add: by_table_pages)
  have pages: "?pages i = last_image rs t i" for i
  proof (cases "last_image rs t i")
    case None
    then show ?thesis using by_t kord by simp
  next
    case (Some raw)
    then obtain l where "latest_writes rs (t, i) = Some (raw, l)"
      using latest_writes_image [OF log, of t i] by auto
    then show ?thesis using by_t kord Some by simp
  qed
  have "\<forall>i\<in>set (pord t). replayable ?pages pg i"
    using pord pages imgs by (auto simp: replayable_def)
  from replay_pages_spec [OF inv this] obtain q where q: "replay_pages ?pages (pord t) pg = (Inr (), q)"
      "pager_inv_but {} q" "totalPages q = totalPages pg" "freeList q = freeList pg"
      "\<forall>i\<in>set (pord t). \<exists>p. Decode (the (?pages i)) = Inr p \<and> pager_page q i = Some p"
      "\<forall>i. 0 < i \<longrightarrow> i < totalPages pg \<longrightarrow> i \<notin> set (pord t) \<longrightarrow> pager_page q i = pager_page pg i"
    using pord by auto
  have "pager_page q i = (case last_image rs t i of None \<Rightarrow> pager_page pg i
          | Some raw \<Rightarrow> (case Decode raw of Inl e \<Rightarrow> None | Inr p \<Rightarrow> Some p))"
    if "0 < i" "i < totalPages pg" for i
    using that q(5,6) pord pages by (cases "last_image rs t i") auto
  then show ?thesis using q by (auto simp: recovered_file_def pager_inv_but_empty)
qed

lemma replay_tables_spec:
  assumes log: "wal_log w rs" and ords: "recover_orders rs kord tord pord"
    and "set ts \<subseteq> set tord" and "distinct ts"
    and "\<forall>t\<in>set ts. \<forall>f. d t = Some f \<longrightarrow> recoverable_file rs t f"
  shows "\<exists>d'. replay_tables (by_table (latest_writes rs) kord) pord ts d = (Inr (), d') \<and>
     dom d' = dom d \<and> (\<forall>t. t \<notin> set ts \<longrightarrow> d' t = d t) \<and>
     (\<forall>t\<in>set ts. \<forall>f. d t = Some f \<longrightarrow>
        (\<exists>pg q. pager_Open f = (Inr (), pg) \<and> d' t = Some (pfile q) \<and> recovered_file rs t pg q))"
  using assms(3-5)
proof (induction ts arbitrary: d)
  case Nil
  then show ?case by simp
next
  case (Cons t ts)
  have sub: "set ts \<subseteq> set tord" "distinct ts" "t \<notin> set ts" "t \<in> set tord" using Cons.prems(1,2) by auto
  show ?case
  proof (cases "d t")
    case None
    have "\<forall>t\<in>set ts. \<forall>f. d t = Some f \<longrightarrow> recoverable_file rs t f" using Cons.prems(3) by simp
    from Cons.IH [OF sub(1,2) this] show ?thesis using None by auto
  next
    case (Some f)
    then have "recoverable_file rs t f" using Cons.prems(3) by simp
    then obtain pg where pg: "pfile pg = f" "pager_inv_but {i. last_image rs t i \<noteq> None} pg"
        "\<And>i raw. last_image rs t i = Some raw \<Longrightarrow> 0 < i \<and> i < totalPages pg \<and>
          (\<exists>p. Decode raw = Inr p \<and> wf_page p \<and> page_id p = i)"
      by (auto simp: recoverable_file_def)
    have op: "pager_Open f = (Inr (), pg)" using pager_Open_but [OF pg(2)] pg(1) by simp
    obtain q where q: "replay_pages (the (by_table (latest_writes rs) kord t)) (pord t) pg = (Inr (), q)"
        "recovered_file rs t pg q"
      using replay_recovered [OF log ords sub(4) pg(2,3)] by blast
    let ?d = "d(t \<mapsto> pfile q)"
    have "\<forall>u\<in>set ts. \<forall>f. ?d u = Some f \<longrightarrow> recoverable_file rs u f" using Cons.prems(3) sub(3) by auto
    from Cons.IH [OF sub(1,2) this]
    obtain d' where d': "replay_tables (by_table (latest_writes rs) kord) pord ts ?d = (Inr (), d')"
        "dom d' = dom ?d" "\<forall>u. u \<notin> set ts \<longrightarrow> d' u = ?d u"
        "\<forall>u\<in>set ts. \<forall>f. ?d u = Some f \<longrightarrow>
           (\<exists>pg q. pager_Open f = (Inr (), pg) \<and> d' u = Some (pfile q) \<and> recovered_file rs u pg q)"
      by blast
    have dt: "d' t = Some (pfile q)" using d'(3) sub(3) by simp
    have "\<exists>pg q. pager_Open g = (Inr (), pg) \<and> d' u = Some (pfile q) \<and> recovered_file rs u pg q"
      if u: "u \<in> set (t # ts)" "d u = Some g" for u g
    proof (cases "u = t")
      case True
      then show ?thesis using u Some op q(2) dt by auto
    next
      case False
      then show ?thesis using u d'(4) by simp
    qed
    moreover have "replay_tables (by_table (latest_writes rs) kord) pord (t # ts) d = (Inr (), d')"
      using Some op q(1) d'(1) by simp
    moreover have "dom d' = dom d" "\<forall>u. u \<notin> set (t # ts) \<longrightarrow> d' u = d u" using d'(2,3) Some by auto
    ultimately show ?thesis by blast
  qed
qed

lemma wal_Recover_spec:
  assumes log: "wal_log w rs" and ords: "recover_orders rs kord tord pord" and rec: "recoverable rs d"
  shows "\<exists>d'. wal_Recover kord tord pord w d = (Inr (), d') \<and> dom d' = dom d \<and>
     (\<forall>t f. d t = Some f \<longrightarrow>
        (\<exists>pg q. pager_Open f = (Inr (), pg) \<and> d' t = Some (pfile q) \<and> recovered_file rs t pg q))"
proof -
  have none: "\<exists>pg q. pager_Open f = (Inr (), pg) \<and> d t = Some (pfile q) \<and> recovered_file rs t pg q"
    if t: "d t = Some f" "\<forall>i. last_image rs t i = None" for t f
  proof -
    obtain pg where "pfile pg = f" "pager_inv_but {i. last_image rs t i \<noteq> None} pg"
      using rec t(1) unfolding recoverable_def recoverable_file_def by blast
    then show ?thesis using t pager_Open_but [of _ pg] untouched_recovered [of rs t pg] by auto
  qed
  show ?thesis
  proof (cases "rs = [] \<or> kord = []")
    case True
    then have "wal_Recover kord tord pord w d = (Inr (), d)"
      using readAll_log [OF log] by (auto simp: wal_Recover_def Let_def)
    moreover have "last_image rs t i = None" for t i
      using True ords by (auto simp: recover_orders_def last_image_def)
    ultimately show ?thesis using none by blast
  next
    case False
    have "distinct tord" using ords by (simp add: recover_orders_def)
    moreover have "\<forall>t\<in>set tord. \<forall>f. d t = Some f \<longrightarrow> recoverable_file rs t f"
      using rec by (simp add: recoverable_def)
    ultimately obtain d' where d': "replay_tables (by_table (latest_writes rs) kord) pord tord d = (Inr (), d')"
        "dom d' = dom d" "\<forall>t. t \<notin> set tord \<longrightarrow> d' t = d t"
        "\<forall>t\<in>set tord. \<forall>f. d t = Some f \<longrightarrow>
           (\<exists>pg q. pager_Open f = (Inr (), pg) \<and> d' t = Some (pfile q) \<and> recovered_file rs t pg q)"
      using replay_tables_spec [OF log ords subset_refl] by blast
    have "wal_Recover kord tord pord w d = (Inr (), d')"
      using readAll_log [OF log] False d'(1) by (simp add: wal_Recover_def Let_def)
    moreover have "\<exists>pg q. pager_Open f = (Inr (), pg) \<and> d' t = Some (pfile q) \<and> recovered_file rs t pg q"
      if t: "d t = Some f" for t f
    proof (cases "t \<in> set tord")
      case True
      then show ?thesis using d'(4) t by blast
    next
      case False
      then have "\<forall>i. last_image rs t i = None" using ords by (force simp: recover_orders_def)
      then show ?thesis using none [OF t] d'(3) False t by simp
    qed
    ultimately show ?thesis using d'(2) by blast
  qed
qed

section \<open>Logs as byte strings\<close>

lemma length_log_bytes:
  "\<forall>r\<in>set rs. wf_record r \<Longrightarrow> length (concat (map encodeRecord rs)) = length rs * RecordSize"
  by (induction rs) (simp_all add: wf_record_def)

lemma seg_log_bytes:
  "\<forall>r\<in>set rs. wf_record r \<Longrightarrow> i < length rs \<Longrightarrow>
   seg (i * RecordSize) RecordSize (concat (map encodeRecord rs) @ rest) = encodeRecord (rs ! i)"
proof (induction rs arbitrary: i)
  case (Cons r rs)
  then have len: "length (encodeRecord r) = RecordSize" by (simp add: wf_record_def)
  show ?case
  proof (cases i)
    case 0
    then show ?thesis using len by (simp add: seg_append_left)
  next
    case (Suc j)
    then have "seg (i * RecordSize) RecordSize (encodeRecord r @ concat (map encodeRecord rs) @ rest) =
        seg (j * RecordSize) RecordSize (concat (map encodeRecord rs) @ rest)"
      using len by (simp add: seg_append_right)
    then show ?thesis using Cons.IH [of j] Cons.prems Suc by simp
  qed
qed simp

lemma holds_log_bytes:
  assumes "contents f = concat (map encodeRecord rs) @ rest" and "\<forall>r\<in>set rs. wf_record r"
  shows "holds_log f rs"
  unfolding holds_log_def using assms seg_log_bytes [OF assms(2)] length_log_bytes [OF assms(2)] by simp

lemma decodeRecord_one_byte:
  assumes "wf_record r" and "i < RecordSize" and "v \<noteq> encodeRecord r ! i"
  shows "decodeRecord ((encodeRecord r)[i := v]) = Inl WalCrcMismatch"
proof -
  let ?b = "encodeRecord r" and ?n = "RecordSize - 4"
  have len: "length ?b = RecordSize" "4 \<le> RecordSize" using assms(1) by (simp_all add: wf_record_def wal_consts)
  have crc: "seg ?n 4 ?b = le32 (ChecksumIEEE (seg 0 ?n ?b))" using assms(1) by (rule encodeRecord_fields)
  have "from_le (seg ?n 4 (?b[i := v])) \<noteq> ChecksumIEEE (seg 0 ?n (?b[i := v]))"
  proof (cases "i < ?n")
    case True
    have "seg 0 ?n (?b[i := v]) = (seg 0 ?n ?b)[i := v]"
      using True by (subst seg_list_update_same) simp_all
    moreover have "ChecksumIEEE ((seg 0 ?n ?b)[i := v]) \<noteq> ChecksumIEEE (seg 0 ?n ?b)"
      using True assms(3) len by (intro ChecksumIEEE_one_byte) simp_all
    ultimately show ?thesis using True crc by (simp add: seg_list_update_other)
  next
    case False
    then have "seg 0 ?n (?b[i := v]) = seg 0 ?n ?b" by (simp add: seg_list_update_other)
    moreover have "seg ?n 4 (?b[i := v]) = (seg ?n 4 ?b)[i - ?n := v]"
      using False assms(2) len by (intro seg_list_update_same) auto
    moreover have "(seg ?n 4 ?b)[i - ?n := v] \<noteq> seg ?n 4 ?b"
    proof
      assume "(seg ?n 4 ?b)[i - ?n := v] = seg ?n 4 ?b"
      then have "seg ?n 4 ?b ! (i - ?n) = v"
        using False assms(2) len by (metis length_seg nth_list_update_eq le_add_diff_inverse2
            less_diff_conv2 linorder_not_less nat_le_linear order_refl add.commute)
      then show False using False assms(2,3) len by simp
    qed
    moreover have "length ((seg ?n 4 ?b)[i - ?n := v]) = 4" using len by simp
    then have "le32 (from_le ((seg ?n 4 ?b)[i - ?n := v])) = (seg ?n 4 ?b)[i - ?n := v]" by simp
    ultimately show ?thesis using crc by metis
  qed
  then show ?thesis by (simp add: decodeRecord_def)
qed

section \<open>Properties of the log\<close>

text \<open>A log record survives its encoding: decoding the encoded record gives it back, for table
  names of at most 32 bytes that do not end in a NUL byte.\<close>

lemma wal_record_roundtrip:
  assumes "length (PageData r) = PageSize" and "length (TableName r) \<le> tableNameSize"
    and "TableName r \<noteq> [] \<longrightarrow> last (TableName r) \<noteq> CHR 0x00"
  shows "decodeRecord (encodeRecord r) = Inr r \<and> length (encodeRecord r) = RecordSize"
  using assms decode_encodeRecord [of r] by (auto simp: wf_record_def)

text \<open>A log that the append operations can have left in the file.\<close>

definition valid_log :: "WalRecord list \<Rightarrow> bool" where
  "valid_log rs \<longleftrightarrow> (\<forall>r\<in>set rs. wf_record r \<and> 0 < RLSN r) \<and> sorted_wrt (<) (map RLSN rs) \<and> counters_ok rs"

lemma small_numbers [simp]:
  "(0 :: u64) < - 1" "(1 :: u64) < - 1" "(2 :: u64) < - 1" "(3 :: u64) < - 1" "(1 :: u32) < - 1"
  by (simp_all add: word_less_nat_alt unsigned_minus_1_eq_mask mask_eq_exp_minus_1)

lemma valid_log_example: "valid_log [mark_record 1 1 RecordBegin]"
proof -
  show ?thesis by (simp add: valid_log_def counters_ok_def) (simp add: mark_record_def)
qed

text \<open>C30: crash tolerance of the log: a file that ends in part of a record, whatever its bytes, opens
  as the log of the complete records before it, and both counters continue above every LSN and XID in
  the log.\<close>

theorem wal_open_torn_tail:
  assumes "valid_log rs" and "contents f = concat (map encodeRecord rs) @ torn" and "length torn < RecordSize"
  shows "readAllLocked (wal_Open f) = Inr rs \<and> RecordCount (wal_Open f) = of_nat (length rs) \<and>
     (\<forall>r\<in>set rs. RLSN r < nextLSN (wal_Open f) \<and> RXID r < nextXID (wal_Open f))"
proof -
  have wf: "\<forall>r\<in>set rs. wf_record r" using assms(1) by (simp add: valid_log_def)
  have "length (contents f) div RecordSize = length rs"
    using assms(2,3) length_log_bytes [OF wf] by (simp add: add.commute)
  then have "wal_log (wal_Open f) rs"
    using wal_Open_log [OF holds_log_bytes [OF assms(2) wf]] assms(1) by (simp add: valid_log_def)
  then show ?thesis using readAll_log by (simp add: wal_log_def RecordCount_def)
qed

theorem wal_open_torn_tail_witness:
  "readAllLocked (wal_Open \<lparr>contents = encodeRecord (mark_record 1 1 RecordBegin) @ replicate 100 7, faults = []\<rparr>) =
     Inr [mark_record 1 1 RecordBegin]"
  using wal_open_torn_tail [of "[mark_record 1 1 RecordBegin]"
      "\<lparr>contents = encodeRecord (mark_record 1 1 RecordBegin) @ replicate 100 7, faults = []\<rparr>" "replicate 100 7"]
  by (simp add: valid_log_example wal_consts page_consts)

text \<open>C31: a damaged record ends the log: if any one byte of record \<open>k\<close> is changed, opening the file
  gives exactly the \<open>k\<close> records before it.\<close>

theorem wal_open_damaged_record:
  assumes "valid_log rs" and "contents f = concat (map encodeRecord rs)"
    and "k < length rs" and "i < RecordSize" and "v \<noteq> encodeRecord (rs ! k) ! i"
    and "g = f\<lparr>contents := (contents f)[k * RecordSize + i := v]\<rparr>"
  shows "readAllLocked (wal_Open g) = Inr (take k rs)"
proof -
  let ?r = "rs ! k"
  have wf: "\<forall>r\<in>set rs. wf_record r" using assms(1) by (simp add: valid_log_def)
  have len: "length (encodeRecord ?r) = RecordSize" using wf assms(3) by (simp add: wf_record_def)
  have rs: "rs = take k rs @ ?r # drop (Suc k) rs" using assms(3) by (rule id_take_nth_drop)
  have pre: "length (concat (map encodeRecord (take k rs))) = k * RecordSize"
    using length_log_bytes [of "take k rs"] wf assms(3) by (auto dest: in_set_takeD)
  have "contents f = concat (map encodeRecord (take k rs)) @ encodeRecord ?r @
      concat (map encodeRecord (drop (Suc k) rs))"
    unfolding assms(2) by (subst rs) simp
  then have g: "contents g = concat (map encodeRecord (take k rs)) @ (encodeRecord ?r)[i := v] @
      concat (map encodeRecord (drop (Suc k) rs))"
    using assms(4,6) pre len by (simp add: list_update_append)
  have wft: "\<forall>r\<in>set (take k rs). wf_record r" using wf by (auto dest: in_set_takeD)
  have hl: "holds_log g (take k rs)" using holds_log_bytes [OF g wft] .
  have "seg (k * RecordSize) RecordSize (contents g) = (encodeRecord ?r)[i := v]"
    unfolding g using pre len by (simp add: seg_append_right seg_append_left)
  then have bad: "\<exists>e. readRecordAt (length (take k rs)) g = Inl e"
    using decodeRecord_one_byte [of ?r i v] wf assms(3-5) by (auto simp: readRecordAt_def ReadAt_def min_def)
  have "valid_log (take k rs)"
    using assms(1) by (auto simp: valid_log_def counters_ok_def sorted_wrt_take take_map [symmetric] dest: in_set_takeD)
  then show ?thesis
    using wal_Open_log [OF hl] bad readAll_log by (simp add: valid_log_def)
qed

theorem wal_open_damaged_record_witness:
  "readAllLocked (wal_Open \<lparr>contents = (encodeRecord (mark_record 1 1 RecordBegin))[12 := 3], faults = []\<rparr>) = Inr []"
proof -
  let ?r = "mark_record 1 1 RecordBegin"
  have "encodeRecord ?r ! 12 = 1" by (simp add: encodeRecord_fields(3)) (simp add: mark_record_def record_types)
  then show ?thesis
    using wal_open_damaged_record [of "[?r]" "\<lparr>contents = encodeRecord ?r, faults = []\<rparr>" 0 12 3
        "\<lparr>contents = (encodeRecord ?r)[12 := 3], faults = []\<rparr>"]
    by (simp add: valid_log_example wal_consts page_consts)
qed

text \<open>C29: the log as a state machine: from an empty file, under any schedule of failing and torn writes,
  every sequence of \<open>AllocXID\<close>, \<open>AppendWrite\<close>, \<open>AppendCommit\<close> and \<open>AppendRollback\<close> keeps a readable log
  with strictly ascending positive LSNs, and the next transaction number is not used in it.\<close>

theorem wal_reachable_log:
  assumes "wal_step\<^sup>*\<^sup>* (wal_Open \<lparr>contents = [], faults = F\<rparr>) w"
  shows "\<exists>rs. readAllLocked w = Inr rs \<and> sorted_wrt (<) (map RLSN rs) \<and>
     (\<forall>r\<in>set rs. 0 < RLSN r \<and> RXID r \<noteq> nextXID w)"
proof -
  obtain rs where "wal_log w rs"
    using wal_steps_log [OF assms wal_Open_empty] by auto
  then show ?thesis using readAll_log by (intro exI [of _ rs]) (auto simp: wal_log_def)
qed

theorem wal_reachable_log_witness:
  "\<exists>w rs. wal_step\<^sup>*\<^sup>* (wal_Open \<lparr>contents = [], faults = [Some 7]\<rparr>) w \<and> readAllLocked w = Inr rs"
proof -
  let ?w0 = "wal_Open \<lparr>contents = [], faults = [Some 7]\<rparr>"
  have "wal_small ?w0" by (simp add: wal_Open_def scanInit_def wal_small_def)
  then have "wal_step ?w0 (snd (AllocXID ?w0))"
    by (intro wal_step.wal_alloc [of _ "fst (AllocXID ?w0)"]) simp_all
  then have "wal_step\<^sup>*\<^sup>* ?w0 (snd (AllocXID ?w0))" by blast
  from wal_reachable_log [OF this] this show ?thesis by blast
qed

section \<open>Properties of recovery\<close>

text \<open>C2: redo recovery is correct and does not depend on Go's map order. For a log \<open>rs\<close> and page files in
  which only pages with a committed image in the log may be damaged, \<open>Recover\<close> returns no error; afterwards
  every page file opens consistently with the same pages and free list, a page with a committed image reads
  as the last such image in the log, and every other page reads as before: nothing of an uncommitted
  transaction is applied.\<close>

theorem wal_recover_correct:
  assumes "wal_log w rs" and "recover_orders rs kord tord pord" and "recoverable rs d"
  shows "\<exists>d'. wal_Recover kord tord pord w d = (Inr (), d') \<and> dom d' = dom d \<and>
     (\<forall>t f. d t = Some f \<longrightarrow>
        (\<exists>pg q. pager_Open f = (Inr (), pg) \<and> d' t = Some (pfile q) \<and> pager_inv q \<and>
           totalPages q = totalPages pg \<and> freeList q = freeList pg \<and>
           (\<forall>i. 0 < i \<longrightarrow> i < totalPages pg \<longrightarrow>
              pager_page q i = (case last_image rs t i of
                  None \<Rightarrow> pager_page pg i
                | Some raw \<Rightarrow> (case Decode raw of Inl e \<Rightarrow> None | Inr p \<Rightarrow> Some p)))))"
  using wal_Recover_spec [OF assms] unfolding recovered_file_def .

text \<open>A log with one committed write of page 1 of the file \<open>t\<close>, and a file with that page.\<close>

definition example_image :: Page where
  "example_image = (NewPage 1 PageTypeData)\<lparr>Data := replicate DataSize 5\<rparr>"

definition example_log :: "WalRecord list" where
  "example_log =
     [mark_record 1 1 RecordBegin,
      \<lparr>RLSN = 2, RXID = 1, RType = RecordWrite, TableName = ''t'', RPageID = 1, PageData = Encode example_image\<rparr>,
      mark_record 3 1 RecordCommit]"

lemma wf_example_image [simp]: "wf_page example_image" "page_id example_image = 1"
  by (simp_all add: example_image_def wf_page_def NewPage_def)

lemma valid_example_log: "valid_log example_log"
  by (simp add: valid_log_def counters_ok_def example_log_def wf_record_def mark_record_def tableNameSize_def)

lemma last_image_example:
  "last_image example_log t i = (if t = ''t'' \<and> i = 1 then Some (Encode example_image) else None)"
  by (simp add: last_image_def example_log_def is_committed_write_def committed_xids_def mark_record_def record_types)

lemma example_dir:
  "\<exists>pg. pager_inv pg \<and> totalPages pg = 2 \<and> recoverable example_log [''t'' \<mapsto> pfile pg]"
proof -
  let ?q = "snd (pager_AllocatePage fresh_pager)"
  have q: "pager_AllocatePage fresh_pager = (Inr 1, ?q)" "totalPages ?q = 2" "freeList ?q = []"
    by (simp_all add: AllocatePage_grow)
  have "pager_inv ?q" using pager.alloc_room [OF pager_inv_fresh] q(1) by (auto simp: pager_room_def)
  moreover from this have "recoverable_file example_log ''t'' (pfile ?q)"
    unfolding recoverable_file_def using q(2) Decode_Encode [of example_image]
    by (intro exI [of _ ?q]) (auto simp: last_image_example pager_inv_but_def pager_inv_def)
  ultimately show ?thesis using q(2) by (auto simp: recoverable_def)
qed

theorem wal_recover_correct_witness:
  "\<exists>w d d' q. wal_Recover [(''t'', 1)] [''t''] (\<lambda>t. if t = ''t'' then [1] else []) w d = (Inr (), d') \<and>
     d' ''t'' = Some (pfile q) \<and> map_option Data (pager_page q 1) = Some (replicate DataSize 5)"
proof -
  let ?f = "\<lparr>contents = concat (map encodeRecord example_log), faults = []\<rparr>"
  have wf: "\<forall>r\<in>set example_log. wf_record r" using valid_example_log by (simp add: valid_log_def)
  have "holds_log ?f example_log" by (rule holds_log_bytes [of _ _ "[]"]) (simp_all add: wf)
  then have log: "wal_log (wal_Open ?f) example_log"
    using wal_Open_log [of ?f example_log] valid_example_log length_log_bytes [OF wf] by (simp add: valid_log_def)
  have ords: "recover_orders example_log [(''t'', 1)] [''t''] (\<lambda>t. if t = ''t'' then [1] else [])"
    by (auto simp: recover_orders_def last_image_example)
  obtain pg where pg: "pager_inv pg" "totalPages pg = 2" "recoverable example_log [''t'' \<mapsto> pfile pg]"
    using example_dir by blast
  let ?d = "[''t'' \<mapsto> pfile pg]"
  obtain d' where d': "wal_Recover [(''t'', 1)] [''t''] (\<lambda>t. if t = ''t'' then [1] else []) (wal_Open ?f) ?d = (Inr (), d')"
      "\<forall>t f. ?d t = Some f \<longrightarrow>
        (\<exists>pg q. pager_Open f = (Inr (), pg) \<and> d' t = Some (pfile q) \<and> pager_inv q \<and>
           totalPages q = totalPages pg \<and> freeList q = freeList pg \<and>
           (\<forall>i. 0 < i \<longrightarrow> i < totalPages pg \<longrightarrow>
              pager_page q i = (case last_image example_log t i of
                  None \<Rightarrow> pager_page pg i
                | Some raw \<Rightarrow> (case Decode raw of Inl e \<Rightarrow> None | Inr p \<Rightarrow> Some p))))"
    using wal_recover_correct [OF log ords pg(3)] by blast
  have "?d ''t'' = Some (pfile pg)" by simp
  then obtain pg' q where q: "pager_Open (pfile pg) = (Inr (), pg')" "d' ''t'' = Some (pfile q)"
      "\<forall>i. 0 < i \<longrightarrow> i < totalPages pg' \<longrightarrow>
              pager_page q i = (case last_image example_log ''t'' i of
                  None \<Rightarrow> pager_page pg' i
                | Some raw \<Rightarrow> (case Decode raw of Inl e \<Rightarrow> None | Inr p \<Rightarrow> Some p))"
    using d'(2) by blast
  have "pg' = pg" using q(1) pager_Open_inv [OF pg(1)] by simp
  then have "pager_page q 1 = Some (stored example_image)"
    using spec [OF q(3), of 1] pg(2) by (simp add: last_image_example Decode_Encode)
  then have "map_option Data (pager_page q 1) = Some (replicate DataSize 5)" by (simp add: example_image_def)
  then show ?thesis using d'(1) q(2) by blast
qed

end
