(* ===== verification/Catalog.thy ===== *)
theory Catalog
  imports Bytes
begin

text \<open>
  \<open>src/catalog/catalog.go\<close>: table schemas, secondary index definitions, the
  in-memory dictionary and its binary file.

  The dictionary is where the program shares memory: \<open>Catalog.indexes\<close> holds
  pointers into the backing arrays of the slices \<open>Table.Indexes\<close>. The model keeps
  those arrays in an explicit store (\<open>cat_arrays\<close>); a slice is the number of its
  array and its length, its capacity is the length of the array, and a pointer
  is an array number with a position. \<open>append\<close> writes in place when the capacity
  allows and reallocates otherwise.
\<close>

section \<open>Schemas\<close>

definition IntColSize :: nat where "IntColSize = 8"
definition TextColSize :: nat where "TextColSize = 48"
definition catalogMagicV2 :: u32 where "catalogMagicV2 = 0xCA7A1061"

type_synonym DataType = byte

definition TypeInt :: DataType where "TypeInt = 0"
definition TypeText :: DataType where "TypeText = 1"

record ColumnDef =
  colName :: string
  colType :: DataType

record Value =
  valType :: DataType
  IntVal :: u64
  TextVal :: string

record IndexDef =
  idxName :: string
  idxTable :: string
  idxColumn :: string

text \<open>The schema of a relation, over the representation of its slice of indexes: a list
  where the slice is only read, a reference to a backing array in the dictionary.\<close>

record 'i table_of =
  tblName :: string
  tblColumns :: "ColumnDef list"
  tblIndexes :: 'i

type_synonym Table = "IndexDef list table_of"

definition PrimaryKeyIndex :: "'i table_of \<Rightarrow> nat option" where
  "PrimaryKeyIndex t = find_index (\<lambda>c. colType c = TypeInt) (tblColumns t)"

definition ColIndex :: "'i table_of \<Rightarrow> string \<Rightarrow> nat option" where
  "ColIndex t name =
     (let lower = ToLower name in
      find_index (\<lambda>c. ToLower (colName c) = lower) (tblColumns t))"

definition IndexForColumn :: "Table \<Rightarrow> string \<Rightarrow> IndexDef option" where
  "IndexForColumn t name =
     (let lower = ToLower name in
      find (\<lambda>d. ToLower (idxColumn d) = lower) (tblIndexes t))"

text \<open>\<open>Table.Decode\<close>: a slice expression beyond the buffer panics; a column of any
  other type leaves the zero value and does not advance.\<close>

definition zeroValue :: Value where
  "zeroValue = \<lparr>valType = 0, IntVal = 0, TextVal = []\<rparr>"

definition intValue :: "u64 \<Rightarrow> Value" where
  "intValue n = \<lparr>valType = TypeInt, IntVal = n, TextVal = []\<rparr>"

definition textValue :: "string \<Rightarrow> Value" where
  "textValue s = \<lparr>valType = TypeText, IntVal = 0, TextVal = s\<rparr>"

fun decode_columns :: "ColumnDef list \<Rightarrow> byte list \<Rightarrow> nat \<Rightarrow> go_error + Value list" where
  "decode_columns [] buf off = Inr []"
| "decode_columns (c # cs) buf off =
     (if colType c = TypeInt then
        (if off + IntColSize \<le> length buf then
           map_sum id ((#) (intValue (from_le (seg off IntColSize buf))))
             (decode_columns cs buf (off + IntColSize))
         else Inl Panic)
      else if colType c = TypeText then
        (if off + TextColSize \<le> length buf then
           map_sum id ((#) (textValue (bytes_string (trim_nul (seg off TextColSize buf)))))
             (decode_columns cs buf (off + TextColSize))
         else Inl Panic)
      else map_sum id ((#) zeroValue) (decode_columns cs buf off))"

definition Table_Decode :: "'i table_of \<Rightarrow> byte list \<Rightarrow> go_error + Value list" where
  "Table_Decode t buf = decode_columns (tblColumns t) buf 0"

section \<open>The dictionary\<close>

record idx_slice =
  arr :: nat
  len :: nat

type_synonym stored_table = "idx_slice table_of"

record Catalog =
  cat_tables :: "string \<Rightarrow> stored_table option"
  cat_indexes :: "string \<Rightarrow> (nat \<times> nat) option"
  cat_arrays :: "IndexDef list list"
  cat_file :: go_file

definition catalog_New :: "go_file \<Rightarrow> Catalog" where
  "catalog_New f = \<lparr>cat_tables = (\<lambda>_. None), cat_indexes = (\<lambda>_. None), cat_arrays = [], cat_file = f\<rparr>"

definition slice_list :: "IndexDef list list \<Rightarrow> idx_slice \<Rightarrow> IndexDef list" where
  "slice_list as s = take (len s) (as ! arr s)"

text \<open>What a reader of \<open>*Table\<close> sees.\<close>

definition table_view :: "IndexDef list list \<Rightarrow> stored_table \<Rightarrow> Table" where
  "table_view as t = \<lparr>tblName = tblName t, tblColumns = tblColumns t,
                      tblIndexes = slice_list as (tblIndexes t)\<rparr>"

definition GetTable :: "Catalog \<Rightarrow> string \<Rightarrow> Table option" where
  "GetTable c name = map_option (table_view (cat_arrays c)) (cat_tables c (ToLower name))"

definition GetIndex :: "Catalog \<Rightarrow> string \<Rightarrow> IndexDef option" where
  "GetIndex c name = map_option (\<lambda>(a, i). cat_arrays c ! a ! i) (cat_indexes c (ToLower name))"

text \<open>\<open>for _, t := range c.tables\<close> visits the tables in an order that Go leaves open: the
  parameter \<open>ord\<close> lists the keys in the order of the visit.\<close>

definition Tables :: "string list \<Rightarrow> Catalog \<Rightarrow> Table list" where
  "Tables ord c = map (\<lambda>k. table_view (cat_arrays c) (the (cat_tables c k))) ord"

definition zeroIndexDef :: IndexDef where
  "zeroIndexDef = \<lparr>idxName = [], idxTable = [], idxColumn = []\<rparr>"

text \<open>\<open>append(s, x)\<close>; \<open>grow n\<close> is the capacity the runtime picks for a slice that was full
  with \<open>n\<close> elements (it is at least \<open>n + 1\<close>).\<close>

definition append_idx ::
  "(nat \<Rightarrow> nat) \<Rightarrow> idx_slice \<Rightarrow> IndexDef \<Rightarrow> IndexDef list list \<Rightarrow> idx_slice \<times> IndexDef list list" where
  "append_idx grow s x as =
     (let a = as ! arr s in
      if len s < length a then
        (\<lparr>arr = arr s, len = Suc (len s)\<rparr>, as[arr s := a[len s := x]])
      else
        (\<lparr>arr = length as, len = Suc (len s)\<rparr>,
         as @ [take (len s) a @ [x] @ replicate (grow (len s) - Suc (len s)) zeroIndexDef]))"

text \<open>\<open>append(s[:i], s[i+1:]...)\<close>: the tail moves down inside the backing array, and the
  last cell keeps its old value.\<close>

definition remove_idx ::
  "nat \<Rightarrow> idx_slice \<Rightarrow> IndexDef list list \<Rightarrow> idx_slice \<times> IndexDef list list" where
  "remove_idx i s as =
     (let a = as ! arr s in
      (\<lparr>arr = arr s, len = len s - 1\<rparr>,
       as[arr s := take i a @ drop (Suc i) (take (len s) a) @ drop (len s - 1) a]))"

section \<open>The file\<close>

definition os_Create :: "(go_file, unit) go" where
  "os_Create f =
     (case faults f of
        Some _ # fs \<Rightarrow> (Inl WriteFault, f\<lparr>faults := fs\<rparr>)
      | None # fs \<Rightarrow> (Inr (), f\<lparr>contents := [], faults := fs\<rparr>)
      | [] \<Rightarrow> (Inr (), f\<lparr>contents := []\<rparr>))"

definition file_Write :: "byte list \<Rightarrow> (go_file, unit) go" where
  "file_Write bs f = WriteAt bs (length (contents f)) f"

text \<open>A run of \<open>w.Write\<close> calls, each followed by \<open>if err != nil { return err }\<close>.\<close>

primrec write_all :: "byte list list \<Rightarrow> (go_file, unit) go" where
  "write_all [] = returnG ()"
| "write_all (b # bs) = bindG (file_Write b) (\<lambda>_. write_all bs)"

definition len_byte :: "'a list \<Rightarrow> byte" where
  "len_byte xs = word_of_nat (length xs)"

definition column_chunks :: "ColumnDef \<Rightarrow> byte list list" where
  "column_chunks c = [[len_byte (colName c)], string_bytes (colName c), [colType c]]"

definition index_chunks :: "IndexDef \<Rightarrow> byte list list" where
  "index_chunks d = [[len_byte (idxName d)], string_bytes (idxName d),
                     [len_byte (idxColumn d)], string_bytes (idxColumn d)]"

definition table_chunks :: "Table \<Rightarrow> byte list list" where
  "table_chunks t =
     [[len_byte (tblName t)], string_bytes (tblName t), [len_byte (tblColumns t)]]
     @ concat (map column_chunks (tblColumns t))
     @ [[len_byte (tblIndexes t)]]
     @ concat (map index_chunks (tblIndexes t))"

definition writeTable :: "Table \<Rightarrow> (go_file, unit) go" where
  "writeTable t = write_all (table_chunks t)"

primrec writeTables :: "Table list \<Rightarrow> (go_file, unit) go" where
  "writeTables [] = returnG ()"
| "writeTables (t # ts) = bindG (writeTable t) (\<lambda>_. writeTables ts)"

definition catalog_serialize :: "string list \<Rightarrow> Catalog \<Rightarrow> (go_file, unit) go" where
  "catalog_serialize ord c =
     bindG (file_Write (le32 catalogMagicV2)) (\<lambda>_.
     bindG (file_Write (le16 (word_of_nat (length ord)))) (\<lambda>_.
     writeTables (Tables ord c)))"

definition catalog_Save :: "string list \<Rightarrow> (Catalog, unit) go" where
  "catalog_Save ord c =
     (case bindG os_Create (\<lambda>_. catalog_serialize ord c) (cat_file c) of
        (r, f) \<Rightarrow> (r, c\<lparr>cat_file := f\<rparr>))"

text \<open>\<open>io.ReadFull\<close> on the rest of the file.\<close>

definition ReadFull :: "nat \<Rightarrow> (byte list, byte list) go" where
  "ReadFull n bs = (if n \<le> length bs then (Inr (take n bs), drop n bs) else (Inl ReadEOF, []))"

definition read_byte :: "(byte list, byte) go" where
  "read_byte = bindG (ReadFull 1) (\<lambda>b. returnG (hd b))"

definition read_string :: "(byte list, string) go" where
  "read_string = bindG read_byte (\<lambda>n. bindG (ReadFull (unat n)) (\<lambda>b. returnG (bytes_string b)))"

primrec read_times :: "nat \<Rightarrow> (byte list, 'a) go \<Rightarrow> (byte list, 'a list) go" where
  "read_times 0 m = returnG []"
| "read_times (Suc n) m = bindG m (\<lambda>x. bindG (read_times n m) (\<lambda>xs. returnG (x # xs)))"

definition read_column :: "(byte list, ColumnDef) go" where
  "read_column = bindG read_string (\<lambda>n. bindG read_byte (\<lambda>ty. returnG \<lparr>colName = n, colType = ty\<rparr>))"

definition read_index :: "string \<Rightarrow> (byte list, IndexDef) go" where
  "read_index tname = bindG read_string (\<lambda>n. bindG read_string (\<lambda>col.
     returnG \<lparr>idxName = n, idxTable = ToLower tname, idxColumn = col\<rparr>))"

definition readTable :: "(byte list, Table) go" where
  "readTable =
     bindG read_string (\<lambda>tableName.
     bindG read_byte (\<lambda>ncols.
     bindG (read_times (unat ncols) read_column) (\<lambda>cols.
     bindG read_byte (\<lambda>nidx.
     bindG (read_times (unat nidx) (read_index tableName)) (\<lambda>idxs.
     returnG \<lparr>tblName = tableName, tblColumns = cols, tblIndexes = idxs\<rparr>)))))"

text \<open>The body of the loop of \<open>deserialize\<close>: the table gets a backing array of exactly the
  size read, and every index of it a pointer into that array.\<close>

definition register_indexes ::
  "nat \<Rightarrow> IndexDef list \<Rightarrow> (string \<Rightarrow> (nat \<times> nat) option) \<Rightarrow> string \<Rightarrow> (nat \<times> nat) option" where
  "register_indexes a ds m =
     fold (\<lambda>i m. m(ToLower (idxName (ds ! i)) \<mapsto> (a, i))) [0..<length ds] m"

definition add_loaded :: "Table \<Rightarrow> Catalog \<Rightarrow> Catalog" where
  "add_loaded t c =
     (let a = length (cat_arrays c); ds = tblIndexes t in
      c\<lparr>cat_tables := (cat_tables c)(ToLower (tblName t) \<mapsto>
           \<lparr>tblName = tblName t, tblColumns = tblColumns t, tblIndexes = \<lparr>arr = a, len = length ds\<rparr>\<rparr>),
        cat_indexes := register_indexes a ds (cat_indexes c),
        cat_arrays := cat_arrays c @ [ds]\<rparr>)"

primrec load_tables :: "nat \<Rightarrow> Catalog \<Rightarrow> (byte list, Catalog) go" where
  "load_tables 0 c = returnG c"
| "load_tables (Suc n) c = bindG readTable (\<lambda>t. load_tables n (add_loaded t c))"

definition catalog_deserialize :: "Catalog \<Rightarrow> (byte list, Catalog) go" where
  "catalog_deserialize c =
     bindG (ReadFull 4) (\<lambda>magic.
       (let m = from_le magic :: u32 in
        if m = 0xCA7A1060 then failG CatalogV1
        else if m \<noteq> catalogMagicV2 then failG (BadCatalogMagic m)
        else bindG (ReadFull 2) (\<lambda>n. load_tables (unat (from_le n :: u16)) c)))"

text \<open>\<open>Load\<close>: a file that does not exist is an empty catalog.\<close>

definition catalog_Load :: "go_file option \<Rightarrow> go_error + Catalog" where
  "catalog_Load path =
     (case path of
        None \<Rightarrow> Inr (catalog_New empty_file)
      | Some f \<Rightarrow> fst (catalog_deserialize (catalog_New f) (contents f)))"

section \<open>Changing the dictionary\<close>

definition CreateTable :: "string list \<Rightarrow> Table \<Rightarrow> (Catalog, unit) go" where
  "CreateTable ord t c =
     (let key = ToLower (tblName t) in
      if cat_tables c key \<noteq> None then (Inl (TableExists (tblName t)), c)
      else catalog_Save ord
        (c\<lparr>cat_tables := (cat_tables c)(key \<mapsto>
              \<lparr>tblName = tblName t, tblColumns = tblColumns t,
               tblIndexes = \<lparr>arr = length (cat_arrays c), len = length (tblIndexes t)\<rparr>\<rparr>),
           cat_arrays := cat_arrays c @ [tblIndexes t]\<rparr>))"

definition CreateIndex :: "(nat \<Rightarrow> nat) \<Rightarrow> string list \<Rightarrow> IndexDef \<Rightarrow> (Catalog, unit) go" where
  "CreateIndex grow ord d c =
     (let tableKey = ToLower (idxTable d) in
      case cat_tables c tableKey of
        None \<Rightarrow> (Inl (TableMissing (idxTable d)), c)
      | Some tbl \<Rightarrow>
        (case ColIndex tbl (idxColumn d) of
           None \<Rightarrow> (Inl (ColumnMissing (idxColumn d)), c)
         | Some colIdx \<Rightarrow>
           if colType (tblColumns tbl ! colIdx) \<noteq> TypeInt then (Inl (ColumnNotInt (idxColumn d)), c)
           else let idxKey = ToLower (idxName d) in
           if cat_indexes c idxKey \<noteq> None then (Inl (IndexExists (idxName d)), c)
           else if IndexForColumn (table_view (cat_arrays c) tbl) (idxColumn d) \<noteq> None
             then (Inl (ColumnHasIndex (idxColumn d)), c)
           else let d' = d\<lparr>idxTable := tableKey, idxColumn := ToLower (idxColumn d)\<rparr>;
                    (s, as) = append_idx grow (tblIndexes tbl) d' (cat_arrays c)
                in catalog_Save ord
                     (c\<lparr>cat_tables := (cat_tables c)(tableKey \<mapsto> tbl\<lparr>tblIndexes := s\<rparr>),
                        cat_indexes := (cat_indexes c)(idxKey \<mapsto> (arr s, len s - 1)),
                        cat_arrays := as\<rparr>)))"

definition DropIndex :: "string list \<Rightarrow> string \<Rightarrow> (Catalog, unit) go" where
  "DropIndex ord indexName c =
     (let key = ToLower indexName in
      case cat_indexes c key of
        None \<Rightarrow> (Inl (IndexMissing indexName), c)
      | Some (a, i) \<Rightarrow>
        (let tname = idxTable (cat_arrays c ! a ! i) in
         case cat_tables c tname of
           None \<Rightarrow> (Inl (TableMissing tname), c)
         | Some tbl \<Rightarrow>
           (let (s, as) =
              (case find_index (\<lambda>d. ToLower (idxName d) = key)
                      (slice_list (cat_arrays c) (tblIndexes tbl)) of
                 None \<Rightarrow> (tblIndexes tbl, cat_arrays c)
               | Some j \<Rightarrow> remove_idx j (tblIndexes tbl) (cat_arrays c))
            in catalog_Save ord
                 (c\<lparr>cat_tables := (cat_tables c)(tname \<mapsto> tbl\<lparr>tblIndexes := s\<rparr>),
                    cat_indexes := (cat_indexes c)(key := None),
                    cat_arrays := as\<rparr>))))"


section \<open>The codec\<close>

definition table_codable :: "Table \<Rightarrow> bool" where
  "table_codable t \<longleftrightarrow>
     length (tblName t) < 256 \<and> length (tblColumns t) < 256 \<and> length (tblIndexes t) < 256 \<and>
     (\<forall>c \<in> set (tblColumns t). length (colName c) < 256) \<and>
     (\<forall>d \<in> set (tblIndexes t). length (idxName d) < 256 \<and> length (idxColumn d) < 256 \<and>
        idxTable d = ToLower (tblName t))"

lemma unat_len_byte [simp, codec_simps]: "length xs < 256 \<Longrightarrow> unat (len_byte xs) = length xs"
  by (simp add: len_byte_def unat_of_nat)

lemma read_byte_Cons [simp, codec_simps]: "read_byte (b # bs) = (Inr b, bs)"
  by (simp add: read_byte_def bindG_def ReadFull_def)

lemma ReadFull_append [simp, codec_simps]:
  "n = length xs \<Longrightarrow> ReadFull n (xs @ ys) = (Inr xs, ys)"
  by (simp add: ReadFull_def)

lemma read_string_append [simp, codec_simps]:
  "length s < 256 \<Longrightarrow> read_string (len_byte s # string_bytes s @ ys) = (Inr s, ys)"
  by (simp add: read_string_def bindG_def)

lemma read_column_append:
  "length (colName c) < 256 \<Longrightarrow> read_column (concat (column_chunks c) @ ys) = (Inr c, ys)"
  by (simp add: read_column_def column_chunks_def bindG_def)

lemma read_index_append:
  "length (idxName d) < 256 \<Longrightarrow> length (idxColumn d) < 256 \<Longrightarrow> idxTable d = ToLower t \<Longrightarrow>
   read_index t (concat (index_chunks d) @ ys) = (Inr d, ys)"
  by (simp add: read_index_def index_chunks_def bindG_def)

lemma read_times_append:
  assumes "\<And>x zs. x \<in> set xs \<Longrightarrow> m (enc x @ zs) = (Inr x, zs)"
  shows "read_times (length xs) m (concat (map enc xs) @ ys) = (Inr xs, ys)"
  using assms
  by (induction xs) (simp_all add: bindG_def)

lemma concat_concat_map: "concat (concat (map f xs)) = concat (map (\<lambda>x. concat (f x)) xs)"
  by (induction xs) simp_all

lemma readTable_append:
  assumes "table_codable t"
  shows "readTable (concat (table_chunks t) @ ys) = (Inr t, ys)"
proof -
  have cols: "read_times (length (tblColumns t)) read_column
      (concat (map (\<lambda>c. concat (column_chunks c)) (tblColumns t)) @ zs) = (Inr (tblColumns t), zs)" for zs
    by (rule read_times_append) (use assms in \<open>auto simp: table_codable_def read_column_append\<close>)
  have idxs: "read_times (length (tblIndexes t)) (read_index (tblName t))
      (concat (map (\<lambda>c. concat (index_chunks c)) (tblIndexes t)) @ zs) = (Inr (tblIndexes t), zs)" for zs
    by (rule read_times_append) (use assms in \<open>auto simp: table_codable_def read_index_append\<close>)
  show ?thesis
    using assms cols idxs
    by (simp add: readTable_def table_chunks_def bindG_def concat_concat_map table_codable_def)
qed

lemma file_Write_ok [simp]:
  "faults f = [] \<Longrightarrow> file_Write bs f = (Inr (), f\<lparr>contents := contents f @ bs\<rparr>)"
  by (simp add: file_Write_def write_bytes_def put_def)

lemma write_all_ok [simp]:
  "faults f = [] \<Longrightarrow> write_all bss f = (Inr (), f\<lparr>contents := contents f @ concat bss\<rparr>)"
  by (induction bss arbitrary: f) (simp_all add: bindG_def)

lemma writeTables_ok [simp]:
  "faults f = [] \<Longrightarrow> writeTables ts f =
     (Inr (), f\<lparr>contents := contents f @ concat (map (\<lambda>t. concat (table_chunks t)) ts)\<rparr>)"
  by (induction ts arbitrary: f) (simp_all add: bindG_def writeTable_def)

definition catalog_bytes :: "Table list \<Rightarrow> byte list" where
  "catalog_bytes ts = le32 catalogMagicV2 @ le16 (word_of_nat (length ts))
     @ concat (map (\<lambda>t. concat (table_chunks t)) ts)"

lemma length_Tables [simp]: "length (Tables ord c) = length ord"
  by (simp add: Tables_def)

lemma catalog_Save_ok:
  "faults (cat_file c) = [] \<Longrightarrow>
   catalog_Save ord c = (Inr (), c\<lparr>cat_file := (cat_file c)\<lparr>contents := catalog_bytes (Tables ord c)\<rparr>\<rparr>)"
  by (simp add: catalog_Save_def os_Create_def catalog_serialize_def bindG_def catalog_bytes_def)

lemma catalog_Save_mem:
  "catalog_Save ord c = (r, c') \<Longrightarrow> \<exists>f. c' = c\<lparr>cat_file := f\<rparr>"
  by (auto simp: catalog_Save_def split: prod.splits)

lemma load_tables_append:
  assumes "\<And>t. t \<in> set ts \<Longrightarrow> table_codable t"
  shows "load_tables (length ts) c (concat (map (\<lambda>t. concat (table_chunks t)) ts) @ ys)
           = (Inr (fold add_loaded ts c), ys)"
  using assms
  by (induction ts arbitrary: c) (simp_all add: bindG_def readTable_append)

lemma catalog_deserialize_bytes:
  assumes "\<And>t. t \<in> set ts \<Longrightarrow> table_codable t" and "length ts < 65536"
  shows "catalog_deserialize c (catalog_bytes ts) = (Inr (fold add_loaded ts c), [])"
proof -
  have "unat (word_of_nat (length ts) :: u16) = length ts"
    using assms(2) by (simp add: unat_of_nat)
  then show ?thesis
    using load_tables_append [of ts c "[]"] assms(1)
    by (simp add: catalog_deserialize_def bindG_def catalog_bytes_def catalogMagicV2_def Let_def)
qed


section \<open>Slices\<close>

lemma append_idx_list:
  assumes "append_idx grow s x as = (s', as')" and "arr s < length as" and "len s \<le> length (as ! arr s)"
  shows "slice_list as' s' = slice_list as s @ [x]"
    and "arr s' < length as'" and "len s' \<le> length (as' ! arr s')" and "len s' = Suc (len s)"
    and "as' ! arr s' ! len s = x"
  using assms
  by (auto simp: append_idx_def slice_list_def Let_def take_Suc_conv_app_nth nth_append split: if_splits)

lemma append_idx_frame:
  assumes "append_idx grow s x as = (s', as')" and "arr s < length as" and "b < length as"
  shows "length as \<le> length as'" and "length (as' ! b) = length (as ! b)"
    and "b \<noteq> arr s \<Longrightarrow> as' ! b = as ! b"
    and "as' ! arr s ! i = as ! arr s ! i \<or> i = len s \<and> as' ! arr s ! i = x \<or> length (as ! arr s) \<le> i"
    and "arr s' = arr s \<or> length as \<le> arr s'"
  using assms
  by (auto simp: append_idx_def Let_def nth_list_update nth_append split: if_splits)

lemma take_remove:
  assumes "i < n" and "n \<le> length a"
  shows "take (n - 1) (take i a @ drop (Suc i) (take n a) @ r) = take i (take n a) @ drop (Suc i) (take n a)"
proof -
  have "length (take i a @ drop (Suc i) (take n a)) = n - 1" using assms by simp
  then show ?thesis using assms by (metis append_assoc append_eq_conv_conj less_imp_le min.absorb1 take_take)
qed

lemma remove_idx_list:
  assumes "remove_idx i s as = (s', as')" and "arr s < length as" and "len s \<le> length (as ! arr s)"
    and "i < len s"
  shows "slice_list as' s' = take i (slice_list as s) @ drop (Suc i) (slice_list as s)"
    and "arr s' = arr s" and "len s' \<le> length (as' ! arr s')" and "length as' = length as"
    and "length (as' ! b) = length (as ! b)" and "b \<noteq> arr s \<Longrightarrow> as' ! b = as ! b"
proof -
  let ?a = "as ! arr s"
  have s': "s' = \<lparr>arr = arr s, len = len s - 1\<rparr>"
    and as': "as' = as[arr s := take i ?a @ drop (Suc i) (take (len s) ?a) @ drop (len s - 1) ?a]"
    using assms(1) by (auto simp: remove_idx_def Let_def)
  show "slice_list as' s' = take i (slice_list as s) @ drop (Suc i) (slice_list as s)"
    unfolding slice_list_def s' as' using assms by (simp add: take_remove [simplified])
  have l: "length (take i ?a @ drop (Suc i) (take (len s) ?a) @ drop (len s - 1) ?a) = length ?a"
    using assms(3,4) by simp
  show "arr s' = arr s" "length as' = length as" using s' as' by simp_all
  show "length (as' ! b) = length (as ! b)" "b \<noteq> arr s \<Longrightarrow> as' ! b = as ! b"
    unfolding as' using l assms(2) by (cases "b = arr s"; simp)+
  show "len s' \<le> length (as' ! arr s')"
    unfolding as' s' using l assms(2,3) by simp
qed

lemma remove_idx_cell:
  assumes "remove_idx i s as = (s', as')" and "arr s < length as" and "len s \<le> length (as ! arr s)"
    and "i < len s" and "j < length (as ! arr s)"
  shows "as' ! arr s ! j = as ! arr s ! j \<or> as' ! arr s ! j \<in> set (slice_list as s)"
proof -
  let ?a = "as ! arr s"
  have a': "as' ! arr s = take i ?a @ drop (Suc i) (take (len s) ?a) @ drop (len s - 1) ?a"
    using assms by (auto simp: remove_idx_def Let_def)
  consider "j < i" | "i \<le> j" "j < len s - 1" | "len s - 1 \<le> j" by linarith
  then show ?thesis
  proof cases
    case 2
    then have "as' ! arr s ! j = take (len s) ?a ! Suc j"
      using a' assms by (auto simp: nth_append min_def)
    moreover have "take (len s) ?a ! Suc j \<in> set (take (len s) ?a)"
      using 2 assms by (intro nth_mem) simp
    ultimately show ?thesis by (simp add: slice_list_def)
  qed (use a' assms in \<open>auto simp: nth_append min_def\<close>)
qed

section \<open>The invariant of the dictionary\<close>

definition idx_names :: "IndexDef list list \<Rightarrow> stored_table \<Rightarrow> string list" where
  "idx_names as t = map (\<lambda>d. ToLower (idxName d)) (slice_list as (tblIndexes t))"

lemma find_index_idx_names:
  assumes "find_index (\<lambda>d. ToLower (idxName d) = key) (slice_list as (tblIndexes t)) = Some j"
  shows "key \<in> set (idx_names as t)"
proof -
  have "ToLower (idxName (slice_list as (tblIndexes t) ! j)) = key" "j < length (slice_list as (tblIndexes t))"
    using find_index_SomeD [OF assms] by auto
  then have "idx_names as t ! j = key" "j < length (idx_names as t)" by (simp_all add: idx_names_def)
  then show ?thesis by (metis nth_mem)
qed

text \<open>A stored table: its key, the bounds of its slice, and that every index of it is on an
  INT column, no two on the same column and no two of the same name.\<close>

definition index_ok :: "string \<Rightarrow> stored_table \<Rightarrow> IndexDef \<Rightarrow> bool" where
  "index_ok k t d \<longleftrightarrow> idxTable d = k \<and> ToLower (idxColumn d) = idxColumn d \<and>
     (case ColIndex t (idxColumn d) of None \<Rightarrow> False | Some i \<Rightarrow> colType (tblColumns t ! i) = TypeInt)"

definition table_ok :: "IndexDef list list \<Rightarrow> string \<Rightarrow> stored_table \<Rightarrow> bool" where
  "table_ok as k t \<longleftrightarrow>
     k = ToLower (tblName t) \<and> arr (tblIndexes t) < length as \<and>
     len (tblIndexes t) \<le> length (as ! arr (tblIndexes t)) \<and>
     (\<forall>d \<in> set (slice_list as (tblIndexes t)). index_ok k t d) \<and>
     distinct (map idxColumn (slice_list as (tblIndexes t))) \<and>
     distinct (idx_names as t)"

text \<open>The memory of the dictionary: tables do not share arrays, index names are unique across
  tables and exactly the registered ones, and the cell behind a registered pointer, whatever
  index it now describes, names the table that the index belongs to.\<close>

definition dict_inv ::
  "(string \<Rightarrow> stored_table option) \<Rightarrow> (string \<Rightarrow> (nat \<times> nat) option) \<Rightarrow> IndexDef list list \<Rightarrow> bool" where
  "dict_inv T X as \<longleftrightarrow>
     (\<forall>k t. T k = Some t \<longrightarrow> table_ok as k t) \<and>
     (\<forall>k t l u. T k = Some t \<longrightarrow> T l = Some u \<longrightarrow>
        arr (tblIndexes t) = arr (tblIndexes u) \<longrightarrow> k = l) \<and>
     (\<forall>k t n. T k = Some t \<longrightarrow> n \<in> set (idx_names as t) \<longrightarrow>
        X n \<noteq> None) \<and>
     (\<forall>k t l u n. T k = Some t \<longrightarrow> T l = Some u \<longrightarrow>
        n \<in> set (idx_names as t) \<longrightarrow> n \<in> set (idx_names as u) \<longrightarrow> k = l) \<and>
     (\<forall>n a i. X n = Some (a, i) \<longrightarrow>
        a < length as \<and> i < length (as ! a) \<and>
        (\<exists>t. T (idxTable (as ! a ! i)) = Some t \<and>
             n \<in> set (idx_names as t))) \<and>
     (\<forall>k t n i. T k = Some t \<longrightarrow> X n = Some (arr (tblIndexes t), i) \<longrightarrow>
        idxTable (as ! arr (tblIndexes t) ! i) = k)"

definition catalog_inv :: "Catalog \<Rightarrow> bool" where
  "catalog_inv c \<longleftrightarrow> dict_inv (cat_tables c) (cat_indexes c) (cat_arrays c)"

lemma dict_invD:
  assumes "dict_inv T X as"
  shows "T k = Some t \<Longrightarrow> table_ok as k t"
    and "T k = Some t \<Longrightarrow> T l = Some u \<Longrightarrow>
         arr (tblIndexes t) = arr (tblIndexes u) \<Longrightarrow> k = l"
    and "T k = Some t \<Longrightarrow> n \<in> set (idx_names as t) \<Longrightarrow> X n \<noteq> None"
    and "T k = Some t \<Longrightarrow> T l = Some u \<Longrightarrow>
         n \<in> set (idx_names as t) \<Longrightarrow> n \<in> set (idx_names as u) \<Longrightarrow> k = l"
    and "X n = Some (a, i) \<Longrightarrow>
         a < length as \<and> i < length (as ! a) \<and>
         (\<exists>t. T (idxTable (as ! a ! i)) = Some t \<and>
              n \<in> set (idx_names as t))"
    and "T k = Some t \<Longrightarrow> X n = Some (arr (tblIndexes t), i) \<Longrightarrow>
         idxTable (as ! arr (tblIndexes t) ! i) = k"
  using assms unfolding dict_inv_def by - (elim conjE, metis)+

lemma catalog_inv_file [simp]: "catalog_inv (c\<lparr>cat_file := f\<rparr>) = catalog_inv c"
  by (simp add: catalog_inv_def)

lemma catalog_inv_New [simp]: "catalog_inv (catalog_New f)"
  by (simp add: catalog_inv_def dict_inv_def catalog_New_def)

lemma table_ok_frame:
  "table_ok as k t \<Longrightarrow> length as \<le> length as' \<Longrightarrow> as' ! arr (tblIndexes t) = as ! arr (tblIndexes t) \<Longrightarrow>
   table_ok as' k t \<and> idx_names as' t = idx_names as t"
  by (auto simp: table_ok_def slice_list_def idx_names_def)

text \<open>A change to the slice of one table, with the index \<open>key\<close> added or removed.\<close>

lemma dict_inv_change:
  assumes ok: "dict_inv T X as" and t: "T k = Some t"
    and ok': "table_ok as' k t'"
    and frame: "length as \<le> length as'" "\<And>b. b < length as \<Longrightarrow> length (as' ! b) = length (as ! b)"
      "\<And>b. b < length as \<Longrightarrow> b \<noteq> arr (tblIndexes t) \<Longrightarrow> as' ! b = as ! b"
    and cells: "\<And>i. i < length (as ! arr (tblIndexes t)) \<Longrightarrow>
      as' ! arr (tblIndexes t) ! i = as ! arr (tblIndexes t) ! i \<or> idxTable (as' ! arr (tblIndexes t) ! i) = k"
    and fresh: "arr (tblIndexes t') = arr (tblIndexes t) \<or> length as \<le> arr (tblIndexes t')"
    and names: "set (idx_names as' t') = set (idx_names as t) - {key} \<union> (if p = None then {} else {key})"
    and key: "\<And>l u. T l = Some u \<Longrightarrow> key \<in> set (idx_names as u) \<Longrightarrow> l = k"
    and p: "\<And>a i. p = Some (a, i) \<Longrightarrow> a = arr (tblIndexes t') \<and> i < length (as' ! a) \<and> idxTable (as' ! a ! i) = k"
  shows "dict_inv (T(k \<mapsto> t')) (X(key := p)) as'"
proof -
  note D = dict_invD [OF ok]
  have inb: "arr (tblIndexes u) < length as" if "T l = Some u" for l u
    using D(1) [OF that] by (simp add: table_ok_def)
  have other: "table_ok as' l u \<and> idx_names as' u = idx_names as u \<and> arr (tblIndexes u) \<noteq> arr (tblIndexes t')"
    if "T l = Some u" "l \<noteq> k" for l u
  proof -
    have ne: "arr (tblIndexes u) \<noteq> arr (tblIndexes t)" using D(2) [OF that(1) t] that(2) by blast
    then show ?thesis
      using table_ok_frame [OF D(1) [OF that(1)] frame(1) frame(3)] inb [OF that(1)] fresh by auto
  qed
  have cell: "idxTable (as' ! a ! i) = idxTable (as ! a ! i) \<and> a < length as' \<and> i < length (as' ! a)"
    if "X n = Some (a, i)" for n a i
  proof (cases "a = arr (tblIndexes t)")
    case True
    then have "idxTable (as ! a ! i) = k" using D(6) [OF t] that by simp
    then show ?thesis using True cells D(5) [OF that] frame(1,2) by force
  next
    case False
    then show ?thesis using D(5) [OF that] frame by force
  qed
  have old: "\<exists>u. (T(k \<mapsto> t')) (idxTable (as' ! a ! i)) = Some u \<and> n \<in> set (idx_names as' u)"
    if n: "X n = Some (a, i)" "n \<noteq> key" for n a i
  proof -
    obtain u where u: "T (idxTable (as ! a ! i)) = Some u" "n \<in> set (idx_names as u)"
      using D(5) [OF n(1)] by blast
    show ?thesis
    proof (cases "idxTable (as ! a ! i) = k")
      case True
      then have "u = t" using u t by simp
      then show ?thesis using True cell [OF n(1)] u n(2) names by auto
    next
      case False
      then show ?thesis using cell [OF n(1)] u other [OF u(1)] by auto
    qed
  qed
  have own: "idxTable (as' ! arr (tblIndexes u) ! i) = l"
    if u: "(T(k \<mapsto> t')) l = Some u" and n: "X n = Some (arr (tblIndexes u), i)" for l u n i
  proof (cases "l = k")
    case True
    then have "arr (tblIndexes u) = arr (tblIndexes t)"
      using u D(5) [OF n] fresh by auto
    then show ?thesis using cell [OF n] D(6) [OF t] n True by simp
  next
    case False
    then show ?thesis using cell [OF n] D(6) u n by auto
  qed
  have sep: "l = l'"
    if "(T(k \<mapsto> t')) l = Some u" "(T(k \<mapsto> t')) l' = Some u'"
      "arr (tblIndexes u) = arr (tblIndexes u')" for l u l' u'
  proof (rule ccontr)
    assume "l \<noteq> l'"
    show False
    proof (cases "l = k \<or> l' = k")
      case True
      then show False
        using \<open>l \<noteq> l'\<close> that other [of l u] other [of l' u'] by (auto split: if_splits)
    next
      case False
      then show False using D(2) [of l u l' u'] that \<open>l \<noteq> l'\<close> by simp
    qed
  qed
  have reg: "(X(key := p)) n \<noteq> None"
    if u: "(T(k \<mapsto> t')) l = Some u" and n: "n \<in> set (idx_names as' u)" for l u n
  proof (cases "l = k")
    case True
    then have "n \<in> set (idx_names as' t')" using u n by simp
    then have "n \<noteq> key \<and> n \<in> set (idx_names as t) \<or> n = key \<and> p \<noteq> None"
      using names by (auto split: if_splits)
    then show ?thesis using D(3) [OF t] by auto
  next
    case False
    then have l: "T l = Some u" using u by simp
    then have "n \<in> set (idx_names as u)" using other [OF l False] n by simp
    moreover from this have "n \<noteq> key" using key [OF l] False by blast
    ultimately show ?thesis using D(3) [OF l] by simp
  qed
  have named: "(\<exists>u0. T l = Some u0 \<and> n \<in> set (idx_names as u0)) \<or> l = k \<and> n = key"
    if "(T(k \<mapsto> t')) l = Some u" "n \<in> set (idx_names as' u)" for l u n
    using that t names other [of l u] by (cases "l = k") (auto split: if_splits)
  have uniq: "l = l'"
    if "(T(k \<mapsto> t')) l = Some u" "(T(k \<mapsto> t')) l' = Some u'"
      "n \<in> set (idx_names as' u)" "n \<in> set (idx_names as' u')" for l u l' u' n
    using named [OF that(1,3)] named [OF that(2,4)] key D(4) by blast
  show ?thesis
    unfolding dict_inv_def
    apply (intro conjI allI impI)
    subgoal using ok' other by (auto split: if_splits)
    subgoal for l u l' u' using sep by blast
    subgoal for l u n using reg by blast
    subgoal for l u l' u' n using uniq by blast
    subgoal using p ok' cell by (auto simp: table_ok_def split: if_splits)
    subgoal using p ok' cell by (auto split: if_splits)
    subgoal for n a i
      using old [of n a i] p [of a i] names by (auto split: if_splits)
    subgoal for l u n i
      using own [of l u n i] p [of "arr (tblIndexes u)" i] other [of l u] by (auto split: if_splits)
    done
qed


section \<open>The operations keep the invariant\<close>

lemma index_ok_slice [simp]: "index_ok k (t\<lparr>tblIndexes := x\<rparr>) d = index_ok k t d"
  by (simp add: index_ok_def ColIndex_def split: option.split)

lemma catalog_Save_fields [simp]:
  "cat_tables (snd (catalog_Save ord c)) = cat_tables c"
  "cat_indexes (snd (catalog_Save ord c)) = cat_indexes c"
  "cat_arrays (snd (catalog_Save ord c)) = cat_arrays c"
  by (simp_all add: catalog_Save_def split: prod.splits)

lemma catalog_Save_inv [simp]: "catalog_inv (snd (catalog_Save ord c)) = catalog_inv c"
  by (simp add: catalog_Save_def split: prod.splits)

lemma CreateTable_inv:
  assumes "catalog_inv c" and "tblIndexes t = []"
  shows "catalog_inv (snd (CreateTable ord t c))"
proof (cases "cat_tables c (ToLower (tblName t)) = None")
  case True
  let ?k = "ToLower (tblName t)" and ?as = "cat_arrays c"
  note D = dict_invD [OF assms(1) [unfolded catalog_inv_def]]
  have old: "arr (tblIndexes u) < length ?as \<and> table_ok (?as @ [[]]) l u \<and> idx_names (?as @ [[]]) u = idx_names ?as u"
    if "cat_tables c l = Some u" for l u
    using table_ok_frame [OF D(1) [OF that], of "?as @ [[]]"] D(1) [OF that]
    by (simp add: table_ok_def nth_append)
  have ptr: "a < length ?as \<and> i < length (?as ! a) \<and> (?as @ [[]]) ! a = ?as ! a"
    if "cat_indexes c n = Some (a, i)" for n a i
    using D(5) [OF that] by (simp add: nth_append)
  let ?new = "\<lparr>tblName = tblName t, tblColumns = tblColumns t, tblIndexes = \<lparr>arr = length ?as, len = 0\<rparr>\<rparr>"
  have new: "table_ok (?as @ [[]]) ?k ?new" "idx_names (?as @ [[]]) ?new = []"
    by (simp_all add: table_ok_def slice_list_def idx_names_def)
  have named: "cat_tables c l = Some u \<and> n \<in> set (idx_names ?as u)"
    if "((cat_tables c)(?k \<mapsto> ?new)) l = Some u" "n \<in> set (idx_names (?as @ [[]]) u)" for l u n
    using that old [of l u] new by (cases "l = ?k") auto
  have sep: "l = l'"
    if "((cat_tables c)(?k \<mapsto> ?new)) l = Some u" "((cat_tables c)(?k \<mapsto> ?new)) l' = Some u'"
      "arr (tblIndexes u) = arr (tblIndexes u')" for l u l' u'
  proof (cases "l = ?k \<or> l' = ?k")
    case True
    then show ?thesis using that old [of l u] old [of l' u'] by (auto split: if_splits)
  next
    case False
    then have "cat_tables c l = Some u" "cat_tables c l' = Some u'" using that by simp_all
    then show ?thesis using D(2) that(3) by blast
  qed
  have "dict_inv ((cat_tables c)(?k \<mapsto> ?new)) (cat_indexes c) (?as @ [[]])"
    unfolding dict_inv_def
    apply (intro conjI allI impI)
    subgoal using old new by (auto split: if_splits)
    subgoal for l u l' u' using sep by blast
    subgoal for l u n using D(3) [of l u n] named [of l u n] by blast
    subgoal for l u l' u' n using D(4) [of l u l' u' n] named by blast
    subgoal for n a i using ptr [of n a i] by simp
    subgoal for n a i using ptr [of n a i] by simp
    subgoal for n a i using D(5) [of n a i] ptr [of n a i] old True by fastforce
    subgoal for l u n i
      using D(6) [of l u n i] ptr [of n "arr (tblIndexes u)" i] by (auto split: if_splits)
    done
  with True assms(2) show ?thesis
    by (simp add: CreateTable_def Let_def catalog_inv_def [of "_\<lparr>cat_arrays := _\<rparr>"] flip: catalog_inv_def)
next
  case False
  then show ?thesis using assms by (auto simp: CreateTable_def Let_def)
qed

lemma IndexForColumn_None:
  "IndexForColumn (table_view as t) col = None \<longleftrightarrow>
   (\<forall>d \<in> set (slice_list as (tblIndexes t)). ToLower (idxColumn d) \<noteq> ToLower col)"
  by (auto simp: IndexForColumn_def table_view_def find_None_iff)

text \<open>The change that a \<open>CreateIndex\<close> whose checks pass makes in memory.\<close>

lemma CreateIndex_change:
  assumes ok: "dict_inv T X as" and t: "T k = Some t" and k: "k = ToLower (idxTable d)"
    and col: "ColIndex t (idxColumn d) = Some j" "colType (tblColumns t ! j) = TypeInt"
    and new: "X (ToLower (idxName d)) = None" "IndexForColumn (table_view as t) (idxColumn d) = None"
    and d': "d' = d\<lparr>idxTable := k, idxColumn := ToLower (idxColumn d)\<rparr>"
    and app: "append_idx grow (tblIndexes t) d' as = (s, as')"
  shows "dict_inv (T(k \<mapsto> t\<lparr>tblIndexes := s\<rparr>)) (X(ToLower (idxName d) \<mapsto> (arr s, len s - 1))) as'"
proof -
  let ?key = "ToLower (idxName d)" and ?t' = "t\<lparr>tblIndexes := s\<rparr>"
  note D = dict_invD [OF ok]
  have tok: "table_ok as k t" by (rule D(1) [OF t])
  then have b: "arr (tblIndexes t) < length as" "len (tblIndexes t) \<le> length (as ! arr (tblIndexes t))"
    by (simp_all add: table_ok_def)
  note L = append_idx_list [OF app b] and F = append_idx_frame [OF app b(1)]
  have names: "idx_names as' ?t' = idx_names as t @ [?key]"
    using L(1) d' by (simp add: idx_names_def)
  have notin: "?key \<notin> set (idx_names as u)" if "T l = Some u" for l u
    using D(3) [OF that, of ?key] new(1) by blast
  have "index_ok k t d'" using col d' by (simp add: index_ok_def ColIndex_def)
  moreover have "idxColumn d' \<notin> idxColumn ` set (slice_list as (tblIndexes t))"
    using new(2) tok d' by (fastforce simp: IndexForColumn_None table_ok_def index_ok_def)
  ultimately have tok': "table_ok as' k ?t'"
    using tok L names notin [OF t] by (auto simp: table_ok_def)
  have len_s: "len s - 1 = len (tblIndexes t)" using L(4) by simp
  show ?thesis
  proof (rule dict_inv_change [OF ok t tok'])
    show "length as \<le> length as'" using F(1) [OF b(1)] .
    show "length (as' ! a) = length (as ! a)" if "a < length as" for a using F(2) that .
    show "as' ! a = as ! a" if "a < length as" "a \<noteq> arr (tblIndexes t)" for a using F(3) that .
    show "as' ! arr (tblIndexes t) ! i = as ! arr (tblIndexes t) ! i \<or> idxTable (as' ! arr (tblIndexes t) ! i) = k"
      if "i < length (as ! arr (tblIndexes t))" for i
      using F(4) [OF b(1), of i] that d' by auto
    show "arr (tblIndexes ?t') = arr (tblIndexes t) \<or> length as \<le> arr (tblIndexes ?t')"
      using F(5) [OF b(1)] by simp
    show "set (idx_names as' ?t') = set (idx_names as t) - {?key} \<union> (if Some (arr s, len s - 1) = None then {} else {?key})"
      using names notin [OF t] by simp
    show "l = k" if "T l = Some u" "?key \<in> set (idx_names as u)" for l u
      using notin that by blast
    show "a = arr (tblIndexes ?t') \<and> i < length (as' ! a) \<and> idxTable (as' ! a ! i) = k"
      if "Some (arr s, len s - 1) = Some (a, i)" for a i
      using that L(3,4,5) d' len_s by auto
  qed
qed

lemma CreateIndex_inv:
  assumes "catalog_inv c"
  shows "catalog_inv (snd (CreateIndex grow ord d c))"
proof -
  have "catalog_inv (c\<lparr>cat_tables := (cat_tables c)(ToLower (idxTable d) \<mapsto> t\<lparr>tblIndexes := s\<rparr>),
          cat_indexes := (cat_indexes c)(ToLower (idxName d) \<mapsto> (arr s, len s - 1)), cat_arrays := as\<rparr>)"
    if "cat_tables c (ToLower (idxTable d)) = Some t"
      "ColIndex t (idxColumn d) = Some j" "colType (tblColumns t ! j) = TypeInt"
      "cat_indexes c (ToLower (idxName d)) = None" "IndexForColumn (table_view (cat_arrays c) t) (idxColumn d) = None"
      "append_idx grow (tblIndexes t) (d\<lparr>idxTable := ToLower (idxTable d), idxColumn := ToLower (idxColumn d)\<rparr>) (cat_arrays c) = (s, as)"
    for t j s as
    using CreateIndex_change [where d = d, OF assms [unfolded catalog_inv_def] that(1) refl that(2-5) refl that(6)]
    by (simp add: catalog_inv_def)
  then show ?thesis
    using assms
    by (cases "cat_indexes c (ToLower (idxName d))")
      (auto simp: CreateIndex_def Let_def split: option.splits prod.splits)
qed


lemma map_find_index_remove:
  assumes "find_index (\<lambda>d. f d = key) xs = Some i" and "distinct (map f xs)"
  shows "take i xs @ drop (Suc i) xs = filter (\<lambda>d. f d \<noteq> key) xs"
proof -
  have i: "i < length xs" "f (xs ! i) = key" using find_index_SomeD [OF assms(1)] by auto
  have split: "xs = take i xs @ xs ! i # drop (Suc i) xs" using i(1) by (simp add: id_take_nth_drop)
  have "distinct (map f (take i xs @ xs ! i # drop (Suc i) xs))" using assms(2) split by metis
  then have "\<forall>d \<in> set (take i xs) \<union> set (drop (Suc i) xs). f d \<noteq> key" using i(2) by (force simp: image_iff)
  then have "filter (\<lambda>d. f d \<noteq> key) (take i xs @ xs ! i # drop (Suc i) xs) = take i xs @ drop (Suc i) xs"
    using i(2) by simp
  then show ?thesis using split by metis
qed

text \<open>\<open>DropIndex\<close> finds the right table even when the pointer of the index is stale, and
  removes exactly the named index from it.\<close>

lemma DropIndex_finds:
  assumes ok: "dict_inv T X as" and x: "X key = Some (a, i)"
  obtains t j where "T (idxTable (as ! a ! i)) = Some t"
    and "find_index (\<lambda>d. ToLower (idxName d) = key) (slice_list as (tblIndexes t)) = Some j"
    and "j < len (tblIndexes t)"
proof -
  obtain t where t: "T (idxTable (as ! a ! i)) = Some t" "key \<in> set (idx_names as t)"
    using dict_invD(5) [OF ok x] by blast
  from t(2) obtain j where j: "find_index (\<lambda>d. ToLower (idxName d) = key) (slice_list as (tblIndexes t)) = Some j"
    by (cases "find_index (\<lambda>d. ToLower (idxName d) = key) (slice_list as (tblIndexes t))")
      (auto simp: find_index_None idx_names_def)
  have "j < len (tblIndexes t)"
    using find_index_length [OF j] dict_invD(1) [OF ok t(1)] by (simp add: slice_list_def table_ok_def)
  then show ?thesis using that t(1) j by blast
qed

lemma DropIndex_change:
  assumes ok: "dict_inv T X as" and t: "T k = Some t"
    and j: "find_index (\<lambda>d. ToLower (idxName d) = key) (slice_list as (tblIndexes t)) = Some j"
    and rem: "remove_idx j (tblIndexes t) as = (s, as')"
  shows "dict_inv (T(k \<mapsto> t\<lparr>tblIndexes := s\<rparr>)) (X(key := None)) as'"
    and "slice_list as' s = filter (\<lambda>d. ToLower (idxName d) \<noteq> key) (slice_list as (tblIndexes t))"
    and "\<And>b. b \<noteq> arr (tblIndexes t) \<Longrightarrow> as' ! b = as ! b"
proof -
  let ?t' = "t\<lparr>tblIndexes := s\<rparr>"
  note D = dict_invD [OF ok]
  have tok: "table_ok as k t" by (rule D(1) [OF t])
  then have b: "arr (tblIndexes t) < length as" "len (tblIndexes t) \<le> length (as ! arr (tblIndexes t))"
    and dist: "distinct (map (\<lambda>d. ToLower (idxName d)) (slice_list as (tblIndexes t)))"
    by (simp_all add: table_ok_def idx_names_def)
  have jl: "j < len (tblIndexes t)"
    using find_index_length [OF j] b(2) by (simp add: slice_list_def)
  note L = remove_idx_list [OF rem b jl] and C = remove_idx_cell [OF rem b jl]
  show sl: "slice_list as' s = filter (\<lambda>d. ToLower (idxName d) \<noteq> key) (slice_list as (tblIndexes t))"
    using L(1) map_find_index_remove [OF j dist] by simp
  show "\<And>b. b \<noteq> arr (tblIndexes t) \<Longrightarrow> as' ! b = as ! b" by (rule L(6))
  have names: "idx_names as' ?t' = filter (\<lambda>n. n \<noteq> key) (idx_names as t)"
    using sl by (simp add: idx_names_def filter_map o_def)
  have tok': "table_ok as' k ?t'"
    using tok sl names L(2-4) by (auto simp: table_ok_def distinct_map_filter)
  have "key \<in> set (idx_names as t)"
    by (rule find_index_idx_names [OF j])
  then have key: "l = k" if "T l = Some u" "key \<in> set (idx_names as u)" for l u
    using D(4) [OF that(1) t that(2)] by blast
  show "dict_inv (T(k \<mapsto> ?t')) (X(key := None)) as'"
  proof (rule dict_inv_change [OF ok t tok'])
    show "length as \<le> length as'" "\<And>b. length (as' ! b) = length (as ! b)"
      "\<And>b. b \<noteq> arr (tblIndexes t) \<Longrightarrow> as' ! b = as ! b" using L(4-6) by simp_all
    show "as' ! arr (tblIndexes t) ! i = as ! arr (tblIndexes t) ! i \<or> idxTable (as' ! arr (tblIndexes t) ! i) = k"
      if "i < length (as ! arr (tblIndexes t))" for i
      using C [OF that] tok by (auto simp: table_ok_def index_ok_def)
  qed (use L(2) names key in auto)
qed

lemma DropIndex_inv:
  assumes "catalog_inv c"
  shows "catalog_inv (snd (DropIndex ord n c))"
proof (cases "cat_indexes c (ToLower n)")
  case None
  then show ?thesis using assms by (simp add: DropIndex_def Let_def)
next
  case (Some p)
  obtain a i where p: "p = (a, i)" by (cases p)
  note ok = assms [unfolded catalog_inv_def]
  obtain t j where tj: "cat_tables c (idxTable (cat_arrays c ! a ! i)) = Some t"
    "find_index (\<lambda>d. ToLower (idxName d) = ToLower n) (slice_list (cat_arrays c) (tblIndexes t)) = Some j"
    using DropIndex_finds [OF ok Some [unfolded p]] by blast
  obtain s as' where r: "remove_idx j (tblIndexes t) (cat_arrays c) = (s, as')" by fastforce
  show ?thesis
    using DropIndex_change(1) [OF ok tj r] Some p tj r
    by (simp add: DropIndex_def Let_def catalog_inv_def)
qed


section \<open>Loading what was saved\<close>

definition loaded :: "Table list \<Rightarrow> Catalog \<Rightarrow> bool" where
  "loaded ts c \<longleftrightarrow>
     cat_arrays c = map tblIndexes ts \<and>
     (\<forall>i < length ts. cat_tables c (ToLower (tblName (ts ! i))) =
        Some \<lparr>tblName = tblName (ts ! i), tblColumns = tblColumns (ts ! i),
              tblIndexes = \<lparr>arr = i, len = length (tblIndexes (ts ! i))\<rparr>\<rparr>) \<and>
     (\<forall>k. k \<notin> (\<lambda>t. ToLower (tblName t)) ` set ts \<longrightarrow> cat_tables c k = None) \<and>
     (\<forall>i < length ts. \<forall>j < length (tblIndexes (ts ! i)).
        cat_indexes c (ToLower (idxName (tblIndexes (ts ! i) ! j))) = Some (i, j)) \<and>
     (\<forall>n. n \<notin> (\<Union>t \<in> set ts. (\<lambda>d. ToLower (idxName d)) ` set (tblIndexes t)) \<longrightarrow> cat_indexes c n = None)"

lemma register_indexes_snoc:
  "register_indexes a (ds @ [d]) m = (register_indexes a ds m)(ToLower (idxName d) \<mapsto> (a, length ds))"
proof -
  have "fold (\<lambda>i m. m(ToLower (idxName ((ds @ [d]) ! i)) \<mapsto> (a, i))) [0..<length ds] m
      = fold (\<lambda>i m. m(ToLower (idxName (ds ! i)) \<mapsto> (a, i))) [0..<length ds] m"
    by (rule fold_cong) (auto simp: nth_append)
  then show ?thesis by (simp add: register_indexes_def)
qed

lemma register_indexes_lookup:
  assumes "distinct (map (\<lambda>d. ToLower (idxName d)) ds)"
  shows "j < length ds \<Longrightarrow> register_indexes a ds m (ToLower (idxName (ds ! j))) = Some (a, j)"
    and "n \<notin> (\<lambda>d. ToLower (idxName d)) ` set ds \<Longrightarrow> register_indexes a ds m n = m n"
  using assms
proof (induction ds arbitrary: j rule: rev_induct)
  case Nil
  {
    case 1
    then show ?case by simp
  next
    case 2
    then show ?case by (simp add: register_indexes_def)
  }
next
  case (snoc d ds)
  {
    case 1
    show ?case
    proof (cases "j < length ds")
      case True
      then have "ToLower (idxName (ds ! j)) \<noteq> ToLower (idxName d)"
        using nth_eq_iff_index_eq [OF 1(2), of j "length ds"] True by (simp add: nth_append)
      then show ?thesis using snoc(1) [OF True] 1 True by (simp add: register_indexes_snoc nth_append)
    next
      case False
      then show ?thesis using 1 by (simp add: register_indexes_snoc nth_append less_Suc_eq)
    qed
  next
    case 2
    then show ?case using snoc(2) by (simp add: register_indexes_snoc)
  }
qed

definition dict_names_distinct :: "Table list \<Rightarrow> bool" where
  "dict_names_distinct ts \<longleftrightarrow>
     distinct (map (\<lambda>t. ToLower (tblName t)) ts) \<and>
     distinct (concat (map (\<lambda>t. map (\<lambda>d. ToLower (idxName d)) (tblIndexes t)) ts))"

lemma loaded_fold:
  assumes "dict_names_distinct ts"
  shows "loaded ts (fold add_loaded ts (catalog_New f))"
  using assms
proof (induction ts rule: rev_induct)
  case Nil
  then show ?case by (simp add: loaded_def catalog_New_def)
next
  case (snoc t ts)
  have IH: "loaded ts (fold add_loaded ts (catalog_New f))"
    using snoc by (simp add: dict_names_distinct_def)
  let ?c = "fold add_loaded ts (catalog_New f)"
  have dn: "distinct (map (\<lambda>d. ToLower (idxName d)) (tblIndexes t))"
    and nt: "\<And>u. u \<in> set ts \<Longrightarrow> ToLower (tblName u) \<noteq> ToLower (tblName t)"
    and ni: "\<And>u d. u \<in> set ts \<Longrightarrow> d \<in> set (tblIndexes u) \<Longrightarrow>
      ToLower (idxName d) \<notin> (\<lambda>d. ToLower (idxName d)) ` set (tblIndexes t)"
    using snoc(2) by (auto simp: dict_names_distinct_def image_iff)
  note R = register_indexes_lookup [OF dn]
  show ?case
    unfolding loaded_def
    apply (intro conjI allI impI)
    subgoal using IH by (simp add: loaded_def add_loaded_def Let_def)
    subgoal for i
      using IH nt [of "ts ! i"] by (cases "i < length ts") (auto simp: loaded_def add_loaded_def Let_def nth_append less_Suc_eq)
    subgoal for k using IH by (simp add: loaded_def add_loaded_def Let_def)
    subgoal for i j
      using IH ni [of "ts ! i"] R
      by (cases "i < length ts") (auto simp: loaded_def add_loaded_def Let_def nth_append less_Suc_eq)
    subgoal for n using IH R(2) [of n] by (simp add: loaded_def add_loaded_def Let_def)
    done
qed


lemma loaded_GetTable:
  assumes "loaded ts c"
  shows "t \<in> set ts \<Longrightarrow> ToLower (tblName t) = ToLower n \<Longrightarrow> GetTable c n = Some t"
    and "ToLower n \<notin> (\<lambda>t. ToLower (tblName t)) ` set ts \<Longrightarrow> GetTable c n = None"
proof -
  assume t: "t \<in> set ts" and n: "ToLower (tblName t) = ToLower n"
  then obtain i where i: "i < length ts" "ts ! i = t" by (auto simp: in_set_conv_nth)
  then have "cat_tables c (ToLower n) = Some \<lparr>tblName = tblName t, tblColumns = tblColumns t,
              tblIndexes = \<lparr>arr = i, len = length (tblIndexes t)\<rparr>\<rparr>"
    using assms n unfolding loaded_def by metis
  moreover have "cat_arrays c ! i = tblIndexes t" using assms i by (simp add: loaded_def)
  ultimately show "GetTable c n = Some t" by (simp add: GetTable_def table_view_def slice_list_def)
qed (use assms in \<open>auto simp: loaded_def GetTable_def\<close>)

lemma loaded_GetIndex:
  assumes "loaded ts c"
  shows "t \<in> set ts \<Longrightarrow> d \<in> set (tblIndexes t) \<Longrightarrow> ToLower (idxName d) = ToLower n \<Longrightarrow> GetIndex c n = Some d"
    and "\<forall>t \<in> set ts. \<forall>d \<in> set (tblIndexes t). ToLower (idxName d) \<noteq> ToLower n \<Longrightarrow> GetIndex c n = None"
proof -
  assume t: "t \<in> set ts" and d: "d \<in> set (tblIndexes t)" and n: "ToLower (idxName d) = ToLower n"
  then obtain i j where i: "i < length ts" "ts ! i = t" and j: "j < length (tblIndexes t)" "tblIndexes t ! j = d"
    by (auto simp: in_set_conv_nth)
  then have "cat_indexes c (ToLower n) = Some (i, j)" using assms n unfolding loaded_def by metis
  moreover have "cat_arrays c ! i = tblIndexes t" using assms i by (simp add: loaded_def)
  ultimately show "GetIndex c n = Some d" using j by (simp add: GetIndex_def)
next
  assume "\<forall>t \<in> set ts. \<forall>d \<in> set (tblIndexes t). ToLower (idxName d) \<noteq> ToLower n"
  then have "ToLower n \<notin> (\<Union>t \<in> set ts. (\<lambda>d. ToLower (idxName d)) ` set (tblIndexes t))"
    by (metis (no_types, lifting) UN_E image_iff)
  then show "GetIndex c n = None" using assms by (simp add: loaded_def GetIndex_def)
qed

text \<open>The order in which a Go \<open>range\<close> visits the tables: each once.\<close>

definition visits :: "string list \<Rightarrow> Catalog \<Rightarrow> bool" where
  "visits ord c \<longleftrightarrow> distinct ord \<and> set ord = dom (cat_tables c)"

lemma Tables_iff:
  assumes "catalog_inv c" and "visits ord c"
  shows "t \<in> set (Tables ord c) \<longleftrightarrow> GetTable c (tblName t) = Some t"
proof
  assume "t \<in> set (Tables ord c)"
  then obtain k u where u: "cat_tables c k = Some u" "t = table_view (cat_arrays c) u"
    using assms(2) by (auto simp: Tables_def visits_def dom_def)
  moreover have "k = ToLower (tblName u)"
    using dict_invD(1) [OF assms(1) [unfolded catalog_inv_def] u(1)] by (simp add: table_ok_def)
  ultimately show "GetTable c (tblName t) = Some t" by (simp add: GetTable_def table_view_def)
next
  assume "GetTable c (tblName t) = Some t"
  then obtain u where u: "cat_tables c (ToLower (tblName t)) = Some u" "t = table_view (cat_arrays c) u"
    by (auto simp: GetTable_def)
  then have "ToLower (tblName t) \<in> set ord" using assms(2) by (auto simp: visits_def)
  then show "t \<in> set (Tables ord c)" using u by (force simp: Tables_def)
qed

lemma Tables_names: "catalog_inv c \<Longrightarrow> visits ord c \<Longrightarrow> map (\<lambda>t. ToLower (tblName t)) (Tables ord c) = ord"
proof -
  assume c: "catalog_inv c" and v: "visits ord c"
  have "ToLower (tblName (table_view (cat_arrays c) (the (cat_tables c k)))) = k" if k: "k \<in> set ord" for k
  proof -
    obtain u where "cat_tables c k = Some u" using k v by (auto simp: visits_def)
    then show ?thesis
      using dict_invD(1) [OF c [unfolded catalog_inv_def]] by (simp add: table_ok_def table_view_def)
  qed
  then show ?thesis by (simp add: Tables_def o_def cong: map_cong)
qed

lemma Tables_distinct:
  assumes c: "catalog_inv c" and v: "visits ord c"
  shows "dict_names_distinct (Tables ord c)"
proof -
  note D = dict_invD [OF c [unfolded catalog_inv_def]]
  have len: "distinct ord" "\<And>k. k \<in> set ord \<Longrightarrow> \<exists>t. cat_tables c k = Some t"
    using v by (auto simp: visits_def)
  let ?n = "\<lambda>k. idx_names (cat_arrays c) (the (cat_tables c k))"
  have "distinct (concat (map ?n ord))"
    using len
  proof (induction ord)
    case (Cons k ks)
    obtain t where t: "cat_tables c k = Some t" using Cons.prems(2) by auto
    have "distinct (?n k)" using D(1) [OF t] t by (simp add: table_ok_def)
    moreover have "set (?n k) \<inter> set (concat (map ?n ks)) = {}"
    proof (rule ccontr)
      assume "set (?n k) \<inter> set (concat (map ?n ks)) \<noteq> {}"
      then obtain n l where l: "n \<in> set (?n k)" "l \<in> set ks" "n \<in> set (?n l)" by auto
      obtain u where u: "cat_tables c l = Some u" using Cons.prems(2) l(2) by auto
      have "k = l" using D(4) [OF t u] l t u by simp
      then show False using Cons.prems(1) l(2) by simp
    qed
    ultimately show ?case using Cons by simp
  qed simp
  moreover have "map (\<lambda>t. map (\<lambda>d. ToLower (idxName d)) (tblIndexes t)) (Tables ord c) = map ?n ord"
    by (simp add: Tables_def table_view_def idx_names_def)
  ultimately show ?thesis
    using Tables_names [OF c v] len(1) by (simp add: dict_names_distinct_def)
qed


section \<open>Properties\<close>

text \<open>The catalogs a running database can hold: the empty one, and what \<open>CreateTable\<close> (which
  \<open>execCreate\<close> calls with no indexes), \<open>CreateIndex\<close> and \<open>DropIndex\<close> make of another,
  whether or not the call returns an error and whether or not its \<open>Save\<close> fails.\<close>

inductive catalog_reachable :: "Catalog \<Rightarrow> bool" where
  new: "catalog_reachable (catalog_New f)"
| create_table: "catalog_reachable c \<Longrightarrow> tblIndexes t = [] \<Longrightarrow> catalog_reachable (snd (CreateTable ord t c))"
| create_index: "catalog_reachable c \<Longrightarrow> catalog_reachable (snd (CreateIndex grow ord d c))"
| drop_index: "catalog_reachable c \<Longrightarrow> catalog_reachable (snd (DropIndex ord n c))"

lemma catalog_reachable_inv: "catalog_reachable c \<Longrightarrow> catalog_inv c"
  by (induction rule: catalog_reachable.induct)
    (simp_all add: CreateTable_inv CreateIndex_inv DropIndex_inv)

lemma GetTable_ToLower: "ToLower n = ToLower m \<Longrightarrow> GetTable c n = GetTable c m"
  by (simp add: GetTable_def)

lemma ColIndex_view [simp]: "ColIndex (table_view as t) = ColIndex t"
  by (simp add: fun_eq_iff ColIndex_def table_view_def)

lemma GetTable_index_ok:
  assumes "catalog_inv c" and "GetTable c n = Some t"
  shows "\<forall>d \<in> set (tblIndexes t). idxTable d = ToLower n \<and>
           (\<exists>i. ColIndex t (idxColumn d) = Some i \<and> colType (tblColumns t ! i) = TypeInt)"
    and "distinct (map idxColumn (tblIndexes t))"
    and "\<forall>d \<in> set (tblIndexes t). GetIndex c (idxName d) \<noteq> None"
proof -
  obtain u where u: "cat_tables c (ToLower n) = Some u" "t = table_view (cat_arrays c) u"
    using assms(2) by (auto simp: GetTable_def)
  note D = dict_invD [OF assms(1) [unfolded catalog_inv_def]]
  have ok: "table_ok (cat_arrays c) (ToLower n) u" by (rule D(1) [OF u(1)])
  then show "\<forall>d \<in> set (tblIndexes t). idxTable d = ToLower n \<and>
           (\<exists>i. ColIndex t (idxColumn d) = Some i \<and> colType (tblColumns t ! i) = TypeInt)"
    unfolding u(2) by (fastforce simp: table_ok_def index_ok_def table_view_def ColIndex_def split: option.splits)
  show "distinct (map idxColumn (tblIndexes t))" using ok u(2) by (simp add: table_ok_def table_view_def)
  show "\<forall>d \<in> set (tblIndexes t). GetIndex c (idxName d) \<noteq> None"
    using D(3) [OF u(1)] u(2) by (auto simp: GetIndex_def idx_names_def table_view_def)
qed

text \<open>C34: in every reachable catalog, every index of a table names that table, is on an
  existing INT column of it, shares its column with no other index and is registered under its
  name.\<close>

theorem catalog_reachable_indexes:
  assumes "catalog_reachable c" and "GetTable c n = Some t"
  shows "(\<forall>d \<in> set (tblIndexes t). idxTable d = ToLower n \<and>
            (\<exists>i. ColIndex t (idxColumn d) = Some i \<and> colType (tblColumns t ! i) = TypeInt) \<and>
            GetIndex c (idxName d) \<noteq> None)
         \<and> distinct (map idxColumn (tblIndexes t))"
  using GetTable_index_ok [OF catalog_reachable_inv [OF assms(1)] assms(2)] by blast


lemma loaded_inv:
  assumes "loaded ts c'" and c: "catalog_inv c" and v: "visits ord c" and ts: "ts = Tables ord c"
  shows "GetTable c' n = GetTable c n"
    and "GetIndex c' n = None \<longleftrightarrow> GetIndex c n = None"
    and "GetIndex c' n = Some d \<Longrightarrow> ToLower (idxName d) = ToLower n"
proof -
  note D = dict_invD [OF c [unfolded catalog_inv_def]]
  show "GetTable c' n = GetTable c n"
  proof (cases "GetTable c n")
    case None
    then have "ToLower n \<notin> set ord" using v by (auto simp: visits_def GetTable_def)
    then have "ToLower n \<notin> (\<lambda>t. ToLower (tblName t)) ` set ts"
      using Tables_names [OF c v] ts by (metis list.set_map)
    then show ?thesis using loaded_GetTable(2) [OF assms(1)] None by simp
  next
    case (Some t)
    have low: "ToLower (tblName t) = ToLower n"
      using Some D(1) by (auto simp: GetTable_def table_view_def table_ok_def)
    then have "t \<in> set ts" using Some Tables_iff [OF c v] GetTable_ToLower [OF low] ts by simp
    then show ?thesis using loaded_GetTable(1) [OF assms(1)] low Some by simp
  qed
  have some: "\<exists>t \<in> set ts. \<exists>d \<in> set (tblIndexes t). ToLower (idxName d) = ToLower n"
    if i: "GetIndex c n \<noteq> None"
  proof -
    obtain p where p: "cat_indexes c (ToLower n) = Some p" using i by (auto simp: GetIndex_def)
    then obtain k u where u: "cat_tables c k = Some u" "ToLower n \<in> set (idx_names (cat_arrays c) u)"
      using D(5) by (cases p) blast
    moreover from u(1) have "table_view (cat_arrays c) u \<in> set ts"
      using v ts by (force simp: Tables_def visits_def)
    ultimately show ?thesis by (force simp: idx_names_def table_view_def)
  qed
  have none: "GetIndex c n \<noteq> None" if "t \<in> set ts" "d \<in> set (tblIndexes t)" "ToLower (idxName d) = ToLower n" for t d
  proof -
    have "GetTable c (tblName t) = Some t" using that(1) Tables_iff [OF c v] ts by blast
    then have "GetIndex c (idxName d) \<noteq> None" using GetTable_index_ok(3) [OF c] that(2) by blast
    then show ?thesis using that(3) by (simp add: GetIndex_def)
  qed
  show "GetIndex c' n = None \<longleftrightarrow> GetIndex c n = None"
    using some none loaded_GetIndex [OF assms(1)] by (metis option.distinct(1))
  show "GetIndex c' n = Some d \<Longrightarrow> ToLower (idxName d) = ToLower n"
    using loaded_GetIndex [OF assms(1)] by (metis option.distinct(1) option.inject)
qed

text \<open>C35: a catalog that is saved with no write fault is loaded back: every table has the same
  schema and indexes, the same index names are registered, and every registered name now leads
  to a definition of that name. The names and counts have to fit the one-byte lengths.\<close>

theorem catalog_save_load:
  assumes "catalog_reachable c" and "visits ord c" and "length ord < 65536"
    and "\<forall>t \<in> set (Tables ord c). table_codable t" and "faults (cat_file c) = []"
  shows "fst (catalog_Save ord c) = Inr ()
    \<and> (\<exists>c'. catalog_Load (Some (cat_file (snd (catalog_Save ord c)))) = Inr c'
         \<and> (\<forall>n. GetTable c' n = GetTable c n)
         \<and> (\<forall>n. GetIndex c' n = None \<longleftrightarrow> GetIndex c n = None)
         \<and> (\<forall>n d. GetIndex c' n = Some d \<longrightarrow> ToLower (idxName d) = ToLower n))"
proof -
  let ?ts = "Tables ord c" and ?f = "cat_file (snd (catalog_Save ord c))"
  have inv: "catalog_inv c" using assms(1) by (rule catalog_reachable_inv)
  have sv: "fst (catalog_Save ord c) = Inr ()" "contents ?f = catalog_bytes ?ts"
    using catalog_Save_ok [OF assms(5)] by simp_all
  have "catalog_Load (Some ?f) = Inr (fold add_loaded ?ts (catalog_New ?f))"
    using catalog_deserialize_bytes [of ?ts "catalog_New ?f"] assms(3,4) sv(2)
    by (simp add: catalog_Load_def)
  moreover have "loaded ?ts (fold add_loaded ?ts (catalog_New ?f))"
    by (rule loaded_fold [OF Tables_distinct [OF inv assms(2)]])
  ultimately show ?thesis using loaded_inv [OF _ inv assms(2) refl] sv(1) by metis
qed

text \<open>C36: \<open>DropIndex\<close> of a registered index removes that index from its table and from the
  registry, and leaves every other table and index list as it was.\<close>

lemma DropIndex_removes:
  assumes "catalog_reachable c" and "GetIndex c n \<noteq> None" and "c' = snd (DropIndex ord n c)"
  shows "GetIndex c' n = None
    \<and> (\<forall>m. GetTable c' m = map_option (\<lambda>t. t\<lparr>tblIndexes :=
          filter (\<lambda>d. ToLower (idxName d) \<noteq> ToLower n) (tblIndexes t)\<rparr>) (GetTable c m))"
proof -
  note ok = catalog_reachable_inv [OF assms(1), unfolded catalog_inv_def]
  let ?key = "ToLower n"
  obtain a i where p: "cat_indexes c ?key = Some (a, i)" using assms(2) by (auto simp: GetIndex_def)
  define k where "k = idxTable (cat_arrays c ! a ! i)"
  obtain t j where t: "cat_tables c k = Some t"
    and j: "find_index (\<lambda>d. ToLower (idxName d) = ?key) (slice_list (cat_arrays c) (tblIndexes t)) = Some j"
    using DropIndex_finds [OF ok p] k_def by metis
  obtain s as' where r: "remove_idx j (tblIndexes t) (cat_arrays c) = (s, as')" by fastforce
  note C = DropIndex_change [OF ok t j r]
  have fields: "cat_tables c' = (cat_tables c)(k \<mapsto> t\<lparr>tblIndexes := s\<rparr>)"
    "cat_indexes c' = (cat_indexes c)(?key := None)" "cat_arrays c' = as'"
    using assms(3) p t j r k_def by (simp_all add: DropIndex_def Let_def)
  have other: "filter (\<lambda>d. ToLower (idxName d) \<noteq> ?key) (slice_list (cat_arrays c) (tblIndexes u))
      = slice_list as' (tblIndexes u)" if "cat_tables c l = Some u" "l \<noteq> k" for l u
  proof -
    have "?key \<in> set (idx_names (cat_arrays c) t)"
      by (rule find_index_idx_names [OF j])
    then have "?key \<notin> set (idx_names (cat_arrays c) u)" using dict_invD(4) [OF ok that(1) t] that(2) by blast
    moreover have "as' ! arr (tblIndexes u) = cat_arrays c ! arr (tblIndexes u)"
      using C(3) dict_invD(2) [OF ok that(1) t] that(2) by metis
    ultimately show ?thesis by (force simp: idx_names_def slice_list_def filter_id_conv image_iff)
  qed
  show ?thesis
  proof (intro conjI allI)
    show "GetIndex c' n = None" by (simp add: GetIndex_def fields)
    show "GetTable c' m = map_option (\<lambda>t. t\<lparr>tblIndexes :=
          filter (\<lambda>d. ToLower (idxName d) \<noteq> ?key) (tblIndexes t)\<rparr>) (GetTable c m)" for m
      using t C(2) other [of "ToLower m"]
      by (cases "ToLower m = k"; cases "cat_tables c (ToLower m)")
        (auto simp: GetTable_def fields table_view_def)
  qed
qed

text \<open>C37: \<open>GetIndex\<close> goes wrong after a \<open>DropIndex\<close>. In a table loaded from the file, drop the
  index at position \<open>i\<close>: the later definitions move down inside the shared array, and the name
  at position \<open>j\<close> behind it (unless it is the last) now leads to the definition of its
  successor.\<close>

lemma GetIndex_stale_after_drop:
  assumes "dict_names_distinct [t]" and "\<forall>d \<in> set (tblIndexes t). idxTable d = ToLower (tblName t)"
    and "i < j" and "Suc j < length (tblIndexes t)"
    and "c = add_loaded t (catalog_New f)"
    and "c' = snd (DropIndex ord (idxName (tblIndexes t ! i)) c)"
  shows "GetIndex c (idxName (tblIndexes t ! j)) = Some (tblIndexes t ! j)
    \<and> GetIndex c' (idxName (tblIndexes t ! j)) = Some (tblIndexes t ! Suc j)"
proof -
  let ?ds = "tblIndexes t" and ?nm = "\<lambda>d. ToLower (idxName d)"
  let ?key = "?nm (?ds ! i)" and ?k = "ToLower (tblName t)"
  have l: "loaded [t] c" using loaded_fold [OF assms(1)] assms(5) by simp
  have dist: "distinct (map ?nm ?ds)" using assms(1) by (simp add: dict_names_distinct_def)
  have ne: "?nm (?ds ! j) \<noteq> ?key"
    using nth_eq_iff_index_eq [OF dist, of i j] assms(3,4) by simp
  have ci: "cat_indexes c (?nm (?ds ! m)) = Some (0, m)" if "m < length ?ds" for m
    using l that by (simp add: loaded_def)
  have ca: "cat_arrays c = [?ds]" using l by (simp add: loaded_def)
  have ct: "cat_tables c ?k = Some \<lparr>tblName = tblName t, tblColumns = tblColumns t,
      tblIndexes = \<lparr>arr = 0, len = length ?ds\<rparr>\<rparr>" using l by (simp add: loaded_def)
  have tk: "idxTable (?ds ! i) = ?k" using assms(2-4) by simp
  have fi: "find_index (\<lambda>d. ?nm d = ?key) ?ds = Some i"
  proof (cases "find_index (\<lambda>d. ?nm d = ?key) ?ds")
    case None
    then show ?thesis using assms(3,4) by (auto simp: find_index_None)
  next
    case (Some m)
    then show ?thesis
      using find_index_SomeD [OF Some] nth_eq_iff_index_eq [OF dist, of m i] assms(3,4) by simp
  qed
  have "GetIndex c (idxName (?ds ! j)) = Some (?ds ! j)"
    using ci [of j] ca assms(4) by (simp add: GetIndex_def)
  moreover have "cat_indexes c' (?nm (?ds ! j)) = Some (0, j)"
    and "cat_arrays c' = [take i ?ds @ drop (Suc i) ?ds @ drop (length ?ds - 1) ?ds]"
    using assms(3,4,6) ci [of i] ci [of j] ca ct tk fi ne
    by (simp_all add: DropIndex_def Let_def slice_list_def remove_idx_def)
  moreover have "(take i ?ds @ drop (Suc i) ?ds @ drop (length ?ds - 1) ?ds) ! j = ?ds ! Suc j"
    using assms(3,4) by (auto simp: nth_append)
  ultimately show ?thesis by (simp add: GetIndex_def)
qed

text \<open>C36: \<open>Save\<close> is not atomic: \<open>os.Create\<close> empties the file first, so when the first write
  fails before its four bytes are out, the catalog that was on disk is gone and the file no
  longer loads.\<close>

lemma catalog_Save_torn:
  assumes "faults (cat_file c) = None # Some k # fs" and "k < 4"
  shows "fst (catalog_Save ord c) = Inl WriteFault
    \<and> catalog_Load (Some (cat_file (snd (catalog_Save ord c)))) = Inl ReadEOF"
proof -
  have "le32 catalogMagicV2 \<noteq> []" by (metis length_to_le list.size(3) zero_neq_numeral)
  then have "length (write_bytes (take k (le32 catalogMagicV2)) 0 []) = k"
    using assms(2) length_write_bytes [of "take k (le32 catalogMagicV2)" 0 "[]"]
    by (cases "k = 0") (auto simp: write_bytes_def)
  then show ?thesis
    using assms
    by (simp add: catalog_Save_def os_Create_def catalog_serialize_def file_Write_def WriteAt_def bindG_def
        catalog_Load_def catalog_deserialize_def ReadFull_def)
qed

section \<open>Witnesses\<close>

lemma catalog_Save_faults [simp]:
  "faults (cat_file c) = [] \<Longrightarrow> faults (cat_file (snd (catalog_Save ord c))) = []"
  by (simp add: catalog_Save_ok)

definition ex_users :: Table where
  "ex_users = \<lparr>tblName = ''Users'', tblColumns = [\<lparr>colName = ''id'', colType = 0\<rparr>, \<lparr>colName = ''Age'', colType = 0\<rparr>], tblIndexes = []\<rparr>"

definition ex_catalog :: Catalog where
  "ex_catalog = snd (CreateIndex (\<lambda>_. 0) [''users''] \<lparr>idxName = ''ByAge'', idxTable = ''USERS'', idxColumn = ''age''\<rparr>
     (snd (CreateTable [''users''] ex_users (catalog_New empty_file))))"

lemma ex_catalog_reachable: "catalog_reachable ex_catalog"
  unfolding ex_catalog_def
  by (intro catalog_reachable.intros) (simp add: ex_users_def)

lemma ex_lower [simp]: "ToLower ''Users'' = ''users''" "ToLower ''USERS'' = ''users''" "ToLower ''users'' = ''users''"
  "ToLower ''ByAge'' = ''byage''" "ToLower ''Age'' = ''age''" "ToLower ''age'' = ''age''" "ToLower ''id'' = ''id''"
  "ToLower ''byage'' = ''byage''" "ToLower ''x'' = ''x''" "ToLower ''y'' = ''y''" "ToLower ''z'' = ''z''" "ToLower ''t'' = ''t''"
  by code_simp+

lemmas dict_eval = Let_def CreateTable_def CreateIndex_def ColIndex_def
  IndexForColumn_def table_view_def slice_list_def append_idx_def catalog_New_def TypeInt_def GetTable_def GetIndex_def

lemma ex_catalog_memory:
  "cat_tables ex_catalog = [''users'' \<mapsto> \<lparr>tblName = ''Users'', tblColumns = tblColumns ex_users, tblIndexes = \<lparr>arr = 1, len = 1\<rparr>\<rparr>]"
  "cat_indexes ex_catalog = [''byage'' \<mapsto> (1, 0)]"
  "cat_arrays ex_catalog = [[], [\<lparr>idxName = ''ByAge'', idxTable = ''users'', idxColumn = ''age''\<rparr>]]"
  "faults (cat_file ex_catalog) = []"
  by (simp_all add: ex_catalog_def ex_users_def dict_eval empty_file_def)

definition ex_view :: Table where
  "ex_view = ex_users\<lparr>tblIndexes := [\<lparr>idxName = ''ByAge'', idxTable = ''users'', idxColumn = ''age''\<rparr>]\<rparr>"

lemma ex_catalog_view: "GetTable ex_catalog ''users'' = Some ex_view" "GetIndex ex_catalog ''byage'' \<noteq> None"
  by (simp_all add: ex_catalog_memory dict_eval ex_view_def ex_users_def)

theorem catalog_reachable_indexes_witness:
  "idxTable (hd (tblIndexes ex_view)) = ''users'' \<and>
   (\<exists>i. ColIndex ex_view (idxColumn (hd (tblIndexes ex_view))) = Some i \<and> colType (tblColumns ex_view ! i) = TypeInt) \<and>
   GetIndex ex_catalog (idxName (hd (tblIndexes ex_view))) \<noteq> None \<and>
   distinct (map idxColumn (tblIndexes ex_view))"
  using catalog_reachable_indexes [OF ex_catalog_reachable ex_catalog_view(1)]
  by (simp add: ex_view_def)

theorem catalog_save_load_witness:
  "\<exists>c'. catalog_Load (Some (cat_file (snd (catalog_Save [''users''] ex_catalog)))) = Inr c'
     \<and> GetTable c' ''users'' = Some ex_view"
proof -
  have v: "visits [''users''] ex_catalog" by (simp add: visits_def ex_catalog_memory)
  have "table_view (cat_arrays ex_catalog) (the (cat_tables ex_catalog ''users'')) = ex_view"
    using ex_catalog_view(1) by (simp add: GetTable_def ex_catalog_memory(1))
  then have c: "\<forall>t \<in> set (Tables [''users''] ex_catalog). table_codable t"
    by (simp add: Tables_def ex_view_def ex_users_def table_codable_def)
  show ?thesis
    using catalog_save_load [OF ex_catalog_reachable v _ c ex_catalog_memory(4)] ex_catalog_view(1) by auto
qed

definition ex_indexed :: Table where
  "ex_indexed = \<lparr>tblName = ''t'', tblColumns = [],
     tblIndexes = map (\<lambda>n. \<lparr>idxName = n, idxTable = ''t'', idxColumn = n\<rparr>) [''x'', ''y'', ''z'']\<rparr>"

end
