(* ===== verification/Query.thy ===== *)
theory Query
  imports Catalog
begin

text \<open>
  \<open>src/query/ast.go\<close>: the abstract syntax of the SQL subset. A WHERE clause is in
  disjunctive normal form; a condition is a comparison with a literal, a join
  condition, a membership test or, before flattening, a subquery. Conditions
  and SELECT statements are mutually recursive. A Go pointer or slice that the
  code compares with \<open>nil\<close> is an option.
\<close>

datatype AggFunc = AggCount | AggSum | AggAvg | AggMin | AggMax

fun AggFunc_String :: "AggFunc \<Rightarrow> string" where
  "AggFunc_String AggCount = ''COUNT''"
| "AggFunc_String AggSum = ''SUM''"
| "AggFunc_String AggAvg = ''AVG''"
| "AggFunc_String AggMin = ''MIN''"
| "AggFunc_String AggMax = ''MAX''"

record AggCall =
  aggFunc :: AggFunc
  aggCol :: string

record SelectExpr =
  exprCol :: string
  exprAgg :: "AggCall option"
  exprAlias :: string

text \<open>\<open>strings.IndexByte\<close> and \<open>strings.LastIndexByte\<close> with the dot, as the parts before and
  after it.\<close>

definition split_first_dot :: "string \<Rightarrow> (string \<times> string) option" where
  "split_first_dot s = map_option (\<lambda>i. (take i s, drop (Suc i) s)) (find_index (\<lambda>c. c = CHR ''.'') s)"

definition split_last_dot :: "string \<Rightarrow> (string \<times> string) option" where
  "split_last_dot s =
     map_option (\<lambda>i. (take (length s - Suc i) s, drop (length s - i) s))
       (find_index (\<lambda>c. c = CHR ''.'') (rev s))"

definition OutputName :: "SelectExpr \<Rightarrow> string" where
  "OutputName e =
     (if exprAlias e \<noteq> [] then exprAlias e
      else case exprAgg e of
        Some a \<Rightarrow> if aggCol a = ''*'' then ''COUNT(*)''
                 else AggFunc_String (aggFunc a) @ ''('' @ aggCol a @ '')''
      | None \<Rightarrow> (case split_last_dot (exprCol e) of Some (_, bare) \<Rightarrow> bare | None \<Rightarrow> exprCol e))"

record OrderByExpr =
  obCol :: string
  obDesc :: bool

datatype CompareOp = OpEq | OpGt | OpLt | OpGte | OpLte

record TableRef =
  refName :: string
  refAlias :: string

definition Qualifier :: "TableRef \<Rightarrow> string" where
  "Qualifier t = (if refAlias t \<noteq> [] then refAlias t else refName t)"

datatype Condition =
    Condition (Column: string) (Op: CompareOp) (Val: Value) (RHSCol: string)
      (InList: "Value list option") (InQuery: "SelectStmt option")
      (ExistsQuery: "SelectStmt option") (ScalarQuery: "SelectStmt option")
      (Negated: bool) (AlwaysFalse: bool)
and WhereClause = WhereClause (Groups: "Condition list list")
and JoinClause = JoinClause (JoinTable: TableRef) (On: Condition)
and SelectStmt =
    SelectStmt (Columns: "SelectExpr list") (From: "TableRef list") (Joins: "JoinClause list")
      (Where: "WhereClause option") (GroupBy: "string list") (Having: "WhereClause option")
      (OrderBy: "OrderByExpr list") (Limit: int)

definition IsJoinCond :: "Condition \<Rightarrow> bool" where
  "IsJoinCond c \<longleftrightarrow> RHSCol c \<noteq> []"

record Assignment =
  asgColumn :: string
  asgValue :: Value

text \<open>The statements; a constructor stands for one type that implements \<open>Statement\<close>.\<close>

datatype Statement =
    CreateTableStmt string "ColumnDef list"
  | InsertStmt string "Value list"
  | SelectStatement SelectStmt
  | ExplainStmt SelectStmt
  | CreateIndexStmt string string string
  | DropIndexStmt string
  | AnalyzeStmt string
  | DeleteStmt string "WhereClause option"
  | UpdateStmt string "Assignment list" "WhereClause option"
  | BeginStmt
  | CommitStmt
  | RollbackStmt

text \<open>Conditions as Go's composite literals write them: the fields not named are zero.\<close>

definition simpleCond :: "string \<Rightarrow> CompareOp \<Rightarrow> Value \<Rightarrow> Condition" where
  "simpleCond col op v = Condition col op v [] None None None None False False"

definition joinCond :: "string \<Rightarrow> CompareOp \<Rightarrow> string \<Rightarrow> Condition" where
  "joinCond col op rhs = Condition col op zeroValue rhs None None None None False False"

definition falseCond :: Condition where
  "falseCond = Condition [] OpEq zeroValue [] None None None None False True"

fun setColumn :: "string \<Rightarrow> Condition \<Rightarrow> Condition" where
  "setColumn s (Condition col op v r l q e k n f) = Condition s op v r l q e k n f"

fun setLimit :: "int \<Rightarrow> SelectStmt \<Rightarrow> SelectStmt" where
  "setLimit n (SelectStmt cs fr js wh gb hv ob _) = SelectStmt cs fr js wh gb hv ob n"

fun setColumns :: "SelectExpr list \<Rightarrow> SelectStmt \<Rightarrow> SelectStmt" where
  "setColumns cs (SelectStmt _ fr js wh gb hv ob n) = SelectStmt cs fr js wh gb hv ob n"

lemma setColumn_sel [simp]:
  "Column (setColumn s c) = s" "Op (setColumn s c) = Op c" "Val (setColumn s c) = Val c"
  "RHSCol (setColumn s c) = RHSCol c" "InList (setColumn s c) = InList c"
  "InQuery (setColumn s c) = InQuery c" "ExistsQuery (setColumn s c) = ExistsQuery c"
  "ScalarQuery (setColumn s c) = ScalarQuery c" "Negated (setColumn s c) = Negated c"
  "AlwaysFalse (setColumn s c) = AlwaysFalse c"
  by (cases c; simp)+

lemma simpleCond_sel [simp]:
  "Column (simpleCond col op v) = col" "Op (simpleCond col op v) = op" "Val (simpleCond col op v) = v"
  "RHSCol (simpleCond col op v) = []" "InList (simpleCond col op v) = None"
  "InQuery (simpleCond col op v) = None" "ExistsQuery (simpleCond col op v) = None"
  "ScalarQuery (simpleCond col op v) = None" "AlwaysFalse (simpleCond col op v) = False"
  by (simp_all add: simpleCond_def)

end
