(* ===== verification/BTreeNode.thy ===== *)
theory BTreeNode
  imports Storage
begin

text \<open>
  \<open>src/btree/node.go\<close>: leaf and internal nodes, their encoding in the data area of a
  page, and the two binary searches. The lemmas: decoding inverts encoding for nodes
  within the order bounds, \<open>FindChildIndex\<close> counts the separators not above the key,
  and \<open>LeafSearchKey\<close> finds the key or its insertion point.
\<close>

definition ValueSize :: nat where "ValueSize = 256"
definition nodeHeaderSize :: nat where "nodeHeaderSize = 8"
definition InternalOrder :: nat where "InternalOrder = 338"
definition leafEntrySize :: nat where "leafEntrySize = 8 + ValueSize"
definition LeafOrder :: nat where "LeafOrder = (4072 - nodeHeaderSize) div leafEntrySize"

lemmas node_consts = ValueSize_def nodeHeaderSize_def leafEntrySize_def

lemma LeafOrder_val: "LeafOrder = 15"
  by (simp add: LeafOrder_def node_consts)

definition NodeTypeInternal :: byte where "NodeTypeInternal = 0"
definition NodeTypeLeaf :: byte where "NodeTypeLeaf = 1"

record Entry =
  Key :: u64
  Value :: "byte list"

record LeafNode =
  LeafPageID :: u32
  Entries :: "Entry list"
  NextLeaf :: u32

record InternalNode =
  InternalPageID :: u32
  Keys :: "u64 list"
  Children :: "u32 list"

section \<open>Leaf pages\<close>

fun put_entries :: "nat \<Rightarrow> Entry list \<Rightarrow> byte list \<Rightarrow> byte list" where
  "put_entries off [] d = d"
| "put_entries off (e # es) d =
     put_entries (off + leafEntrySize) es (put (off + 8) (Value e) (put off (le64 (Key e)) d))"

definition EncodeLeaf :: "LeafNode \<Rightarrow> go_error + Page" where
  "EncodeLeaf n =
     (if length (Entries n) > LeafOrder then Inl (TooManyEntries (LeafPageID n))
      else
        let p = NewPage (LeafPageID n) PageTypeData;
            d = Data p;
            d = put 0 [NodeTypeLeaf] d;
            d = put 1 [0] d;
            d = put 2 (le16 (of_nat (length (Entries n)))) d;
            d = put 4 (le32 (NextLeaf n)) d;
            d = put_entries nodeHeaderSize (Entries n) d;
            off = nodeHeaderSize + leafEntrySize * length (Entries n)
        in Inr (p\<lparr>Data := d, Header := (Header p)\<lparr>FreeSpaceOffset := of_nat off\<rparr>\<rparr>))"

text \<open>The decoding loop; a slice bound above the data area panics.\<close>

fun get_entries :: "nat \<Rightarrow> nat \<Rightarrow> byte list \<Rightarrow> Entry list option" where
  "get_entries off 0 d = Some []"
| "get_entries off (Suc n) d =
     (if off + leafEntrySize \<le> length d
      then map_option ((#) \<lparr>Key = from_le (seg off 8 d), Value = seg (off + 8) ValueSize d\<rparr>)
             (get_entries (off + leafEntrySize) n d)
      else None)"

definition DecodeLeaf :: "Page \<Rightarrow> go_error + LeafNode" where
  "DecodeLeaf p =
     (let d = Data p in
      if d ! 0 \<noteq> NodeTypeLeaf then Inl (WrongNodeType (page_id p))
      else
        let n = unat (from_le (seg 2 2 d) :: u16)
        in case get_entries nodeHeaderSize n d of
             None \<Rightarrow> Inl Panic
           | Some es \<Rightarrow> Inr \<lparr>LeafPageID = page_id p, Entries = es, NextLeaf = from_le (seg 4 4 d)\<rparr>)"

section \<open>Internal pages\<close>

fun put_keys :: "nat \<Rightarrow> u64 list \<Rightarrow> byte list \<Rightarrow> byte list" where
  "put_keys off [] d = d"
| "put_keys off (k # ks) d = put_keys (off + 8) ks (put off (le64 k) d)"

fun put_children :: "nat \<Rightarrow> u32 list \<Rightarrow> byte list \<Rightarrow> byte list" where
  "put_children off [] d = d"
| "put_children off (c # cs) d = put_children (off + 4) cs (put off (le32 c) d)"

definition EncodeInternal :: "InternalNode \<Rightarrow> go_error + Page" where
  "EncodeInternal n =
     (if length (Keys n) > InternalOrder then Inl (TooManyEntries (InternalPageID n))
      else if length (Children n) \<noteq> length (Keys n) + 1
      then Inl (ChildCountMismatch (InternalPageID n))
      else
        let p = NewPage (InternalPageID n) PageTypeData;
            d = Data p;
            d = put 0 [NodeTypeInternal] d;
            d = put 1 [0] d;
            d = put 2 (le16 (of_nat (length (Keys n)))) d;
            d = put 4 (le32 0) d;
            d = put_keys nodeHeaderSize (Keys n) d;
            off = nodeHeaderSize + 8 * length (Keys n);
            d = put_children off (Children n) d;
            off = off + 4 * length (Children n)
        in Inr (p\<lparr>Data := d, Header := (Header p)\<lparr>FreeSpaceOffset := of_nat off\<rparr>\<rparr>))"

fun get_words :: "nat \<Rightarrow> nat \<Rightarrow> nat \<Rightarrow> byte list \<Rightarrow> 'a::len word list option" where
  "get_words w off 0 d = Some []"
| "get_words w off (Suc n) d =
     (if off + w \<le> length d
      then map_option ((#) (from_le (seg off w d))) (get_words w (off + w) n d)
      else None)"

definition DecodeInternal :: "Page \<Rightarrow> go_error + InternalNode" where
  "DecodeInternal p =
     (let d = Data p in
      if d ! 0 \<noteq> NodeTypeInternal then Inl (WrongNodeType (page_id p))
      else
        let nKeys = unat (from_le (seg 2 2 d) :: u16)
        in case get_words 8 nodeHeaderSize nKeys d of
             None \<Rightarrow> Inl Panic
           | Some ks \<Rightarrow>
               (case get_words 4 (nodeHeaderSize + 8 * nKeys) (nKeys + 1) d of
                  None \<Rightarrow> Inl Panic
                | Some cs \<Rightarrow>
                    Inr \<lparr>InternalPageID = page_id p, Keys = ks, Children = cs\<rparr>))"

definition PageNodeType :: "Page \<Rightarrow> byte" where
  "PageNodeType p = Data p ! 0"

section \<open>Binary searches\<close>

function find_child :: "u64 list \<Rightarrow> u64 \<Rightarrow> nat \<Rightarrow> nat \<Rightarrow> nat" where
  "find_child keys key lo hi =
     (if lo < hi then
        let mid = (lo + hi) div 2 in
        if key < keys ! mid then find_child keys key lo mid
        else find_child keys key (mid + 1) hi
      else lo)"
  by pat_completeness auto
termination
  by (relation "measure (\<lambda>(keys, key, lo, hi). hi - lo)") auto

definition FindChildIndex :: "u64 list \<Rightarrow> u64 \<Rightarrow> nat" where
  "FindChildIndex keys key = find_child keys key 0 (length keys)"

function leaf_search :: "Entry list \<Rightarrow> u64 \<Rightarrow> nat \<Rightarrow> nat \<Rightarrow> nat \<times> bool" where
  "leaf_search entries key lo hi =
     (if lo < hi then
        let mid = (lo + hi) div 2 in
        if Key (entries ! mid) = key then (mid, True)
        else if Key (entries ! mid) < key then leaf_search entries key (mid + 1) hi
        else leaf_search entries key lo mid
      else (lo, False))"
  by pat_completeness auto
termination
  by (relation "measure (\<lambda>(entries, key, lo, hi). hi - lo)") auto

definition LeafSearchKey :: "Entry list \<Rightarrow> u64 \<Rightarrow> nat \<times> bool" where
  "LeafSearchKey entries key = leaf_search entries key 0 (length entries)"

declare find_child.simps [simp del] leaf_search.simps [simp del]

lemma find_child_bounds:
  "lo \<le> hi \<Longrightarrow> hi \<le> length keys \<Longrightarrow> sorted keys \<Longrightarrow>
   (\<forall>i<lo. keys ! i \<le> key) \<Longrightarrow> (\<forall>i. hi \<le> i \<longrightarrow> i < length keys \<longrightarrow> key < keys ! i) \<Longrightarrow>
   (let r = find_child keys key lo hi in
     r \<le> length keys \<and> (\<forall>i<r. keys ! i \<le> key) \<and> (\<forall>i. r \<le> i \<longrightarrow> i < length keys \<longrightarrow> key < keys ! i))"
proof (induction keys key lo hi rule: find_child.induct)
  case (1 keys key lo hi)
  show ?case
  proof (cases "lo < hi")
    case True
    define mid where "mid = (lo + hi) div 2"
    have m: "lo \<le> mid" "mid < hi" using True by (auto simp: mid_def)
    show ?thesis
    proof (cases "key < keys ! mid")
      case less: True
      have "key < keys ! i" if "mid \<le> i" "i < length keys" for i
        using less sorted_nth_mono [OF "1.prems"(3) that] by (rule order.strict_trans2)
      then show ?thesis
        using "1.IH"(1) [OF True mid_def less] "1.prems" m
        by (simp add: find_child.simps [of keys key lo hi] True less flip: mid_def)
    next
      case ge: False
      have "keys ! i \<le> key" if "i < mid + 1" for i
      proof -
        have "i \<le> mid" "mid < length keys" using that m "1.prems"(2) by auto
        then have "keys ! i \<le> keys ! mid" by (rule sorted_nth_mono [OF "1.prems"(3)])
        then show ?thesis using ge by simp
      qed
      then show ?thesis
        using "1.IH"(2) [OF True mid_def ge] "1.prems" m
        by (simp add: find_child.simps [of keys key lo hi] True ge flip: mid_def)
    qed
  next
    case False
    then show ?thesis using "1.prems" by (subst find_child.simps) simp
  qed
qed

lemma FindChildIndex_spec:
  assumes "sorted keys"
  shows "FindChildIndex keys key \<le> length keys"
    and "\<forall>x\<in>set (take (FindChildIndex keys key) keys). x \<le> key"
    and "\<forall>x\<in>set (drop (FindChildIndex keys key) keys). key < x"
proof -
  let ?r = "FindChildIndex keys key"
  have r: "?r \<le> length keys \<and> (\<forall>i<?r. keys ! i \<le> key) \<and>
      (\<forall>i. ?r \<le> i \<longrightarrow> i < length keys \<longrightarrow> key < keys ! i)"
    using find_child_bounds [of 0 "length keys" keys key] assms
    by (simp add: FindChildIndex_def Let_def)
  then show "?r \<le> length keys" by simp
  show "\<forall>x\<in>set (take ?r keys). x \<le> key" using r by (auto simp: in_set_conv_nth)
  show "\<forall>x\<in>set (drop ?r keys). key < x" using r by (auto simp: in_set_conv_nth)
qed

lemma leaf_search_bounds:
  "lo \<le> hi \<Longrightarrow> hi \<le> length es \<Longrightarrow> sorted (map Key es) \<Longrightarrow>
   (\<forall>i<lo. Key (es ! i) < key) \<Longrightarrow> (\<forall>i. hi \<le> i \<longrightarrow> i < length es \<longrightarrow> key < Key (es ! i)) \<Longrightarrow>
   (case leaf_search es key lo hi of (r, found) \<Rightarrow>
     if found then r < length es \<and> Key (es ! r) = key
     else r \<le> length es \<and> (\<forall>i<r. Key (es ! i) < key) \<and>
       (\<forall>i. r \<le> i \<longrightarrow> i < length es \<longrightarrow> key < Key (es ! i)))"
proof (induction es key lo hi rule: leaf_search.induct)
  case (1 es key lo hi)
  have mono: "Key (es ! i) \<le> Key (es ! j)" if "i \<le> j" "j < length es" for i j
    using sorted_nth_mono [OF "1.prems"(3), of i j] that by simp
  show ?case
  proof (cases "lo < hi")
    case True
    define mid where "mid = (lo + hi) div 2"
    have m: "lo \<le> mid" "mid < hi" "mid < length es" using True "1.prems"(2) by (auto simp: mid_def)
    consider (eq) "Key (es ! mid) = key" | (lt) "Key (es ! mid) < key" | (gt) "key < Key (es ! mid)"
      by fastforce
    then show ?thesis
    proof cases
      case eq
      then show ?thesis using True m by (subst leaf_search.simps) (simp flip: mid_def)
    next
      case lt
      have "Key (es ! i) < key" if "i < mid + 1" for i
        using mono [of i mid] that m lt by (auto intro: order.strict_trans1)
      then show ?thesis
        using "1.IH"(1) [OF True mid_def] "1.prems" m lt
        by (subst leaf_search.simps) (simp add: True flip: mid_def)
    next
      case gt
      have "key < Key (es ! i)" if "mid \<le> i" "i < length es" for i
        using gt mono [OF that] by (rule order.strict_trans2)
      moreover have ng: "Key (es ! mid) \<noteq> key" "\<not> Key (es ! mid) < key" using gt by auto
      moreover have "leaf_search es key lo hi = leaf_search es key lo mid"
        using ng by (subst leaf_search.simps) (simp add: True flip: mid_def)
      ultimately show ?thesis
        using "1.IH"(2) [OF True mid_def ng] "1.prems" m by simp
    qed
  next
    case False
    then show ?thesis using "1.prems" by (subst leaf_search.simps) simp
  qed
qed

lemma LeafSearchKey_found:
  assumes "sorted (map Key es)" and "LeafSearchKey es key = (i, True)"
  shows "i < length es" and "Key (es ! i) = key"
  using leaf_search_bounds [of 0 "length es" es key] assms by (simp_all add: LeafSearchKey_def)

lemma LeafSearchKey_absent:
  assumes "sorted (map Key es)" and "LeafSearchKey es key = (i, False)"
  shows "i \<le> length es" and "\<forall>e\<in>set (take i es). Key e < key" and "\<forall>e\<in>set (drop i es). key < Key e"
  using leaf_search_bounds [of 0 "length es" es key] assms
  by (auto simp: LeafSearchKey_def in_set_conv_nth)

section \<open>The node codec\<close>

definition wf_entries :: "Entry list \<Rightarrow> bool" where
  "wf_entries es \<longleftrightarrow> (\<forall>e\<in>set es. length (Value e) = ValueSize)"

lemma length_put_entries [simp]:
  "wf_entries es \<Longrightarrow> off + leafEntrySize * length es \<le> length d \<Longrightarrow>
   length (put_entries off es d) = length d"
  by (induction es arbitrary: off d) (simp_all add: wf_entries_def node_consts)

lemma put_entries_before:
  "wf_entries es \<Longrightarrow> off + leafEntrySize * length es \<le> length d \<Longrightarrow> i + n \<le> off \<Longrightarrow>
   seg i n (put_entries off es d) = seg i n d"
  by (induction es arbitrary: off d) (simp_all add: wf_entries_def node_consts)

lemma get_put_entries:
  "wf_entries es \<Longrightarrow> off + leafEntrySize * length es \<le> length d \<Longrightarrow>
   get_entries off (length es) (put_entries off es d) = Some es"
proof (induction es arbitrary: off d)
  case Nil
  then show ?case by simp
next
  case (Cons e es)
  let ?d = "put (off + 8) (Value e) (put off (le64 (Key e)) d)"
  have e: "length (Value e) = 256" "wf_entries es" using Cons.prems(1)
    by (auto simp: wf_entries_def node_consts)
  have d: "length ?d = length d" using Cons.prems(2) e(1) by (simp add: node_consts)
  have fits: "off + leafEntrySize + leafEntrySize * length es \<le> length ?d"
    using Cons.prems(2) d by simp
  have "seg off 8 (put_entries (off + leafEntrySize) es ?d) = le64 (Key e)"
       "seg (off + 8) ValueSize (put_entries (off + leafEntrySize) es ?d) = Value e"
    using Cons.prems(2) e by (simp_all add: put_entries_before fits node_consts)
  then show ?case
    using Cons.IH [OF e(2) fits] fits e by simp
qed

lemma length_put_keys [simp]:
  "off + 8 * length ks \<le> length d \<Longrightarrow> length (put_keys off ks d) = length d"
  by (induction ks arbitrary: off d) simp_all

lemma put_keys_before:
  "off + 8 * length ks \<le> length d \<Longrightarrow> i + n \<le> off \<Longrightarrow> seg i n (put_keys off ks d) = seg i n d"
  by (induction ks arbitrary: off d) simp_all

lemma length_put_children [simp]:
  "off + 4 * length cs \<le> length d \<Longrightarrow> length (put_children off cs d) = length d"
  by (induction cs arbitrary: off d) simp_all

lemma put_children_before:
  "off + 4 * length cs \<le> length d \<Longrightarrow> i + n \<le> off \<Longrightarrow> seg i n (put_children off cs d) = seg i n d"
  by (induction cs arbitrary: off d) simp_all

lemma get_words_cong:
  "(\<And>i. off \<le> i \<Longrightarrow> i + w \<le> off + w * n \<Longrightarrow> seg i w d = seg i w d') \<Longrightarrow> length d = length d' \<Longrightarrow>
   (get_words w off n d :: 'a::len word list option) = get_words w off n d'"
proof (induction n arbitrary: off)
  case 0
  then show ?case by simp
next
  case (Suc n)
  have "(get_words w (off + w) n d :: 'a word list option) = get_words w (off + w) n d'"
    using Suc.prems by (intro Suc.IH) auto
  then show ?case using Suc.prems by simp
qed

lemma get_put_keys:
  "off + 8 * length ks \<le> length d \<Longrightarrow> get_words 8 off (length ks) (put_keys off ks d) = Some ks"
  by (induction ks arbitrary: off d) (simp_all add: put_keys_before)

lemma get_put_children:
  "off + 4 * length cs \<le> length d \<Longrightarrow> get_words 4 off (length cs) (put_children off cs d) = Some cs"
  by (induction cs arbitrary: off d) (simp_all add: put_children_before)

lemma unat_u16_of_nat: "n < 2 ^ 16 \<Longrightarrow> unat (of_nat n :: u16) = n"
  by (simp add: unat_of_nat)

lemma nth_0_seg: "0 < length d \<Longrightarrow> d ! 0 = hd (seg 0 1 d)"
  by (cases d) (simp_all add: seg_def)

lemma EncodeLeaf_ok:
  assumes "length (Entries n) \<le> LeafOrder" and "wf_entries (Entries n)"
  shows "\<exists>p. EncodeLeaf n = Inr p \<and> wf_page p \<and> page_id p = LeafPageID n \<and>
     PageNodeType p = NodeTypeLeaf \<and>
     (\<forall>q. page_id q = page_id p \<longrightarrow> Data q = Data p \<longrightarrow> DecodeLeaf q = Inr n)"
proof -
  let ?es = "Entries n"
  define d4 where "d4 = put 4 (le32 (NextLeaf n)) (put 2 (le16 (of_nat (length ?es)))
      (put 1 [0] (put 0 [NodeTypeLeaf] (replicate DataSize 0))))"
  define d where "d = put_entries nodeHeaderSize ?es d4"
  obtain p where p: "EncodeLeaf n = Inr p" "Data p = d" "page_id p = LeafPageID n"
    using assms(1) by (simp add: EncodeLeaf_def Let_def d_def d4_def NewPage_def)
  have len4: "length d4 = DataSize" by (simp add: d4_def page_consts)
  have fits: "nodeHeaderSize + leafEntrySize * length ?es \<le> length d4"
    using assms(1) by (simp add: len4 LeafOrder_val node_consts page_consts)
  have len: "length d = DataSize" unfolding d_def using assms(2) fits len4 by simp
  have "seg 0 1 d = [NodeTypeLeaf]" "seg 2 2 d = le16 (of_nat (length ?es))"
       "seg 4 4 d = le32 (NextLeaf n)"
    unfolding d_def using assms(2) fits
    by (simp_all add: put_entries_before nodeHeaderSize_def) (simp_all add: d4_def page_consts)
  moreover have "get_entries nodeHeaderSize (length ?es) d = Some ?es"
    unfolding d_def by (rule get_put_entries [OF assms(2) fits])
  moreover have "unat (of_nat (length ?es) :: u16) = length ?es"
    using assms(1) by (intro unat_u16_of_nat) (simp add: LeafOrder_val)
  moreover have "d ! 0 = NodeTypeLeaf"
    using calculation(1) len by (simp add: nth_0_seg page_consts)
  ultimately have "PageNodeType p = NodeTypeLeaf"
      "\<forall>q. page_id q = page_id p \<longrightarrow> Data q = Data p \<longrightarrow> DecodeLeaf q = Inr n"
    using p by (simp_all add: PageNodeType_def DecodeLeaf_def Let_def)
  then show ?thesis using p len by (simp add: wf_page_def)
qed

lemma EncodeInternal_ok:
  assumes "length (Keys n) \<le> InternalOrder" and "length (Children n) = length (Keys n) + 1"
  shows "\<exists>p. EncodeInternal n = Inr p \<and> wf_page p \<and> page_id p = InternalPageID n \<and>
     PageNodeType p = NodeTypeInternal \<and>
     (\<forall>q. page_id q = page_id p \<longrightarrow> Data q = Data p \<longrightarrow> DecodeInternal q = Inr n)"
proof -
  let ?ks = "Keys n" and ?cs = "Children n"
  let ?off = "nodeHeaderSize + 8 * length ?ks"
  define d4 where "d4 = put 4 (le32 0) (put 2 (le16 (of_nat (length ?ks)))
      (put 1 [0] (put 0 [NodeTypeInternal] (replicate DataSize 0))))"
  define dk where "dk = put_keys nodeHeaderSize ?ks d4"
  define d where "d = put_children ?off ?cs dk"
  obtain p where p: "EncodeInternal n = Inr p" "Data p = d" "page_id p = InternalPageID n"
    using assms by (simp add: EncodeInternal_def Let_def d_def dk_def d4_def NewPage_def)
  have len4: "length d4 = DataSize" by (simp add: d4_def page_consts)
  have fits: "nodeHeaderSize + 8 * length ?ks \<le> length d4"
    using assms(1) by (simp add: len4 InternalOrder_def node_consts page_consts)
  then have lenk: "length dk = DataSize" by (simp add: dk_def len4)
  have fitc: "?off + 4 * length ?cs \<le> length dk"
    using assms by (simp add: lenk InternalOrder_def node_consts page_consts)
  then have len: "length d = DataSize" by (simp add: d_def lenk)
  have "seg 0 1 d = [NodeTypeInternal]" "seg 2 2 d = le16 (of_nat (length ?ks))"
    unfolding d_def dk_def using fits fitc
    by (simp_all add: put_children_before put_keys_before nodeHeaderSize_def dk_def)
      (simp_all add: d4_def page_consts)
  moreover have "get_words 8 nodeHeaderSize (length ?ks) d = Some ?ks"
  proof -
    have "(get_words 8 nodeHeaderSize (length ?ks) d :: u64 list option) =
          get_words 8 nodeHeaderSize (length ?ks) dk"
      unfolding d_def using fitc by (intro get_words_cong) (simp_all add: put_children_before)
    then show ?thesis unfolding dk_def using get_put_keys [OF fits] by simp
  qed
  moreover have "get_words 4 ?off (length ?ks + 1) d = Some ?cs"
    unfolding d_def using get_put_children [OF fitc] assms(2) by simp
  moreover have "unat (of_nat (length ?ks) :: u16) = length ?ks"
    using assms(1) by (intro unat_u16_of_nat) (simp add: InternalOrder_def)
  moreover have "d ! 0 = NodeTypeInternal"
    using calculation(1) len by (simp add: nth_0_seg page_consts)
  ultimately have "PageNodeType p = NodeTypeInternal"
      "\<forall>q. page_id q = page_id p \<longrightarrow> Data q = Data p \<longrightarrow> DecodeInternal q = Inr n"
    using p by (simp_all add: PageNodeType_def DecodeInternal_def Let_def)
  then show ?thesis using p len by (simp add: wf_page_def)
qed

end
