(* ===== verification/Rows.thy ===== *)
theory Rows
  imports Query BTreeNode Mvcc
begin

text \<open>
  The row codec of \<open>src/executor/executor.go\<close>: a row is stored in the fixed value slot
  of a B+ tree entry, an 8-byte MVCC header (xmin, xmax) and the columns at fixed
  widths. \<open>decodeRow\<close> runs the loop of \<open>Table.Decode\<close> behind the header.

  The lemmas: what is stored is read back (TEXT cut to its width and stripped of
  trailing NUL bytes); a schema that passes \<open>validateSchema\<close> never makes the codec
  panic; and \<open>Table.Decode\<close>, which the statistics collector calls on the same slot,
  reads the header as column data.
\<close>

definition mvccHeaderSize :: nat where "mvccHeaderSize = 8"
definition userDataSize :: nat where "userDataSize = ValueSize - mvccHeaderSize"

fun encode_columns :: "ColumnDef list \<Rightarrow> Value list \<Rightarrow> nat \<Rightarrow> byte list \<Rightarrow> go_error + byte list" where
  "encode_columns [] vs off buf = Inr buf"
| "encode_columns (c # cs) vs off buf =
     (if colType c = TypeInt then
        (case vs of
           [] \<Rightarrow> Inl Panic
         | v # vs' \<Rightarrow>
             if off + IntColSize \<le> length buf
             then encode_columns cs vs' (off + IntColSize) (put off (le64 (IntVal v)) buf)
             else Inl Panic)
      else if colType c = TypeText then
        (case vs of
           [] \<Rightarrow> Inl Panic
         | v # vs' \<Rightarrow>
             if off + TextColSize \<le> length buf
             then encode_columns cs vs' (off + TextColSize)
                    (put off (take TextColSize (string_bytes (TextVal v))) buf)
             else Inl Panic)
      else encode_columns cs (drop 1 vs) off buf)"

definition encodeRow :: "'i table_of \<Rightarrow> Value list \<Rightarrow> u32 \<Rightarrow> go_error + byte list" where
  "encodeRow t values xid =
     (let buf = replicate ValueSize 0;
          buf = put 0 (le32 xid) buf;
          buf = put 4 (le32 XIDNone) buf
      in encode_columns (tblColumns t) values mvccHeaderSize buf)"

definition decodeRow :: "'i table_of \<Rightarrow> byte list \<Rightarrow> go_error + Value list" where
  "decodeRow t buf = decode_columns (tblColumns t) buf mvccHeaderSize"

definition row_xmin :: "byte list \<Rightarrow> u32" where "row_xmin buf = from_le (seg 0 4 buf)"
definition row_xmax :: "byte list \<Rightarrow> u32" where "row_xmax buf = from_le (seg 4 4 buf)"

definition col_size :: "ColumnDef \<Rightarrow> nat" where
  "col_size c = (if colType c = TypeInt then IntColSize else if colType c = TypeText then TextColSize else 0)"

definition validateSchema :: "'i table_of \<Rightarrow> go_error + unit" where
  "validateSchema t =
     (if PrimaryKeyIndex t = None then Inl (NoPrimaryKey (tblName t))
      else if userDataSize < sum_list (map col_size (tblColumns t)) then Inl (RowTooLarge (tblName t))
      else Inr ())"

text \<open>What a column keeps of a value.\<close>

definition stored :: "ColumnDef \<Rightarrow> Value \<Rightarrow> Value" where
  "stored c v =
     (if colType c = TypeInt then intValue (IntVal v)
      else if colType c = TypeText then
        textValue (bytes_string (trim_nul (take TextColSize (string_bytes (TextVal v)))))
      else zeroValue)"

text \<open>A value that its column keeps as it is: of the column's type, with the other field zero, a
  text of at most 48 bytes not ending in NUL.\<close>

definition fits :: "ColumnDef \<Rightarrow> Value \<Rightarrow> bool" where
  "fits c v \<longleftrightarrow>
     (colType c = TypeInt \<and> v = intValue (IntVal v)) \<or>
     (colType c = TypeText \<and> v = textValue (TextVal v) \<and> length (TextVal v) \<le> TextColSize \<and>
        (TextVal v = [] \<or> last (TextVal v) \<noteq> CHR 0x00))"

lemma Type_distinct [simp]: "TypeInt \<noteq> TypeText" "TypeText \<noteq> TypeInt"
  by (simp_all add: TypeInt_def TypeText_def)

lemma trim_nul_id: "bs = [] \<or> last bs \<noteq> 0 \<Longrightarrow> trim_nul bs = bs"
  using trim_nul_pad [of bs 0] by simp

lemma dropWhile_replicate [simp]: "dropWhile (\<lambda>b. b = x) (replicate n x @ ys) = dropWhile (\<lambda>b. b = x) ys"
  by (induction n) simp_all

lemma trim_nul_padded [simp]: "trim_nul (bs @ replicate n 0) = trim_nul bs"
  by (simp add: trim_nul_def)

lemma last_string_bytes: "s \<noteq> [] \<Longrightarrow> last (string_bytes s) = byte_of_char (last s)"
  by (simp add: string_bytes_def last_map)

lemma stored_fits: "fits c v \<Longrightarrow> stored c v = v"
proof -
  assume f: "fits c v"
  have "trim_nul (string_bytes s) = string_bytes s" if "s = [] \<or> last s \<noteq> CHR 0x00" for s
    using that last_string_bytes [of s] byte_of_char_0 [of "last s"]
    by (intro trim_nul_id) (auto simp: string_bytes_def)
  then show ?thesis using f by (auto simp: stored_def fits_def)
qed

section \<open>The codec\<close>

text \<open>The bytes of one column.\<close>

definition field :: "ColumnDef \<Rightarrow> Value \<Rightarrow> byte list" where
  "field c v =
     (if colType c = TypeInt then le64 (IntVal v)
      else if colType c = TypeText then
        (let b = take TextColSize (string_bytes (TextVal v)) in b @ replicate (TextColSize - length b) 0)
      else [])"

definition row_fields :: "ColumnDef list \<Rightarrow> Value list \<Rightarrow> byte list" where
  "row_fields cs vs = concat (map2 field cs vs)"

lemma length_field [simp, codec_simps]: "length (field c v) = col_size c"
  by (simp add: field_def col_size_def IntColSize_def Let_def TextColSize_def)

lemma row_fields_Cons [simp]: "row_fields (c # cs) (v # vs) = field c v @ row_fields cs vs"
  by (simp add: row_fields_def)

lemma row_fields_Nil [simp]: "row_fields [] vs = []"
  by (simp add: row_fields_def)

lemma put_over_zeros:
  "length xs \<le> w \<Longrightarrow> w \<le> n \<Longrightarrow>
   put (length pre) xs (pre @ replicate n 0) = (pre @ xs @ replicate (w - length xs) 0) @ replicate (n - w) 0"
  by (simp add: put_def flip: replicate_add)

lemma encode_columns_eq:
  assumes "length vs = length cs" and "sum_list (map col_size cs) \<le> n"
  shows "encode_columns cs vs (length pre) (pre @ replicate n 0)
           = Inr (pre @ row_fields cs vs @ replicate (n - sum_list (map col_size cs)) 0)"
  using assms
proof (induction cs arbitrary: vs pre n)
  case Nil
  then show ?case by simp
next
  case (Cons c cs)
  obtain v vs' where vs: "vs = v # vs'" "length vs' = length cs" using Cons.prems(1) by (cases vs) auto
  have n: "col_size c \<le> n" "sum_list (map col_size cs) \<le> n - col_size c" using Cons.prems(2) by simp_all
  have IH: "encode_columns cs vs' (length pre + col_size c) ((pre @ field c v) @ replicate (n - col_size c) 0)
      = Inr (pre @ field c v @ row_fields cs vs' @ replicate (n - sum_list (map col_size (c # cs))) 0)"
    using Cons.IH [OF vs(2) n(2), of "pre @ field c v"] by (simp add: diff_diff_left)
  have "put (length pre) (le64 (IntVal v)) (pre @ replicate n 0) = (pre @ field c v) @ replicate (n - col_size c) 0"
    if "colType c = TypeInt"
    using put_over_zeros [of "le64 (IntVal v)" IntColSize n pre] n(1) that
    by (simp add: field_def col_size_def IntColSize_def)
  moreover have "put (length pre) (take TextColSize (string_bytes (TextVal v))) (pre @ replicate n 0)
      = (pre @ field c v) @ replicate (n - col_size c) 0" if "colType c = TypeText"
    using put_over_zeros [of "take TextColSize (string_bytes (TextVal v))" TextColSize n pre] n(1) that
    by (simp add: field_def col_size_def Let_def)
  moreover have "field c v = []" "col_size c = 0" if "colType c \<noteq> TypeInt" "colType c \<noteq> TypeText"
    using that by (simp_all add: field_def col_size_def)
  ultimately show ?case
    using IH vs(1) n(1) by (auto simp: col_size_def [of c] split: if_splits)
qed

lemma seg_field: "length pre = off \<Longrightarrow> w = length f \<Longrightarrow> seg off w (pre @ f @ r) = f"
  by (simp add: seg_def)

lemma decode_columns_eq:
  assumes "length vs = length cs"
  shows "decode_columns cs (pre @ row_fields cs vs @ r) (length pre) = Inr (map2 stored cs vs)"
  using assms
proof (induction cs arbitrary: vs pre)
  case (Cons c cs)
  obtain v vs' where vs: "vs = v # vs'" "length vs' = length cs" using Cons.prems by (cases vs) auto
  let ?buf = "pre @ field c v @ row_fields cs vs' @ r"
  have IH: "decode_columns cs ?buf (length pre + col_size c) = Inr (map2 stored cs vs')"
    using Cons.IH [OF vs(2), of "pre @ field c v"] by simp
  have f: "seg (length pre) (col_size c) ?buf = field c v" by (rule seg_field) simp_all
  have "from_le (seg (length pre) IntColSize ?buf) = IntVal v" if "colType c = TypeInt"
    using f that by (simp add: col_size_def field_def)
  moreover have "trim_nul (seg (length pre) TextColSize ?buf) = trim_nul (take TextColSize (string_bytes (TextVal v)))"
    if "colType c = TypeText"
    using f that by (simp add: col_size_def field_def Let_def)
  ultimately show ?case
    using IH vs(1) by (auto simp: stored_def col_size_def [of c] split: if_splits)
qed simp

lemma validateSchema_size: "validateSchema t = Inr () \<Longrightarrow> sum_list (map col_size (tblColumns t)) \<le> 248"
  by (auto simp: validateSchema_def userDataSize_def ValueSize_def mvccHeaderSize_def split: if_splits)

text \<open>The layout of an encoded row: header, columns, zeros.\<close>

lemma encodeRow_eq:
  assumes "validateSchema t = Inr ()" and "length vs = length (tblColumns t)"
  shows "encodeRow t vs xid = Inr ((le32 xid @ le32 XIDNone) @ row_fields (tblColumns t) vs @
           replicate (248 - sum_list (map col_size (tblColumns t))) 0)"
proof -
  have "put 4 (le32 XIDNone) (put 0 (le32 xid) (replicate ValueSize 0))
      = (le32 xid @ le32 XIDNone) @ replicate 248 0"
    by (simp add: put_def ValueSize_def)
  then show ?thesis
    using encode_columns_eq [OF assms(2) validateSchema_size [OF assms(1)], of "le32 xid @ le32 XIDNone"]
    by (simp add: encodeRow_def mvccHeaderSize_def)
qed

lemma decodeRow_encoded:
  assumes "encodeRow t vs xid = Inr buf" "validateSchema t = Inr ()" "length vs = length (tblColumns t)"
  shows "decodeRow t buf = Inr (map2 stored (tblColumns t) vs)"
    and "row_xmin buf = xid" and "row_xmax buf = XIDNone"
    and "length buf = ValueSize"
proof -
  note buf = encodeRow_eq [OF assms(2,3), of xid, unfolded assms(1), simplified]
  show "decodeRow t buf = Inr (map2 stored (tblColumns t) vs)"
    using decode_columns_eq [OF assms(3), of "le32 xid @ le32 XIDNone"] buf
    by (simp add: decodeRow_def mvccHeaderSize_def)
  show "row_xmin buf = xid" "row_xmax buf = XIDNone"
    using buf by (simp_all add: row_xmin_def row_xmax_def seg_def)
  have "length (row_fields cs ws) = sum_list (map col_size cs)" if "length ws = length cs" for cs ws
    using that by (induction cs ws rule: list_induct2') auto
  then show "length buf = ValueSize"
    using buf assms(3) validateSchema_size [OF assms(2)] by (simp add: ValueSize_def)
qed


lemma decode_columns_total:
  "off + sum_list (map col_size cs) \<le> length buf \<Longrightarrow>
   \<exists>ws. decode_columns cs buf off = Inr ws \<and> length ws = length cs"
proof (induction cs buf off rule: decode_columns.induct)
  case (2 c cs buf off)
  then show ?case
    by (cases "colType c = TypeInt"; cases "colType c = TypeText") (auto simp: col_size_def [of c])
qed simp

lemma from_le_pad: "from_le (bs @ replicate n 0) = from_le bs"
  by (induction bs) simp_all

lemma from_le_to_le_cast:
  "from_le (to_le n (w :: 'a::len word)) = (ucast (take_bit (8 * n) w) :: 'b::len word)"
proof (induction n arbitrary: w)
  case (Suc n)
  show ?case
  proof (rule bit_word_eqI)
    fix i assume "i < LENGTH('b)"
    then show "bit (from_le (to_le (Suc n) w) :: 'b word) i = bit (ucast (take_bit (8 * Suc n) w) :: 'b word) i"
      by (cases "i < 8") (auto simp: Suc bit_simps)
  qed
qed simp

lemma to_le_0: "to_le n 0 = replicate n 0"
  by (induction n) simp_all

lemma from_le_u32_pad: "from_le (le32 x @ le32 0) = (ucast x :: u64)"
  by (simp add: to_le_0 from_le_pad from_le_to_le_cast take_bit_word_eq_self del: to_le.simps)

section \<open>Properties\<close>

text \<open>C40: a row that fits its schema is stored in one value slot and read back as it was, as
  inserted by \<open>xid\<close> and not deleted; neither direction panics.\<close>

theorem row_roundtrip:
  assumes "validateSchema t = Inr ()" and "list_all2 fits (tblColumns t) vs"
  shows "\<exists>buf. encodeRow t vs xid = Inr buf \<and> length buf = ValueSize \<and> decodeRow t buf = Inr vs
    \<and> row_xmin buf = xid \<and> row_xmax buf = XIDNone"
proof -
  have l: "length vs = length (tblColumns t)" using list_all2_lengthD [OF assms(2)] by simp
  have "map2 stored (tblColumns t) vs = vs"
    using assms(2) by (induction rule: list_all2_induct) (simp_all add: stored_fits)
  then show ?thesis
    using decodeRow_encoded [OF _ assms(1) l] encodeRow_eq [OF assms(1) l] by metis
qed

text \<open>C38: \<open>Table.Decode\<close> does not skip the row header: on an encoded row whose first column is an
  INT it reads the number of the inserting transaction as the value of that column, whatever was
  stored there. \<open>stats.Collect\<close> decodes rows this way.\<close>

lemma Table_Decode_reads_header:
  assumes "validateSchema t = Inr ()" and "length vs = length (tblColumns t)"
    and "tblColumns t = c # cs" and "colType c = TypeInt" and "encodeRow t vs xid = Inr buf"
  shows "\<exists>ws. Table_Decode t buf = Inr (intValue (ucast xid) # ws)"
proof -
  note buf = encodeRow_eq [OF assms(1,2), of xid, unfolded assms(5), simplified]
  have "seg 0 8 buf = le32 xid @ le32 0" using buf by (simp add: seg_def XIDNone_def)
  then have hd8: "from_le (seg 0 IntColSize buf) = (ucast xid :: u64)"
    using from_le_u32_pad by (simp add: IntColSize_def)
  have "IntColSize + sum_list (map col_size cs) \<le> length buf"
    using validateSchema_size [OF assms(1)] decodeRow_encoded(4) [OF assms(5,1,2)] assms(3,4)
    by (simp add: ValueSize_def col_size_def [of c])
  then show ?thesis
    using decode_columns_total [of IntColSize cs buf] assms(3,4) hd8 by (auto simp: Table_Decode_def)
qed

section \<open>Witnesses\<close>

definition ex_schema :: Table where
  "ex_schema = \<lparr>tblName = ''t'', tblColumns = [\<lparr>colName = ''id'', colType = 0\<rparr>, \<lparr>colName = ''name'', colType = 1\<rparr>],
     tblIndexes = []\<rparr>"

lemma ex_schema_valid: "validateSchema ex_schema = Inr ()"
  by (simp add: validateSchema_def ex_schema_def PrimaryKeyIndex_def TypeInt_def TypeText_def userDataSize_def ValueSize_def
      mvccHeaderSize_def col_size_def IntColSize_def TextColSize_def)

theorem row_roundtrip_witness:
  "\<exists>buf. encodeRow ex_schema [intValue 7, textValue ''ann''] 3 = Inr buf \<and> length buf = ValueSize \<and>
     decodeRow ex_schema buf = Inr [intValue 7, textValue ''ann''] \<and> row_xmin buf = 3 \<and> row_xmax buf = XIDNone"
  by (rule row_roundtrip [OF ex_schema_valid])
    (simp add: ex_schema_def fits_def TypeInt_def TypeText_def intValue_def textValue_def TextColSize_def)

end
