(* ===== verification/Predicates.thy ===== *)
theory Predicates
  imports Rows "HOL-Library.Char_ord" "HOL-Library.List_Lexorder"
begin

text \<open>
  The evaluation of conditions on rows: \<open>compareVals\<close>, \<open>evalPreds\<close> and
  \<open>inListContains\<close> of \<open>src/executor/operators.go\<close> and \<open>matchesWhere\<close> of
  \<open>src/executor/dml.go\<close>. Go compares strings byte by byte, which is the
  lexicographic order of the library on character lists. A row is indexed by the
  column number of the schema; outside of the row Go panics.

  \<open>cond_holds\<close> is the meaning of a condition for a row that has the columns of its
  schema, and the lemmas say that the evaluators compute it.
\<close>

fun compare_with :: "CompareOp \<Rightarrow> 'a::linorder \<Rightarrow> 'a \<Rightarrow> bool" where
  "compare_with OpEq x y \<longleftrightarrow> x = y"
| "compare_with OpGt x y \<longleftrightarrow> x > y"
| "compare_with OpLt x y \<longleftrightarrow> x < y"
| "compare_with OpGte x y \<longleftrightarrow> x \<ge> y"
| "compare_with OpLte x y \<longleftrightarrow> x \<le> y"

definition compareVals :: "Value \<Rightarrow> Value \<Rightarrow> CompareOp \<Rightarrow> bool" where
  "compareVals a b op =
     (if valType a \<noteq> valType b then False
      else if valType a = TypeInt then compare_with op (IntVal a) (IntVal b)
      else if valType a = TypeText then compare_with op (TextVal a) (TextVal b)
      else False)"

definition inListContains :: "Value \<Rightarrow> Value list \<Rightarrow> bool" where
  "inListContains v xs = list_ex (\<lambda>item. compareVals v item OpEq) xs"

definition evalCond :: "Value \<Rightarrow> Condition \<Rightarrow> bool" where
  "evalCond v c = compareVals v (Val c) (Op c)"

fun evalPreds :: "Value list \<Rightarrow> Table option \<Rightarrow> Condition list \<Rightarrow> go_error + bool" where
  "evalPreds row tbl [] = Inr True"
| "evalPreds row tbl (c # cs) =
     (if AlwaysFalse c then Inr False
      else if IsJoinCond c then evalPreds row tbl cs
      else case (case tbl of Some t \<Rightarrow> ColIndex t (Column c) | None \<Rightarrow> None) of
        None \<Rightarrow> evalPreds row tbl cs
      | Some idx \<Rightarrow>
          if length row \<le> idx then Inl Panic
          else case InList c of
            Some xs \<Rightarrow>
              if Negated c = inListContains (row ! idx) xs then Inr False
              else evalPreds row tbl cs
          | None \<Rightarrow>
              if \<not> evalCond (row ! idx) c then Inr False
              else evalPreds row tbl cs)"

fun match_groups :: "Value list \<Rightarrow> Table \<Rightarrow> Condition list list \<Rightarrow> go_error + bool" where
  "match_groups row t [] = Inr False"
| "match_groups row t (g # gs) =
     (case evalPreds row (Some t) g of
        Inl e \<Rightarrow> Inl e
      | Inr True \<Rightarrow> Inr True
      | Inr False \<Rightarrow> match_groups row t gs)"

definition matchesWhere :: "Value list \<Rightarrow> Table \<Rightarrow> WhereClause option \<Rightarrow> go_error + bool" where
  "matchesWhere row t wh =
     (case wh of None \<Rightarrow> Inr True | Some w \<Rightarrow> match_groups row t (Groups w))"

section \<open>The meaning of a condition\<close>

definition cond_holds :: "Table \<Rightarrow> Value list \<Rightarrow> Condition \<Rightarrow> bool" where
  "cond_holds t row c \<longleftrightarrow>
     \<not> AlwaysFalse c \<and>
     (IsJoinCond c \<or>
      (case ColIndex t (Column c) of
         None \<Rightarrow> True
       | Some i \<Rightarrow>
           (case InList c of
              Some xs \<Rightarrow> Negated c \<longleftrightarrow> \<not> inListContains (row ! i) xs
            | None \<Rightarrow> compareVals (row ! i) (Val c) (Op c))))"

definition where_holds :: "Table \<Rightarrow> Value list \<Rightarrow> WhereClause option \<Rightarrow> bool" where
  "where_holds t row wh =
     (case wh of None \<Rightarrow> True | Some w \<Rightarrow> \<exists>g \<in> set (Groups w). \<forall>c \<in> set g. cond_holds t row c)"

lemma ColIndex_less: "ColIndex t n = Some i \<Longrightarrow> i < length (tblColumns t)"
  by (simp add: ColIndex_def find_index_length)

lemma evalPreds_holds:
  assumes "length row = length (tblColumns t)"
  shows "evalPreds row (Some t) cs = Inr (\<forall>c \<in> set cs. cond_holds t row c)"
  by (induction cs)
    (use assms in \<open>auto simp: cond_holds_def evalCond_def dest: ColIndex_less split: option.splits\<close>)

lemma match_groups_holds:
  assumes "length row = length (tblColumns t)"
  shows "match_groups row t gs = Inr (\<exists>g \<in> set gs. \<forall>c \<in> set g. cond_holds t row c)"
proof (induction gs)
  case (Cons g gs)
  then show ?case
    using evalPreds_holds [OF assms, of g]
    by (cases "\<forall>c \<in> set g. cond_holds t row c") auto
qed simp

lemma matchesWhere_holds:
  "length row = length (tblColumns t) \<Longrightarrow> matchesWhere row t wh = Inr (where_holds t row wh)"
  by (simp add: matchesWhere_def where_holds_def match_groups_holds split: option.split)

lemma compareVals_int:
  "compareVals (intValue x) v op \<longleftrightarrow> valType v = TypeInt \<and> compare_with op x (IntVal v)"
  by (auto simp: compareVals_def intValue_def)

end
