(* ===== verification/Decimal.thy ===== *)
theory Decimal
  imports Bytes
begin

text \<open>
  Decimal numerals: \<open>fmt.Fprintf("%d")\<close> on unsigned numbers and \<open>strconv.ParseUint(s, 10, 64)\<close>,
  with their round trip. Both are used on digits only.
\<close>

definition digit_char :: "nat \<Rightarrow> char" where "digit_char d = char_of (48 + d)"
definition digit_value :: "char \<Rightarrow> nat" where "digit_value c = of_char c - 48"
definition is_digit :: "char \<Rightarrow> bool" where "is_digit c \<longleftrightarrow> 48 \<le> (of_char c :: nat) \<and> (of_char c :: nat) \<le> 57"

fun format_nat :: "nat \<Rightarrow> string" where
  "format_nat n = (if n < 10 then [digit_char n] else format_nat (n div 10) @ [digit_char (n mod 10)])"

declare format_nat.simps [simp del]

definition parse_nat :: "string \<Rightarrow> nat" where
  "parse_nat s = foldl (\<lambda>a c. a * 10 + digit_value c) 0 s"

definition ParseUint :: "string \<Rightarrow> go_error + u64" where
  "ParseUint s = (if parse_nat s < 2 ^ 64 then Inr (word_of_nat (parse_nat s)) else Inl (IntegerOutOfRange s))"

lemma digit_char_value [simp]: "d < 10 \<Longrightarrow> digit_value (digit_char d) = d"
  by (simp add: digit_char_def digit_value_def)

lemma is_digit_char [simp]: "d < 10 \<Longrightarrow> is_digit (digit_char d)"
  by (simp add: digit_char_def is_digit_def)

lemma parse_nat_snoc [simp]: "parse_nat (s @ [c]) = parse_nat s * 10 + digit_value c"
  by (simp add: parse_nat_def)

lemma parse_format_nat [simp]: "parse_nat (format_nat n) = n"
proof (induction n rule: format_nat.induct)
  case (1 n)
  then show ?case
    by (cases "n < 10") (simp_all add: format_nat.simps [of n] parse_nat_def)
qed

lemma format_nat_inject [simp]: "format_nat m = format_nat n \<longleftrightarrow> m = n"
  by (metis parse_format_nat)

lemma format_nat_digits: "c \<in> set (format_nat n) \<Longrightarrow> is_digit c"
proof (induction n rule: format_nat.induct)
  case (1 n)
  then show ?case by (cases "n < 10") (auto simp: format_nat.simps [of n])
qed

lemma format_nat_nonempty [simp]: "format_nat n \<noteq> []"
  by (simp add: format_nat.simps [of n])

lemma ParseUint_format [simp]: "ParseUint (format_nat (unat w)) = Inr w"
  using unsigned_less [of w, where ?'a = nat] by (simp add: ParseUint_def)

end
