(* ===== verification/Aggregates.thy ===== *)
theory Aggregates
  imports Predicates Decimal "HOL-Library.Multiset"
begin

text \<open>
  \<open>src/executor/agg.go\<close>: grouping, aggregate functions, HAVING and ORDER BY on
  materialised rows. A Go map from lower-case names to positions is a map; where two
  columns have one name the last one wins. An access outside a row panics.

  The lemmas: rows are grouped exactly by their grouping key, in order of first
  appearance; SUM wraps at 64 bits and AVG lies between MIN and MAX as long as it
  does not; ORDER BY is a stable sort.
\<close>

definition selectHasAgg :: "SelectStmt \<Rightarrow> bool" where
  "selectHasAgg s \<longleftrightarrow> GroupBy s \<noteq> [] \<or> list_ex (\<lambda>e. exprAgg e \<noteq> None) (Columns s)"

definition name_index :: "string list \<Rightarrow> string \<Rightarrow> nat option" where
  "name_index names = fold (\<lambda>(i, name) m. m(ToLower name \<mapsto> i)) (enumerate 0 names) Map.empty"

definition cell :: "Value list \<Rightarrow> nat \<Rightarrow> go_error + Value" where
  "cell row i = (if i < length row then Inr (row ! i) else Inl Panic)"

section \<open>Aggregate functions\<close>

definition resolveAggCol :: "AggCall \<Rightarrow> (string \<Rightarrow> nat option) \<Rightarrow> go_error + nat" where
  "resolveAggCol agg rawIdx =
     (case rawIdx (ToLower (aggCol agg)) of None \<Rightarrow> Inl (ColumnMissing (aggCol agg)) | Some i \<Rightarrow> Inr i)"

definition agg_column :: "AggCall \<Rightarrow> Value list list \<Rightarrow> (string \<Rightarrow> nat option) \<Rightarrow> go_error + u64 list" where
  "agg_column agg rows rawIdx =
     bindE (resolveAggCol agg rawIdx) (\<lambda>i. mapE (\<lambda>row. bindE (cell row i) (\<lambda>v. Inr (IntVal v))) rows)"

definition agg_sum :: "u64 list \<Rightarrow> u64" where
  "agg_sum xs = fold (\<lambda>x sum. sum + x) xs 0"

definition agg_min :: "u64 list \<Rightarrow> u64" where
  "agg_min xs = fold (\<lambda>x mn. if x < mn then x else mn) xs 0xFFFFFFFFFFFFFFFF"

definition agg_max :: "u64 list \<Rightarrow> u64" where
  "agg_max xs = fold (\<lambda>x mx. if x > mx then x else mx) xs 0"

definition evalAgg :: "AggCall \<Rightarrow> Value list list \<Rightarrow> (string \<Rightarrow> nat option) \<Rightarrow> go_error + Value" where
  "evalAgg agg rows rawIdx =
     (case aggFunc agg of
        AggCount \<Rightarrow> Inr (intValue (word_of_nat (length rows)))
      | AggSum \<Rightarrow> bindE (agg_column agg rows rawIdx) (\<lambda>xs. Inr (intValue (agg_sum xs)))
      | AggAvg \<Rightarrow> bindE (agg_column agg rows rawIdx) (\<lambda>xs.
          if rows = [] then Inr (intValue 0)
          else Inr (intValue (agg_sum xs div word_of_nat (length rows))))
      | AggMin \<Rightarrow> bindE (agg_column agg rows rawIdx) (\<lambda>xs.
          if rows = [] then Inr (intValue 0) else Inr (intValue (agg_min xs)))
      | AggMax \<Rightarrow> bindE (agg_column agg rows rawIdx) (\<lambda>xs.
          if rows = [] then Inr (intValue 0) else Inr (intValue (agg_max xs))))"

section \<open>Grouping\<close>

definition key_part :: "Value \<Rightarrow> string" where
  "key_part v = (if valType v = TypeInt then CHR ''i'' # format_nat (unat (IntVal v)) else CHR ''s'' # TextVal v)"

fun join_parts :: "string list \<Rightarrow> string" where
  "join_parts [] = []"
| "join_parts [p] = p"
| "join_parts (p # ps) = p @ CHR 0x00 # join_parts ps"

definition rowGroupKey :: "Value list \<Rightarrow> nat list \<Rightarrow> go_error + string" where
  "rowGroupKey row idxs = bindE (mapE (cell row) idxs) (\<lambda>vs. Inr (join_parts (map key_part vs)))"

text \<open>The groups so far, each with its key and its rows; \<open>groupPos\<close> is the search for the key.\<close>

fun add_to_group :: "string \<Rightarrow> 'r \<Rightarrow> (string \<times> 'r list) list \<Rightarrow> (string \<times> 'r list) list" where
  "add_to_group k row [] = [(k, [row])]"
| "add_to_group k row ((k', rows) # gs) =
     (if k' = k then (k', rows @ [row]) # gs else (k', rows) # add_to_group k row gs)"

fun group_rows :: "nat list \<Rightarrow> Value list list \<Rightarrow> (string \<times> Value list list) list \<Rightarrow>
    go_error + (string \<times> Value list list) list" where
  "group_rows idxs [] groups = Inr groups"
| "group_rows idxs (row # rows) groups =
     bindE (rowGroupKey row idxs) (\<lambda>key. group_rows idxs rows (add_to_group key row groups))"

definition group_expr ::
  "Value list list \<Rightarrow> (string \<Rightarrow> nat option) \<Rightarrow> SelectExpr \<Rightarrow> go_error + Value" where
  "group_expr rows rawIdx e =
     (case exprAgg e of
        None \<Rightarrow>
          (case rawIdx (ToLower (exprCol e)) of
             None \<Rightarrow> Inl (ColumnMissing (exprCol e))
           | Some i \<Rightarrow> (case rows of [] \<Rightarrow> Inr zeroValue | row # _ \<Rightarrow> cell row i))
      | Some agg \<Rightarrow> evalAgg agg rows rawIdx)"

definition computeGroupRow ::
  "SelectExpr list \<Rightarrow> Value list list \<Rightarrow> (string \<Rightarrow> nat option) \<Rightarrow> go_error + Value list" where
  "computeGroupRow exprs rows rawIdx = mapE (group_expr rows rawIdx) exprs"

definition aggregateRows ::
  "SelectStmt \<Rightarrow> Value list list \<Rightarrow> (string \<Rightarrow> nat option) \<Rightarrow> go_error + Value list list \<times> string list" where
  "aggregateRows s rawRows rawIdx =
     bindE (mapE (\<lambda>col. case rawIdx (ToLower col) of None \<Rightarrow> Inl (GroupByColumnMissing col) | Some i \<Rightarrow> Inr i) (GroupBy s))
       (\<lambda>groupIdxs.
     bindE (group_rows groupIdxs rawRows []) (\<lambda>groups.
     let groups = (if groups = [] \<and> GroupBy s = [] then [([], [])] else groups)
     in bindE (mapE (\<lambda>g. computeGroupRow (Columns s) (snd g) rawIdx) groups) (\<lambda>outRows.
          Inr (outRows, map OutputName (Columns s)))))"

section \<open>HAVING\<close>

fun andGroupMatchesHaving :: "Value list \<Rightarrow> (string \<Rightarrow> nat option) \<Rightarrow> Condition list \<Rightarrow> go_error + bool" where
  "andGroupMatchesHaving row colIdx [] = Inr True"
| "andGroupMatchesHaving row colIdx (c # cs) =
     (if AlwaysFalse c then Inr False
      else case colIdx (ToLower (Column c)) of
        None \<Rightarrow> Inl (HavingColumnMissing (Column c))
      | Some i \<Rightarrow>
          bindE (cell row i) (\<lambda>v.
          case InList c of
            Some xs \<Rightarrow>
              if Negated c = inListContains v xs then Inr False else andGroupMatchesHaving row colIdx cs
          | None \<Rightarrow> if \<not> evalCond v c then Inr False else andGroupMatchesHaving row colIdx cs))"

fun rowMatchesHaving :: "Value list \<Rightarrow> (string \<Rightarrow> nat option) \<Rightarrow> Condition list list \<Rightarrow> go_error + bool" where
  "rowMatchesHaving row colIdx [] = Inr False"
| "rowMatchesHaving row colIdx (g # gs) =
     bindE (andGroupMatchesHaving row colIdx g) (\<lambda>ok. if ok then Inr True else rowMatchesHaving row colIdx gs)"

fun filterE :: "('a \<Rightarrow> go_error + bool) \<Rightarrow> 'a list \<Rightarrow> go_error + 'a list" where
  "filterE p [] = Inr []"
| "filterE p (x # xs) = bindE (p x) (\<lambda>b. bindE (filterE p xs) (\<lambda>ys. Inr (if b then x # ys else ys)))"

definition having_index :: "string list \<Rightarrow> SelectExpr list \<Rightarrow> string \<Rightarrow> nat option" where
  "having_index colNames exprs =
     fold (\<lambda>(i, e) m. case exprAgg e of
             None \<Rightarrow> m
           | Some a \<Rightarrow> m(ToLower (OutputName \<lparr>exprCol = [], exprAgg = Some a, exprAlias = []\<rparr>) \<mapsto> i))
       (enumerate 0 exprs) (name_index colNames)"

definition applyHaving ::
  "Value list list \<Rightarrow> string list \<Rightarrow> WhereClause \<Rightarrow> SelectExpr list \<Rightarrow> go_error + Value list list" where
  "applyHaving rows colNames having exprs =
     filterE (\<lambda>row. rowMatchesHaving row (having_index colNames exprs) (Groups having)) rows"

section \<open>ORDER BY\<close>

definition cmpValue :: "Value \<Rightarrow> Value \<Rightarrow> int" where
  "cmpValue a b =
     (if valType a = TypeInt then
        (if IntVal a < IntVal b then -1 else if IntVal a > IntVal b then 1 else 0)
      else if TextVal a < TextVal b then -1 else if TextVal a > TextVal b then 1 else 0)"

fun row_less :: "(nat \<times> bool) list \<Rightarrow> Value list \<Rightarrow> Value list \<Rightarrow> bool" where
  "row_less [] a b = False"
| "row_less ((i, desc) # ks) a b =
     (let cmp = cmpValue (a ! i) (b ! i) in
      if cmp = 0 then row_less ks a b else if desc then cmp > 0 else cmp < 0)"

text \<open>\<open>sort.SliceStable\<close>: the stable sort, as its insertion step does it (an element moves left past
  those that it precedes).\<close>

fun insert_stable :: "('a \<Rightarrow> 'a \<Rightarrow> bool) \<Rightarrow> 'a \<Rightarrow> 'a list \<Rightarrow> 'a list" where
  "insert_stable lt x [] = [x]"
| "insert_stable lt x (y # ys) = (if lt x y then x # y # ys else y # insert_stable lt x ys)"

definition SliceStable :: "('a \<Rightarrow> 'a \<Rightarrow> bool) \<Rightarrow> 'a list \<Rightarrow> 'a list" where
  "SliceStable lt xs = fold (insert_stable lt) xs []"

text \<open>With one row or none the comparison is never called; with more, it reads the key columns of the rows.
  Rows are as wide as the list of column names, so it does not panic.\<close>

definition applyOrderBy :: "Value list list \<Rightarrow> string list \<Rightarrow> OrderByExpr list \<Rightarrow> go_error + Value list list" where
  "applyOrderBy rows colNames orderBy =
     bindE (mapE (\<lambda>ob. case name_index colNames (ToLower (obCol ob)) of
                None \<Rightarrow> Inl (OrderByColumnMissing (obCol ob)) | Some i \<Rightarrow> Inr (i, obDesc ob)) orderBy) (\<lambda>keys.
     if length rows > 1 \<and> (\<exists>r\<in>set rows. \<exists>k\<in>set keys. length r \<le> fst k) then Inl Panic
     else Inr (SliceStable (row_less keys) rows))"

section \<open>Stable sorting\<close>

text \<open>What \<open>sort.SliceStable\<close> asks of its comparison, on the elements it is given: a strict weak order.\<close>

locale weak_order_on =
  fixes lt :: "'a \<Rightarrow> 'a \<Rightarrow> bool" and A :: "'a set"
  assumes asym: "x \<in> A \<Longrightarrow> y \<in> A \<Longrightarrow> lt x y \<Longrightarrow> \<not> lt y x"
    and split: "x \<in> A \<Longrightarrow> y \<in> A \<Longrightarrow> z \<in> A \<Longrightarrow> lt x z \<Longrightarrow> lt x y \<or> lt y z"
begin

definition ordered :: "'a list \<Rightarrow> bool" where
  "ordered = sorted_wrt (\<lambda>x y. \<not> lt y x)"

definition tied :: "'a \<Rightarrow> 'a \<Rightarrow> bool" where
  "tied x y \<longleftrightarrow> \<not> lt x y \<and> \<not> lt y x"

lemma set_insert_stable [simp]: "set (insert_stable lt x ys) = insert x (set ys)"
  by (induction ys) auto

lemma mset_insert_stable: "mset (insert_stable lt x ys) = add_mset x (mset ys)"
  by (induction ys) auto

lemma insert_ordered:
  assumes "ordered ys" "set ys \<subseteq> A" "x \<in> A"
  shows "ordered (insert_stable lt x ys)"
  using assms
proof (induction ys)
  case (Cons y ys)
  have y: "y \<in> A" "set ys \<subseteq> A" "\<And>z. z \<in> set ys \<Longrightarrow> \<not> lt z y" "ordered ys"
    using Cons.prems by (auto simp: ordered_def)
  show ?case
  proof (cases "lt x y")
    case True
    have "\<not> lt z x" if "z \<in> set ys" for z
      using split [of z x y] that y True Cons.prems(3) asym [of x z] split [of x z y] by blast
    then show ?thesis using True Cons.prems asym [of x y] y by (auto simp: ordered_def)
  next
    case False
    then show ?thesis using Cons.IH [OF y(4,2) Cons.prems(3)] y by (auto simp: ordered_def)
  qed
qed (simp add: ordered_def)

lemma insert_tied:
  assumes "ordered ys" "set ys \<subseteq> A" "x \<in> A" "z \<in> A"
  shows "filter (tied z) (insert_stable lt x ys) = filter (tied z) ys @ filter (tied z) [x]"
  using assms
proof (induction ys)
  case (Cons y ys)
  have y: "y \<in> A" "set ys \<subseteq> A" "\<And>u. u \<in> set ys \<Longrightarrow> \<not> lt u y" "ordered ys"
    using Cons.prems by (auto simp: ordered_def)
  show ?case
  proof (cases "lt x y")
    case True
    have "\<not> (tied z u \<and> tied z x)" if u: "u \<in> set (y # ys)" for u
    proof -
      have uA: "u \<in> A" using u y by auto
      have "lt x u" using True split [of x u y] u y Cons.prems(3) by auto
      then show ?thesis using split [of x z u] uA Cons.prems(3,4) by (auto simp: tied_def)
    qed
    then have "tied z x \<Longrightarrow> filter (tied z) (y # ys) = []" unfolding filter_empty_conv by blast
    then show ?thesis using True by (cases "tied z x") auto
  next
    case False
    then show ?thesis using Cons.IH [OF y(4,2) Cons.prems(3,4)] by simp
  qed
qed simp

lemma SliceStable_spec:
  assumes "set xs \<subseteq> A"
  shows "ordered (SliceStable lt xs)" and "mset (SliceStable lt xs) = mset xs"
    and "z \<in> A \<Longrightarrow> filter (tied z) (SliceStable lt xs) = filter (tied z) xs"
proof -
  have "ordered (SliceStable lt xs) \<and> mset (SliceStable lt xs) = mset xs \<and>
      (\<forall>z\<in>A. filter (tied z) (SliceStable lt xs) = filter (tied z) xs)"
    using assms
  proof (induction xs rule: rev_induct)
    case (snoc x xs)
    then have IH: "ordered (SliceStable lt xs)" "mset (SliceStable lt xs) = mset xs"
      "\<And>z. z \<in> A \<Longrightarrow> filter (tied z) (SliceStable lt xs) = filter (tied z) xs" by auto
    have A: "set (SliceStable lt xs) \<subseteq> A" "x \<in> A" using snoc.prems mset_eq_setD [OF IH(2)] by auto
    have "SliceStable lt (xs @ [x]) = insert_stable lt x (SliceStable lt xs)" by (simp add: SliceStable_def)
    then show ?case
      using insert_ordered [OF IH(1) A] insert_tied [OF IH(1) A] IH mset_insert_stable by (auto split: if_splits)
  qed (simp add: SliceStable_def ordered_def)
  then show "ordered (SliceStable lt xs)" "mset (SliceStable lt xs) = mset xs"
    "z \<in> A \<Longrightarrow> filter (tied z) (SliceStable lt xs) = filter (tied z) xs" by auto
qed

end

text \<open>On columns of one type the comparison of rows is such an order.\<close>

definition ord_key :: "Value \<Rightarrow> u64 \<times> string" where
  "ord_key v = (if valType v = TypeInt then (IntVal v, []) else (0, TextVal v))"

definition typed_keys :: "(nat \<times> bool) list \<Rightarrow> (nat \<Rightarrow> DataType) \<Rightarrow> Value list set" where
  "typed_keys keys ty = {r. \<forall>k\<in>set keys. valType (r ! fst k) = ty (fst k)}"

lemma cmpValue_int [simp]: "valType a = TypeInt \<Longrightarrow>
    cmpValue a b = (if IntVal a < IntVal b then -1 else if IntVal a > IntVal b then 1 else 0)"
  by (simp add: cmpValue_def)

lemma cmpValue_text [simp]: "valType a \<noteq> TypeInt \<Longrightarrow>
    cmpValue a b = (if TextVal a < TextVal b then -1 else if TextVal a > TextVal b then 1 else 0)"
  by (simp add: cmpValue_def)

lemma row_less_asym:
  assumes "a \<in> typed_keys ks ty" "b \<in> typed_keys ks ty" "row_less ks a b"
  shows "\<not> row_less ks b a"
  using assms
proof (induction ks a b rule: row_less.induct)
  case (2 i desc ks a b)
  have ty: "valType (a ! i) = ty i" "valType (b ! i) = ty i" "a \<in> typed_keys ks ty" "b \<in> typed_keys ks ty"
    using "2.prems" by (auto simp: typed_keys_def)
  show ?case
    using "2.IH" [OF refl _ ty(3,4)] "2.prems"(3) ty(1,2)
    by (cases "ty i = TypeInt") (auto simp: Let_def split: if_splits)
qed simp

lemma row_less_split:
  assumes "a \<in> typed_keys ks ty" "b \<in> typed_keys ks ty" "c \<in> typed_keys ks ty" "row_less ks a c"
  shows "row_less ks a b \<or> row_less ks b c"
  using assms
proof (induction ks)
  case (Cons k ks)
  obtain i desc where k: "k = (i, desc)" by (cases k)
  have ty: "valType (a ! i) = ty i" "valType (b ! i) = ty i" "valType (c ! i) = ty i"
    "a \<in> typed_keys ks ty" "b \<in> typed_keys ks ty" "c \<in> typed_keys ks ty"
    using Cons.prems k by (auto simp: typed_keys_def)
  show ?case
    using Cons.IH [OF ty(4-6)] Cons.prems(4) ty(1-3) k
    by (cases "ty i = TypeInt") (auto simp: Let_def split: if_splits)
qed simp

interpretation rl: weak_order_on "row_less keys" "typed_keys keys ty" for keys ty
  by unfold_locales (use row_less_asym row_less_split in blast)+

lemma name_index_bound: "name_index names n = Some i \<Longrightarrow> i < length names"
proof -
  have "fold (\<lambda>(i, name) m. m(ToLower name \<mapsto> i)) xs m n = Some i \<Longrightarrow> m n = Some i \<or> i \<in> fst ` set xs"
    for xs :: "(nat \<times> string) list" and m :: "string \<Rightarrow> nat option"
    by (induction xs arbitrary: m) (fastforce split: if_splits)+
  then show "name_index names n = Some i \<Longrightarrow> i < length names"
    unfolding name_index_def by (force simp: in_set_enumerate_eq)
qed

text \<open>The order that ORDER BY asks for: the first column on which the rows differ decides.\<close>

definition value_before :: "Value \<Rightarrow> Value \<Rightarrow> bool" where
  "value_before u v \<longleftrightarrow> (if valType u = TypeInt then IntVal u < IntVal v else TextVal u < TextVal v)"

definition value_tie :: "Value \<Rightarrow> Value \<Rightarrow> bool" where
  "value_tie u v \<longleftrightarrow> (if valType u = TypeInt then IntVal u = IntVal v else TextVal u = TextVal v)"

definition comes_before :: "(nat \<times> bool) list \<Rightarrow> Value list \<Rightarrow> Value list \<Rightarrow> bool" where
  "comes_before keys a b \<longleftrightarrow>
     (\<exists>p<length keys. (\<forall>q<p. value_tie (a ! fst (keys ! q)) (b ! fst (keys ! q))) \<and>
        (if snd (keys ! p) then value_before (b ! fst (keys ! p)) (a ! fst (keys ! p))
         else value_before (a ! fst (keys ! p)) (b ! fst (keys ! p))))"

lemma comes_before_Nil [simp]: "\<not> comes_before [] a b"
  by (simp add: comes_before_def)

lemma comes_before_Cons:
  "comes_before (k # ks) a b \<longleftrightarrow>
     (if snd k then value_before (b ! fst k) (a ! fst k) else value_before (a ! fst k) (b ! fst k)) \<or>
     (value_tie (a ! fst k) (b ! fst k) \<and> comes_before ks a b)"
  unfolding comes_before_def by (simp add: Ex_less_Suc2 All_less_Suc2) blast

lemma cmpValue_cases:
  assumes "valType u = valType v"
  shows "cmpValue u v < 0 \<longleftrightarrow> value_before u v" "cmpValue u v > 0 \<longleftrightarrow> value_before v u" "cmpValue u v = 0 \<longleftrightarrow> value_tie u v"
  using assms less_linear [of "TextVal u" "TextVal v"]
  by (auto simp: cmpValue_def value_before_def value_tie_def)

lemma row_less_comes_before:
  assumes "\<forall>k\<in>set keys. valType (a ! fst k) = valType (b ! fst k)"
  shows "row_less keys a b \<longleftrightarrow> comes_before keys a b"
  using assms
proof (induction keys)
  case (Cons k ks)
  obtain i desc where k: "k = (i, desc)" by fastforce
  have t: "valType (a ! i) = valType (b ! i)" using Cons.prems by (simp add: k)
  have IH: "row_less ks a b \<longleftrightarrow> comes_before ks a b" using Cons by simp
  show ?case
    by (simp add: k comes_before_Cons Let_def IH cmpValue_cases [OF t, symmetric])
qed simp

lemma tied_rows:
  assumes "\<forall>k\<in>set keys. valType (a ! fst k) = valType (b ! fst k)"
  shows "\<not> row_less keys a b \<and> \<not> row_less keys b a \<longleftrightarrow> (\<forall>k\<in>set keys. value_tie (a ! fst k) (b ! fst k))"
  using assms
proof (induction keys)
  case (Cons k ks)
  obtain i desc where k: "k = (i, desc)" by fastforce
  have t: "valType (a ! i) = valType (b ! i)" "valType (b ! i) = valType (a ! i)" using Cons.prems by (simp_all add: k)
  have "cmpValue (b ! i) (a ! i) = - cmpValue (a ! i) (b ! i)" using t(1) by (auto simp: cmpValue_def)
  then show ?case using Cons cmpValue_cases(3) [OF t(1)] by (auto simp: k Let_def)
qed simp

text \<open>C14: ORDER BY is a stable sort: when the named columns exist and each holds values of one type, it
  returns the same rows with the same multiplicities, no row is followed by one that should precede it
  (per column ascending or descending, earlier columns first), and rows that tie on all ORDER BY columns keep
  the order they had.\<close>

theorem order_by_stable_sort:
  assumes "mapE (\<lambda>ob. case name_index colNames (ToLower (obCol ob)) of
      None \<Rightarrow> Inl (OrderByColumnMissing (obCol ob)) | Some i \<Rightarrow> Inr (i, obDesc ob)) orderBy = Inr keys"
    and "\<forall>r\<in>set rows. length r = length colNames" and "\<forall>r\<in>set rows. \<forall>k\<in>set keys. valType (r ! fst k) = ty (fst k)"
  shows "\<exists>out. applyOrderBy rows colNames orderBy = Inr out \<and> mset out = mset rows \<and>
    sorted_wrt (\<lambda>a b. \<not> comes_before keys b a) out \<and>
    (\<forall>r\<in>set rows. filter (\<lambda>x. \<forall>k\<in>set keys. value_tie (r ! fst k) (x ! fst k)) out =
       filter (\<lambda>x. \<forall>k\<in>set keys. value_tie (r ! fst k) (x ! fst k)) rows)"
proof -
  have "fst k < length colNames" if "k \<in> set keys" for k
    using mapE_Inr_in [OF assms(1) that] name_index_bound by (fastforce split: option.splits)
  then have run: "applyOrderBy rows colNames orderBy = Inr (SliceStable (row_less keys) rows)"
    using assms(1,2) by (fastforce simp: applyOrderBy_def)
  have A: "set rows \<subseteq> typed_keys keys ty" using assms(3) by (auto simp: typed_keys_def)
  let ?out = "SliceStable (row_less keys) rows"
  have m: "mset ?out = mset rows" "sorted_wrt (\<lambda>a b. \<not> row_less keys b a) ?out"
    "\<And>r. r \<in> set rows \<Longrightarrow> filter (\<lambda>x. \<not> row_less keys r x \<and> \<not> row_less keys x r) ?out =
       filter (\<lambda>x. \<not> row_less keys r x \<and> \<not> row_less keys x r) rows"
    using rl.SliceStable_spec [OF A] A unfolding rl.ordered_def rl.tied_def by (simp_all add: subset_iff)
  have set: "set ?out = set rows" using m(1) by (metis set_mset_mset)
  have ty: "\<forall>k\<in>set keys. valType (a ! fst k) = valType (b ! fst k)" if "a \<in> set rows" "b \<in> set rows" for a b
    using assms(3) that by simp
  have "sorted_wrt (\<lambda>a b. \<not> comes_before keys b a) ?out"
    using m(2) by (rule sorted_wrt_mono_rel [rotated]) (use ty set row_less_comes_before in blast)
  moreover have "filter (\<lambda>x. \<forall>k\<in>set keys. value_tie (r ! fst k) (x ! fst k)) ?out =
       filter (\<lambda>x. \<forall>k\<in>set keys. value_tie (r ! fst k) (x ! fst k)) rows" if r: "r \<in> set rows" for r
  proof -
    have eq: "(\<forall>k\<in>set keys. value_tie (r ! fst k) (x ! fst k)) = (\<not> row_less keys r x \<and> \<not> row_less keys x r)"
      if "x \<in> set rows" for x
      using tied_rows [OF ty [OF r that]] by blast
    have "filter (\<lambda>x. \<forall>k\<in>set keys. value_tie (r ! fst k) (x ! fst k)) ys =
        filter (\<lambda>x. \<not> row_less keys r x \<and> \<not> row_less keys x r) ys" if "set ys = set rows" for ys
      using that by (intro filter_cong) (simp_all only: eq)
    then show ?thesis using m(3) [OF r] set by simp
  qed
  ultimately show ?thesis using run m(1) by blast
qed

definition ex_rows :: "Value list list" where
  "ex_rows = [[intValue 2, textValue ''b''], [intValue 1, textValue ''a''], [intValue 2, textValue ''a'']]"

theorem order_by_stable_sort_witness:
  "\<exists>out. applyOrderBy ex_rows [''n'', ''s''] [\<lparr>obCol = ''N'', obDesc = True\<rparr>] = Inr out \<and> mset out = mset ex_rows \<and>
     sorted_wrt (\<lambda>a b. \<not> comes_before [(0, True)] b a) out"
proof -
  have k: "mapE (\<lambda>ob. case name_index [''n'', ''s''] (ToLower (obCol ob)) of
      None \<Rightarrow> Inl (OrderByColumnMissing (obCol ob)) | Some i \<Rightarrow> Inr (i, obDesc ob)) [\<lparr>obCol = ''N'', obDesc = True\<rparr>] = Inr [(0, True)]"
    by code_simp
  have "\<forall>r\<in>set ex_rows. length r = length [''n'', ''s'']"
    "\<forall>r\<in>set ex_rows. \<forall>k\<in>set [(0, True)]. valType (r ! fst k) = (\<lambda>_. TypeInt) (fst k)"
    by (simp_all add: ex_rows_def intValue_def)
  from order_by_stable_sort [OF k this] show ?thesis by blast
qed

section \<open>Groups\<close>

text \<open>The distinct elements of a list in order of first appearance, and the groups of a list by a key.\<close>

definition firsts :: "'a list \<Rightarrow> 'a list" where
  "firsts xs = rev (remdups (rev xs))"

definition groups_by :: "('r \<Rightarrow> 'k) \<Rightarrow> 'r list \<Rightarrow> ('k \<times> 'r list) list" where
  "groups_by f rows = map (\<lambda>k. (k, filter (\<lambda>r. f r = k) rows)) (firsts (map f rows))"

lemma firsts_snoc: "firsts (xs @ [x]) = (if x \<in> set xs then firsts xs else firsts xs @ [x])"
  by (simp add: firsts_def)

lemma firsts_simps [simp]: "firsts [] = []" "set (firsts xs) = set xs" "distinct (firsts xs)"
  by (simp_all add: firsts_def)

lemma add_to_group_new: "k \<notin> fst ` set gs \<Longrightarrow> add_to_group k row gs = gs @ [(k, [row])]"
  by (induction gs) auto

lemma add_to_group_old:
  assumes "distinct ks" and "k \<in> set ks"
  shows "add_to_group k row (map (\<lambda>k. (k, f k)) ks) = map (\<lambda>j. (j, if j = k then f j @ [row] else f j)) ks"
  using assms by (induction ks) (auto simp: map_idI)

lemma groups_by_snoc: "groups_by f (rows @ [r]) = add_to_group (f r) r (groups_by f rows)"
proof (cases "f r \<in> f ` set rows")
  case True
  have "groups_by f (rows @ [r]) = map (\<lambda>j. (j, if j = f r then filter (\<lambda>x. f x = j) rows @ [r] else filter (\<lambda>x. f x = j) rows))
      (firsts (map f rows))"
    using True by (auto simp: groups_by_def firsts_snoc)
  then show ?thesis
    unfolding groups_by_def [of f rows] using add_to_group_old [of "firsts (map f rows)" "f r" r] True by simp
next
  case False
  have "filter (\<lambda>x. f x = f r) rows = []" using False by (auto simp: filter_empty_conv) (metis imageI)
  moreover have "f r \<notin> fst ` set (groups_by f rows)" using False by (auto simp: groups_by_def)
  moreover have "map (\<lambda>k. (k, filter (\<lambda>x. f x = k) (rows @ [r]))) (firsts (map f rows)) = groups_by f rows"
    using False by (auto simp: groups_by_def)
  ultimately show ?thesis
    using False by (simp add: add_to_group_new) (simp add: groups_by_def firsts_snoc)
qed

lemma group_rows_fold:
  assumes "\<And>r. r \<in> set rows \<Longrightarrow> rowGroupKey r idxs = Inr (f r)"
  shows "group_rows idxs rows gs = Inr (fold (\<lambda>r. add_to_group (f r) r) rows gs)"
  using assms by (induction rows arbitrary: gs) simp_all

lemma group_rows_by:
  assumes "\<And>r. r \<in> set rows \<Longrightarrow> rowGroupKey r idxs = Inr (f r)"
  shows "group_rows idxs rows [] = Inr (groups_by f rows)"
proof -
  have "fold (\<lambda>r. add_to_group (f r) r) rs [] = groups_by f rs" for rs
    by (induction rs rule: rev_induct) (simp_all add: groups_by_snoc, simp add: groups_by_def)
  then show ?thesis using group_rows_fold [OF assms] by simp
qed

text \<open>Values as rows hold them, with no NUL byte in a text.\<close>

definition plain_value :: "Value \<Rightarrow> bool" where
  "plain_value v \<longleftrightarrow> v = intValue (IntVal v) \<or> (v = textValue (TextVal v) \<and> CHR 0x00 \<notin> set (TextVal v))"

lemma not_digit_nul: "\<not> is_digit (CHR 0x00)"
  by (simp add: is_digit_def)

lemma plain_value_iff:
  "plain_value v \<longleftrightarrow> (\<exists>x. v = intValue x) \<or> (\<exists>t. v = textValue t \<and> CHR 0x00 \<notin> set t)"
  by (auto simp: plain_value_def intValue_def textValue_def)

lemma key_part_simps [simp]:
  "key_part (intValue x) = CHR ''i'' # format_nat (unat x)" "key_part (textValue t) = CHR ''s'' # t"
  by (simp_all add: key_part_def intValue_def textValue_def)

lemma key_part_no_nul: "plain_value v \<Longrightarrow> CHR 0x00 \<notin> set (key_part v)"
  using format_nat_digits [of "CHR 0x00"] not_digit_nul by (auto simp: plain_value_iff)

lemma key_part_inject: "plain_value v \<Longrightarrow> plain_value w \<Longrightarrow> key_part v = key_part w \<Longrightarrow> v = w"
  by (auto simp: plain_value_iff dest!: word_unat_eq_iff [THEN iffD2])

lemma split_at_first:
  assumes "x \<notin> set p" "x \<notin> set q" "p @ x # r = q @ x # r'"
  shows "p = q \<and> r = r'"
  using assms
proof (induction p arbitrary: q)
  case Nil
  then show ?case by (cases q) auto
next
  case (Cons a p)
  then show ?case by (cases q) auto
qed

lemma join_parts_inject:
  assumes "length ps = length qs" "\<forall>p\<in>set ps. CHR 0x00 \<notin> set p" "\<forall>q\<in>set qs. CHR 0x00 \<notin> set q"
    "join_parts ps = join_parts qs"
  shows "ps = qs"
  using assms
proof (induction ps arbitrary: qs rule: join_parts.induct)
  case (2 p)
  then obtain q where "qs = [q]" by (cases qs) auto
  then show ?case using 2 by simp
next
  case (3 p p' ps)
  then obtain q q' qs' where qs: "qs = q # q' # qs'" by (cases qs rule: remdups_adj.cases) auto
  have "p = q \<and> join_parts (p' # ps) = join_parts (q' # qs')"
    using 3 qs by (intro split_at_first [of "CHR 0x00"]) auto
  then show ?case using "3.IH" [of "q' # qs'"] "3.prems" qs by auto
qed simp

text \<open>The values a row is grouped by.\<close>

definition group_values :: "nat list \<Rightarrow> Value list \<Rightarrow> Value list" where
  "group_values idxs row = map ((!) row) idxs"

lemma firsts_map: "inj_on g (set xs) \<Longrightarrow> firsts (map g xs) = map g (firsts xs)"
proof (induction xs rule: rev_induct)
  case (snoc x xs)
  have "g x \<in> g ` set xs \<longleftrightarrow> x \<in> set xs" using snoc.prems by (auto simp: inj_on_def)
  moreover have "inj_on g (set xs)" using snoc.prems by (auto simp: inj_on_def)
  ultimately show ?case using snoc.IH by (simp add: firsts_snoc)
qed simp

lemma groups_by_cong:
  assumes "inj_on g (f ` set rows)" 
  shows "map snd (groups_by (\<lambda>r. g (f r)) rows) = map snd (groups_by f rows)"
proof -
  have "firsts (map g (map f rows)) = map g (firsts (map f rows))"
    by (rule firsts_map) (simp add: assms)
  moreover have "filter (\<lambda>r. g (f r) = g k) rows = filter (\<lambda>r. f r = k) rows" if "k \<in> set (firsts (map f rows))" for k
    using that assms by (intro filter_cong) (auto simp: inj_on_def)
  ultimately show ?thesis by (auto simp: groups_by_def comp_def)
qed

text \<open>C15: GROUP BY puts rows into one group exactly when they agree on all the grouping columns; the
  groups come in order of their first rows and keep the order of the rows. The texts of the grouping columns
  are assumed to hold no NUL byte, which the key of a group uses as a separator.\<close>

theorem group_by_values:
  assumes "\<forall>r\<in>set rows. \<forall>i\<in>set idxs. i < length r \<and> plain_value (r ! i)"
  shows "\<exists>gs. group_rows idxs rows [] = Inr gs \<and>
    map snd gs = map snd (groups_by (group_values idxs) rows)"
proof -
  let ?key = "\<lambda>vs. join_parts (map key_part vs)"
  have "rowGroupKey r idxs = Inr (?key (group_values idxs r))" if "r \<in> set rows" for r
  proof -
    have "mapE (cell r) idxs = Inr (map ((!) r) idxs)" using assms that by (intro mapE_Inr) (auto simp: cell_def)
    then show ?thesis by (simp add: rowGroupKey_def group_values_def)
  qed
  from group_rows_by [OF this] have "group_rows idxs rows [] = Inr (groups_by (\<lambda>r. ?key (group_values idxs r)) rows)" .
  moreover have "inj_on ?key (group_values idxs ` set rows)"
  proof (rule inj_onI)
    fix x y assume xy: "x \<in> group_values idxs ` set rows" "y \<in> group_values idxs ` set rows" "?key x = ?key y"
    have p: "length x = length y" "\<forall>v\<in>set x. plain_value v" "\<forall>v\<in>set y. plain_value v"
      using xy(1,2) assms by (auto simp: group_values_def)
    then have "map key_part x = map key_part y"
      using xy(3) key_part_no_nul by (intro join_parts_inject) auto
    then show "x = y" using p key_part_inject
      by (intro nth_equalityI) (auto simp: list_eq_iff_nth_eq)
  qed
  ultimately show ?thesis using groups_by_cong [of ?key "group_values idxs" rows] by blast
qed

theorem group_by_values_witness:
  "\<exists>gs. group_rows [0] ex_rows [] = Inr gs \<and>
     map snd gs = [[[intValue 2, textValue ''b''], [intValue 2, textValue ''a'']], [[intValue 1, textValue ''a'']]]"
  using group_by_values [of ex_rows "[0]"]
  by (simp add: ex_rows_def plain_value_def intValue_def groups_by_def firsts_def group_values_def)

section \<open>Sums, averages and extrema\<close>

lemma agg_sum_list: "agg_sum xs = sum_list xs"
proof -
  have "fold (\<lambda>x sum. sum + x) xs a = a + sum_list xs" for a :: u64
    by (induction xs arbitrary: a) (simp_all add: ac_simps)
  then show ?thesis by (simp add: agg_sum_def)
qed

lemma unat_agg_sum: "unat (agg_sum xs) = sum_list (map unat xs) mod 2 ^ 64"
  unfolding agg_sum_list by (induction xs) (simp_all add: unat_word_ariths mod_add_right_eq)

lemma u64_le_max: "x \<le> 0xFFFFFFFFFFFFFFFF" for x :: u64
proof -
  have "uint x \<le> 18446744073709551615" using uint_bounded [of x] by simp
  then show ?thesis by (simp add: word_le_def)
qed

lemma agg_min_eq: "xs \<noteq> [] \<Longrightarrow> agg_min xs = Min (set xs)"
proof -
  assume "xs \<noteq> []"
  have min_fun: "(\<lambda>x mn. if x < mn then x else mn) = (min :: u64 \<Rightarrow> u64 \<Rightarrow> u64)" by (auto simp: fun_eq_iff min_def)
  have "agg_min xs = Min (set (0xFFFFFFFFFFFFFFFF # xs))"
    unfolding agg_min_def min_fun by (rule Min.set_eq_fold [symmetric])
  also have "\<dots> = min 0xFFFFFFFFFFFFFFFF (Min (set xs))" using \<open>xs \<noteq> []\<close> by simp
  also have "\<dots> = Min (set xs)" using u64_le_max [of "Min (set xs)"] by (simp add: min_def)
  finally show ?thesis .
qed

lemma agg_max_eq: "xs \<noteq> [] \<Longrightarrow> agg_max xs = Max (set xs)"
proof -
  assume "xs \<noteq> []"
  have max_fun: "(\<lambda>x mx. if x > mx then x else mx) = (max :: u64 \<Rightarrow> u64 \<Rightarrow> u64)" by (auto simp: fun_eq_iff max_def)
  have "agg_max xs = Max (set (0 # xs))" unfolding agg_max_def max_fun by (rule Max.set_eq_fold [symmetric])
  also have "\<dots> = Max (set xs)" using \<open>xs \<noteq> []\<close> by (simp add: max_def)
  finally show ?thesis .
qed

lemma sum_list_between:
  fixes xs :: "nat list"
  assumes "\<forall>x\<in>set xs. lo \<le> x \<and> x \<le> hi"
  shows "length xs * lo \<le> sum_list xs \<and> sum_list xs \<le> length xs * hi"
  using assms by (induction xs) (auto simp: add_mono)

text \<open>C16: the aggregates of a column \<open>xs\<close> of a non-empty group: SUM is the sum modulo \<open>2\<^sup>6\<^sup>4\<close>, MIN and
  MAX are the least and the greatest value, COUNT is the number of rows, and AVG, as long as the sum does not
  overflow, is the rounded-down average and lies between MIN and MAX.\<close>

theorem aggregate_bounds:
  assumes "resolveAggCol \<lparr>aggFunc = f, aggCol = c\<rparr> rawIdx = Inr i"
    and "rows \<noteq> []" and "\<forall>r\<in>set rows. i < length r" and "length rows < 2 ^ 64"
    and "xs = map (\<lambda>r. IntVal (r ! i)) rows" and "sum_list (map unat xs) < 2 ^ 64"
  shows "\<exists>mn mx avg. evalAgg \<lparr>aggFunc = AggCount, aggCol = c\<rparr> rows rawIdx = Inr (intValue (word_of_nat (length rows))) \<and>
    evalAgg \<lparr>aggFunc = AggSum, aggCol = c\<rparr> rows rawIdx = Inr (intValue (word_of_nat (sum_list (map unat xs)))) \<and>
    evalAgg \<lparr>aggFunc = AggMin, aggCol = c\<rparr> rows rawIdx = Inr (intValue mn) \<and> mn = Min (set xs) \<and>
    evalAgg \<lparr>aggFunc = AggMax, aggCol = c\<rparr> rows rawIdx = Inr (intValue mx) \<and> mx = Max (set xs) \<and>
    evalAgg \<lparr>aggFunc = AggAvg, aggCol = c\<rparr> rows rawIdx = Inr (intValue avg) \<and>
    unat avg = sum_list (map unat xs) div length rows \<and> mn \<le> avg \<and> avg \<le> mx"
proof -
  have col: "agg_column \<lparr>aggFunc = g, aggCol = c\<rparr> rows rawIdx = Inr xs" for g
  proof -
    have "mapE (\<lambda>row. bindE (cell row i) (\<lambda>v. Inr (IntVal v))) rows = Inr xs"
      unfolding assms(5) by (rule mapE_Inr) (use assms(3) in \<open>simp add: cell_def\<close>)
    then show ?thesis using assms(1) by (auto simp: agg_column_def resolveAggCol_def split: option.splits)
  qed
  have ne: "xs \<noteq> []" "length xs = length rows" using assms(2,5) by auto
  let ?S = "sum_list (map unat xs)" and ?avg = "agg_sum xs div word_of_nat (length rows) :: u64"
  have S: "unat (agg_sum xs) = ?S" using assms(6) by (simp add: unat_agg_sum)
  have avg: "unat ?avg = ?S div length rows" using assms(4) S by (simp add: unat_div unat_of_nat)
  have "length xs * unat (Min (set xs)) \<le> ?S \<and> ?S \<le> length xs * unat (Max (set xs))"
    using sum_list_between [of "map unat xs" "unat (Min (set xs))" "unat (Max (set xs))"] by (simp add: word_le_nat_alt [symmetric])
  then have "unat (Min (set xs)) \<le> ?S div length rows" "?S div length rows \<le> unat (Max (set xs))"
    using ne assms(2) by (auto simp: less_eq_div_iff_mult_less_eq mult.commute intro: div_le_mono2 div_le_dividend)
      (metis div_le_mono length_0_conv nonzero_mult_div_cancel_left)
  then have "Min (set xs) \<le> ?avg" "?avg \<le> Max (set xs)" using avg by (simp_all add: word_le_nat_alt)
  moreover have "agg_sum xs = word_of_nat ?S" using arg_cong [OF S, of "word_of_nat :: nat \<Rightarrow> u64"] by simp
  ultimately show ?thesis
    using col avg ne assms(2)
    by (intro exI [of _ "Min (set xs)"] exI [of _ "Max (set xs)"] exI [of _ ?avg]) (simp add: evalAgg_def agg_min_eq agg_max_eq)
qed

theorem aggregate_bounds_witness:
  "\<exists>mn mx avg. evalAgg \<lparr>aggFunc = AggMin, aggCol = ''n''\<rparr> ex_rows [''n'' \<mapsto> 0] = Inr (intValue mn) \<and>
    evalAgg \<lparr>aggFunc = AggMax, aggCol = ''n''\<rparr> ex_rows [''n'' \<mapsto> 0] = Inr (intValue mx) \<and>
    evalAgg \<lparr>aggFunc = AggAvg, aggCol = ''n''\<rparr> ex_rows [''n'' \<mapsto> 0] = Inr (intValue avg) \<and> unat avg = 1 \<and> mn \<le> avg \<and> avg \<le> mx"
proof -
  have low: "ToLower ''n'' = ''n''" by code_simp
  have "resolveAggCol \<lparr>aggFunc = AggMin, aggCol = ''n''\<rparr> [''n'' \<mapsto> 0] = Inr 0" by (simp add: resolveAggCol_def low)
  from aggregate_bounds [OF this, of ex_rows, OF _ _ _ refl] show ?thesis
    by (fastforce simp: ex_rows_def intValue_def)
qed

end
