(* ===== verification/Planner.thy ===== *)
theory Planner
  imports Predicates
begin

text \<open>
  \<open>src/planner/plan.go\<close> and \<open>src/planner/planner.go\<close>: the physical plans and the
  planner. A WHERE clause in disjunctive normal form becomes one branch per AND
  group; a branch is a key range of the primary tree, or of a secondary index,
  under a filter with the conditions the range does not cover.

  The cost-based choice compares \<open>float64\<close> estimates of \<open>src/stats/stats.go\<close>. They
  decide which plan is taken and never what it returns, so the estimates and their
  comparison are parameters (\<open>CostModel\<close>; \<open>Statistics\<close> computes them), and the theorems
  hold for every choice of them. The text that EXPLAIN prints is in \<open>Explain\<close>.
\<close>

datatype PhysicalNode =
    IndexScan Table (MinKey: u64) (MaxKey: u64)
  | IndexLookup Table IndexDef (LMinKey: u64) (LMaxKey: u64)
  | FilterNode PhysicalNode "Condition list"
  | ProjectNode PhysicalNode (projColumns: "string list") (projIdxs: "nat list")
  | LimitNode PhysicalNode int
  | UnionNode "PhysicalNode list" nat
  | NestedLoopJoin PhysicalNode PhysicalNode "Condition list" "string list" "string list"

record 'c CostModel =
  fullScanCost :: 'c
  indexLookupCost :: "Condition \<Rightarrow> 'c"
  cheaper :: "'c \<Rightarrow> 'c \<Rightarrow> bool"

definition MaxUint64 :: u64 where "MaxUint64 = 0xFFFFFFFFFFFFFFFF"

definition max64 :: "u64 \<Rightarrow> u64 \<Rightarrow> u64" where "max64 a b = (if a > b then a else b)"
definition min64 :: "u64 \<Rightarrow> u64 \<Rightarrow> u64" where "min64 a b = (if a < b then a else b)"

definition isSimpleCond :: "Condition \<Rightarrow> bool" where
  "isSimpleCond c \<longleftrightarrow> \<not> AlwaysFalse c \<and> InList c = None \<and> InQuery c = None \<and>
     ExistsQuery c = None \<and> ScalarQuery c = None"

section \<open>One table\<close>

definition condToRange :: "Condition \<Rightarrow> u64 \<times> u64" where
  "condToRange c =
     (let v = IntVal (Val c) in
      case Op c of
        OpEq \<Rightarrow> (v, v)
      | OpGt \<Rightarrow> if v < MaxUint64 then (v + 1, MaxUint64) else (1, 0)
      | OpGte \<Rightarrow> (v, MaxUint64)
      | OpLt \<Rightarrow> if v > 0 then (0, v - 1) else (1, 0)
      | OpLte \<Rightarrow> (0, v))"

definition withoutIdx :: "Condition list \<Rightarrow> nat \<Rightarrow> Condition list" where
  "withoutIdx conds i =
     (if length conds = 1 then [] else take i conds @ drop (Suc i) conds)"

text \<open>The loop of \<open>classifyGroup\<close>: the bounds so far and the conditions left over.\<close>

fun classify_loop :: "string \<Rightarrow> Condition list \<Rightarrow> u64 \<Rightarrow> u64 \<Rightarrow> Condition list \<Rightarrow> u64 \<times> u64 \<times> Condition list" where
  "classify_loop pkName [] mn mx post = (mn, mx, post)"
| "classify_loop pkName (c # cs) mn mx post =
     (if \<not> isSimpleCond c \<or> ToLower (Column c) \<noteq> pkName \<or> valType (Val c) \<noteq> TypeInt
      then classify_loop pkName cs mn mx (post @ [c])
      else let v = IntVal (Val c) in
        case Op c of
          OpEq \<Rightarrow> classify_loop pkName cs (max64 mn v) (min64 mx v) post
        | OpGt \<Rightarrow> if v < MaxUint64 then classify_loop pkName cs (max64 mn (v + 1)) mx post
                 else classify_loop pkName cs 1 0 post
        | OpGte \<Rightarrow> classify_loop pkName cs (max64 mn v) mx post
        | OpLt \<Rightarrow> if v > 0 then classify_loop pkName cs mn (min64 mx (v - 1)) post
                 else classify_loop pkName cs 1 0 post
        | OpLte \<Rightarrow> classify_loop pkName cs mn (min64 mx v) post)"

definition classifyGroup :: "Table \<Rightarrow> Condition list \<Rightarrow> u64 \<times> u64 \<times> Condition list" where
  "classifyGroup t conds =
     (case PrimaryKeyIndex t of
        None \<Rightarrow> (0, MaxUint64, conds)
      | Some pkIdx \<Rightarrow>
          classify_loop (ToLower (colName (tblColumns t ! pkIdx))) conds 0 MaxUint64 [])"

definition with_filter :: "PhysicalNode \<Rightarrow> Condition list \<Rightarrow> PhysicalNode" where
  "with_filter branch rest = (if rest \<noteq> [] then FilterNode branch rest else branch)"

definition range_branch :: "Table \<Rightarrow> Condition list \<Rightarrow> PhysicalNode" where
  "range_branch t conds =
     (let (minKey, maxKey, post) = classifyGroup t conds
      in with_filter (IndexScan t minKey maxKey) post)"

definition index_branch :: "Table \<Rightarrow> Condition list \<Rightarrow> nat \<Rightarrow> IndexDef \<Rightarrow> PhysicalNode" where
  "index_branch t conds i def =
     (let (mn, mx) = condToRange (conds ! i)
      in with_filter (IndexLookup t def mn mx) (withoutIdx conds i))"

text \<open>The conditions that the two loops over the secondary indexes do not skip.\<close>

definition index_for_cond :: "Table \<Rightarrow> Condition \<Rightarrow> IndexDef option" where
  "index_for_cond t c =
     (if \<not> isSimpleCond c \<or> IsJoinCond c then None
      else case IndexForColumn t (Column c) of
        None \<Rightarrow> None
      | Some def \<Rightarrow> if valType (Val c) \<noteq> TypeInt then None else Some def)"

definition ruleBasedPlanGroup :: "Table \<Rightarrow> Condition list \<Rightarrow> PhysicalNode" where
  "ruleBasedPlanGroup t conds =
     (case find_index (\<lambda>c. index_for_cond t c \<noteq> None) conds of
        Some i \<Rightarrow> index_branch t conds i (the (index_for_cond t (conds ! i)))
      | None \<Rightarrow> range_branch t conds)"

fun best_index ::
  "'c CostModel \<Rightarrow> Table \<Rightarrow> Condition list \<Rightarrow> nat \<Rightarrow> 'c \<Rightarrow> nat option \<Rightarrow> nat option" where
  "best_index cm t [] i bestCost bestIdx = bestIdx"
| "best_index cm t (c # cs) i bestCost bestIdx =
     (if index_for_cond t c = None then best_index cm t cs (Suc i) bestCost bestIdx
      else if cheaper cm (indexLookupCost cm c) bestCost
        then best_index cm t cs (Suc i) (indexLookupCost cm c) (Some i)
      else best_index cm t cs (Suc i) bestCost bestIdx)"

definition costBasedPlanGroup :: "Table \<Rightarrow> Condition list \<Rightarrow> 'c CostModel \<Rightarrow> PhysicalNode" where
  "costBasedPlanGroup t conds cm =
     (case best_index cm t conds 0 (fullScanCost cm) None of
        Some i \<Rightarrow> index_branch t conds i (the (IndexForColumn t (Column (conds ! i))))
      | None \<Rightarrow> range_branch t conds)"

definition planGroup :: "Table \<Rightarrow> Condition list \<Rightarrow> 'c CostModel option \<Rightarrow> PhysicalNode" where
  "planGroup t conds ts =
     (case ts of Some cm \<Rightarrow> costBasedPlanGroup t conds cm | None \<Rightarrow> ruleBasedPlanGroup t conds)"

definition resolveColumnsSingle :: "Table \<Rightarrow> string list \<Rightarrow> go_error + string list \<times> nat list" where
  "resolveColumnsSingle t cols =
     (if cols = [''*''] then Inr (map colName (tblColumns t), [0..<length (tblColumns t)])
      else bindE (mapE (\<lambda>col. case ColIndex t col of None \<Rightarrow> Inl (ColumnMissing col) | Some i \<Rightarrow> Inr i) cols)
             (\<lambda>idxs. Inr (map (\<lambda>i. colName (tblColumns t ! i)) idxs, idxs)))"

definition exprCols :: "SelectExpr list \<Rightarrow> string list" where
  "exprCols = map exprCol"

definition with_limit :: "int \<Rightarrow> PhysicalNode \<Rightarrow> PhysicalNode" where
  "with_limit n root = (if n > 0 then LimitNode root n else root)"

definition planSingleTable ::
  "SelectStmt \<Rightarrow> Table \<Rightarrow> 'c CostModel option \<Rightarrow> go_error + PhysicalNode" where
  "planSingleTable s t ts =
     bindE (resolveColumnsSingle t (exprCols (Columns s))) (\<lambda>(cols, idxs).
     let branches = (case Where s of
           None \<Rightarrow> [IndexScan t 0 MaxUint64]
         | Some w \<Rightarrow> map (\<lambda>g. planGroup t g ts) (Groups w))
     in bindE
          (case branches of
             [b] \<Rightarrow> Inr b
           | _ \<Rightarrow> (case PrimaryKeyIndex t of
                     None \<Rightarrow> Inl OrNeedsPrimaryKey
                   | Some pkIdx \<Rightarrow> Inr (UnionNode branches pkIdx)))
          (\<lambda>root. Inr (ProjectNode (with_limit (Limit s) root) cols idxs)))"

section \<open>Several tables\<close>

definition allTableRefs :: "SelectStmt \<Rightarrow> TableRef list" where
  "allTableRefs s = From s @ map JoinTable (Joins s)"

definition qualifySchema :: "Table \<Rightarrow> string \<Rightarrow> string list" where
  "qualifySchema t qualifier = map (\<lambda>c. qualifier @ ''.'' @ colName c) (tblColumns t)"

definition EqualFold :: "string \<Rightarrow> string \<Rightarrow> bool" where
  "EqualFold a b \<longleftrightarrow> ToLower a = ToLower b"

text \<open>The results \<open>-1\<close> (none) and \<open>-2\<close> (ambiguous) are kept as integers.\<close>

fun find_bare :: "string \<Rightarrow> Table list \<Rightarrow> nat \<Rightarrow> int \<Rightarrow> int" where
  "find_bare col [] i found = found"
| "find_bare col (t # ts) i found =
     (if ColIndex t col \<noteq> None
      then (if found \<ge> 0 then -2 else find_bare col ts (Suc i) (int i))
      else find_bare col ts (Suc i) found)"

definition findTableForCond :: "string \<Rightarrow> TableRef list \<Rightarrow> Table list \<Rightarrow> int" where
  "findTableForCond col allRefs tables =
     (case split_first_dot col of
        Some (q, _) \<Rightarrow>
          (case find_index (\<lambda>r. ToLower (Qualifier r) = ToLower q) allRefs of
             Some i \<Rightarrow> int i | None \<Rightarrow> -1)
      | None \<Rightarrow> find_bare col tables 0 (-1))"

definition bareCol :: "string \<Rightarrow> string" where
  "bareCol col = (case split_first_dot col of Some (_, b) \<Rightarrow> b | None \<Rightarrow> col)"

definition colInSchema :: "string \<Rightarrow> string list \<Rightarrow> bool" where
  "colInSchema name schema =
     list_ex (\<lambda>s. EqualFold s name \<or>
       (case split_last_dot s of Some (_, b) \<Rightarrow> EqualFold b name | None \<Rightarrow> False)) schema"

definition condConnects :: "Condition \<Rightarrow> string list \<Rightarrow> string list \<Rightarrow> bool" where
  "condConnects c leftSchema rightSchema \<longleftrightarrow>
     (colInSchema (Column c) leftSchema \<and> colInSchema (RHSCol c) rightSchema) \<or>
     (colInSchema (Column c) rightSchema \<and> colInSchema (RHSCol c) leftSchema)"

definition findInSchema :: "string \<Rightarrow> string list \<Rightarrow> go_error + nat" where
  "findInSchema name schema =
     (case find_index (\<lambda>s. EqualFold s name) schema of
        Some i \<Rightarrow> Inr i
      | None \<Rightarrow>
          (case filter (\<lambda>i. case split_last_dot (schema ! i) of
                              Some (_, b) \<Rightarrow> EqualFold b name | None \<Rightarrow> False) [0..<length schema] of
             [] \<Rightarrow> Inl (ColumnMissing name)
           | [i] \<Rightarrow> Inr i
           | _ \<Rightarrow> Inl (ColumnAmbiguous name)))"

definition resolve_item :: "string list \<Rightarrow> string \<Rightarrow> go_error + (string \<times> nat) list" where
  "resolve_item schema col =
     (if length col \<ge> 2 \<and> drop (length col - 2) col = ''.*'' then
        (let q = take (length col - 2) col;
             hits = filter (\<lambda>i. case split_last_dot (schema ! i) of
                                  Some (p, _) \<Rightarrow> ToLower p = ToLower q | None \<Rightarrow> False) [0..<length schema]
         in if hits = [] then Inl (QualifierUnknown q) else Inr (map (\<lambda>i. (schema ! i, i)) hits))
      else bindE (findInSchema col schema) (\<lambda>i.
        Inr [(case split_last_dot col of Some (_, b) \<Rightarrow> b | None \<Rightarrow> col, i)]))"

definition resolveColumnsMulti :: "string list \<Rightarrow> string list \<Rightarrow> go_error + string list \<times> nat list" where
  "resolveColumnsMulti cols schema =
     (if cols = [''*''] then Inr (schema, [0..<length schema])
      else bindE (mapE (resolve_item schema) cols) (\<lambda>xs.
        Inr (map fst (concat xs), map snd (concat xs))))"

text \<open>The loop that sorts the WHERE conditions into join conditions and filters of one table.\<close>

fun split_conds ::
  "TableRef list \<Rightarrow> Table list \<Rightarrow> Condition list \<Rightarrow> Condition list \<Rightarrow> Condition list list \<Rightarrow>
   go_error + Condition list \<times> Condition list list" where
  "split_conds refs tables [] joins filters = Inr (joins, filters)"
| "split_conds refs tables (c # cs) joins filters =
     (if IsJoinCond c then split_conds refs tables cs (joins @ [c]) filters
      else let i = findTableForCond (Column c) refs tables in
        if i < 0 then Inl (ColumnUnresolved (Column c))
        else if length filters \<le> nat i then Inl Panic
        else split_conds refs tables cs joins
               (filters[nat i := filters ! nat i @ [setColumn (bareCol (Column c)) c]]))"

fun join_tree ::
  "PhysicalNode \<Rightarrow> string list \<Rightarrow> Condition list \<Rightarrow> (PhysicalNode \<times> string list) list \<Rightarrow>
   PhysicalNode \<times> string list" where
  "join_tree root leftSchema remaining [] = (root, leftSchema)"
| "join_tree root leftSchema remaining ((leaf, rightSchema) # rest) =
     (let on = filter (\<lambda>c. condConnects c leftSchema rightSchema) remaining;
          remaining' = filter (\<lambda>c. \<not> condConnects c leftSchema rightSchema) remaining
      in join_tree (NestedLoopJoin root leaf on leftSchema rightSchema)
           (leftSchema @ rightSchema) remaining' rest)"

definition planMultiTable ::
  "SelectStmt \<Rightarrow> Table list \<Rightarrow> (string \<Rightarrow> 'c CostModel option) \<Rightarrow> go_error + PhysicalNode" where
  "planMultiTable s tables statsMap =
     (let allRefs = allTableRefs s in
      if length allRefs \<noteq> length tables then Inl TableCountMismatch
      else
        let schemas = map2 (\<lambda>t r. qualifySchema t (Qualifier r)) tables allRefs;
            none = replicate (length tables) []
        in bindE
          (case Where s of
             None \<Rightarrow> Inr ([], none)
           | Some w \<Rightarrow>
               if length (Groups w) > 1 then Inl OrInMultiTable
               else case Groups w of
                 [] \<Rightarrow> Inl Panic
               | g # _ \<Rightarrow> split_conds allRefs tables g [] none)
          (\<lambda>(whereJoins, filters).
             let joinConds = whereJoins @ map On (Joins s);
                 leafs = map2 (\<lambda>t f. if f \<noteq> [] then planGroup t f (statsMap (ToLower (tblName t)))
                                     else IndexScan t 0 MaxUint64) tables filters
             in case zip leafs schemas of
                  [] \<Rightarrow> Inl Panic
                | (leaf, schema) # rest \<Rightarrow>
                    (let (root, combined) = join_tree leaf schema joinConds rest
                     in bindE (resolveColumnsMulti (exprCols (Columns s)) combined) (\<lambda>(cols, idxs).
                          Inr (ProjectNode (with_limit (Limit s) root) cols idxs)))))"

definition Plan ::
  "SelectStmt \<Rightarrow> Table list \<Rightarrow> (string \<Rightarrow> 'c CostModel option) \<Rightarrow> go_error + PhysicalNode" where
  "Plan s tables statsMap =
     (if length (From s) = 1 \<and> Joins s = [] then
        (case tables of
           [] \<Rightarrow> Inl Panic
         | t # _ \<Rightarrow> planSingleTable s t (statsMap (ToLower (refName (hd (From s))))))
      else planMultiTable s tables statsMap)"

end
