(* ===== verification/BTreeSpec.thy ===== *)
theory BTreeSpec
  imports BTree
begin

text \<open>
  What the B+ tree of \<open>src/btree/btree.go\<close> promises: a finite map from keys to
  values, presented as the list of its entries in ascending key order. This theory
  has the specification (\<open>ins_entry\<close>, \<open>entry_lookup\<close>), the tree on the pages
  (\<open>bt\<close>) with its invariants, and the pure lemmas that relate the two; the
  refinement of the operations is in \<open>BTreeRefine\<close>.
\<close>

section \<open>The specification: sorted lists of entries\<close>

definition ascending :: "Entry list \<Rightarrow> bool" where
  "ascending es \<longleftrightarrow> sorted_wrt (<) (map Key es)"

fun ins_entry :: "u64 \<Rightarrow> byte list \<Rightarrow> Entry list \<Rightarrow> Entry list" where
  "ins_entry k v [] = [\<lparr>Key = k, Value = v\<rparr>]"
| "ins_entry k v (e # es) =
     (if Key e < k then e # ins_entry k v es
      else if Key e = k then \<lparr>Key = k, Value = v\<rparr> # es
      else \<lparr>Key = k, Value = v\<rparr> # e # es)"

definition entry_lookup :: "Entry list \<Rightarrow> u64 \<Rightarrow> byte list option" where
  "entry_lookup es = map_of (map (\<lambda>e. (Key e, Value e)) es)"

lemma ascending_simps [simp]:
  "ascending []"
  "ascending (e # es) \<longleftrightarrow> (\<forall>x\<in>set es. Key e < Key x) \<and> ascending es"
  "ascending (es @ fs) \<longleftrightarrow>
     ascending es \<and> ascending fs \<and> (\<forall>x\<in>set es. \<forall>y\<in>set fs. Key x < Key y)"
  by (auto simp: ascending_def sorted_wrt_append)

lemma ascending_sorted: "ascending es \<Longrightarrow> sorted (map Key es)"
  unfolding ascending_def by (rule strict_sorted_imp_sorted)

lemma ins_entry_set:
  "x \<in> set (ins_entry k v es) \<Longrightarrow> x = \<lparr>Key = k, Value = v\<rparr> \<or> x \<in> set es"
  by (induction es) (auto split: if_splits)

lemma ins_entry_ascending: "ascending es \<Longrightarrow> ascending (ins_entry k v es)"
proof (induction es)
  case (Cons e es)
  then show ?case by (auto dest: ins_entry_set)
qed simp

lemma ins_entry_append_left:
  "(\<forall>x\<in>set es. Key x < k) \<Longrightarrow> ins_entry k v (es @ fs) = es @ ins_entry k v fs"
  by (induction es) auto

lemma ins_entry_append_right:
  "(\<forall>y\<in>set fs. k < Key y) \<Longrightarrow> ins_entry k v (es @ fs) = ins_entry k v es @ fs"
  by (induction es) (auto, cases fs, auto)

lemma ins_entry_found:
  assumes "ascending es" and "i < length es" and "Key (es ! i) = k"
  shows "es[i := (es ! i)\<lparr>Value := v\<rparr>] = ins_entry k v es"
proof -
  have es: "es = take i es @ es ! i # drop (Suc i) es" using assms(2) by (rule id_take_nth_drop)
  then have "\<forall>x\<in>set (take i es). Key x < k"
    using assms(1,3) by (metis ascending_simps(3) list.set_intros(1))
  then have "ins_entry k v es = take i es @ \<lparr>Key = k, Value = v\<rparr> # drop (Suc i) es"
    using assms(3) by (subst es) (simp add: ins_entry_append_left)
  moreover have "(es ! i)\<lparr>Value := v\<rparr> = \<lparr>Key = k, Value = v\<rparr>" using assms(3) by simp
  ultimately show ?thesis using assms(2) by (simp add: upd_conv_take_nth_drop)
qed

lemma ins_entry_absent:
  assumes "\<forall>e\<in>set (take i es). Key e < k" and "\<forall>e\<in>set (drop i es). k < Key e"
  shows "take i es @ \<lparr>Key = k, Value = v\<rparr> # drop i es = ins_entry k v es"
proof -
  have "ins_entry k v (take i es @ drop i es) = take i es @ ins_entry k v (drop i es)"
    using assms(1) by (rule ins_entry_append_left)
  moreover have "ins_entry k v (drop i es) = \<lparr>Key = k, Value = v\<rparr> # drop i es"
    using ins_entry_append_right [OF assms(2), of v "[]"] by simp
  ultimately show ?thesis by simp
qed

lemma entry_lookup_ins:
  "ascending es \<Longrightarrow> entry_lookup (ins_entry k v es) = (entry_lookup es)(k \<mapsto> v)"
  by (induction es) (auto simp: entry_lookup_def fun_eq_iff)

lemma entry_lookup_append_left:
  "(\<forall>x\<in>set fs. Key x \<noteq> k) \<Longrightarrow> entry_lookup (es @ fs) k = entry_lookup es k"
  by (induction es) (auto simp: entry_lookup_def map_of_eq_None_iff)

lemma entry_lookup_append_right:
  "(\<forall>x\<in>set es. Key x \<noteq> k) \<Longrightarrow> entry_lookup (es @ fs) k = entry_lookup fs k"
  by (induction es) (auto simp: entry_lookup_def)

lemma entry_lookup_delete:
  "entry_lookup (filter (\<lambda>e. Key e \<noteq> k) es) = (entry_lookup es)(k := None)"
  by (induction es) (auto simp: entry_lookup_def fun_eq_iff)

lemma entry_lookup_nth:
  assumes "ascending es" and "i < length es"
  shows "entry_lookup es (Key (es ! i)) = Some (Value (es ! i))"
proof -
  have "distinct (map fst (map (\<lambda>e. (Key e, Value e)) es))"
    using assms(1) by (simp add: ascending_def strict_sorted_iff comp_def)
  then show ?thesis unfolding entry_lookup_def
    by (rule map_of_is_SomeI) (use assms(2) in auto)
qed

lemma ascending_filter: "ascending es \<Longrightarrow> ascending (filter P es)"
  by (induction es) auto

section \<open>The shift loop\<close>

lemma shift_right_result:
  "pos \<le> n \<Longrightarrow> n < length xs \<Longrightarrow>
   shift_right pos n xs =
     take (Suc pos) xs @ take (n - pos) (drop pos xs) @ drop (Suc n) xs"
proof (induction n arbitrary: xs)
  case 0
  then show ?case by (cases xs) simp_all
next
  case (Suc n)
  show ?case
  proof (cases "pos < Suc n")
    case True
    have "shift_right pos (Suc n) xs =
        take (Suc pos) (xs[Suc n := xs ! n]) @ take (n - pos) (drop pos (xs[Suc n := xs ! n])) @
        drop (Suc n) (xs[Suc n := xs ! n])"
      using True Suc by simp
    also have "take (Suc pos) (xs[Suc n := xs ! n]) = take (Suc pos) xs"
      using True by (simp add: take_update_cancel)
    also have "take (n - pos) (drop pos (xs[Suc n := xs ! n])) = take (n - pos) (drop pos xs)"
      using True by (simp add: drop_update_swap take_update_cancel)
    also have "drop (Suc n) (xs[Suc n := xs ! n]) = xs ! n # drop (Suc (Suc n)) xs"
      using Suc.prems by (simp add: drop_update_swap Cons_nth_drop_Suc [symmetric])
    also have "take (n - pos) (drop pos xs) @ xs ! n # drop (Suc (Suc n)) xs =
        take (Suc n - pos) (drop pos xs) @ drop (Suc (Suc n)) xs"
      using True Suc.prems by (simp add: Suc_diff_le take_Suc_conv_app_nth)
    finally show ?thesis .
  next
    case False
    then have "pos = Suc n" using Suc.prems by simp
    then show ?thesis by simp
  qed
qed

lemma insert_at_eq:
  assumes "pos \<le> length xs"
  shows "insert_at pos z x xs = take pos xs @ x # drop pos xs"
proof -
  have "shift_right pos (length xs) (xs @ [z]) = take (Suc pos) (xs @ [z]) @ drop pos xs"
    using assms by (simp add: shift_right_result)
  also have "take (Suc pos) (xs @ [z]) = take pos xs @ [(xs @ [z]) ! pos]"
    using assms take_Suc_conv_app_nth [of pos "xs @ [z]"] by simp
  finally have "insert_at pos z x xs = ((take pos xs @ [(xs @ [z]) ! pos]) @ drop pos xs)[pos := x]"
    by (simp only: insert_at_def)
  then show ?thesis using assms by (simp add: list_update_append)
qed

section \<open>The tree on the pages\<close>

datatype bt = BLeaf u32 "Entry list" u32 | BNode u32 "u64 list" "bt list"

fun root_of :: "bt \<Rightarrow> u32" where
  "root_of (BLeaf i es nx) = i"
| "root_of (BNode i ks ts) = i"

fun ids :: "bt \<Rightarrow> u32 list" where
  "ids (BLeaf i es nx) = [i]"
| "ids (BNode i ks ts) = i # concat (map ids ts)"

fun leaves :: "bt \<Rightarrow> (u32 \<times> Entry list \<times> u32) list" where
  "leaves (BLeaf i es nx) = [(i, es, nx)]"
| "leaves (BNode i ks ts) = concat (map leaves ts)"

definition leaf_entries :: "(u32 \<times> Entry list \<times> u32) list \<Rightarrow> Entry list" where
  "leaf_entries ls = concat (map (\<lambda>(i, es, nx). es) ls)"

definition entries :: "bt \<Rightarrow> Entry list" where
  "entries t = leaf_entries (leaves t)"

definition forest_entries :: "bt list \<Rightarrow> Entry list" where
  "forest_entries ts = concat (map entries ts)"

lemma leaf_entries_simps [simp]:
  "leaf_entries [] = []"
  "leaf_entries ((i, es, nx) # ls) = es @ leaf_entries ls"
  "leaf_entries (ls @ ms) = leaf_entries ls @ leaf_entries ms"
  by (simp_all add: leaf_entries_def)

lemma forest_entries_simps [simp]:
  "forest_entries [] = []"
  "forest_entries (t # ts) = entries t @ forest_entries ts"
  "forest_entries (ts @ us) = forest_entries ts @ forest_entries us"
  by (simp_all add: forest_entries_def)

lemma leaf_entries_concat: "leaf_entries (concat (map leaves ts)) = forest_entries ts"
  by (induction ts) (simp_all add: entries_def)

lemma entries_simps [simp]:
  "entries (BLeaf i es nx) = es"
  "entries (BNode i ks ts) = forest_entries ts"
  by (simp_all add: entries_def leaf_entries_concat)

text \<open>The leaves \<open>ls\<close> form a linked segment from page \<open>a\<close> to page \<open>b\<close>.\<close>

fun path :: "u32 \<Rightarrow> (u32 \<times> Entry list \<times> u32) list \<Rightarrow> u32 \<Rightarrow> bool" where
  "path a [] b \<longleftrightarrow> a = b"
| "path a ((i, es, nx) # ls) b \<longleftrightarrow> a = i \<and> path nx ls b"

lemma path_append: "path a (ls @ ms) b \<longleftrightarrow> (\<exists>c. path a ls c \<and> path c ms b)"
  by (induction ls arbitrary: a) auto

section \<open>Separated sequences of subtrees\<close>

text \<open>
  The children \<open>ts\<close> of a node with separators \<open>ks\<close>: the i-th child lies between the
  i-th bounds of \<open>lo, ks, hi\<close> in the sense of \<open>P\<close>. \<open>wf_pre\<close> is the part of the
  sequence before a child, \<open>wf_suf\<close> the part after it.
\<close>

fun wf_seq :: "(nat \<Rightarrow> nat \<Rightarrow> 'a \<Rightarrow> bool) \<Rightarrow> nat \<Rightarrow> nat \<Rightarrow> u64 list \<Rightarrow> 'a list \<Rightarrow> bool" where
  "wf_seq P lo hi [] [t] \<longleftrightarrow> P lo hi t"
| "wf_seq P lo hi (k # ks) (t # ts) \<longleftrightarrow> P lo (unat k) t \<and> wf_seq P (unat k) hi ks ts"
| "wf_seq P lo hi _ _ \<longleftrightarrow> False"

fun wf_pre :: "(nat \<Rightarrow> nat \<Rightarrow> 'a \<Rightarrow> bool) \<Rightarrow> nat \<Rightarrow> u64 list \<Rightarrow> 'a list \<Rightarrow> bool" where
  "wf_pre P lo [] [] \<longleftrightarrow> True"
| "wf_pre P lo (k # ks) (t # ts) \<longleftrightarrow> P lo (unat k) t \<and> wf_pre P (unat k) ks ts"
| "wf_pre P lo _ _ \<longleftrightarrow> False"

fun last_bound :: "nat \<Rightarrow> u64 list \<Rightarrow> nat" where
  "last_bound lo [] = lo"
| "last_bound lo (k # ks) = last_bound (unat k) ks"

fun next_bound :: "nat \<Rightarrow> u64 list \<Rightarrow> nat" where
  "next_bound hi [] = hi"
| "next_bound hi (k # ks) = unat k"

fun wf_suf :: "(nat \<Rightarrow> nat \<Rightarrow> 'a \<Rightarrow> bool) \<Rightarrow> nat \<Rightarrow> u64 list \<Rightarrow> 'a list \<Rightarrow> bool" where
  "wf_suf P hi [] ts \<longleftrightarrow> ts = []"
| "wf_suf P hi (k # ks) ts \<longleftrightarrow> wf_seq P (unat k) hi ks ts"

lemma wf_seq_length: "wf_seq P lo hi ks ts \<Longrightarrow> length ts = length ks + 1"
  by (induction P lo hi ks ts rule: wf_seq.induct) auto

lemma wf_pre_length: "wf_pre P lo ks ts \<Longrightarrow> length ts = length ks"
  by (induction P lo ks ts rule: wf_pre.induct) auto

lemma wf_seq_Nil [simp]: "wf_seq P lo hi [] ts \<longleftrightarrow> (\<exists>t. ts = [t] \<and> P lo hi t)"
  by (cases ts rule: remdups_adj.cases) auto

lemma wf_seq_Cons:
  "wf_seq P lo hi (k # ks) ts \<longleftrightarrow>
   (\<exists>t us. ts = t # us \<and> P lo (unat k) t \<and> wf_seq P (unat k) hi ks us)"
  by (cases ts) auto

lemma wf_seq_append:
  "length k1 = length t1 \<Longrightarrow>
   wf_seq P lo hi (k1 @ k2) (t1 @ t2) \<longleftrightarrow> wf_pre P lo k1 t1 \<and> wf_seq P (last_bound lo k1) hi k2 t2"
  by (induction k1 t1 arbitrary: lo rule: list_induct2) auto

lemma wf_seq_cons_suf:
  "wf_seq P lo hi ks (t # ts) \<longleftrightarrow> P lo (next_bound hi ks) t \<and> wf_suf P hi ks ts"
  by (cases ks) auto

text \<open>Cutting at a separator, and putting a separated sequence in the place of one child.\<close>

lemma wf_seq_cut:
  "length ta = length ka + 1 \<Longrightarrow>
   wf_seq P lo hi (ka @ k # kb) (ta @ tb) \<longleftrightarrow>
   wf_seq P lo (unat k) ka ta \<and> wf_seq P (unat k) hi kb tb"
proof (induction ka arbitrary: lo ta)
  case Nil
  then show ?case by (auto simp: length_Suc_conv)
next
  case (Cons a ka)
  then obtain t us where "ta = t # us" "length us = length ka + 1" by (cases ta) auto
  then show ?case using Cons.IH by simp
qed

lemma wf_seq_append_suf:
  "wf_seq P lo (next_bound hi k2) k1 t1 \<Longrightarrow> wf_suf P hi k2 t2 \<Longrightarrow>
   wf_seq P lo hi (k1 @ k2) (t1 @ t2)"
proof (cases k2)
  case (Cons k kb)
  assume "wf_seq P lo (next_bound hi k2) k1 t1" "wf_suf P hi k2 t2"
  then show ?thesis using Cons wf_seq_cut wf_seq_length by fastforce
qed simp

lemma wf_seq_split:
  assumes "wf_seq P lo hi ks ts" and "c \<le> length ks"
  obtains t1 t t2 where "ts = t1 @ t # t2" and "length t1 = c"
    and "P (last_bound lo (take c ks)) (next_bound hi (drop c ks)) t"
    and "wf_pre P lo (take c ks) t1" and "wf_suf P hi (drop c ks) t2"
proof -
  have len: "length ts = length ks + 1" using assms(1) by (rule wf_seq_length)
  have ts: "ts = take c ts @ ts ! c # drop (Suc c) ts"
    using assms(2) len by (intro id_take_nth_drop) simp
  have "wf_seq P lo hi (take c ks @ drop c ks) (take c ts @ ts ! c # drop (Suc c) ts)"
    using assms(1) ts by simp
  moreover have "length (take c ks) = length (take c ts)" using assms(2) len by simp
  ultimately have "wf_pre P lo (take c ks) (take c ts) \<and>
      P (last_bound lo (take c ks)) (next_bound hi (drop c ks)) (ts ! c) \<and>
      wf_suf P hi (drop c ks) (drop (Suc c) ts)"
    by (simp only: wf_seq_append wf_seq_cons_suf)
  then show ?thesis
    using that [of "take c ts" "ts ! c" "drop (Suc c) ts", OF ts] assms(2) len by simp
qed

lemma wf_seq_plug:
  assumes "wf_pre P lo k1 t1" and "wf_suf P hi k2 t2"
    and "wf_seq P (last_bound lo k1) (next_bound hi k2) ks ts"
  shows "wf_seq P lo hi (k1 @ ks @ k2) (t1 @ ts @ t2)"
  using assms wf_pre_length by (fastforce simp: wf_seq_append wf_seq_append_suf)

section \<open>The search-tree invariant\<close>

definition spans :: "nat \<Rightarrow> nat \<Rightarrow> Entry list \<Rightarrow> bool" where
  "spans lo hi es \<longleftrightarrow>
     lo < hi \<and> ascending es \<and> (\<forall>e\<in>set es. lo \<le> unat (Key e) \<and> unat (Key e) < hi)"

text \<open>\<open>btwf n lo hi t\<close>: all leaves of \<open>t\<close> are at depth \<open>n\<close>, the keys lie in \<open>[lo, hi)\<close> as
  the separators say, and no node is larger than a page.\<close>

primrec btwf :: "nat \<Rightarrow> nat \<Rightarrow> nat \<Rightarrow> bt \<Rightarrow> bool" where
  "btwf 0 = (\<lambda>lo hi t. case t of
     BLeaf i es nx \<Rightarrow> spans lo hi es \<and> wf_entries es \<and> length es \<le> LeafOrder
   | BNode i ks ts \<Rightarrow> False)"
| "btwf (Suc n) = (\<lambda>lo hi t. case t of
     BLeaf i es nx \<Rightarrow> False
   | BNode i ks ts \<Rightarrow> length ks \<le> InternalOrder \<and> wf_seq (btwf n) lo hi ks ts)"

lemma btwf_BLeaf [simp]:
  "btwf n lo hi (BLeaf i es nx) \<longleftrightarrow>
   n = 0 \<and> spans lo hi es \<and> wf_entries es \<and> length es \<le> LeafOrder"
  by (cases n) auto

lemma btwf_BNode [simp]:
  "btwf (Suc n) lo hi (BNode i ks ts) \<longleftrightarrow> length ks \<le> InternalOrder \<and> wf_seq (btwf n) lo hi ks ts"
  "\<not> btwf 0 lo hi (BNode i ks ts)"
  by simp_all

declare btwf.simps [simp del]

lemma spans_append: "spans a b es \<Longrightarrow> spans b c fs \<Longrightarrow> spans a c (es @ fs)"
  by (fastforce simp: spans_def word_less_nat_alt)

lemma spans_less: "spans lo hi es \<Longrightarrow> lo < hi"
  by (simp add: spans_def)

lemma wf_seq_spans:
  assumes "\<And>lo hi t. P lo hi t \<Longrightarrow> spans lo hi (entries t)" and "wf_seq P lo hi ks ts"
  shows "spans lo hi (forest_entries ts)"
  using assms(2)
proof (induction ks arbitrary: lo ts)
  case Nil
  then show ?case using assms(1) by auto
next
  case (Cons k ks)
  then obtain t us where "ts = t # us" "P lo (unat k) t" "spans (unat k) hi (forest_entries us)"
    by (auto simp: wf_seq_Cons)
  then show ?case using assms(1) spans_append by (simp, blast)
qed

lemma btwf_spans: "btwf n lo hi t \<Longrightarrow> spans lo hi (entries t)"
proof (induction n arbitrary: lo hi t)
  case 0
  then show ?case by (cases t) auto
next
  case (Suc n)
  then show ?case by (cases t) (auto intro: wf_seq_spans)
qed

lemma wf_seq_keys:
  assumes "\<And>lo hi t. P lo hi t \<Longrightarrow> lo < hi" and "wf_seq P lo hi ks ts"
  shows "lo < hi \<and> sorted ks \<and> (\<forall>k\<in>set ks. lo < unat k \<and> unat k < hi)"
  using assms(2)
proof (induction ks arbitrary: lo ts)
  case Nil
  then show ?case using assms(1) by auto
next
  case (Cons k ks)
  then obtain t us where t: "P lo (unat k) t" and IH: "unat k < hi \<and> sorted ks \<and>
      (\<forall>x\<in>set ks. unat k < unat x \<and> unat x < hi)"
    by (auto simp: wf_seq_Cons)
  have "\<forall>x\<in>set ks. k \<le> x" using IH by (auto simp: word_le_nat_alt)
  then show ?case using assms(1) [OF t] IH by auto
qed

lemma btwf_less: "btwf n lo hi t \<Longrightarrow> lo < hi"
  using btwf_spans spans_less by blast

lemma wf_pre_spans:
  assumes "\<And>lo hi t. P lo hi t \<Longrightarrow> spans lo hi (entries t)" and "wf_pre P lo ks ts"
  shows "ts = [] \<or> spans lo (last_bound lo ks) (forest_entries ts)"
  using assms(2)
proof (induction ks arbitrary: lo ts)
  case Nil
  then show ?case by (cases ts) auto
next
  case (Cons k ks)
  then obtain t us where ts: "ts = t # us" and t: "P lo (unat k) t" and us: "wf_pre P (unat k) ks us"
    by (cases ts) auto
  show ?case
  proof (cases "us = []")
    case True
    then show ?thesis using us assms(1) [OF t] ts by (cases ks) auto
  next
    case False
    then have "spans (unat k) (last_bound (unat k) ks) (forest_entries us)"
      using Cons.IH us by blast
    then show ?thesis using spans_append [OF assms(1) [OF t]] ts by simp
  qed
qed

lemma wf_suf_spans:
  assumes "\<And>lo hi t. P lo hi t \<Longrightarrow> spans lo hi (entries t)" and "wf_suf P hi ks ts"
  shows "ts = [] \<or> spans (next_bound hi ks) hi (forest_entries ts)"
proof (cases ks)
  case (Cons k kb)
  then show ?thesis using assms(2) wf_seq_spans [OF assms(1)] by simp
qed (use assms(2) in simp)

lemma last_bound_le: "lo \<le> x \<Longrightarrow> (\<forall>k\<in>set ks. unat k \<le> x) \<Longrightarrow> last_bound lo ks \<le> x"
  by (induction ks arbitrary: lo) auto

lemma next_bound_greater: "x < hi \<Longrightarrow> (\<forall>k\<in>set ks. x < unat k) \<Longrightarrow> x < next_bound hi ks"
  by (cases ks) auto

text \<open>The child \<open>FindChildIndex\<close> selects is the one whose bounds contain the key: no other
  child can hold it.\<close>

lemma route:
  assumes wf: "btwf (Suc n) lo hi (BNode i ks ts)" and key: "lo \<le> unat key" "unat key < hi"
  defines "c \<equiv> FindChildIndex ks key"
  obtains t1 t t2 where "c \<le> length ks" and "ts = t1 @ t # t2" and "length t1 = c"
    and "btwf n (last_bound lo (take c ks)) (next_bound hi (drop c ks)) t"
    and "wf_pre (btwf n) lo (take c ks) t1" and "wf_suf (btwf n) hi (drop c ks) t2"
    and "last_bound lo (take c ks) \<le> unat key" and "unat key < next_bound hi (drop c ks)"
    and "\<forall>e\<in>set (forest_entries t1). Key e < key"
    and "\<forall>e\<in>set (forest_entries t2). key < Key e"
proof -
  have seq: "wf_seq (btwf n) lo hi ks ts" using wf by simp
  have "sorted ks" using wf_seq_keys [OF _ seq] btwf_less by blast
  note fc = FindChildIndex_spec [OF this, of key, folded c_def]
  obtain t1 t t2 where t: "ts = t1 @ t # t2" "length t1 = c"
      "btwf n (last_bound lo (take c ks)) (next_bound hi (drop c ks)) t"
      "wf_pre (btwf n) lo (take c ks) t1" "wf_suf (btwf n) hi (drop c ks) t2"
    using wf_seq_split [OF seq fc(1)] by metis
  have lb: "last_bound lo (take c ks) \<le> unat key"
    using key(1) fc(2) by (intro last_bound_le) (auto simp: word_le_nat_alt)
  have nb: "unat key < next_bound hi (drop c ks)"
    using key(2) fc(3) by (intro next_bound_greater) (auto simp: word_less_nat_alt)
  have "\<forall>e\<in>set (forest_entries t1). Key e < key"
    using wf_pre_spans [OF btwf_spans t(4)] lb by (fastforce simp: spans_def word_less_nat_alt)
  moreover have "\<forall>e\<in>set (forest_entries t2). key < Key e"
    using wf_suf_spans [OF btwf_spans t(5)] nb by (fastforce simp: spans_def word_less_nat_alt)
  ultimately show ?thesis using that t lb nb fc(1) by blast
qed

section \<open>The pages hold the tree\<close>

definition page_of :: "u32 \<Rightarrow> byte list \<Rightarrow> Page" where
  "page_of i d = (NewPage i PageTypeData)\<lparr>Data := d\<rparr>"

definition leaf_at :: "(u32 \<Rightarrow> byte list) \<Rightarrow> u32 \<Rightarrow> Entry list \<Rightarrow> u32 \<Rightarrow> bool" where
  "leaf_at V i es nx \<longleftrightarrow> V i ! 0 = NodeTypeLeaf \<and>
     DecodeLeaf (page_of i (V i)) = Inr \<lparr>LeafPageID = i, Entries = es, NextLeaf = nx\<rparr>"

definition node_at :: "(u32 \<Rightarrow> byte list) \<Rightarrow> u32 \<Rightarrow> u64 list \<Rightarrow> u32 list \<Rightarrow> bool" where
  "node_at V i ks cs \<longleftrightarrow> V i ! 0 = NodeTypeInternal \<and>
     DecodeInternal (page_of i (V i)) = Inr \<lparr>InternalPageID = i, Keys = ks, Children = cs\<rparr>"

fun rep :: "(u32 \<Rightarrow> byte list) \<Rightarrow> bt \<Rightarrow> bool" where
  "rep V (BLeaf i es nx) \<longleftrightarrow> leaf_at V i es nx"
| "rep V (BNode i ks ts) \<longleftrightarrow> node_at V i ks (map root_of ts) \<and> (\<forall>t\<in>set ts. rep V t)"

lemma page_of_simps [simp]: "page_id (page_of i d) = i" "Data (page_of i d) = d"
  by (simp_all add: page_of_def NewPage_def)

lemma DecodeLeaf_cong: "page_id p = page_id q \<Longrightarrow> Data p = Data q \<Longrightarrow> DecodeLeaf p = DecodeLeaf q"
  by (simp add: DecodeLeaf_def Let_def split: option.split)

lemma DecodeInternal_cong:
  "page_id p = page_id q \<Longrightarrow> Data p = Data q \<Longrightarrow> DecodeInternal p = DecodeInternal q"
  by (simp add: DecodeInternal_def Let_def split: option.split)

lemma leaf_at_page:
  assumes "leaf_at V i es nx" and "page_id p = i" and "Data p = V i"
  shows "PageNodeType p = NodeTypeLeaf"
    and "DecodeLeaf p = Inr \<lparr>LeafPageID = i, Entries = es, NextLeaf = nx\<rparr>"
  using assms DecodeLeaf_cong [of p "page_of i (V i)"] by (simp_all add: leaf_at_def PageNodeType_def)

lemma node_at_page:
  assumes "node_at V i ks cs" and "page_id p = i" and "Data p = V i"
  shows "PageNodeType p = NodeTypeInternal"
    and "DecodeInternal p = Inr \<lparr>InternalPageID = i, Keys = ks, Children = cs\<rparr>"
  using assms DecodeInternal_cong [of p "page_of i (V i)"]
  by (simp_all add: node_at_def PageNodeType_def)

lemma EncodeLeaf_at:
  assumes "length es \<le> LeafOrder" and "wf_entries es"
  obtains p where "EncodeLeaf \<lparr>LeafPageID = i, Entries = es, NextLeaf = nx\<rparr> = Inr p"
    and "wf_page p" and "page_id p = i" and "\<forall>V. V i = Data p \<longrightarrow> leaf_at V i es nx"
  using EncodeLeaf_ok [of "\<lparr>LeafPageID = i, Entries = es, NextLeaf = nx\<rparr>"] assms
  by (auto simp: leaf_at_def PageNodeType_def)

lemma EncodeInternal_at:
  assumes "length ks \<le> InternalOrder" and "length cs = length ks + 1"
  obtains p where "EncodeInternal \<lparr>InternalPageID = i, Keys = ks, Children = cs\<rparr> = Inr p"
    and "wf_page p" and "page_id p = i" and "\<forall>V. V i = Data p \<longrightarrow> node_at V i ks cs"
  using EncodeInternal_ok [of "\<lparr>InternalPageID = i, Keys = ks, Children = cs\<rparr>"] assms
  by (auto simp: node_at_def PageNodeType_def)

lemma root_in_ids [simp]: "root_of t \<in> set (ids t)"
  by (cases t) auto

lemma rep_cong: "(\<And>j. j \<in> set (ids t) \<Longrightarrow> V j = W j) \<Longrightarrow> rep V t = rep W t"
  by (induction t) (auto simp: leaf_at_def node_at_def)

lemma node_types_differ [simp]: "NodeTypeInternal \<noteq> NodeTypeLeaf" "NodeTypeLeaf \<noteq> NodeTypeInternal"
  by (simp_all add: NodeTypeInternal_def NodeTypeLeaf_def)

section \<open>Splitting a full leaf\<close>

lemma spans_ins_entry:
  "spans lo hi es \<Longrightarrow> lo \<le> unat k \<Longrightarrow> unat k < hi \<Longrightarrow> spans lo hi (ins_entry k v es)"
  by (auto simp: spans_def ins_entry_ascending dest!: ins_entry_set)

lemma wf_entries_ins_entry:
  "wf_entries es \<Longrightarrow> length v = ValueSize \<Longrightarrow> wf_entries (ins_entry k v es)"
  by (auto simp: wf_entries_def dest!: ins_entry_set)

lemma wf_entries_take_drop:
  "wf_entries es \<Longrightarrow> wf_entries (take n es)" "wf_entries es \<Longrightarrow> wf_entries (drop n es)"
  by (auto simp: wf_entries_def dest: in_set_takeD in_set_dropD)

lemma spans_cut:
  assumes "spans lo hi es" and "0 < m" and "m < length es"
  shows "spans lo (unat (Key (es ! m))) (take m es) \<and> spans (unat (Key (es ! m))) hi (drop m es)"
proof -
  have es: "es = take m es @ es ! m # drop (Suc m) es" using assms(3) by (rule id_take_nth_drop)
  have asc: "ascending (take m es @ es ! m # drop (Suc m) es)"
    by (subst es [symmetric]) (use assms(1) in \<open>simp add: spans_def\<close>)
  have ne: "es ! 0 \<in> set (take m es)" using assms(2,3) by (auto simp: in_set_conv_nth)
  have lt: "\<forall>e\<in>set (take m es). Key e < Key (es ! m)" using asc unfolding ascending_simps by auto
  have bounds: "\<forall>e\<in>set es. lo \<le> unat (Key e) \<and> unat (Key e) < hi"
    using assms(1) by (simp add: spans_def)
  have "lo < unat (Key (es ! m))"
    using lt ne bounds in_set_takeD [OF ne] by (force simp: word_less_nat_alt)
  moreover have "unat (Key (es ! m)) < hi" using bounds assms(3) by simp
  moreover have "drop m es = es ! m # drop (Suc m) es" using assms(3) by (simp add: Cons_nth_drop_Suc)
  moreover have "spans lo (unat (Key (es ! m))) (take m es)"
    using asc lt bounds calculation(1) unfolding spans_def ascending_simps
    by (auto dest: in_set_takeD simp: word_less_nat_alt)
  moreover have "\<forall>e\<in>set (drop m es). unat (Key (es ! m)) \<le> unat (Key e) \<and> unat (Key e) < hi"
    using asc bounds calculation(2,3) unfolding ascending_simps
    by (auto dest: in_set_dropD simp: word_less_nat_alt less_imp_le)
  ultimately show ?thesis using asc unfolding spans_def ascending_simps by simp
qed

end
