(* ===== verification/TxPager.thy ===== *)
theory TxPager
  imports Pager
begin

text \<open>
  \<open>src/pager/txpager.go\<close>: the transaction-buffered pager. It is written against the
  \<open>FullStore\<close> interface, here a record of operations \<open>fs\<close> on the base state, and is
  a \<open>PageStore\<close> itself. The dirty buffer is a Go map; where the code ranges over it,
  the order is not specified, so the enumeration \<open>ord\<close> of its keys is an argument of
  the definition and the lemmas hold for every enumeration.

  The lemmas: the buffer is a page store over any full store (the sublocale \<open>tx\<close>),
  no uncommitted page reaches the base (no-steal), \<open>Flush\<close> makes the base equal to
  the buffered view, and \<open>Rollback\<close> restores the base.
\<close>

record 's TxPager =
  txbase :: 's
  dirty :: "u32 \<rightharpoonup> Page"
  allocated :: "u32 list"

definition NewTxPager :: "'s \<Rightarrow> 's TxPager" where
  "NewTxPager b = \<lparr>txbase = b, dirty = Map.empty, allocated = []\<rparr>"

definition txp_ReadPage :: "('s, 'z) FullStore_scheme \<Rightarrow> u32 \<Rightarrow> ('s TxPager, Page) go" where
  "txp_ReadPage fs i tp =
     (case dirty tp i of
        Some p \<Rightarrow> (Inr p, tp)
      | None \<Rightarrow> (case ReadPage fs i (txbase tp) of (r, b) \<Rightarrow> (r, tp\<lparr>txbase := b\<rparr>)))"

definition txp_WritePage :: "Page \<Rightarrow> ('s TxPager, unit) go" where
  "txp_WritePage p tp = (Inr (), tp\<lparr>dirty := (dirty tp)(page_id p \<mapsto> p)\<rparr>)"

definition txp_AllocatePage :: "('s, 'z) FullStore_scheme \<Rightarrow> ('s TxPager, u32) go" where
  "txp_AllocatePage fs tp =
     (case AllocatePage fs (txbase tp) of
        (Inl e, b) \<Rightarrow> (Inl e, tp\<lparr>txbase := b\<rparr>)
      | (Inr i, b) \<Rightarrow> (Inr i, tp\<lparr>txbase := b, allocated := allocated tp @ [i]\<rparr>))"

definition txp_DirtyPages :: "u32 list \<Rightarrow> 's TxPager \<Rightarrow> Page list" where
  "txp_DirtyPages ord tp = map (\<lambda>i. the (dirty tp i)) ord"

fun write_pages :: "('s, 'z) FullStore_scheme \<Rightarrow> Page list \<Rightarrow> ('s, unit) go" where
  "write_pages fs [] b = (Inr (), b)"
| "write_pages fs (p # ps) b = bindG (WritePage fs p) (\<lambda>_. write_pages fs ps) b"

definition txp_Flush :: "('s, 'z) FullStore_scheme \<Rightarrow> u32 list \<Rightarrow> ('s TxPager, unit) go" where
  "txp_Flush fs ord tp =
     (case write_pages fs (txp_DirtyPages ord tp) (txbase tp) of
        (Inl e, b) \<Rightarrow> (Inl e, tp\<lparr>txbase := b\<rparr>)
      | (Inr _, b) \<Rightarrow> (Inr (), tp\<lparr>txbase := b, dirty := Map.empty, allocated := []\<rparr>))"

fun free_pages :: "('s, 'z) FullStore_scheme \<Rightarrow> u32 list \<Rightarrow> ('s, unit) go" where
  "free_pages fs [] b = (Inr (), b)"
| "free_pages fs (i # xs) b = bindG (FreePage fs i) (\<lambda>_. free_pages fs xs) b"

definition txp_Rollback :: "('s, 'z) FullStore_scheme \<Rightarrow> ('s TxPager, unit) go" where
  "txp_Rollback fs tp =
     (let tp = tp\<lparr>dirty := Map.empty\<rparr> in
      case free_pages fs (allocated tp) (txbase tp) of
        (Inl e, b) \<Rightarrow> (Inl e, tp\<lparr>txbase := b\<rparr>)
      | (Inr _, b) \<Rightarrow> (Inr (), tp\<lparr>txbase := b, allocated := []\<rparr>))"

definition tx_store :: "('s, 'z) FullStore_scheme \<Rightarrow> 's TxPager PageStore" where
  "tx_store fs =
     \<lparr>ReadPage = txp_ReadPage fs, WritePage = txp_WritePage, AllocatePage = txp_AllocatePage fs\<rparr>"

lemma tx_store_simps [simp]:
  "ReadPage (tx_store fs) = txp_ReadPage fs" "WritePage (tx_store fs) = txp_WritePage"
  "AllocatePage (tx_store fs) = txp_AllocatePage fs"
  by (simp_all add: tx_store_def)

section \<open>The buffered view\<close>

definition txp_view :: "('s \<Rightarrow> u32 \<Rightarrow> byte list) \<Rightarrow> 's TxPager \<Rightarrow> u32 \<Rightarrow> byte list" where
  "txp_view view tp i = (case dirty tp i of Some p \<Rightarrow> Data p | None \<Rightarrow> view (txbase tp) i)"

definition txp_inv :: "('s \<Rightarrow> bool) \<Rightarrow> ('s \<Rightarrow> u32 set) \<Rightarrow> 's TxPager \<Rightarrow> bool" where
  "txp_inv ok live tp \<longleftrightarrow>
     ok (txbase tp) \<and>
     (\<forall>i p. dirty tp i = Some p \<longrightarrow> i \<in> live (txbase tp) \<and> wf_page p \<and> page_id p = i)"

sublocale full_store \<subseteq> tx: page_store "tx_store fs" "txp_inv ok live"
    "\<lambda>tp. live (txbase tp)" "txp_view view" "\<lambda>tp. room (txbase tp)"
proof (unfold_locales, goal_cases)
  case (1 s)
  then show ?case using live_nonzero by (auto simp: txp_inv_def)
next
  case (2 s i)
  then show ?case
    using view_length by (auto simp: txp_inv_def txp_view_def wf_page_def split: option.splits)
next
  case (3 s i)
  then have i: "ok (txbase s)" "i \<in> live (txbase s)" by (auto simp: txp_inv_def)
  show ?case
  proof (cases "dirty s i")
    case None
    with read_live [OF i] 3 show ?thesis
      by (auto simp: txp_ReadPage_def txp_view_def txp_inv_def split: option.splits)
  next
    case (Some p)
    with 3 show ?thesis by (auto simp: txp_ReadPage_def txp_view_def txp_inv_def)
  qed
next
  case (4 s p)
  then show ?case
    by (auto simp: txp_WritePage_def txp_view_def txp_inv_def split: option.splits)
next
  case (5 s)
  then have "ok (txbase s)" by (simp add: txp_inv_def)
  from alloc_room [OF this 5(2)] 5(1) show ?case
    by (auto simp: txp_AllocatePage_def txp_view_def txp_inv_def split: option.splits)
qed

section \<open>Transactions\<close>

text \<open>The steps of a transaction between \<open>NewTxPager\<close> and its end: reads of live pages,
  writes of well-formed pages, allocations.\<close>

inductive txp_step :: "('s, 'z) FullStore_scheme \<Rightarrow> ('s \<Rightarrow> u32 set) \<Rightarrow> ('s \<Rightarrow> nat) \<Rightarrow>
    's TxPager \<Rightarrow> 's TxPager \<Rightarrow> bool"
  for fs live room where
  txp_read: "i \<in> live (txbase tp) \<Longrightarrow> txp_ReadPage fs i tp = (r, tp') \<Longrightarrow>
     txp_step fs live room tp tp'"
| txp_write: "wf_page p \<Longrightarrow> page_id p \<in> live (txbase tp) \<Longrightarrow> txp_WritePage p tp = (r, tp') \<Longrightarrow>
     txp_step fs live room tp tp'"
| txp_alloc: "0 < room (txbase tp) \<Longrightarrow> txp_AllocatePage fs tp = (r, tp') \<Longrightarrow>
     txp_step fs live room tp tp'"

text \<open>What a transaction begun on base state \<open>b0\<close> keeps: the pages that were live at the
  beginning are untouched in the base, and the only new live pages are the recorded
  allocations.\<close>

definition txp_frame :: "('s \<Rightarrow> bool) \<Rightarrow> ('s \<Rightarrow> u32 set) \<Rightarrow> ('s \<Rightarrow> u32 \<Rightarrow> byte list) \<Rightarrow>
    's \<Rightarrow> 's TxPager \<Rightarrow> bool" where
  "txp_frame ok live view b0 tp \<longleftrightarrow>
     txp_inv ok live tp \<and>
     live (txbase tp) = live b0 \<union> set (allocated tp) \<and> live b0 \<inter> set (allocated tp) = {} \<and>
     distinct (allocated tp) \<and> (\<forall>j\<in>live b0. view (txbase tp) j = view b0 j)"

context full_store
begin

lemma frame_new: "ok b0 \<Longrightarrow> txp_frame ok live view b0 (NewTxPager b0)"
  by (simp add: txp_frame_def txp_inv_def NewTxPager_def)

lemma frame_read:
  assumes "txp_frame ok live view b0 tp" and "i \<in> live (txbase tp)"
    and "txp_ReadPage fs i tp = (r, tp')"
  shows "txp_frame ok live view b0 tp'"
proof (cases "dirty tp i")
  case None
  have "ok (txbase tp)" using assms(1) by (simp add: txp_frame_def txp_inv_def)
  from read_live [OF this assms(2)] None assms(1,3) show ?thesis
    by (auto simp: txp_ReadPage_def txp_frame_def txp_inv_def disjoint_iff)
next
  case (Some p)
  with assms show ?thesis by (simp add: txp_ReadPage_def)
qed

lemma frame_alloc:
  assumes "txp_frame ok live view b0 tp" and "0 < room (txbase tp)"
    and "txp_AllocatePage fs tp = (r, tp')"
  shows "txp_frame ok live view b0 tp'"
proof -
  have "ok (txbase tp)" using assms(1) by (simp add: txp_frame_def txp_inv_def)
  from alloc_room [OF this assms(2)] assms(1,3) show ?thesis
    by (auto simp: txp_AllocatePage_def txp_frame_def txp_inv_def disjoint_iff)
qed

lemma frame_step:
  "txp_step fs live room tp tp' \<Longrightarrow> txp_frame ok live view b0 tp \<Longrightarrow> txp_frame ok live view b0 tp'"
proof (induction rule: txp_step.induct)
  case (txp_read i tp r tp')
  then show ?case using frame_read by blast
next
  case (txp_write p tp r tp')
  then show ?case
    by (auto simp: txp_WritePage_def txp_frame_def txp_inv_def disjoint_iff split: if_splits)
next
  case (txp_alloc tp r tp')
  then show ?case using frame_alloc by blast
qed

lemma frame_steps:
  "(txp_step fs live room)\<^sup>*\<^sup>* tp tp' \<Longrightarrow> txp_frame ok live view b0 tp \<Longrightarrow>
   txp_frame ok live view b0 tp'"
  by (induction rule: rtranclp_induct) (auto dest: frame_step)

lemma free_pages_frame:
  "ok b \<Longrightarrow> set xs \<subseteq> live b \<Longrightarrow> distinct xs \<Longrightarrow> free_pages fs xs b = (r, b') \<Longrightarrow>
   ok b' \<and> live b - set xs \<subseteq> live b' \<and> live b' \<subseteq> live b \<and>
   (r = Inr () \<longrightarrow> live b' = live b - set xs) \<and> (\<forall>j\<in>live b - set xs. view b' j = view b j)"
proof (induction xs arbitrary: b)
  case Nil
  then show ?case by simp
next
  case (Cons x xs)
  obtain r1 b1 where f: "FreePage fs x b = (r1, b1)" by fastforce
  have x: "x \<in> live b" using Cons.prems(2) by simp
  note l = free_live [OF Cons.prems(1) x f]
  show ?case
  proof (cases r1)
    case (Inl e)
    then show ?thesis using Cons.prems(4) l f by (auto simp: bindG_def)
  next
    case (Inr u)
    then have "free_pages fs xs b1 = (r, b')" "live b1 = live b - {x}" "ok b1"
      using Cons.prems(4) l f by (simp_all add: bindG_def)
    with Cons.IH [of b1] Cons.prems(2,3) l show ?thesis by auto
  qed
qed

lemma rollback_frame:
  assumes "txp_frame ok live view b0 tp" and "txp_Rollback fs tp = (r, tp')"
  shows "ok (txbase tp') \<and> live b0 \<subseteq> live (txbase tp') \<and>
     (\<forall>j\<in>live b0. view (txbase tp') j = view b0 j) \<and>
     (r = Inr () \<longrightarrow> live (txbase tp') = live b0) \<and> dirty tp' = Map.empty"
proof -
  obtain r1 b where f: "free_pages fs (allocated tp) (txbase tp) = (r1, b)" by fastforce
  have fr: "ok (txbase tp)" "distinct (allocated tp)"
      "live (txbase tp) = live b0 \<union> set (allocated tp)" "live b0 \<inter> set (allocated tp) = {}"
      "\<forall>j\<in>live b0. view (txbase tp) j = view b0 j"
    using assms(1) by (simp_all add: txp_frame_def txp_inv_def)
  have diff: "live (txbase tp) - set (allocated tp) = live b0" using fr(3,4) by blast
  have fp: "ok b" "live b0 \<subseteq> live b" "r1 = Inr () \<longrightarrow> live b = live b0"
      "\<forall>j\<in>live b0. view b j = view (txbase tp) j"
    using free_pages_frame [OF fr(1) _ fr(2) f] fr(3) diff by auto
  have "txbase tp' = b" "dirty tp' = Map.empty" "r = r1"
    using assms(2) f by (auto simp: txp_Rollback_def Let_def split: sum.splits)
  with fp fr(5) show ?thesis by auto
qed

lemma write_pages_view:
  "ok b \<Longrightarrow> (\<forall>p\<in>set ps. wf_page p \<and> page_id p \<in> live b) \<Longrightarrow> distinct (map page_id ps) \<Longrightarrow>
   \<exists>b'. write_pages fs ps b = (Inr (), b') \<and> ok b' \<and> live b' = live b \<and> room b \<le> room b' \<and>
     (\<forall>p\<in>set ps. view b' (page_id p) = Data p) \<and>
     (\<forall>j\<in>live b - page_id ` set ps. view b' j = view b j)"
proof (induction ps arbitrary: b)
  case Nil
  then show ?case by simp
next
  case (Cons p ps)
  from write_live [OF Cons.prems(1), of p] Cons.prems(2) obtain b1 where b1:
      "WritePage fs p b = (Inr (), b1)" "ok b1" "live b1 = live b" "room b \<le> room b1"
      "\<forall>j\<in>live b. view b1 j = (if j = page_id p then Data p else view b j)"
    by auto
  obtain b' where b': "write_pages fs ps b1 = (Inr (), b')" "ok b'" "live b' = live b"
      "room b1 \<le> room b'" "\<forall>q\<in>set ps. view b' (page_id q) = Data q"
      "\<forall>j\<in>live b - page_id ` set ps. view b' j = view b1 j"
    using Cons.IH [of b1] Cons.prems(2,3) b1(2,3) by auto
  have "page_id p \<notin> page_id ` set ps" using Cons.prems(3) by auto
  then show ?case using b1 b' Cons.prems(2) by auto
qed

lemma flush_view:
  assumes "txp_inv ok live tp" and "distinct ord" and "set ord = dom (dirty tp)"
  shows "\<exists>tp'. txp_Flush fs ord tp = (Inr (), tp') \<and> ok (txbase tp') \<and>
     live (txbase tp') = live (txbase tp) \<and> dirty tp' = Map.empty \<and> allocated tp' = [] \<and>
     (\<forall>j\<in>live (txbase tp). view (txbase tp') j = txp_view view tp j)"
proof -
  let ?ps = "txp_DirtyPages ord tp"
  have some: "\<exists>p. dirty tp i = Some p \<and> page_id p = i \<and> wf_page p \<and> i \<in> live (txbase tp)"
    if "i \<in> set ord" for i
    using that assms(1,3) by (auto simp: txp_inv_def)
  have ids: "map page_id ?ps = ord"
    unfolding txp_DirtyPages_def map_map by (intro map_idI) (force dest: some)
  have "ok (txbase tp)" using assms(1) by (simp add: txp_inv_def)
  moreover have "\<forall>p\<in>set ?ps. wf_page p \<and> page_id p \<in> live (txbase tp)"
    using some by (fastforce simp: txp_DirtyPages_def)
  ultimately obtain b' where b': "write_pages fs ?ps (txbase tp) = (Inr (), b')" "ok b'"
      "live b' = live (txbase tp)" "\<forall>p\<in>set ?ps. view b' (page_id p) = Data p"
      "\<forall>j\<in>live (txbase tp) - page_id ` set ?ps. view b' j = view (txbase tp) j"
    using write_pages_view [of "txbase tp" ?ps] ids assms(2) by auto
  have img: "page_id ` set ?ps = set ord" by (metis ids list.set_map)
  have "view b' j = txp_view view tp j" if j: "j \<in> live (txbase tp)" for j
  proof (cases "j \<in> set ord")
    case True
    then obtain p where "dirty tp j = Some p" "page_id p = j" using some by blast
    moreover from this True have "p \<in> set ?ps" by (force simp: txp_DirtyPages_def)
    ultimately show ?thesis using b'(4) by (auto simp: txp_view_def)
  next
    case False
    then have "dirty tp j = None" using assms(3) by auto
    then show ?thesis using b'(5) j False img by (simp add: txp_view_def)
  qed
  then show ?thesis using b' by (simp add: txp_Flush_def)
qed

end

text \<open>A transaction on a new file that allocates a page and writes it.\<close>

lemma txp_example:
  "\<exists>tp i p. (txp_step pager_store pager_live pager_room)\<^sup>*\<^sup>* (NewTxPager fresh_pager) tp \<and>
     dirty tp = [i \<mapsto> p] \<and> allocated tp = [i] \<and> i \<in> pager_live (txbase tp)"
proof -
  obtain i q where q: "pager_AllocatePage fresh_pager = (Inr i, q)"
      "pager_live q = insert i (pager_live fresh_pager)"
    using pager.alloc_room [of fresh_pager] by auto
  let ?t1 = "\<lparr>txbase = q, dirty = Map.empty, allocated = [i]\<rparr>"
  let ?t2 = "?t1\<lparr>dirty := [i \<mapsto> NewPage i PageTypeData]\<rparr>"
  have a: "txp_AllocatePage pager_store (NewTxPager fresh_pager) = (Inr i, ?t1)"
    using q by (simp add: txp_AllocatePage_def NewTxPager_def)
  have "txp_step pager_store pager_live pager_room (NewTxPager fresh_pager) ?t1"
    by (rule txp_step.txp_alloc [OF _ a]) (simp add: NewTxPager_def)
  moreover have "txp_step pager_store pager_live pager_room ?t1 ?t2"
    using q(2) by (intro txp_step.txp_write [of "NewPage i PageTypeData"])
      (auto simp: txp_WritePage_def)
  ultimately show ?thesis using q(2)
    by (intro exI [of _ ?t2] exI [of _ i] exI [of _ "NewPage i PageTypeData"]) auto
qed

section \<open>Properties of the transaction pager over the raw pager\<close>

text \<open>C26: no-steal and rollback: run any transaction over a consistent pager; then \<open>Rollback\<close>
  discards every buffered write: each page that was in use before the transaction reads back the
  same data, and when \<open>Rollback\<close> reports success exactly those pages are in use again.\<close>

theorem txp_rollback_restores:
  assumes "pager_inv b0"
    and "(txp_step pager_store pager_live pager_room)\<^sup>*\<^sup>* (NewTxPager b0) tp"
    and "txp_Rollback pager_store tp = (r, tp')"
  shows "pager_inv (txbase tp') \<and> dirty tp' = Map.empty
     \<and> (\<forall>j\<in>pager_live b0. pager_view (txbase tp) j = pager_view b0 j)
     \<and> (\<forall>j\<in>pager_live b0. pager_view (txbase tp') j = pager_view b0 j)
     \<and> pager_live b0 \<subseteq> pager_live (txbase tp')
     \<and> (r = Inr () \<longrightarrow> pager_live (txbase tp') = pager_live b0)"
proof -
  have fr: "txp_frame pager_inv pager_live pager_view b0 tp"
    using pager.frame_steps [OF assms(2)] pager.frame_new [OF assms(1)] by blast
  then show ?thesis using pager.rollback_frame [OF fr assms(3)] by (auto simp: txp_frame_def)
qed

theorem txp_rollback_restores_witness:
  "\<exists>tp r tp'. dirty tp \<noteq> Map.empty \<and> txp_Rollback pager_store tp = (r, tp')
     \<and> dirty tp' = Map.empty \<and> pager_inv (txbase tp')"
proof -
  obtain tp i p where tp: "dirty tp = [i \<mapsto> p]"
      and steps: "(txp_step pager_store pager_live pager_room)\<^sup>*\<^sup>* (NewTxPager fresh_pager) tp"
    using txp_example by blast
  obtain r tp' where rb: "txp_Rollback pager_store tp = (r, tp')" by fastforce
  show ?thesis
    using txp_rollback_restores [OF pager_inv_fresh steps rb] tp rb
    by (intro exI [of _ tp] exI [of _ r] exI [of _ tp']) auto
qed



end
