(* ===== verification/BufferPool.thy ===== *)
theory BufferPool
  imports TxPager "HOL-Library.AList"
begin

text \<open>
  \<open>src/bufferpool/pool.go\<close>: the shared page cache with LRU replacement and the
  write-through adapter \<open>BufPager\<close>. The pagers are objects that the pool and the
  adapters share: the state has a store of pager objects addressed by numbers, and
  \<open>files\<close> and \<open>bpg\<close> hold such addresses. The frame map is an association list; the
  doubly linked list is the list of the keys of its frames, most recently used first.

  The lemmas: the pool never exceeds its capacity, its LRU list names exactly the
  cached pages, every cached page agrees with the file, and \<open>BufPager\<close> is a full store
  over the same pages as the raw pager.
\<close>

definition DefaultCapacity :: nat where "DefaultCapacity = 64"

type_synonym pageKey = "u16 \<times> u32"

record Pool =
  capacity :: nat
  frames :: "(pageKey \<times> Page) list"
  lru :: "pageKey list"
  files :: "u16 \<rightharpoonup> nat"
  nextFID :: u16
  Hits :: u64
  Misses :: u64
  Evictions :: u64

record BufState =
  pool :: Pool
  pagers :: "nat \<Rightarrow> Pager"

record BufPager =
  bpg :: nat
  fid :: u16

definition pool_New :: "int \<Rightarrow> Pool" where
  "pool_New cap =
     (let cap = (if cap \<le> 0 then int DefaultCapacity else cap)
      in \<lparr>capacity = nat cap, frames = [], lru = [], files = Map.empty, nextFID = 0,
          Hits = 0, Misses = 0, Evictions = 0\<rparr>)"

definition pool_Register :: "nat \<Rightarrow> Pool \<Rightarrow> u16 \<times> Pool" where
  "pool_Register pg p =
     (let f = nextFID p
      in (f, p\<lparr>nextFID := nextFID p + 1, files := (files p)(f \<mapsto> pg)\<rparr>))"

definition pool_Unregister :: "u16 \<Rightarrow> Pool \<Rightarrow> Pool" where
  "pool_Unregister f p =
     p\<lparr>frames := filter (\<lambda>(k, pg). fst k \<noteq> f) (frames p),
       lru := filter (\<lambda>k. fst k \<noteq> f) (lru p),
       files := (files p)(f := None)\<rparr>"

definition promote :: "pageKey \<Rightarrow> Pool \<Rightarrow> Pool" where
  "promote k p = p\<lparr>lru := k # remove1 k (lru p)\<rparr>"

definition push_frame :: "pageKey \<Rightarrow> Page \<Rightarrow> Pool \<Rightarrow> Pool" where
  "push_frame k page p = p\<lparr>frames := (k, page) # frames p, lru := k # lru p\<rparr>"

definition evictOne :: "(Pool, unit) go" where
  "evictOne p =
     (if lru p = [] then (Inl PoolNoVictim, p)
      else
        let k = last (lru p)
        in (Inr (), p\<lparr>lru := butlast (lru p), frames := AList.delete k (frames p),
                      Evictions := Evictions p + 1\<rparr>))"

definition FetchPage :: "u16 \<Rightarrow> u32 \<Rightarrow> (BufState, Page) go" where
  "FetchPage f i st =
     (let p = pool st; k = (f, i) in
      case map_of (frames p) k of
        Some page \<Rightarrow> (Inr page, st\<lparr>pool := promote k (p\<lparr>Hits := Hits p + 1\<rparr>)\<rparr>)
      | None \<Rightarrow>
          let p = p\<lparr>Misses := Misses p + 1\<rparr>;
              (r, p) = (if length (frames p) \<ge> capacity p then evictOne p else (Inr (), p))
          in case r of
               Inl e \<Rightarrow> (Inl e, st\<lparr>pool := p\<rparr>)
             | Inr _ \<Rightarrow>
                 (case files p f of
                    None \<Rightarrow> (Inl (FileNotRegistered f), st\<lparr>pool := p\<rparr>)
                  | Some a \<Rightarrow>
                      (case pager_ReadPage i (pagers st a) of
                         (Inl e, pg) \<Rightarrow> (Inl e, st\<lparr>pool := p, pagers := (pagers st)(a := pg)\<rparr>)
                       | (Inr page, pg) \<Rightarrow>
                           (Inr page, st\<lparr>pool := push_frame k page p, pagers := (pagers st)(a := pg)\<rparr>))))"

definition UpdatePage :: "u16 \<Rightarrow> Page \<Rightarrow> Pool \<Rightarrow> Pool" where
  "UpdatePage f page p =
     (let k = (f, page_id page) in
      case map_of (frames p) k of
        Some _ \<Rightarrow> promote k (p\<lparr>frames := AList.update k page (frames p)\<rparr>)
      | None \<Rightarrow> if length (frames p) < capacity p then push_frame k page p else p)"

definition EvictPage :: "u16 \<Rightarrow> u32 \<Rightarrow> Pool \<Rightarrow> Pool" where
  "EvictPage f i p =
     (case map_of (frames p) (f, i) of
        Some _ \<Rightarrow> p\<lparr>lru := remove1 (f, i) (lru p), frames := AList.delete (f, i) (frames p)\<rparr>
      | None \<Rightarrow> p)"

record Stats =
  sHits :: u64
  sMisses :: u64
  sEvictions :: u64
  Cached :: nat
  Capacity :: nat

definition pool_Stats :: "Pool \<Rightarrow> Stats" where
  "pool_Stats p =
     \<lparr>sHits = Hits p, sMisses = Misses p, sEvictions = Evictions p,
      Cached = length (frames p), Capacity = capacity p\<rparr>"

section \<open>The adapter\<close>

definition NewBufPager :: "nat \<Rightarrow> u16 \<Rightarrow> BufPager" where
  "NewBufPager a f = \<lparr>bpg = a, fid = f\<rparr>"

definition buf_ReadPage :: "BufPager \<Rightarrow> u32 \<Rightarrow> (BufState, Page) go" where
  "buf_ReadPage bp i = FetchPage (fid bp) i"

definition buf_WritePage :: "BufPager \<Rightarrow> Page \<Rightarrow> (BufState, unit) go" where
  "buf_WritePage bp p st =
     (case pager_WritePage p (pagers st (bpg bp)) of
        (Inl e, pg) \<Rightarrow> (Inl e, st\<lparr>pagers := (pagers st)(bpg bp := pg)\<rparr>)
      | (Inr _, pg) \<Rightarrow>
          (Inr (), st\<lparr>pool := UpdatePage (fid bp) p (pool st), pagers := (pagers st)(bpg bp := pg)\<rparr>))"

definition buf_AllocatePage :: "BufPager \<Rightarrow> (BufState, u32) go" where
  "buf_AllocatePage bp st =
     (case pager_AllocatePage (pagers st (bpg bp)) of
        (r, pg) \<Rightarrow> (r, st\<lparr>pagers := (pagers st)(bpg bp := pg)\<rparr>))"

definition buf_FreePage :: "BufPager \<Rightarrow> u32 \<Rightarrow> (BufState, unit) go" where
  "buf_FreePage bp i st =
     (case pager_FreePage i (pagers st (bpg bp)) of
        (r, pg) \<Rightarrow> (r, st\<lparr>pool := EvictPage (fid bp) i (pool st), pagers := (pagers st)(bpg bp := pg)\<rparr>))"

definition buf_store :: "BufPager \<Rightarrow> BufState FullStore" where
  "buf_store bp =
     \<lparr>ReadPage = buf_ReadPage bp, WritePage = buf_WritePage bp,
      AllocatePage = buf_AllocatePage bp, FreePage = buf_FreePage bp\<rparr>"

lemma buf_store_simps [simp]:
  "ReadPage (buf_store bp) = buf_ReadPage bp" "WritePage (buf_store bp) = buf_WritePage bp"
  "AllocatePage (buf_store bp) = buf_AllocatePage bp" "FreePage (buf_store bp) = buf_FreePage bp"
  by (simp_all add: buf_store_def)

section \<open>The pool invariant\<close>

definition pool_wf :: "Pool \<Rightarrow> bool" where
  "pool_wf p \<longleftrightarrow> 0 < capacity p \<and> distinct (map fst (frames p)) \<and> distinct (lru p) \<and>
     set (lru p) = fst ` set (frames p) \<and> length (frames p) \<le> capacity p"

lemma pool_wf_lengths: "pool_wf p \<Longrightarrow> length (lru p) = length (frames p)"
proof -
  assume wf: "pool_wf p"
  then have "card (set (lru p)) = card (set (map fst (frames p)))" by (simp add: pool_wf_def)
  then show ?thesis using wf distinct_card by (metis length_map pool_wf_def)
qed

lemma delete_frames:
  "distinct (map fst xs) \<Longrightarrow> distinct (map fst (AList.delete k xs))"
  "fst ` set (AList.delete k xs) = fst ` set xs - {k}"
proof -
  show "distinct (map fst xs) \<Longrightarrow> distinct (map fst (AList.delete k xs))" by (rule distinct_delete)
  have "set (map fst (AList.delete k xs)) = set (map fst xs) - {k}" by (simp add: delete_keys del: set_map)
  then show "fst ` set (AList.delete k xs) = fst ` set xs - {k}" by simp
qed

lemma length_delete_less: "k \<in> fst ` set xs \<Longrightarrow> length (AList.delete k xs) < length xs"
proof (induction xs)
  case (Cons x xs)
  then show ?case using length_delete_le [of k xs] by (cases "fst x = k") (auto simp: less_Suc_eq_le)
qed simp

lemma length_update_in: "k \<in> fst ` set xs \<Longrightarrow> length (AList.update k v xs) = length xs"
  by (induction xs) auto

lemma map_of_Some_key: "map_of xs k = Some v \<Longrightarrow> k \<in> fst ` set xs"
  by (metis dom_map_of_conv_image_fst domI)

lemma pool_wf_New: "pool_wf (pool_New c)"
  by (simp add: pool_wf_def pool_New_def DefaultCapacity_def)

lemma pool_wf_Register: "pool_wf p \<Longrightarrow> pool_wf (snd (pool_Register a p))"
  by (simp add: pool_wf_def pool_Register_def Let_def)

lemma pool_wf_Unregister: "pool_wf p \<Longrightarrow> pool_wf (pool_Unregister f p)"
  unfolding pool_wf_def pool_Unregister_def
  by (auto simp: distinct_map_filter intro: le_trans [OF length_filter_le])

lemma pool_wf_promote: "pool_wf p \<Longrightarrow> k \<in> fst ` set (frames p) \<Longrightarrow> pool_wf (promote k p)"
  by (auto simp: pool_wf_def promote_def)

lemma pool_wf_push:
  "pool_wf p \<Longrightarrow> k \<notin> fst ` set (frames p) \<Longrightarrow> length (frames p) < capacity p \<Longrightarrow> pool_wf (push_frame k page p)"
  by (auto simp: pool_wf_def push_frame_def)

lemma pool_wf_evict:
  assumes "pool_wf p" and "capacity p \<le> length (frames p)"
  shows "\<exists>q. evictOne p = (Inr (), q) \<and> pool_wf q \<and> length (frames q) < capacity q \<and>
     frames q = AList.delete (last (lru p)) (frames p) \<and> lru q = butlast (lru p) \<and> files q = files p \<and>
     capacity q = capacity p"
proof -
  have "lru p \<noteq> []" using assms pool_wf_lengths [OF assms(1)] by (auto simp: pool_wf_def)
  then obtain ks k where l: "lru p = ks @ [k]" by (metis rev_exhaust)
  then have k: "k \<in> fst ` set (frames p)" "k \<notin> set ks" "distinct ks" "set ks = fst ` set (frames p) - {k}"
    using assms(1) by (auto simp: pool_wf_def)
  then have "length (AList.delete k (frames p)) < capacity p"
    using length_delete_less assms by (fastforce simp: pool_wf_def)
  then show ?thesis
    using l k assms delete_frames(1) [of "frames p" k] by (simp add: evictOne_def pool_wf_def delete_frames(2))
qed

lemma pool_wf_update:
  assumes "pool_wf p"
  shows "pool_wf (UpdatePage f page p)"
proof (cases "map_of (frames p) (f, page_id page)")
  case None
  then show ?thesis
    using assms pool_wf_push [OF assms, of "(f, page_id page)" page]
    by (simp add: UpdatePage_def Let_def) (simp add: map_of_eq_None_iff)
next
  case (Some old)
  then have k: "(f, page_id page) \<in> fst ` set (frames p)" by (rule map_of_Some_key)
  let ?q = "p\<lparr>frames := AList.update (f, page_id page) page (frames p)\<rparr>"
  have "pool_wf ?q"
    using assms k length_update_in [OF k] by (auto simp: pool_wf_def distinct_update dom_update)
  then show ?thesis using Some by (simp add: UpdatePage_def Let_def pool_wf_promote dom_update)
qed

lemma pool_wf_EvictPage: "pool_wf p \<Longrightarrow> pool_wf (EvictPage f i p)"
proof -
  let ?k = "(f, i)"
  let ?q = "p\<lparr>lru := remove1 ?k (lru p), frames := AList.delete ?k (frames p)\<rparr>"
  assume wf: "pool_wf p"
  then have "distinct (map fst (frames ?q))" "set (lru ?q) = fst ` set (frames ?q)" "distinct (lru ?q)"
    unfolding pool_wf_def Pool.select_convs Pool.update_convs
    using delete_frames(1) [of "frames p" ?k] by (simp_all add: delete_frames(2))
  moreover have "length (frames ?q) \<le> capacity ?q"
    using wf length_delete_le [of ?k "frames p"] by (simp add: pool_wf_def)
  ultimately have "pool_wf ?q" using wf by (simp add: pool_wf_def)
  then show ?thesis using wf by (simp add: EvictPage_def split: option.splits)
qed

section \<open>Coherence with the files\<close>

text \<open>Every frame caches a page in use of a registered file, and holds what the file holds.\<close>

definition coherent :: "Pool \<Rightarrow> (nat \<Rightarrow> Pager) \<Rightarrow> bool" where
  "coherent p P \<longleftrightarrow>
     (\<forall>f i page. map_of (frames p) (f, i) = Some page \<longrightarrow>
        (\<exists>a. files p f = Some a \<and> i \<in> pager_live (P a) \<and> Data page = pager_view (P a) i \<and> page_id page = i))"

definition pool_inv :: "BufState \<Rightarrow> bool" where
  "pool_inv st \<longleftrightarrow> pool_wf (pool st) \<and> coherent (pool st) (pagers st) \<and>
     (\<forall>f a. files (pool st) f = Some a \<longrightarrow> pager_inv (pagers st a)) \<and>
     (\<forall>f g a. files (pool st) f = Some a \<longrightarrow> files (pool st) g = Some a \<longrightarrow> f = g)"

definition buf_ok :: "BufPager \<Rightarrow> BufState \<Rightarrow> bool" where
  "buf_ok bp st \<longleftrightarrow> pool_inv st \<and> files (pool st) (fid bp) = Some (bpg bp)"

definition buf_live :: "BufPager \<Rightarrow> BufState \<Rightarrow> u32 set" where
  "buf_live bp st = pager_live (pagers st (bpg bp))"

definition buf_view :: "BufPager \<Rightarrow> BufState \<Rightarrow> u32 \<Rightarrow> byte list" where
  "buf_view bp st = pager_view (pagers st (bpg bp))"

definition buf_room :: "BufPager \<Rightarrow> BufState \<Rightarrow> nat" where
  "buf_room bp st = pager_room (pagers st (bpg bp))"

lemma coherent_mono:
  assumes "coherent p P" and "map_of (frames q) \<subseteq>\<^sub>m map_of (frames p)" and "files q = files p"
  shows "coherent q P"
proof -
  have "map_of (frames p) k = Some x" if "map_of (frames q) k = Some x" for k x
    using assms(2) that by (metis domI map_le_def)
  then show ?thesis using assms(1,3) by (simp add: coherent_def)
qed

lemma delete_map_le: "map_of (AList.delete k xs) \<subseteq>\<^sub>m map_of xs"
  by (auto simp: delete_conv' map_le_def)

lemma coherent_push:
  assumes "coherent p P" and "files p f = Some a" and "i \<in> pager_live (P a)"
    and "Data page = pager_view (P a) i" and "page_id page = i"
  shows "coherent (push_frame (f, i) page p) P"
  using assms by (auto simp: coherent_def push_frame_def)

lemma coherent_promote [simp]: "coherent (promote k p) P = coherent p P"
  by (simp add: coherent_def promote_def)

lemma files_promote [simp]: "files (promote k p) = files p"
  by (simp add: promote_def)

lemma pager_read_live:
  assumes "pager_inv pg" and "i \<in> pager_live pg"
  obtains page where "pager_ReadPage i pg = (Inr page, pg)" and "Data page = pager_view pg i" and "page_id page = i"
proof -
  have i: "i < totalPages pg" using assms(2) by (simp add: pager_live_def)
  obtain p where p: "holds_page (pfile pg) i p" "page_id p = i" using pager_inv_page [OF assms(1) i] .
  then show ?thesis using that [of p] pager_ReadPage_holds [OF p(1) i] pager_view_holds [OF p(1) i] by simp
qed

lemma fetch_live:
  assumes inv: "pool_inv st" and f: "files (pool st) f = Some a" and i: "i \<in> pager_live (pagers st a)"
  shows "\<exists>page st'. FetchPage f i st = (Inr page, st') \<and> pool_inv st' \<and> pagers st' = pagers st \<and>
     files (pool st') = files (pool st) \<and> Data page = pager_view (pagers st a) i \<and> page_id page = i"
proof (cases "map_of (frames (pool st)) (f, i)")
  case (Some page)
  then have c: "Data page = pager_view (pagers st a) i" "page_id page = i"
    using inv f by (simp_all add: pool_inv_def coherent_def) fastforce+
  let ?p = "(pool st)\<lparr>Hits := Hits (pool st) + 1\<rparr>"
  have "(f, i) \<in> fst ` set (frames ?p)" using Some by (simp add: map_of_Some_key)
  moreover have "pool_wf ?p" "coherent ?p (pagers st)" using inv by (simp_all add: pool_inv_def pool_wf_def coherent_def)
  ultimately have "pool_wf (promote (f, i) ?p)" "coherent (promote (f, i) ?p) (pagers st)"
    by (simp_all add: pool_wf_promote)
  then have "pool_inv (st\<lparr>pool := promote (f, i) ?p\<rparr>)" using inv by (simp add: pool_inv_def)
  then show ?thesis using Some c by (simp add: FetchPage_def Let_def)
next
  case None
  let ?p = "(pool st)\<lparr>Misses := Misses (pool st) + 1\<rparr>"
  have wf: "pool_wf ?p" "coherent ?p (pagers st)" using inv by (simp_all add: pool_inv_def pool_wf_def coherent_def)
  have nk: "(f, i) \<notin> fst ` set (frames ?p)" using None by (simp add: map_of_eq_None_iff)
  obtain q where q: "(if length (frames ?p) \<ge> capacity ?p then evictOne ?p else (Inr (), ?p)) = (Inr (), q)"
      "pool_wf q" "coherent q (pagers st)" "(f, i) \<notin> fst ` set (frames q)" "length (frames q) < capacity q"
      "files q = files (pool st)"
  proof (cases "length (frames ?p) \<ge> capacity ?p")
    case True
    then obtain q where e: "evictOne ?p = (Inr (), q)" "pool_wf q" "length (frames q) < capacity q"
        "frames q = AList.delete (last (lru ?p)) (frames ?p)" "files q = files ?p"
      using pool_wf_evict [OF wf(1)] by auto
    then have "coherent q (pagers st)" by (intro coherent_mono [OF wf(2)]) (simp_all add: delete_map_le)
    moreover have "(f, i) \<notin> fst ` set (frames q)" using nk unfolding e(4) delete_frames(2) by blast
    ultimately show ?thesis using that [of q] True e by simp
  next
    case False
    then show ?thesis using that [of ?p] wf nk by simp
  qed
  have "pager_inv (pagers st a)" using inv f by (simp add: pool_inv_def)
  then obtain page where page: "pager_ReadPage i (pagers st a) = (Inr page, pagers st a)"
      "Data page = pager_view (pagers st a) i" "page_id page = i"
    using i by (rule pager_read_live)
  let ?st = "st\<lparr>pool := push_frame (f, i) page q\<rparr>"
  have "FetchPage f i st = (Inr page, ?st)"
    using None q(1,6) f page(1) by (simp add: FetchPage_def Let_def)
  moreover have "pool_inv ?st"
    using inv pool_wf_push [OF q(2,4,5)] coherent_push [OF q(3) _ i page(2,3)] q(6) f
    by (simp add: pool_inv_def push_frame_def)
  ultimately show ?thesis using page q(6) by (auto simp: push_frame_def)
qed

text \<open>The file \<open>f\<close> changes to \<open>pg\<close>: the frames of other files stay coherent.\<close>

lemma coherent_change:
  assumes "pool_inv st" and "files (pool st) f = Some a" and "files q = files (pool st)"
    and "\<And>g i page. map_of (frames q) (g, i) = Some page \<Longrightarrow>
      (if g = f then i \<in> pager_live pg \<and> Data page = pager_view pg i \<and> page_id page = i
       else map_of (frames (pool st)) (g, i) = Some page)"
  shows "coherent q ((pagers st)(a := pg))"
  unfolding coherent_def
proof (intro allI impI)
  fix g i page assume q: "map_of (frames q) (g, i) = Some page"
  show "\<exists>b. files q g = Some b \<and> i \<in> pager_live (((pagers st)(a := pg)) b) \<and>
      Data page = pager_view (((pagers st)(a := pg)) b) i \<and> page_id page = i"
  proof (cases "g = f")
    case True
    then show ?thesis using assms(2,3) assms(4) [OF q] by simp
  next
    case False
    then have "map_of (frames (pool st)) (g, i) = Some page" using assms(4) [OF q] by simp
    then obtain b where b: "files (pool st) g = Some b" "i \<in> pager_live (pagers st b)"
        "Data page = pager_view (pagers st b) i" "page_id page = i"
      using assms(1) by (simp add: pool_inv_def coherent_def) blast
    moreover have "b \<noteq> a" using False b(1) assms(1,2) by (auto simp: pool_inv_def)
    ultimately show ?thesis using assms(3) by simp
  qed
qed

lemma pool_inv_change:
  assumes "pool_inv st" and "files (pool st) f = Some a" and "pool_wf q" and "files q = files (pool st)"
    and "coherent q ((pagers st)(a := pg))" and "pager_inv pg"
  shows "pool_inv (st\<lparr>pool := q, pagers := (pagers st)(a := pg)\<rparr>)"
  using assms by (auto simp: pool_inv_def)

lemma frames_Update:
  "map_of (frames (UpdatePage f page p)) (g, i) = Some x \<Longrightarrow>
   (g, i) = (f, page_id page) \<and> x = page \<or> (g, i) \<noteq> (f, page_id page) \<and> map_of (frames p) (g, i) = Some x"
  by (auto simp: UpdatePage_def promote_def push_frame_def update_conv' Let_def split: option.splits if_splits)

lemma frames_EvictPage:
  "map_of (frames (EvictPage f i p)) (g, j) = Some x \<Longrightarrow> (g, j) \<noteq> (f, i) \<and> map_of (frames p) (g, j) = Some x"
  by (auto simp: EvictPage_def delete_conv' split: option.splits if_splits)

lemma coherent_frame:
  assumes "pool_inv st" and "files (pool st) f = Some a" and "map_of (frames (pool st)) (f, i) = Some page"
  shows "i \<in> pager_live (pagers st a) \<and> Data page = pager_view (pagers st a) i \<and> page_id page = i"
  using assms by (simp add: pool_inv_def coherent_def) fastforce

lemma files_Update [simp]: "files (UpdatePage f page p) = files p"
  by (simp add: UpdatePage_def promote_def push_frame_def Let_def split: option.split)

lemma files_EvictPage [simp]: "files (EvictPage f i p) = files p"
  by (simp add: EvictPage_def split: option.split)

section \<open>The adapter is a full store\<close>

interpretation buf: full_store "buf_store bp" "buf_ok bp" "buf_live bp" "buf_view bp" "buf_room bp" for bp
proof (unfold_locales, goal_cases)
  case (1 s)
  then show ?case using pager.live_nonzero by (auto simp: buf_ok_def buf_live_def pool_inv_def)
next
  case (2 s i)
  then show ?case using pager.view_length by (auto simp: buf_ok_def buf_live_def buf_view_def pool_inv_def)
next
  case (3 s i)
  then show ?case using fetch_live [of s "fid bp" "bpg bp" i]
    by (auto simp: buf_ok_def buf_live_def buf_view_def buf_room_def buf_ReadPage_def)
next
  case (4 s p)
  then have s: "pool_inv s" "files (pool s) (fid bp) = Some (bpg bp)" "pager_inv (pagers s (bpg bp))"
      "page_id p \<in> pager_live (pagers s (bpg bp))"
    by (auto simp: buf_ok_def buf_live_def pool_inv_def)
  obtain pg where pg: "pager_WritePage p (pagers s (bpg bp)) = (Inr (), pg)" "pager_inv pg"
      "pager_live pg = pager_live (pagers s (bpg bp))"
      "\<forall>j\<in>pager_live (pagers s (bpg bp)). pager_view pg j = (if j = page_id p then Data p else pager_view (pagers s (bpg bp)) j)"
      "pager_room (pagers s (bpg bp)) \<le> pager_room pg"
    using pager.write_live [OF s(3) 4(2) s(4)] by auto
  let ?q = "UpdatePage (fid bp) p (pool s)"
  have "coherent ?q ((pagers s)(bpg bp := pg))"
    using s(1,2) by (rule coherent_change)
      (use pg(3,4) s(4) in \<open>auto dest!: frames_Update coherent_frame [OF s(1,2)]\<close>)
  then have "pool_inv (s\<lparr>pool := ?q, pagers := (pagers s)(bpg bp := pg)\<rparr>)"
    using s pg(2) pool_wf_update by (intro pool_inv_change) (auto simp: pool_inv_def)
  then show ?case
    using pg s(2) by (simp add: buf_WritePage_def buf_ok_def buf_live_def buf_view_def buf_room_def)
next
  case (5 s)
  then have s: "pool_inv s" "files (pool s) (fid bp) = Some (bpg bp)" "pager_inv (pagers s (bpg bp))"
      "0 < pager_room (pagers s (bpg bp))"
    by (auto simp: buf_ok_def buf_room_def pool_inv_def)
  obtain i pg where pg: "pager_AllocatePage (pagers s (bpg bp)) = (Inr i, pg)"
      "i \<notin> pager_live (pagers s (bpg bp))" "pager_inv pg"
      "pager_live pg = insert i (pager_live (pagers s (bpg bp)))"
      "\<forall>j\<in>pager_live (pagers s (bpg bp)). pager_view pg j = pager_view (pagers s (bpg bp)) j"
      "pager_room (pagers s (bpg bp)) \<le> Suc (pager_room pg)"
    using pager.alloc_room [OF s(3,4)] by auto
  have "coherent (pool s) ((pagers s)(bpg bp := pg))"
    using s(1,2) by (rule coherent_change) (use pg(4,5) in \<open>auto dest!: coherent_frame [OF s(1,2)]\<close>)
  then have "pool_inv (s\<lparr>pool := pool s, pagers := (pagers s)(bpg bp := pg)\<rparr>)"
    using s pg(3) by (intro pool_inv_change) (auto simp: pool_inv_def)
  then show ?case
    using pg s(2) by (simp add: buf_AllocatePage_def buf_ok_def buf_live_def buf_view_def buf_room_def)
next
  case (6 s i r s')
  then have s: "pool_inv s" "files (pool s) (fid bp) = Some (bpg bp)" "pager_inv (pagers s (bpg bp))"
      "i \<in> pager_live (pagers s (bpg bp))"
    by (auto simp: buf_ok_def buf_live_def pool_inv_def)
  obtain r1 pg where f: "pager_FreePage i (pagers s (bpg bp)) = (r1, pg)" by fastforce
  note l = pager.free_live [OF s(3,4), simplified, OF f]
  let ?q = "EvictPage (fid bp) i (pool s)"
  have "coherent ?q ((pagers s)(bpg bp := pg))"
    using s(1,2) by (rule coherent_change)
      (use l in \<open>auto dest!: frames_EvictPage coherent_frame [OF s(1,2)] split: if_splits\<close>)
  then have "pool_inv (s\<lparr>pool := ?q, pagers := (pagers s)(bpg bp := pg)\<rparr>)"
    using s l pool_wf_EvictPage by (intro pool_inv_change) (auto simp: pool_inv_def)
  moreover have "r = r1" "s' = s\<lparr>pool := ?q, pagers := (pagers s)(bpg bp := pg)\<rparr>"
    using 6(3) f by (simp_all add: buf_FreePage_def)
  ultimately show ?case
    using l s(2) by (simp add: buf_ok_def buf_live_def buf_view_def buf_room_def)
qed

section \<open>Least recently used\<close>

text \<open>The distinct keys of a history, most recent first.\<close>

fun recent :: "'k list \<Rightarrow> 'k list" where
  "recent [] = []"
| "recent (k # h) = k # filter (\<lambda>x. x \<noteq> k) (recent h)"

lemma distinct_recent [simp]: "distinct (recent h)"
  by (induction h) auto

lemma set_recent [simp]: "set (recent h) = set h"
  by (induction h) auto

lemma take_filter_in:
  "distinct xs \<Longrightarrow> k \<in> set (take (Suc n) xs) \<Longrightarrow> take n (filter (\<lambda>x. x \<noteq> k) xs) = remove1 k (take (Suc n) xs)"
proof (induction xs arbitrary: n)
  case (Cons x xs)
  show ?case
  proof (cases "x = k")
    case True
    then have "filter (\<lambda>y. y \<noteq> k) xs = xs" using Cons.prems(1) by (auto simp: filter_id_conv)
    then show ?thesis using True by simp
  next
    case False
    then obtain m where "n = Suc m" using Cons.prems(2) by (cases n) auto
    then show ?thesis using Cons False by auto
  qed
qed simp

lemma take_filter_notin:
  "k \<notin> set (take n xs) \<Longrightarrow> take n (filter (\<lambda>x. x \<noteq> k) xs) = take n xs"
proof (induction xs arbitrary: n)
  case (Cons x xs)
  then show ?case by (cases n) auto
qed simp

lemma lru_step_recent:
  assumes "0 < c" and "xs = take c (recent h)"
  shows "(if k \<in> set xs then k # remove1 k xs else k # (if c \<le> length xs then butlast xs else xs)) =
    take c (recent (k # h))"
proof -
  obtain n where c: "c = Suc n" using assms(1) by (cases c) auto
  show ?thesis
  proof (cases "k \<in> set xs")
    case True
    then show ?thesis using assms(2) c take_filter_in [of "recent h" k n] by simp
  next
    case False
    have "k \<notin> set (take n (recent h))"
    proof
      assume "k \<in> set (take n (recent h))"
      then have "k \<in> set (take (Suc n) (recent h))" using set_take_subset_set_take [of n "Suc n" "recent h"] by auto
      then show False using False assms(2) c by simp
    qed
    then have t: "take n (filter (\<lambda>x. x \<noteq> k) (recent h)) = take n (recent h)" by (rule take_filter_notin)
    have "(if c \<le> length xs then butlast xs else xs) = take n (recent h)"
    proof (cases "c \<le> length (recent h)")
      case True
      then show ?thesis using assms(2) c by (simp add: butlast_take)
    next
      case False
      then show ?thesis using assms(2) c by simp
    qed
    then show ?thesis using False c t by simp
  qed
qed

fun fetches :: "pageKey list \<Rightarrow> BufState \<Rightarrow> BufState" where
  "fetches [] st = st"
| "fetches (k # ks) st = fetches ks (snd (FetchPage (fst k) (snd k) st))"

definition cachable :: "BufState \<Rightarrow> pageKey \<Rightarrow> bool" where
  "cachable st k \<longleftrightarrow> (\<exists>a. files (pool st) (fst k) = Some a \<and> snd k \<in> pager_live (pagers st a))"

lemma FetchPage_lru:
  assumes inv: "pool_inv st" and k: "cachable st (f, i)"
  defines "xs \<equiv> lru (pool st)"
  shows "lru (pool (snd (FetchPage f i st))) =
      (if (f, i) \<in> set xs then (f, i) # remove1 (f, i) xs
       else (f, i) # (if capacity (pool st) \<le> length xs then butlast xs else xs)) \<and>
     capacity (pool (snd (FetchPage f i st))) = capacity (pool st)"
proof -
  let ?p = "(pool st)\<lparr>Misses := Misses (pool st) + 1\<rparr>"
  obtain a where a: "files (pool st) f = Some a" "i \<in> pager_live (pagers st a)" using k by (auto simp: cachable_def)
  have wf: "pool_wf (pool st)" "pool_wf ?p" using inv by (auto simp: pool_inv_def pool_wf_def)
  have "pager_inv (pagers st a)" using inv a(1) by (simp add: pool_inv_def)
  then obtain page where page: "pager_ReadPage i (pagers st a) = (Inr page, pagers st a)"
    using a(2) by (rule pager_read_live)
  have mem: "map_of (frames (pool st)) (f, i) = None \<longleftrightarrow> (f, i) \<notin> set xs"
    using wf(1) by (simp add: xs_def pool_wf_def map_of_eq_None_iff)
  have len: "length (frames (pool st)) = length xs" using pool_wf_lengths [OF wf(1)] by (simp add: xs_def)
  show ?thesis
  proof (cases "map_of (frames (pool st)) (f, i)")
    case (Some q)
    then show ?thesis using mem by (simp add: FetchPage_def promote_def Let_def xs_def)
  next
    case None
    show ?thesis
    proof (cases "capacity (pool st) \<le> length xs")
      case True
      then obtain q where q: "evictOne ?p = (Inr (), q)" "lru q = butlast xs" "files q = files (pool st)"
          "capacity q = capacity (pool st)"
        using pool_wf_evict [OF wf(2)] len by (auto simp: xs_def)
      then show ?thesis
        using None mem len a(1) page True by (simp add: FetchPage_def Let_def push_frame_def)
    next
      case False
      then show ?thesis
        using None mem len a(1) page by (simp add: FetchPage_def Let_def push_frame_def xs_def)
    qed
  qed
qed

lemma fetches_lru:
  assumes "pool_inv st" and "\<forall>k\<in>set ks. cachable st k" and "lru (pool st) = take (capacity (pool st)) (recent h)"
  shows "pool_inv (fetches ks st) \<and> pagers (fetches ks st) = pagers st \<and>
     lru (pool (fetches ks st)) = take (capacity (pool st)) (recent (rev ks @ h))"
  using assms
proof (induction ks arbitrary: st h)
  case (Cons k ks)
  obtain f i where k: "k = (f, i)" by fastforce
  let ?st = "snd (FetchPage f i st)"
  have ck: "cachable st (f, i)" using Cons.prems(2) k by simp
  have s: "pool_inv ?st" "pagers ?st = pagers st" "files (pool ?st) = files (pool st)"
    using fetch_live [OF Cons.prems(1), of f _ i] ck by (auto simp: cachable_def)
  have c: "0 < capacity (pool st)" using Cons.prems(1) by (simp add: pool_inv_def pool_wf_def)
  have "lru (pool ?st) = take (capacity (pool ?st)) (recent (k # h))"
    using FetchPage_lru [OF Cons.prems(1) ck] lru_step_recent [OF c Cons.prems(3), of "(f, i)"]
    unfolding k by (simp only:)
  moreover have "\<forall>k\<in>set ks. cachable ?st k" using Cons.prems(2) s by (simp add: cachable_def)
  ultimately show ?case
    using Cons.IH [of ?st "k # h"] s k FetchPage_lru [OF Cons.prems(1) ck] by simp
qed simp

section \<open>Properties of the buffer pool\<close>


definition example_pool :: BufState where
  "example_pool =
     \<lparr>pool = snd (pool_Register 0 (pool_New 1)), pagers = (\<lambda>_. snd (pager_AllocatePage fresh_pager))\<rparr>"

lemma example_pool_facts:
  "pool_inv example_pool" "files (pool example_pool) 0 = Some 0" "1 \<in> pager_live (pagers example_pool 0)"
  "lru (pool example_pool) = []" "capacity (pool example_pool) = 1"
proof -
  have q: "pager_AllocatePage fresh_pager = (Inr 1, snd (pager_AllocatePage fresh_pager))"
    by (simp add: AllocatePage_grow)
  have "pager_inv (snd (pager_AllocatePage fresh_pager))" "1 \<in> pager_live (snd (pager_AllocatePage fresh_pager))"
    using pager.alloc_room [OF pager_inv_fresh] q by (auto simp: pager_room_def)
  then show "pool_inv example_pool" "1 \<in> pager_live (pagers example_pool 0)"
    by (auto simp: example_pool_def pool_inv_def pool_Register_def pool_New_def pool_wf_def coherent_def Let_def
        split: if_splits)
qed (simp_all add: example_pool_def pool_Register_def pool_New_def Let_def)


text \<open>Write-through: after \<open>WritePage\<close> both the file and the pool give the written data, every other
  page in use is unchanged, and the pool stays coherent.\<close>

lemma pool_write_through:
  assumes "pool_inv st" and "files (pool st) (fid bp) = Some (bpg bp)" and "wf_page p"
    and "page_id p \<in> pager_live (pagers st (bpg bp))"
  shows "\<exists>st' q. buf_WritePage bp p st = (Inr (), st') \<and> pool_inv st' \<and>
     pager_view (pagers st' (bpg bp)) (page_id p) = Data p \<and>
     fst (buf_ReadPage bp (page_id p) st') = Inr q \<and> Data q = Data p \<and>
     (\<forall>j\<in>pager_live (pagers st (bpg bp)) - {page_id p}.
        pager_view (pagers st' (bpg bp)) j = pager_view (pagers st (bpg bp)) j)"
proof -
  have ok: "buf_ok bp st" "page_id p \<in> buf_live bp st" using assms by (simp_all add: buf_ok_def buf_live_def)
  obtain st' where s: "buf_WritePage bp p st = (Inr (), st')" "buf_ok bp st'" "buf_live bp st' = buf_live bp st"
      "\<forall>j\<in>buf_live bp st. buf_view bp st' j = (if j = page_id p then Data p else buf_view bp st j)"
    using buf.write_live [OF ok(1) assms(3) ok(2)] by auto
  have l: "page_id p \<in> buf_live bp st'" using s(3) ok(2) by simp
  obtain q where "fst (buf_ReadPage bp (page_id p) st') = Inr q" "Data q = Data p"
    using buf.read_live [OF s(2) l] s(4) ok(2) by auto
  then show ?thesis using s ok(2) by (auto simp: buf_ok_def buf_view_def buf_live_def)
qed

text \<open>C33: replacement is least-recently-used: after any sequence of reads of pages in use, starting from an
  empty pool, the pool holds exactly the \<open>capacity\<close> most recently read distinct pages, in order of use.\<close>

theorem pool_lru_most_recent:
  assumes "pool_inv st" and "lru (pool st) = []" and "\<forall>k\<in>set ks. cachable st k"
  shows "lru (pool (fetches ks st)) = take (capacity (pool st)) (recent (rev ks)) \<and>
     fst ` set (frames (pool (fetches ks st))) = set (take (capacity (pool st)) (recent (rev ks))) \<and>
     pool_inv (fetches ks st)"
  using fetches_lru [OF assms(1,3), of "[]"] assms(2) by (auto simp: pool_inv_def pool_wf_def)

theorem pool_lru_most_recent_witness:
  "lru (pool (fetches [(0, 1), (0, 1)] example_pool)) = [(0, 1)]"
  using pool_lru_most_recent [of example_pool "[(0, 1), (0, 1)]"] example_pool_facts
  by (simp add: cachable_def)

end
