(* ===== verification/BTreeRefine.thy ===== *)
theory BTreeRefine
  imports BTreeSpec BufferPool
begin

text \<open>
  The B+ tree operations refine the operations on sorted entry lists, over any page
  store: everything here is proved once inside the locale \<open>page_store\<close>. The
  properties about the tree on the transaction pager are instances of it.
\<close>

definition holds_tree :: "u32 set \<Rightarrow> (u32 \<Rightarrow> byte list) \<Rightarrow> bt \<Rightarrow> bool" where
  "holds_tree L V t \<longleftrightarrow> set (ids t) \<subseteq> L \<and> rep V t"

definition header_at :: "(u32 \<Rightarrow> byte list) \<Rightarrow> BTree \<Rightarrow> bool" where
  "header_at V bt \<longleftrightarrow> seg 0 4 (V (headerPage bt)) = le32 headerMagic \<and>
     seg 4 4 (V (headerPage bt)) = le32 (rootID bt)"

text \<open>The pages \<open>L\<close> with contents \<open>V\<close> hold the tree \<open>t\<close> of height \<open>n\<close>, rooted and linked as
  the handle \<open>bt\<close> and its header page say; \<open>btree_rel\<close> abstracts from its shape.\<close>

definition btree_tree :: "u32 set \<Rightarrow> (u32 \<Rightarrow> byte list) \<Rightarrow> nat \<Rightarrow> bt \<Rightarrow> BTree \<Rightarrow> bool" where
  "btree_tree L V n t bt \<longleftrightarrow>
     btwf n 0 (2 ^ 64) t \<and> holds_tree L V t \<and> distinct (ids t) \<and> root_of t = rootID bt \<and>
     (\<exists>a. path a (leaves t) 0) \<and>
     headerPage bt \<in> L \<and> headerPage bt \<notin> set (ids t) \<and> header_at V bt"

definition btree_rel ::
  "u32 set \<Rightarrow> (u32 \<Rightarrow> byte list) \<Rightarrow> nat \<Rightarrow> Entry list \<Rightarrow> BTree \<Rightarrow> bool" where
  "btree_rel L V n es bt \<longleftrightarrow> (\<exists>t. btree_tree L V n t bt \<and> entries t = es)"

lemmas btree_rel_defs = btree_rel_def btree_tree_def

lemma btree_rel_intro:
  assumes "btwf n 0 (2 ^ 64) t" and "holds_tree L V t" and "distinct (ids t)" and "root_of t = rootID bt"
    and "path a (leaves t) 0" and "entries t = es" and "headerPage bt \<in> L"
    and "headerPage bt \<notin> set (ids t)" and "header_at V bt"
  shows "btree_rel L V n es bt"
  unfolding btree_rel_defs using assms by blast

lemma spans_filter: "spans lo hi es \<Longrightarrow> spans lo hi (filter P es)"
  by (simp add: spans_def ascending_filter)

lemma unat_u64_bound: "0 \<le> unat (k :: u64)" "unat k < 2 ^ 64"
  using unsigned_less [of k] by simp_all

lemma holds_tree_mono:
  assumes "holds_tree L V t" and "L \<subseteq> L'" and "\<And>j. j \<in> set (ids t) \<Longrightarrow> W j = V j"
  shows "holds_tree L' W t"
  using assms rep_cong [of t V W] by (auto simp: holds_tree_def)

lemma holds_tree_BNode:
  "holds_tree L V (BNode i ks ts) \<longleftrightarrow>
   i \<in> L \<and> node_at V i ks (map root_of ts) \<and> (\<forall>t\<in>set ts. holds_tree L V t)"
  by (auto simp: holds_tree_def)

lemma holds_tree_BLeaf: "holds_tree L V (BLeaf i es nx) \<longleftrightarrow> i \<in> L \<and> leaf_at V i es nx"
  by (auto simp: holds_tree_def)

lemma leaf_at_cong: "V i = W i \<Longrightarrow> leaf_at V i es nx = leaf_at W i es nx"
  by (simp add: leaf_at_def)

lemma node_at_cong: "V i = W i \<Longrightarrow> node_at V i ks cs = node_at W i ks cs"
  by (simp add: node_at_def)

lemma LeafSearchKey_cases:
  assumes "ascending es" and "LeafSearchKey es key = (i, found)"
  shows "if found then i < length es \<and> Key (es ! i) = key \<and> entry_lookup es key = Some (Value (es ! i))
         else i \<le> length es \<and> (\<forall>e\<in>set (take i es). Key e < key) \<and>
           (\<forall>e\<in>set (drop i es). key < Key e) \<and> entry_lookup es key = None"
proof (cases found)
  case True
  then have f: "i < length es" "Key (es ! i) = key"
    using LeafSearchKey_found [OF ascending_sorted [OF assms(1)]] assms(2) by auto
  then show ?thesis using True entry_lookup_nth [OF assms(1) f(1)] by simp
next
  case False
  then have a: "i \<le> length es" "\<forall>e\<in>set (take i es). Key e < key" "\<forall>e\<in>set (drop i es). key < Key e"
    using LeafSearchKey_absent [OF ascending_sorted [OF assms(1)]] assms(2) by auto
  have "entry_lookup (take i es @ drop i es) key = entry_lookup (drop i es) key"
    using a(2) by (intro entry_lookup_append_right) auto
  moreover have "entry_lookup ([] @ drop i es) key = entry_lookup [] key"
    using a(3) by (intro entry_lookup_append_left) auto
  ultimately show ?thesis using False a by (simp add: entry_lookup_def)
qed

lemma leaf_delete:
  assumes "ascending es" and "i < length es" and "Key (es ! i) = k"
  shows "take i es @ drop (Suc i) es = filter (\<lambda>e. Key e \<noteq> k) es"
proof -
  have es: "es = take i es @ es ! i # drop (Suc i) es" using assms(2) by (rule id_take_nth_drop)
  then have "ascending (take i es @ es ! i # drop (Suc i) es)" using assms(1) by simp
  then have "\<forall>x\<in>set (take i es). Key x \<noteq> k" "\<forall>x\<in>set (drop (Suc i) es). Key x \<noteq> k"
    using assms(3) unfolding ascending_simps by (auto simp del: append_take_drop_id)
  then show ?thesis by (subst (3) es) (simp add: assms(3) del: append_take_drop_id)
qed

text \<open>What an operation does to the entries of a node it does to those of the child the key
  leads to.\<close>

lemma entry_lookup_mid:
  assumes "\<forall>e\<in>set as. Key e < k" and "\<forall>e\<in>set bs. k < Key e"
  shows "entry_lookup (as @ es @ bs) k = entry_lookup es k"
  using entry_lookup_append_right [of as k "es @ bs"] entry_lookup_append_left [of bs k es] assms
  by force

lemma ins_entry_mid:
  assumes "\<forall>e\<in>set as. Key e < k" and "\<forall>e\<in>set bs. k < Key e"
  shows "ins_entry k v (as @ es @ bs) = as @ ins_entry k v es @ bs"
  using assms by (simp add: ins_entry_append_left ins_entry_append_right)

lemma filter_mid:
  assumes "\<forall>e\<in>set as. Key e < k" and "\<forall>e\<in>set bs. k < Key e"
  shows "filter (\<lambda>e. Key e \<noteq> k) (as @ es @ bs) = as @ filter (\<lambda>e. Key e \<noteq> k) es @ bs"
proof -
  have "filter (\<lambda>e. Key e \<noteq> k) as = as" "filter (\<lambda>e. Key e \<noteq> k) bs = bs"
    using assms by (auto simp: filter_id_conv)
  then show ?thesis by simp
qed

section \<open>Reading\<close>

context page_store
begin

definition same_store :: "'s \<Rightarrow> 's \<Rightarrow> bool" where
  "same_store s s' \<longleftrightarrow>
     ok s' \<and> live s' = live s \<and> (\<forall>j\<in>live s. view s' j = view s j) \<and> room s \<le> room s'"

lemma same_store_trans: "same_store s t \<Longrightarrow> same_store t u \<Longrightarrow> same_store s u"
  by (auto simp: same_store_def)

lemma same_store_holds:
  "same_store s s' \<Longrightarrow> holds_tree (live s) (view s) t \<Longrightarrow> holds_tree (live s') (view s') t"
  using holds_tree_mono [of "live s" "view s" t "live s'" "view s'"]
  by (auto simp: same_store_def holds_tree_def)

lemma read_leaf:
  assumes "ok s" and "holds_tree (live s) (view s) (BLeaf i es nx)"
  obtains p s' where "ReadPage ps i s = (Inr p, s')" and "PageNodeType p = NodeTypeLeaf"
    and "DecodeLeaf p = Inr \<lparr>LeafPageID = i, Entries = es, NextLeaf = nx\<rparr>" and "same_store s s'"
proof -
  have i: "i \<in> live s" "leaf_at (view s) i es nx" using assms(2) by (simp_all add: holds_tree_BLeaf)
  show ?thesis using read_live [OF assms(1) i(1)] leaf_at_page [OF i(2)] that
    by (auto simp: same_store_def)
qed

lemma read_node:
  assumes "ok s" and "holds_tree (live s) (view s) (BNode i ks ts)"
  obtains p s' where "ReadPage ps i s = (Inr p, s')" and "PageNodeType p = NodeTypeInternal"
    and "DecodeInternal p = Inr \<lparr>InternalPageID = i, Keys = ks, Children = map root_of ts\<rparr>"
    and "same_store s s'"
proof -
  have i: "i \<in> live s" "node_at (view s) i ks (map root_of ts)"
    using assms(2) by (simp_all add: holds_tree_BNode)
  show ?thesis using read_live [OF assms(1) i(1)] node_at_page [OF i(2)] that
    by (auto simp: same_store_def)
qed

text \<open>One step of a descent: the page of an internal node is read, and the child the key
  leads to is a tree within the bounds of the key.\<close>

lemma descend:
  assumes "btwf (Suc n) lo hi (BNode i ks ts)" and "ok s"
    and "holds_tree (live s) (view s) (BNode i ks ts)" and "lo \<le> unat key" and "unat key < hi"
  obtains p s' t1 t t2 where "ReadPage ps i s = (Inr p, s')" and "PageNodeType p = NodeTypeInternal"
    and "DecodeInternal p = Inr \<lparr>InternalPageID = i, Keys = ks, Children = map root_of ts\<rparr>"
    and "same_store s s'" and "holds_tree (live s') (view s') t"
    and "ts = t1 @ t # t2" and "length t1 = FindChildIndex ks key"
    and "map root_of ts ! FindChildIndex ks key = root_of t"
    and "btwf n (last_bound lo (take (length t1) ks)) (next_bound hi (drop (length t1) ks)) t"
    and "last_bound lo (take (length t1) ks) \<le> unat key"
    and "unat key < next_bound hi (drop (length t1) ks)"
    and "\<forall>e\<in>set (forest_entries t1). Key e < key" and "\<forall>e\<in>set (forest_entries t2). key < Key e"
    and "wf_pre (btwf n) lo (take (length t1) ks) t1" and "wf_suf (btwf n) hi (drop (length t1) ks) t2"
    and "length t1 \<le> length ks"
proof -
  obtain p s' where p: "ReadPage ps i s = (Inr p, s')" "PageNodeType p = NodeTypeInternal"
      "DecodeInternal p = Inr \<lparr>InternalPageID = i, Keys = ks, Children = map root_of ts\<rparr>"
      "same_store s s'"
    using read_node [OF assms(2,3)] .
  obtain t1 t t2 where t: "ts = t1 @ t # t2" "length t1 = FindChildIndex ks key"
      "btwf n (last_bound lo (take (length t1) ks)) (next_bound hi (drop (length t1) ks)) t"
      "last_bound lo (take (length t1) ks) \<le> unat key"
      "unat key < next_bound hi (drop (length t1) ks)"
      "\<forall>e\<in>set (forest_entries t1). Key e < key" "\<forall>e\<in>set (forest_entries t2). key < Key e"
      "wf_pre (btwf n) lo (take (length t1) ks) t1" "wf_suf (btwf n) hi (drop (length t1) ks) t2"
      "length t1 \<le> length ks"
    using route [OF assms(1,4,5)] by metis
  have "holds_tree (live s') (view s') t"
    using same_store_holds [OF p(4), of t] assms(3) t(1) by (simp add: holds_tree_BNode)
  moreover have "map root_of ts ! FindChildIndex ks key = root_of t"
    using t(1) by (simp add: nth_append flip: t(2))
  ultimately show ?thesis using that p t by blast
qed

lemma search_loop_spec:
  assumes "btwf n lo hi t" and "ok s" and "holds_tree (live s) (view s) t"
    and "lo \<le> unat key" and "unat key < hi" and "n < fuel"
  shows "\<exists>s'. search_loop ps fuel (root_of t) key s =
      (Inr (case entry_lookup (entries t) key of
              None \<Rightarrow> (replicate ValueSize 0, False) | Some v \<Rightarrow> (v, True)), s') \<and> same_store s s'"
  using assms
proof (induction n arbitrary: lo hi t s fuel)
  case 0
  then obtain i es nx where t: "t = BLeaf i es nx" "ascending es" by (cases t) (auto simp: spans_def)
  obtain f where f: "fuel = Suc f" using 0 by (cases fuel) auto
  obtain p s' where p: "ReadPage ps i s = (Inr p, s')" "PageNodeType p = NodeTypeLeaf"
      "DecodeLeaf p = Inr \<lparr>LeafPageID = i, Entries = es, NextLeaf = nx\<rparr>" "same_store s s'"
    using read_leaf 0(2,3) unfolding t by blast
  obtain j found where j: "LeafSearchKey es key = (j, found)" by fastforce
  show ?case using LeafSearchKey_cases [OF t(2) j] p j by (cases found) (simp_all add: t f)
next
  case (Suc n)
  then obtain i ks ts where t: "t = BNode i ks ts" by (cases t) auto
  obtain f where f: "fuel = Suc f" "n < f" using Suc.prems(6) by (cases fuel) auto
  obtain p s' t1 u t2 where d: "ReadPage ps i s = (Inr p, s')" "PageNodeType p = NodeTypeInternal"
      "DecodeInternal p = Inr \<lparr>InternalPageID = i, Keys = ks, Children = map root_of ts\<rparr>"
      "same_store s s'" "holds_tree (live s') (view s') u"
      "ts = t1 @ u # t2" "length t1 = FindChildIndex ks key" "map root_of ts ! FindChildIndex ks key = root_of u"
      "btwf n (last_bound lo (take (length t1) ks)) (next_bound hi (drop (length t1) ks)) u"
      "last_bound lo (take (length t1) ks) \<le> unat key"
      "unat key < next_bound hi (drop (length t1) ks)"
      "\<forall>e\<in>set (forest_entries t1). Key e < key" "\<forall>e\<in>set (forest_entries t2). key < Key e"
      "wf_pre (btwf n) lo (take (length t1) ks) t1" "wf_suf (btwf n) hi (drop (length t1) ks) t2"
      "length t1 \<le> length ks"
    by (rule descend [OF Suc.prems(1-5) [unfolded t]])
  have "entry_lookup (entries t) key = entry_lookup (entries u) key"
    using entry_lookup_mid [OF d(12,13)] by (simp add: t d(6))
  moreover obtain s'' where "search_loop ps f (root_of u) key s' =
      (Inr (case entry_lookup (entries u) key of
              None \<Rightarrow> (replicate ValueSize 0, False) | Some v \<Rightarrow> (v, True)), s'')" "same_store s' s''"
    using Suc.IH [OF d(9) _ d(5,10,11) f(2)] d(4) by (auto simp: same_store_def)
  ultimately show ?case using d(1-4,8) same_store_trans by (simp add: t f(1))
qed

end

section \<open>Writing nodes\<close>

text \<open>
  \<open>evolved\<close> describes the effect of an insertion on a subtree \<open>t\<close>: in its place there is
  now a sequence \<open>ts\<close> of trees of height \<open>n\<close> with separators \<open>ks\<close>, made of the pages of
  \<open>t\<close> and of new pages. \<open>grown\<close> adds that the first of them is still reached through the
  page of \<open>t\<close>; \<open>split_of\<close> says that the answer \<open>r\<close> reports the second tree.
\<close>

definition split_of :: "splitResult option \<Rightarrow> u64 list \<Rightarrow> bt list \<Rightarrow> bool" where
  "split_of r ks ts \<longleftrightarrow>
     (case r of None \<Rightarrow> ks = [] \<and> length ts = 1
      | Some sp \<Rightarrow> ks = [separatorKey sp] \<and> length ts = 2 \<and> root_of (ts ! 1) = rightChildID sp)"

context page_store
begin

definition evolved ::
  "'s \<Rightarrow> 's \<Rightarrow> bt \<Rightarrow> u64 \<Rightarrow> byte list \<Rightarrow> nat \<Rightarrow> nat \<Rightarrow> nat \<Rightarrow> u64 list \<Rightarrow> bt list \<Rightarrow> bool" where
  "evolved s s' t k v n lo hi ks ts \<longleftrightarrow>
     (ok s' \<and> live s \<subseteq> live s' \<and> (\<forall>j\<in>live s - set (ids t). view s' j = view s j) \<and>
      room s \<le> room s' + Suc n) \<and>
     (wf_seq (btwf n) lo hi ks ts \<and> (\<forall>u\<in>set ts. holds_tree (live s') (view s') u) \<and>
      distinct (concat (map ids ts)) \<and>
      set (concat (map ids ts)) \<subseteq> set (ids t) \<union> (live s' - live s)) \<and>
     (forest_entries ts = ins_entry k v (entries t) \<and>
      (\<forall>a b. path a (leaves t) b \<longrightarrow> path a (concat (map leaves ts)) b))"

definition grown ::
  "'s \<Rightarrow> 's \<Rightarrow> bt \<Rightarrow> u64 \<Rightarrow> byte list \<Rightarrow> nat \<Rightarrow> nat \<Rightarrow> nat \<Rightarrow> u64 list \<Rightarrow> bt list \<Rightarrow> bool" where
  "grown s s' t k v n lo hi ks ts \<longleftrightarrow>
     evolved s s' t k v n lo hi ks ts \<and> root_of (hd ts) = root_of t"

lemma write_leaf:
  assumes "ok s" and "i \<in> live s" and "length es \<le> LeafOrder" and "wf_entries es"
  obtains p s' where "EncodeLeaf \<lparr>LeafPageID = i, Entries = es, NextLeaf = nx\<rparr> = Inr p"
    and "WritePage ps p s = (Inr (), s')" and "ok s'" and "live s' = live s"
    and "leaf_at (view s') i es nx" and "\<forall>j\<in>live s - {i}. view s' j = view s j"
    and "room s \<le> room s'"
proof -
  obtain p where p: "EncodeLeaf \<lparr>LeafPageID = i, Entries = es, NextLeaf = nx\<rparr> = Inr p"
      "wf_page p" "page_id p = i" "\<forall>V. V i = Data p \<longrightarrow> leaf_at V i es nx"
    by (rule EncodeLeaf_at [OF assms(3,4), where i = i and nx = nx])
  obtain s' where "WritePage ps p s = (Inr (), s')" "ok s'" "live s' = live s" "room s \<le> room s'"
      "\<forall>j\<in>live s. view s' j = (if j = i then Data p else view s j)"
    using write_live [OF assms(1) p(2)] assms(2) p(3) by auto
  then show ?thesis using that p assms(2) by simp
qed

lemma write_node:
  assumes "ok s" and "i \<in> live s" and "length ks \<le> InternalOrder" and "length cs = length ks + 1"
  obtains p s' where "EncodeInternal \<lparr>InternalPageID = i, Keys = ks, Children = cs\<rparr> = Inr p"
    and "WritePage ps p s = (Inr (), s')" and "ok s'" and "live s' = live s"
    and "node_at (view s') i ks cs" and "\<forall>j\<in>live s - {i}. view s' j = view s j"
    and "room s \<le> room s'"
proof -
  obtain p where p: "EncodeInternal \<lparr>InternalPageID = i, Keys = ks, Children = cs\<rparr> = Inr p"
      "wf_page p" "page_id p = i" "\<forall>V. V i = Data p \<longrightarrow> node_at V i ks cs"
    by (rule EncodeInternal_at [OF assms(3,4), where i = i])
  obtain s' where "WritePage ps p s = (Inr (), s')" "ok s'" "live s' = live s" "room s \<le> room s'"
      "\<forall>j\<in>live s. view s' j = (if j = i then Data p else view s j)"
    using write_live [OF assms(1) p(2)] assms(2) p(3) by auto
  then show ?thesis using that p assms(2) by simp
qed

lemma splitLeaf_spec:
  assumes ok: "ok s" "i \<in> live s" "0 < room s" and es: "spans lo hi es" "wf_entries es"
    and len: "LeafOrder < length es" "length es \<le> LeafOrder + 1"
    and new: "es = ins_entry k v es0"
  shows "\<exists>sp s' ks ts. splitLeaf ps \<lparr>LeafPageID = i, Entries = es, NextLeaf = nx\<rparr> s = (Inr (Some sp), s') \<and>
     grown s s' (BLeaf i es0 nx) k v 0 lo hi ks ts \<and> split_of (Some sp) ks ts"
proof -
  let ?m = "length es div 2"
  obtain r s1 where r: "AllocatePage ps s = (Inr r, s1)" "r \<notin> live s" "ok s1"
      "live s1 = insert r (live s)" "\<forall>j\<in>live s. view s1 j = view s j" "room s \<le> Suc (room s1)"
    using alloc_room [OF ok(1,3)] by blast
  have m: "0 < ?m" "?m < length es" using len by (simp_all add: LeafOrder_val)
  have half: "?m \<le> LeafOrder" "length es - ?m \<le> LeafOrder"
    using len unfolding LeafOrder_val by linarith+
  obtain rp s2 where R: "EncodeLeaf \<lparr>LeafPageID = r, Entries = drop ?m es, NextLeaf = nx\<rparr> = Inr rp"
      "WritePage ps rp s1 = (Inr (), s2)" "ok s2" "live s2 = live s1"
      "leaf_at (view s2) r (drop ?m es) nx" "\<forall>j\<in>live s1 - {r}. view s2 j = view s1 j"
      "room s1 \<le> room s2"
    by (rule write_leaf [OF r(3), of r "drop ?m es" nx])
      (use r(4) half es(2) in \<open>simp_all add: wf_entries_take_drop\<close>)
  obtain lp s3 where L: "EncodeLeaf \<lparr>LeafPageID = i, Entries = take ?m es, NextLeaf = r\<rparr> = Inr lp"
      "WritePage ps lp s2 = (Inr (), s3)" "ok s3" "live s3 = live s2"
      "leaf_at (view s3) i (take ?m es) r" "\<forall>j\<in>live s2 - {i}. view s3 j = view s2 j"
      "room s2 \<le> room s3"
    by (rule write_leaf [OF R(3), of i "take ?m es" r])
      (use ok(2) r(4) R(4) half es(2) in \<open>simp_all add: wf_entries_take_drop\<close>)
  let ?sp = "\<lparr>separatorKey = Key (es ! ?m), rightChildID = r\<rparr>"
  let ?ts = "[BLeaf i (take ?m es) r, BLeaf r (drop ?m es) nx]"
  have run: "splitLeaf ps \<lparr>LeafPageID = i, Entries = es, NextLeaf = nx\<rparr> s = (Inr (Some ?sp), s3)"
    using r(1) R(1,2) L(1,2) m(2) by (simp add: splitLeaf_def Let_def)
  have "r \<noteq> i" using r(2) ok(2) by blast
  then have "leaf_at (view s3) r (drop ?m es) nx"
    using R(4,5) L(6) r(4) leaf_at_cong [of "view s3" r "view s2"] by simp
  moreover have "\<forall>j\<in>live s - {i}. view s3 j = view s j"
    using r(2,4,5) R(4,6) L(6) by auto
  moreover have "wf_seq (btwf 0) lo hi [Key (es ! ?m)] ?ts"
    using spans_cut [OF es(1) m] es(2) half by (simp add: wf_entries_take_drop)
  ultimately have "grown s s3 (BLeaf i es0 nx) k v 0 lo hi [Key (es ! ?m)] ?ts"
    using L(3-5,7) R(4,7) r(2,4,6) ok(2) \<open>r \<noteq> i\<close> new
    by (auto simp: grown_def evolved_def holds_tree_BLeaf)
  then show ?thesis using run by (force simp: split_of_def)
qed

lemma leaf_rewritten:
  assumes "ok s" and "i \<in> live s" and "btwf 0 lo hi (BLeaf i (ins_entry k v es) nx)"
  obtains p s' where "EncodeLeaf \<lparr>LeafPageID = i, Entries = ins_entry k v es, NextLeaf = nx\<rparr> = Inr p"
    and "WritePage ps p s = (Inr (), s')"
    and "grown s s' (BLeaf i es nx) k v 0 lo hi [] [BLeaf i (ins_entry k v es) nx]"
proof -
  have "length (ins_entry k v es) \<le> LeafOrder" "wf_entries (ins_entry k v es)"
    using assms(3) by simp_all
  then obtain p s' where
      p: "EncodeLeaf \<lparr>LeafPageID = i, Entries = ins_entry k v es, NextLeaf = nx\<rparr> = Inr p"
      "WritePage ps p s = (Inr (), s')" "ok s'" "live s' = live s"
      "leaf_at (view s') i (ins_entry k v es) nx" "\<forall>j\<in>live s - {i}. view s' j = view s j"
      "room s \<le> room s'"
    by (rule write_leaf [OF assms(1,2), where nx = nx])
  then have "grown s s' (BLeaf i es nx) k v 0 lo hi [] [BLeaf i (ins_entry k v es) nx]"
    using assms(2,3) by (simp add: grown_def evolved_def holds_tree_BLeaf)
  then show ?thesis using that p by blast
qed

lemma insertLeaf_spec:
  assumes ok: "ok s" "i \<in> live s" "0 < room s" and wf: "btwf 0 lo hi (BLeaf i es nx)"
    and p: "DecodeLeaf p = Inr \<lparr>LeafPageID = i, Entries = es, NextLeaf = nx\<rparr>"
    and k: "lo \<le> unat k" "unat k < hi" and v: "length v = ValueSize"
  shows "\<exists>r s' ks ts. insertLeaf ps p k v s = (Inr r, s') \<and>
     grown s s' (BLeaf i es nx) k v 0 lo hi ks ts \<and> split_of r ks ts"
proof -
  obtain pos found where f: "LeafSearchKey es k = (pos, found)" by fastforce
  let ?es = "ins_entry k v es"
  have es: "ascending es" "spans lo hi ?es" "wf_entries ?es"
    using wf v k by (auto simp: spans_ins_entry wf_entries_ins_entry) (simp add: spans_def)
  note search = LeafSearchKey_cases [OF es(1) f]
  show ?thesis
  proof (cases "length ?es \<le> LeafOrder")
    case True
    obtain q s' where q: "EncodeLeaf \<lparr>LeafPageID = i, Entries = ?es, NextLeaf = nx\<rparr> = Inr q"
        "WritePage ps q s = (Inr (), s')" "grown s s' (BLeaf i es nx) k v 0 lo hi [] [BLeaf i ?es nx]"
      by (rule leaf_rewritten [OF ok(1,2), of lo hi k v es nx]) (use es True in simp_all)
    have "insertLeaf ps p k v s = (Inr None, s')"
    proof (cases found)
      case True
      then have "es[pos := (es ! pos)\<lparr>Value := v\<rparr>] = ?es" using search es(1) ins_entry_found by simp
      then show ?thesis using q True p f by (simp add: insertLeaf_def)
    next
      case False
      then have "insert_at pos \<lparr>Key = 0, Value = replicate ValueSize 0\<rparr> \<lparr>Key = k, Value = v\<rparr> es = ?es"
        using search by (simp add: insert_at_eq ins_entry_absent)
      then show ?thesis using q False p f \<open>length ?es \<le> LeafOrder\<close> by (simp add: insertLeaf_def)
    qed
    then show ?thesis using q(3) by (force simp: split_of_def)
  next
    case False
    have nf: "\<not> found"
    proof
      assume found
      then have "es[pos := (es ! pos)\<lparr>Value := v\<rparr>] = ?es" using search es(1) ins_entry_found by simp
      then have "length ?es = length es" by (metis length_list_update)
      then show False using False wf by simp
    qed
    then have at: "insert_at pos \<lparr>Key = 0, Value = replicate ValueSize 0\<rparr> \<lparr>Key = k, Value = v\<rparr> es = ?es"
        "take pos es @ \<lparr>Key = k, Value = v\<rparr> # drop pos es = ?es"
      using search by (simp_all add: insert_at_eq ins_entry_absent)
    have "length ?es = length es + 1" by (subst at(2) [symmetric]) simp
    then have "\<exists>sp s' ks ts. splitLeaf ps \<lparr>LeafPageID = i, Entries = ?es, NextLeaf = nx\<rparr> s =
        (Inr (Some sp), s') \<and> grown s s' (BLeaf i es nx) k v 0 lo hi ks ts \<and> split_of (Some sp) ks ts"
      using False wf es by (intro splitLeaf_spec ok) auto
    then show ?thesis using nf p f at(1) False by (auto simp: insertLeaf_def)
  qed
qed

section \<open>Insertion into internal nodes\<close>

lemma siblings_kept:
  assumes t: "t = BNode i ks (t1 @ u # t2)" and holds: "holds_tree (live s) (view s) t"
    and dist: "distinct (ids t)" and s': "live s \<subseteq> live s'"
    and frame: "\<forall>j\<in>live s - set (ids u). view s' j = view s j"
  shows "x \<in> set t1 \<union> set t2 \<Longrightarrow> holds_tree (live s') (view s') x"
    and "node_at (view s') i ks (map root_of (t1 @ u # t2))"
proof -
  have "i \<in> live s - set (ids u)" "node_at (view s) i ks (map root_of (t1 @ u # t2))"
    using holds dist by (auto simp: t holds_tree_BNode)
  then show "node_at (view s') i ks (map root_of (t1 @ u # t2))"
    using frame node_at_cong [of "view s'" i "view s"] by blast
  assume x: "x \<in> set t1 \<union> set t2"
  have hx: "holds_tree (live s) (view s) x" using holds x by (auto simp: t holds_tree_BNode)
  have "set (ids x) \<subseteq> live s - set (ids u)"
    using hx x dist by (auto simp: t holds_tree_def)
  then show "holds_tree (live s') (view s') x"
    using holds_tree_mono [OF hx s'] frame by blast
qed

text \<open>The insertion into one child, seen from the node.\<close>

lemma evolved_child:
  assumes t: "t = BNode i ks (t1 @ u # t2)" and holds: "holds_tree (live s) (view s) t"
    and dist: "distinct (ids t)" and k1: "length t1 \<le> length ks"
    and pre: "wf_pre (btwf n) lo (take (length t1) ks) t1"
    and suf: "wf_suf (btwf n) hi (drop (length t1) ks) t2"
    and lt: "\<forall>e\<in>set (forest_entries t1). Key e < k" "\<forall>e\<in>set (forest_entries t2). k < Key e"
    and g: "grown s s' u k v n (last_bound lo (take (length t1) ks)) (next_bound hi (drop (length t1) ks)) ks' ts'"
  shows "evolved s s' t k v n lo hi (take (length t1) ks @ ks' @ drop (length t1) ks) (t1 @ ts' @ t2)"
    and "i \<notin> set (concat (map ids (t1 @ ts' @ t2)))"
    and "node_at (view s') i ks (map root_of (t1 @ u # t2))"
proof -
  have iu: "i \<in> live s" "i \<notin> set (ids u)"
    and sub: "set (ids u) \<subseteq> set (ids t)" "set (ids t) \<subseteq> live s"
    using holds dist by (auto simp: t holds_tree_BNode holds_tree_def)
  have e: "ok s'" "live s \<subseteq> live s'" "\<forall>j\<in>live s - set (ids u). view s' j = view s j"
      "room s \<le> room s' + Suc n" "\<forall>x\<in>set ts'. holds_tree (live s') (view s') x"
      "distinct (concat (map ids ts'))" "set (concat (map ids ts')) \<subseteq> set (ids u) \<union> (live s' - live s)"
      "forest_entries ts' = ins_entry k v (entries u)"
      "\<forall>a b. path a (leaves u) b \<longrightarrow> path a (concat (map leaves ts')) b"
    using g by (auto simp: grown_def evolved_def)
  have rest: "set (concat (map ids t1)) \<subseteq> live s - set (ids u)" "set (concat (map ids t2)) \<subseteq> live s - set (ids u)"
    using dist sub(2) by (auto simp: t)
  note kept = siblings_kept [OF t holds dist e(2,3)]
  have "distinct (concat (map ids t1))" "distinct (concat (map ids t2))"
      "set (concat (map ids t1)) \<inter> set (concat (map ids t2)) = {}"
    using dist by (auto simp: t)
  then have "distinct (concat (map ids (t1 @ ts' @ t2)))"
    using e(6,7) rest unfolding map_append concat_append distinct_append set_append by blast
  moreover have "wf_seq (btwf n) lo hi (take (length t1) ks @ ks' @ drop (length t1) ks) (t1 @ ts' @ t2)"
    using g by (intro wf_seq_plug pre suf) (simp add: grown_def evolved_def)
  moreover have "forest_entries (t1 @ ts' @ t2) = ins_entry k v (entries t)"
    using ins_entry_mid [OF lt] e(8) by (simp add: t)
  moreover have "\<forall>a b. path a (leaves t) b \<longrightarrow> path a (concat (map leaves (t1 @ ts' @ t2))) b"
    using e(9) by (simp add: t path_append) blast
  moreover have "set (concat (map ids (t1 @ ts' @ t2))) \<subseteq> set (ids t) \<union> (live s' - live s)"
    using e(7) sub(1) by (auto simp: t)
  moreover have "\<forall>j\<in>live s - set (ids t). view s' j = view s j" using e(3) sub(1) by blast
  ultimately show "evolved s s' t k v n lo hi (take (length t1) ks @ ks' @ drop (length t1) ks) (t1 @ ts' @ t2)"
    using e(1,2,4,5) kept(1) unfolding evolved_def by auto
  show "i \<notin> set (concat (map ids (t1 @ ts' @ t2)))" using e(7) iu(1,2) dist by (auto simp: t)
  show "node_at (view s') i ks (map root_of (t1 @ u # t2))" by (rule kept(2))
qed

lemma evolved_kids_kept:
  assumes "evolved s s1 t k v n lo hi ks ts" and "i \<notin> set (concat (map ids ts))"
    and "live s1 \<subseteq> live s2" and "\<forall>j\<in>live s1 - {i}. view s2 j = view s1 j" and "x \<in> set ts"
  shows "holds_tree (live s2) (view s2) x"
proof (rule holds_tree_mono [OF _ assms(3)])
  show "holds_tree (live s1) (view s1) x" using assms(1,5) by (simp add: evolved_def)
  then show "view s2 j = view s1 j" if "j \<in> set (ids x)" for j
    using assms(2,4,5) that by (auto simp: holds_tree_def)
qed

lemma evolved_frame:
  assumes "evolved s s1 t k v n lo hi ks ts" and "i \<in> set (ids t)"
    and "\<forall>j\<in>live s1 - {i}. view s2 j = view s1 j"
  shows "\<forall>j\<in>live s - set (ids t). view s2 j = view s j"
proof
  fix j assume "j \<in> live s - set (ids t)"
  then have "view s1 j = view s j" "j \<in> live s1 - {i}" using assms(1,2) by (auto simp: evolved_def)
  then show "view s2 j = view s j" using assms(3) by simp
qed

text \<open>The node itself is written again, or stays as it is when nothing was split.\<close>

lemma grown_same_node:
  assumes ev: "evolved s s1 t k v n lo hi ks ts" and i: "i = root_of t" "i \<notin> set (concat (map ids ts))"
    and t: "i \<in> live s" "i \<in> set (ids t)" and len: "length ks \<le> InternalOrder"
    and s2: "ok s2" "live s2 = live s1" "node_at (view s2) i ks (map root_of ts)"
      "\<forall>j\<in>live s1 - {i}. view s2 j = view s1 j" "room s1 \<le> room s2"
  shows "grown s s2 t k v (Suc n) lo hi [] [BNode i ks ts]"
proof -
  have "i \<in> live s2" using t(1) s2(2) ev by (auto simp: evolved_def)
  then have "holds_tree (live s2) (view s2) (BNode i ks ts)"
    using s2(2,3) evolved_kids_kept [OF ev i(2) _ s2(4)] by (simp add: holds_tree_BNode)
  then show ?thesis
    using ev i t len s2(1,2,5) evolved_frame [OF ev t(2) s2(4)] by (auto simp: grown_def evolved_def)
qed

lemma grown_split_node:
  assumes ev: "evolved s s1 t k v n lo hi (ka @ sep # kb) (ta @ tb)"
    and ta: "length ta = length ka + 1" and len: "length ka \<le> InternalOrder" "length kb \<le> InternalOrder"
    and i: "i = root_of t" "i \<notin> set (concat (map ids (ta @ tb)))" "i \<in> live s" "i \<in> set (ids t)"
    and s2: "ok s2" "r \<notin> live s1" "live s2 = insert r (live s1)"
      "node_at (view s2) i ka (map root_of ta)" "node_at (view s2) r kb (map root_of tb)"
      "\<forall>j\<in>live s1 - {i}. view s2 j = view s1 j" "room s1 \<le> Suc (room s2)"
  shows "grown s s2 t k v (Suc n) lo hi [sep] [BNode i ka ta, BNode r kb tb]"
proof -
  have l: "live s1 \<subseteq> live s2" using s2(3) by blast
  note kept = evolved_kids_kept [OF ev i(2) l s2(6)]
  have "\<forall>x\<in>set (ta @ tb). set (ids x) \<subseteq> live s1"
    using ev by (simp add: evolved_def holds_tree_def)
  then have ids: "set (concat (map ids (ta @ tb))) \<subseteq> live s1" by auto
  have il: "i \<in> live s1" using i(3) ev by (auto simp: evolved_def)
  have "holds_tree (live s2) (view s2) (BNode i ka ta)" "holds_tree (live s2) (view s2) (BNode r kb tb)"
    using kept s2(3-5) il by (simp_all add: holds_tree_BNode)
  moreover have "distinct (concat (map ids (ta @ tb)))" using ev by (simp only: evolved_def)
  then have "distinct (concat (map ids [BNode i ka ta, BNode r kb tb]))"
    using i(2) ids il s2(2) by auto
  moreover have "wf_seq (btwf (Suc n)) lo hi [sep] [BNode i ka ta, BNode r kb tb]"
    using ev ta len by (simp add: evolved_def wf_seq_cut)
  moreover have "set (concat (map ids [BNode i ka ta, BNode r kb tb])) \<subseteq> set (ids t) \<union> (live s2 - live s)"
    using ev i(4) s2(2,3) by (auto simp: evolved_def)
  moreover have "live s \<subseteq> live s2" using ev l by (auto simp: evolved_def)
  ultimately show ?thesis
    using ev i(1) s2(1,7) evolved_frame [OF ev i(4) s2(6)] by (simp add: grown_def evolved_def)
qed

lemma splitInternal_spec:
  assumes ev: "evolved s s1 t k v n lo hi ks ts" and len: "length ks = InternalOrder + 1"
    and i: "i = root_of t" "i \<notin> set (concat (map ids ts))" "i \<in> live s" "i \<in> set (ids t)"
    and room: "0 < room s1"
  shows "\<exists>sp s' ks' ts'. splitInternal ps \<lparr>InternalPageID = i, Keys = ks, Children = map root_of ts\<rparr> s1 =
     (Inr (Some sp), s') \<and> grown s s' t k v (Suc n) lo hi ks' ts' \<and> split_of (Some sp) ks' ts'"
proof -
  let ?m = "length ks div 2"
  let ?ka = "take ?m ks" and ?kb = "drop (?m + 1) ks" and ?ta = "take (?m + 1) ts" and ?tb = "drop (?m + 1) ts"
  have ok1: "ok s1" and lts: "length ts = length ks + 1"
    using ev wf_seq_length by (auto simp: evolved_def)
  have m: "?m < length ks" "length ?ka \<le> InternalOrder" "length ?kb \<le> InternalOrder"
      "length ?ta = length ?ka + 1" "length ?tb = length ?kb + 1"
    using len lts by (simp_all add: InternalOrder_def)
  have ks: "ks = ?ka @ ks ! ?m # ?kb" using id_take_nth_drop [OF m(1)] by simp
  have ev': "evolved s s1 t k v n lo hi (?ka @ ks ! ?m # ?kb) (?ta @ ?tb)"
    using ev ks by simp
  obtain r s2 where r: "AllocatePage ps s1 = (Inr r, s2)" "r \<notin> live s1" "ok s2"
      "live s2 = insert r (live s1)" "\<forall>j\<in>live s1. view s2 j = view s1 j" "room s1 \<le> Suc (room s2)"
    using alloc_room [OF ok1 room] by blast
  have il: "i \<in> live s1" using i(3) ev by (auto simp: evolved_def)
  obtain rp s3 where R: "EncodeInternal \<lparr>InternalPageID = r, Keys = ?kb, Children = map root_of ?tb\<rparr> = Inr rp"
      "WritePage ps rp s2 = (Inr (), s3)" "ok s3" "live s3 = live s2"
      "node_at (view s3) r ?kb (map root_of ?tb)" "\<forall>j\<in>live s2 - {r}. view s3 j = view s2 j"
      "room s2 \<le> room s3"
    by (rule write_node [OF r(3), of r ?kb "map root_of ?tb"]) (use r(4) m(3,5) in simp_all)
  obtain lp s4 where L: "EncodeInternal \<lparr>InternalPageID = i, Keys = ?ka, Children = map root_of ?ta\<rparr> = Inr lp"
      "WritePage ps lp s3 = (Inr (), s4)" "ok s4" "live s4 = live s3"
      "node_at (view s4) i ?ka (map root_of ?ta)" "\<forall>j\<in>live s3 - {i}. view s4 j = view s3 j"
      "room s3 \<le> room s4"
    by (rule write_node [OF R(3), of i ?ka "map root_of ?ta"]) (use il r(4) R(4) m(2,4) in simp_all)
  let ?sp = "\<lparr>separatorKey = ks ! ?m, rightChildID = r\<rparr>"
  have run: "splitInternal ps \<lparr>InternalPageID = i, Keys = ks, Children = map root_of ts\<rparr> s1 = (Inr (Some ?sp), s4)"
    using r(1) R(1,2) L(1,2) by (simp add: splitInternal_def Let_def take_map drop_map)
  have "r \<noteq> i" using r(2) il by blast
  then have "node_at (view s4) r ?kb (map root_of ?tb)"
    using R(4,5) L(6) r(4) node_at_cong [of "view s4" r "view s3"] by simp
  moreover have "\<forall>j\<in>live s1 - {i}. view s4 j = view s1 j"
    using r(2,4,5) R(4,6) L(6) by auto
  ultimately have "grown s s4 t k v (Suc n) lo hi [ks ! ?m] [BNode i ?ka ?ta, BNode r ?kb ?tb]"
    using L(3,4,5,7) R(4,7) r(2,4,6) i m
    by (intro grown_split_node [OF ev']) simp_all
  then show ?thesis using run by (force simp: split_of_def)
qed

lemma split_of_roots:
  assumes "split_of r ks' ts'" and "root_of (hd ts') = root_of u" and "length t1 = c" and "c \<le> length ks"
    and "r = Some sp"
  shows "insert_at c 0 (separatorKey sp) ks = take c ks @ ks' @ drop c ks"
    and "insert_at (c + 1) 0 (rightChildID sp) (map root_of (t1 @ u # t2)) = map root_of (t1 @ ts' @ t2)"
  using assms by (auto simp: split_of_def insert_at_eq length_Suc_conv eval_nat_numeral)

lemma insertInternal_split_spec:
  assumes ev: "evolved s s1 t k v n lo hi (take c ks @ ks' @ drop c ks) (t1 @ ts' @ t2)"
    and i: "i = root_of t" "i \<notin> set (concat (map ids (t1 @ ts' @ t2)))" "i \<in> live s" "i \<in> set (ids t)"
    and node: "node_at (view s1) i ks (map root_of (t1 @ u # t2))" "length ks \<le> InternalOrder"
    and c: "length t1 = c" "c \<le> length ks"
    and r: "split_of r ks' ts'" "root_of (hd ts') = root_of u" and room: "0 < room s1"
  shows "\<exists>r' s2 ks2 ts2.
     insertInternal_split ps \<lparr>InternalPageID = i, Keys = ks, Children = map root_of (t1 @ u # t2)\<rparr> c r s1 =
       (Inr r', s2) \<and> grown s s2 t k v (Suc n) lo hi ks2 ts2 \<and> split_of r' ks2 ts2"
proof (cases r)
  case None
  then obtain u' where u': "ks' = []" "ts' = [u']" "root_of u' = root_of u"
    using r by (auto simp: split_of_def length_Suc_conv)
  have "grown s s1 t k v (Suc n) lo hi [] [BNode i ks (t1 @ ts' @ t2)]"
    using ev node i u' by (intro grown_same_node) (auto simp: evolved_def)
  then show ?thesis using None by (force simp: insertInternal_split_def split_of_def)
next
  case (Some sp)
  note at = split_of_roots [OF r c Some]
  let ?ks = "take c ks @ ks' @ drop c ks" and ?ts = "t1 @ ts' @ t2"
  have lk: "length ?ks = length ks + 1" using Some r(1) c(2) by (simp add: split_of_def)
  have lts: "length (map root_of ?ts) = length ?ks + 1" using ev wf_seq_length by (fastforce simp: evolved_def)
  show ?thesis
  proof (cases "length ?ks \<le> InternalOrder")
    case True
    have "ok s1" "i \<in> live s1" using ev i(3) by (auto simp: evolved_def)
    then obtain p s2 where p: "EncodeInternal \<lparr>InternalPageID = i, Keys = ?ks, Children = map root_of ?ts\<rparr> = Inr p"
      "WritePage ps p s1 = (Inr (), s2)" "ok s2" "live s2 = live s1"
      "node_at (view s2) i ?ks (map root_of ?ts)" "\<forall>j\<in>live s1 - {i}. view s2 j = view s1 j"
      "room s1 \<le> room s2"
      using write_node True lts by metis
    then have "grown s s2 t k v (Suc n) lo hi [] [BNode i ?ks ?ts]"
      using ev i True by (intro grown_same_node) auto
    then show ?thesis using Some at p(1,2) True
      by (force simp: insertInternal_split_def split_of_def)
  next
    case False
    then have "length ?ks = InternalOrder + 1" using lk node(2) by simp
    from splitInternal_spec [OF ev this i room] show ?thesis
      using Some at False by (auto simp: insertInternal_split_def)
  qed
qed

lemma grown_after_read:
  assumes "same_store s s1" and "grown s1 s2 t k v n lo hi ks ts"
  shows "grown s s2 t k v n lo hi ks ts"
  using assms by (auto simp: same_store_def grown_def evolved_def)

lemma insertNode_spec:
  assumes "btwf n lo hi t" and "ok s" and "holds_tree (live s) (view s) t" and "distinct (ids t)"
    and "lo \<le> unat k" and "unat k < hi" and "length v = ValueSize" and "n < fuel" and "n < room s"
  shows "\<exists>r s' ks ts. insertNode ps fuel (root_of t) k v s = (Inr r, s') \<and>
     grown s s' t k v n lo hi ks ts \<and> split_of r ks ts"
  using assms
proof (induction n arbitrary: lo hi t s fuel)
  case 0
  then obtain i es nx where t: "t = BLeaf i es nx" by (cases t) auto
  obtain f where f: "fuel = Suc f" using 0 by (cases fuel) auto
  obtain p s1 where p: "ReadPage ps i s = (Inr p, s1)" "PageNodeType p = NodeTypeLeaf"
      "DecodeLeaf p = Inr \<lparr>LeafPageID = i, Entries = es, NextLeaf = nx\<rparr>" "same_store s s1"
    using read_leaf 0(2,3) unfolding t by blast
  have s1: "ok s1" "i \<in> live s1" "0 < room s1"
    using p(4) 0 by (auto simp: same_store_def t holds_tree_BLeaf)
  from insertLeaf_spec [OF s1 0(1) [unfolded t] p(3) 0(5-7)] show ?case
    using p(1,2) grown_after_read [OF p(4)] by (simp add: t f) blast
next
  case (Suc n)
  then obtain i ks ts where t: "t = BNode i ks ts" by (cases t) auto
  obtain f where f: "fuel = Suc f" "n < f" using Suc.prems(8) by (cases fuel) auto
  obtain p s1 t1 u t2 where d: "ReadPage ps i s = (Inr p, s1)" "PageNodeType p = NodeTypeInternal"
      "DecodeInternal p = Inr \<lparr>InternalPageID = i, Keys = ks, Children = map root_of ts\<rparr>"
      "same_store s s1" "holds_tree (live s1) (view s1) u"
      "ts = t1 @ u # t2" "length t1 = FindChildIndex ks k" "map root_of ts ! FindChildIndex ks k = root_of u"
      "btwf n (last_bound lo (take (length t1) ks)) (next_bound hi (drop (length t1) ks)) u"
      "last_bound lo (take (length t1) ks) \<le> unat k"
      "unat k < next_bound hi (drop (length t1) ks)"
      "\<forall>e\<in>set (forest_entries t1). Key e < k" "\<forall>e\<in>set (forest_entries t2). k < Key e"
      "wf_pre (btwf n) lo (take (length t1) ks) t1" "wf_suf (btwf n) hi (drop (length t1) ks) t2"
      "length t1 \<le> length ks"
    by (rule descend [OF Suc.prems(1,2,3,5,6) [unfolded t]])
  have s1: "ok s1" "n < room s1" using d(4) Suc.prems(9) by (auto simp: same_store_def)
  have du: "distinct (ids u)" using Suc.prems(4) by (simp add: t d(6))
  obtain r s2 ks' ts' where g: "insertNode ps f (root_of u) k v s1 = (Inr r, s2)"
      "grown s1 s2 u k v n (last_bound lo (take (length t1) ks)) (next_bound hi (drop (length t1) ks)) ks' ts'"
      "split_of r ks' ts'"
    using Suc.IH [OF d(9) s1(1) d(5) du d(10,11) Suc.prems(7) f(2) s1(2)] by blast
  have t': "t = BNode i ks (t1 @ u # t2)" by (simp add: t d(6))
  have h1: "holds_tree (live s1) (view s1) t" using same_store_holds [OF d(4)] Suc.prems(3) by blast
  note e = evolved_child [OF t' h1 Suc.prems(4) d(16,14,15,12,13) g(2)]
  have i: "i = root_of t" "i \<in> live s1" "i \<in> set (ids t)" "length ks \<le> InternalOrder"
    using h1 Suc.prems(1) by (simp_all add: t holds_tree_BNode)
  have "0 < room s2" using g(2) d(4) Suc.prems(9) by (auto simp: grown_def evolved_def same_store_def)
  from insertInternal_split_spec [OF e(1) i(1) e(2) i(2,3) e(3) i(4) refl d(16) g(3) _ this]
  obtain r' s3 ks3 ts3 where
      "insertInternal_split ps \<lparr>InternalPageID = i, Keys = ks, Children = map root_of ts\<rparr> (length t1) r s2 =
       (Inr r', s3)" "grown s1 s3 t k v (Suc n) lo hi ks3 ts3" "split_of r' ks3 ts3"
    using g(2) by (auto simp: grown_def d(6))
  then show ?case
    using d(1-3,7,8) g(1) grown_after_read [OF d(4)] by (simp add: t f(1) Let_def) blast
qed

section \<open>The operations of a tree\<close>

lemma flushHeader_spec:
  assumes "ok s" and "headerPage bt \<in> live s"
  obtains s' where "flushHeader ps bt s = (Inr (), s')" and "ok s'" and "live s' = live s"
    and "header_at (view s') bt" and "\<forall>j\<in>live s - {headerPage bt}. view s' j = view s j"
    and "room s \<le> room s'"
proof -
  let ?d = "put 4 (le32 (rootID bt)) (put 0 (le32 headerMagic) (replicate DataSize 0))"
  let ?p = "(NewPage (headerPage bt) PageTypeData)\<lparr>Data := ?d\<rparr>"
  have len: "length ?d = DataSize" by (simp add: page_consts)
  have p: "wf_page ?p" "page_id ?p = headerPage bt" "Data ?p = ?d"
    using len by (simp_all add: wf_page_def NewPage_def)
  have segs: "seg 0 4 ?d = le32 headerMagic" "seg 4 4 ?d = le32 (rootID bt)"
    by (simp_all add: page_consts)
  obtain s' where "WritePage ps ?p s = (Inr (), s')" "ok s'" "live s' = live s" "room s \<le> room s'"
      "\<forall>j\<in>live s. view s' j = (if j = headerPage bt then ?d else view s j)"
    using write_live [OF assms(1) p(1)] assms(2) p(2,3) by auto
  then show ?thesis
    using that [of s'] assms(2) segs by (simp add: flushHeader_def header_at_def NewPage_def Let_def)
qed

lemma btree_rel_same_store:
  assumes "btree_rel (live s) (view s) n es bt" and "same_store s s'"
  shows "btree_rel (live s') (view s') n es bt"
proof -
  from assms(1) obtain t where t: "btwf n 0 (2 ^ 64) t" "holds_tree (live s) (view s) t" "distinct (ids t)"
      "root_of t = rootID bt" "\<exists>a. path a (leaves t) 0" "entries t = es"
      "headerPage bt \<in> live s" "headerPage bt \<notin> set (ids t)" "header_at (view s) bt"
    unfolding btree_rel_defs by blast
  then have "holds_tree (live s') (view s') t" "headerPage bt \<in> live s'" "header_at (view s') bt"
    using same_store_holds [OF assms(2)] assms(2) by (auto simp: same_store_def header_at_def)
  then show ?thesis using t unfolding btree_rel_defs by blast
qed

lemma btree_Search_spec:
  assumes "ok s" and "btree_rel (live s) (view s) n es bt" and "n < fuel"
  shows "\<exists>s'. btree_Search ps fuel bt key s =
      (Inr (case entry_lookup es key of
              None \<Rightarrow> (replicate ValueSize 0, False) | Some v \<Rightarrow> (v, True)), s') \<and> same_store s s'"
proof -
  from assms(2) obtain t where "btwf n 0 (2 ^ 64) t" "holds_tree (live s) (view s) t"
      "root_of t = rootID bt" "entries t = es"
    unfolding btree_rel_defs by blast
  then show ?thesis
    using search_loop_spec [of n 0 "2 ^ 64" t s key fuel] assms(1,3) unat_u64_bound
    by (simp add: btree_Search_def)
qed

lemma btree_Open_spec:
  assumes "ok s" and "btree_rel (live s) (view s) n es bt"
  shows "\<exists>s'. btree_Open ps (headerPage bt) s = (Inr bt, s') \<and> same_store s s'"
proof -
  have h: "headerPage bt \<in> live s" "header_at (view s) bt"
    using assms(2) by (auto simp: btree_rel_defs)
  from read_live [OF assms(1) h(1)] show ?thesis
    using h(2) by (auto simp: btree_Open_def header_at_def same_store_def)
qed

lemma btree_Create_spec:
  assumes "ok s" and "2 \<le> room s"
  shows "\<exists>bt s'. btree_Create ps s = (Inr bt, s') \<and> ok s' \<and> btree_rel (live s') (view s') 0 [] bt \<and>
     live s' = live s \<union> {headerPage bt, rootID bt} \<and> headerPage bt \<notin> live s \<and> rootID bt \<notin> live s \<and>
     (\<forall>j\<in>live s. view s' j = view s j) \<and> room s \<le> room s' + 2"
proof -
  obtain h s1 where h: "AllocatePage ps s = (Inr h, s1)" "h \<notin> live s" "ok s1"
      "live s1 = insert h (live s)" "\<forall>j\<in>live s. view s1 j = view s j" "room s \<le> Suc (room s1)"
    using alloc_room [OF assms(1)] assms(2) by auto
  obtain r s2 where r: "AllocatePage ps s1 = (Inr r, s2)" "r \<notin> live s1" "ok s2"
      "live s2 = insert r (live s1)" "\<forall>j\<in>live s1. view s2 j = view s1 j" "room s1 \<le> Suc (room s2)"
    using alloc_room [OF h(3)] assms(2) h(6) by auto
  obtain p s3 where p: "EncodeLeaf \<lparr>LeafPageID = r, Entries = [], NextLeaf = 0\<rparr> = Inr p"
      "WritePage ps p s2 = (Inr (), s3)" "ok s3" "live s3 = live s2"
      "leaf_at (view s3) r [] 0" "\<forall>j\<in>live s2 - {r}. view s3 j = view s2 j" "room s2 \<le> room s3"
    by (rule write_leaf [OF r(3), of r "[]" 0]) (use r(4) in \<open>simp_all add: wf_entries_def\<close>)
  let ?bt = "\<lparr>headerPage = h, rootID = r\<rparr>"
  have "headerPage ?bt \<in> live s3" using p(4) r(4) h(4) by simp
  then obtain s4 where f: "flushHeader ps ?bt s3 = (Inr (), s4)" "ok s4" "live s4 = live s3"
      "header_at (view s4) ?bt" "\<forall>j\<in>live s3 - {headerPage ?bt}. view s4 j = view s3 j" "room s3 \<le> room s4"
    by (rule flushHeader_spec [OF p(3)])
  have "r \<noteq> h" using r(2) h(4) by auto
  then have "view s4 r = view s3 r" using f(5) p(4) r(4) by simp
  then have "leaf_at (view s4) r [] 0" using p(5) by (simp add: leaf_at_def)
  then have "btree_rel (live s4) (view s4) 0 [] ?bt"
    unfolding btree_rel_defs using f(3,4) p(4) r(4) h(4) \<open>r \<noteq> h\<close>
    by (intro exI [of _ "BLeaf r [] 0"]) (auto simp: holds_tree_BLeaf spans_def wf_entries_def)
  moreover have "view s4 j = view s j" if "j \<in> live s" for j
  proof -
    have "j \<noteq> h" "j \<noteq> r" "j \<in> live s1" "j \<in> live s2" "j \<in> live s3"
      using that h(2,4) r(2,4) p(4) by auto
    then show ?thesis using that h(5) r(5) p(6) f(5) by simp
  qed
  moreover have "btree_Create ps s = (Inr ?bt, s4)"
    using h(1) r(1) p(1,2) f(1) by (simp add: btree_Create_def Let_def)
  moreover have "live s4 = live s \<union> {h, r}" "r \<notin> live s" using f(3) p(4) r(2,4) h(4) by auto
  moreover have "room s \<le> room s4 + 2" using f(6) p(7) h(6) r(6) by linarith
  ultimately show ?thesis using f(2) h(2) by (intro exI [of _ ?bt] exI [of _ s4]) simp
qed

text \<open>A root split: the new root over the two halves of the old tree.\<close>

lemma new_root_spec:
  assumes ev: "evolved s s1 t k v n 0 (2 ^ 64) [sep] [tL, tR]" and path: "path a (leaves t) 0"
    and hp: "hp \<in> live s" "hp \<notin> set (ids t)" and room: "0 < room s1"
  shows "\<exists>nr np s2 s3 s4. AllocatePage ps s1 = (Inr nr, s2) \<and>
     EncodeInternal \<lparr>InternalPageID = nr, Keys = [sep], Children = [root_of tL, root_of tR]\<rparr> = Inr np \<and>
     WritePage ps np s2 = (Inr (), s3) \<and>
     flushHeader ps \<lparr>headerPage = hp, rootID = nr\<rparr> s3 = (Inr (), s4) \<and> ok s4 \<and> live s \<subseteq> live s4 \<and>
     btree_rel (live s4) (view s4) (Suc n) (ins_entry k v (entries t)) \<lparr>headerPage = hp, rootID = nr\<rparr> \<and>
     room s1 \<le> room s4 + 1"
proof -
  have e: "ok s1" "live s \<subseteq> live s1" "wf_seq (btwf n) 0 (2 ^ 64) [sep] [tL, tR]"
      "\<forall>u\<in>set [tL, tR]. holds_tree (live s1) (view s1) u" "distinct (ids tL @ ids tR)"
      "set (ids tL @ ids tR) \<subseteq> set (ids t) \<union> (live s1 - live s)"
      "entries tL @ entries tR = ins_entry k v (entries t)" "path a (leaves tL @ leaves tR) 0"
    using ev path by (auto simp: evolved_def)
  obtain nr s2 where r: "AllocatePage ps s1 = (Inr nr, s2)" "nr \<notin> live s1" "ok s2"
      "live s2 = insert nr (live s1)" "\<forall>j\<in>live s1. view s2 j = view s1 j" "room s1 \<le> Suc (room s2)"
    using alloc_room [OF e(1) room] by blast
  obtain np s3 where p:
      "EncodeInternal \<lparr>InternalPageID = nr, Keys = [sep], Children = [root_of tL, root_of tR]\<rparr> = Inr np"
      "WritePage ps np s2 = (Inr (), s3)" "ok s3" "live s3 = live s2"
      "node_at (view s3) nr [sep] [root_of tL, root_of tR]" "\<forall>j\<in>live s2 - {nr}. view s3 j = view s2 j"
      "room s2 \<le> room s3"
    by (rule write_node [OF r(3), of nr "[sep]" "[root_of tL, root_of tR]"])
      (use r(4) in \<open>simp_all add: InternalOrder_def\<close>)
  let ?bt = "\<lparr>headerPage = hp, rootID = nr\<rparr>"
  have "headerPage ?bt \<in> live s3" using p(4) r(4) e(2) hp(1) by auto
  then obtain s4 where f: "flushHeader ps ?bt s3 = (Inr (), s4)" "ok s4" "live s4 = live s3"
      "header_at (view s4) ?bt" "\<forall>j\<in>live s3 - {headerPage ?bt}. view s4 j = view s3 j" "room s3 \<le> room s4"
    by (rule flushHeader_spec [OF p(3)])
  have hs: "hp \<noteq> nr" "hp \<in> live s1" "hp \<notin> set (ids tL @ ids tR)"
    using hp e(2,6) r(2) by auto
  have kids: "set (ids u) \<subseteq> live s1" "holds_tree (live s4) (view s4) u" if u: "u \<in> {tL, tR}" for u
  proof -
    have h1: "holds_tree (live s1) (view s1) u" using e(4) u by auto
    then show sub: "set (ids u) \<subseteq> live s1" by (simp add: holds_tree_def)
    have "view s4 j = view s1 j" if "j \<in> set (ids u)" for j
      using that u sub r(2,4,5) p(4,6) f(5) hs(3) by force
    then show "holds_tree (live s4) (view s4) u"
      using holds_tree_mono [OF h1] f(3) p(4) r(4) by blast
  qed
  have "view s4 nr = view s3 nr" using f(5) hs(1) p(4) r(4) by simp
  then have "node_at (view s4) nr [sep] [root_of tL, root_of tR]"
    using p(5) node_at_cong [of "view s4" nr "view s3"] by blast
  then have "holds_tree (live s4) (view s4) (BNode nr [sep] [tL, tR])"
    using kids(2) f(3) p(4) r(4) by (simp add: holds_tree_BNode)
  moreover have "distinct (ids (BNode nr [sep] [tL, tR]))" using e(5) kids(1) r(2) by auto
  ultimately have "btree_rel (live s4) (view s4) (Suc n) (ins_entry k v (entries t)) ?bt"
    using e(3,7,8) f(3,4) p(4) r(4) hs
    by (intro btree_rel_intro [of _ "BNode nr [sep] [tL, tR]" _ _ _ a]) (simp_all add: InternalOrder_def)
  then show ?thesis using r(1,4,6) p(1,2,4,7) f(1-3,6) e(2) by auto
qed

lemma btree_Insert_spec:
  assumes "ok s" and rel: "btree_rel (live s) (view s) n es bt" and "length v = ValueSize"
    and "n < fuel" and "n + 2 \<le> room s"
  shows "\<exists>bt' s' n'. btree_Insert ps fuel k v (bt, s) = (Inr (), (bt', s')) \<and> ok s' \<and>
     btree_rel (live s') (view s') n' (ins_entry k v es) bt' \<and> headerPage bt' = headerPage bt \<and>
     n' \<le> Suc n \<and> live s \<subseteq> live s' \<and> room s \<le> room s' + (n + 2)"
proof -
  from rel obtain t a where t: "btwf n 0 (2 ^ 64) t" "holds_tree (live s) (view s) t" "distinct (ids t)"
      "root_of t = rootID bt" "path a (leaves t) 0" "entries t = es"
      "headerPage bt \<in> live s" "headerPage bt \<notin> set (ids t)" "header_at (view s) bt"
    unfolding btree_rel_defs by blast
  obtain r s1 ks ts where g: "insertNode ps fuel (rootID bt) k v s = (Inr r, s1)"
      "grown s s1 t k v n 0 (2 ^ 64) ks ts" "split_of r ks ts"
    using insertNode_spec [OF t(1) assms(1) t(2,3) unat_u64_bound [of k] assms(3,4)] assms(5) t(4) by auto
  have e: "evolved s s1 t k v n 0 (2 ^ 64) ks ts" "root_of (hd ts) = rootID bt"
    using g(2) t(4) by (simp_all add: grown_def)
  have room: "room s \<le> room s1 + Suc n" using e(1) by (simp add: evolved_def)
  have same: "btree_rel (live s1) (view s1) n (ins_entry k v es) bt" if "ks = []" "ts = [t']" for t'
  proof -
    have "view s1 (headerPage bt) = view s (headerPage bt)" "headerPage bt \<in> live s1"
      using e(1) t(7,8) by (auto simp: evolved_def)
    then have "header_at (view s1) bt" "headerPage bt \<in> live s1" "headerPage bt \<notin> set (ids t')"
      using t(7-9) e(1) that by (auto simp: evolved_def header_at_def)
    then show ?thesis
      using e that t(5,6) by (intro btree_rel_intro [of _ t' _ _ _ a]) (auto simp: evolved_def)
  qed
  show ?thesis
  proof (cases r)
    case None
    then show ?thesis
      using g(1,3) e(1) same room by (auto simp: btree_Insert_def split_of_def length_Suc_conv evolved_def)
  next
    case (Some sp)
    then obtain tL tR where ts: "ks = [separatorKey sp]" "ts = [tL, tR]" "root_of tR = rightChildID sp"
      using g(3) by (auto simp: split_of_def length_Suc_conv eval_nat_numeral)
    have "0 < room s1" using room assms(5) by simp
    from new_root_spec [OF e(1) [unfolded ts] t(5,7,8) this] show ?thesis
      using g(1) Some ts e(2) t(6) room
      by (cases bt) (auto simp: btree_Insert_def intro!: exI [of _ "Suc n"])
  qed
qed

section \<open>Deletion\<close>

definition shrunk :: "'s \<Rightarrow> 's \<Rightarrow> bt \<Rightarrow> bt \<Rightarrow> u64 \<Rightarrow> nat \<Rightarrow> nat \<Rightarrow> nat \<Rightarrow> bool" where
  "shrunk s s' t t' k n lo hi \<longleftrightarrow>
     (ok s' \<and> live s' = live s \<and> (\<forall>j\<in>live s - set (ids t). view s' j = view s j) \<and> room s \<le> room s') \<and>
     (btwf n lo hi t' \<and> holds_tree (live s') (view s') t' \<and> ids t' = ids t \<and> root_of t' = root_of t) \<and>
     (entries t' = filter (\<lambda>e. Key e \<noteq> k) (entries t) \<and>
      (\<forall>a b. path a (leaves t) b \<longrightarrow> path a (leaves t') b))"

lemma shrunk_after_read: "same_store s s1 \<Longrightarrow> shrunk s1 s2 t t' k n lo hi \<Longrightarrow> shrunk s s2 t t' k n lo hi"
  by (auto simp: same_store_def shrunk_def)

lemma shrunk_leaf:
  assumes "ok s" and "i \<in> live s" and "btwf 0 lo hi (BLeaf i es nx)"
  obtains p s' where "EncodeLeaf \<lparr>LeafPageID = i, Entries = filter (\<lambda>e. Key e \<noteq> k) es, NextLeaf = nx\<rparr> = Inr p"
    and "WritePage ps p s = (Inr (), s')"
    and "shrunk s s' (BLeaf i es nx) (BLeaf i (filter (\<lambda>e. Key e \<noteq> k) es) nx) k 0 lo hi"
proof -
  let ?es = "filter (\<lambda>e. Key e \<noteq> k) es"
  have es: "length ?es \<le> LeafOrder" "wf_entries ?es" "spans lo hi ?es"
    using assms(3) by (auto simp: wf_entries_def spans_filter intro: le_trans [OF length_filter_le])
  obtain p s' where "EncodeLeaf \<lparr>LeafPageID = i, Entries = ?es, NextLeaf = nx\<rparr> = Inr p"
      "WritePage ps p s = (Inr (), s')" "ok s'" "live s' = live s" "leaf_at (view s') i ?es nx"
      "\<forall>j\<in>live s - {i}. view s' j = view s j" "room s \<le> room s'"
    by (rule write_leaf [OF assms(1,2) es(1,2), where nx = nx])
  then show ?thesis using that assms(2) es by (simp add: shrunk_def holds_tree_BLeaf)
qed

lemma shrunk_child:
  assumes t: "t = BNode i ks (t1 @ u # t2)" and holds: "holds_tree (live s) (view s) t"
    and dist: "distinct (ids t)" and wf: "length t1 \<le> length ks" "length ks \<le> InternalOrder"
    and pre: "wf_pre (btwf n) lo (take (length t1) ks) t1"
    and suf: "wf_suf (btwf n) hi (drop (length t1) ks) t2"
    and lt: "\<forall>e\<in>set (forest_entries t1). Key e < k" "\<forall>e\<in>set (forest_entries t2). k < Key e"
    and g: "shrunk s s' u u' k n (last_bound lo (take (length t1) ks)) (next_bound hi (drop (length t1) ks))"
  shows "shrunk s s' t (BNode i ks (t1 @ u' # t2)) k (Suc n) lo hi"
proof -
  have iu: "i \<in> live s" "i \<notin> set (ids u)"
    and sub: "set (ids u) \<subseteq> set (ids t)" "set (ids t) \<subseteq> live s"
    using holds dist by (auto simp: t holds_tree_BNode holds_tree_def)
  have e: "ok s'" "live s' = live s" "\<forall>j\<in>live s - set (ids u). view s' j = view s j" "room s \<le> room s'"
      "holds_tree (live s') (view s') u'" "ids u' = ids u" "root_of u' = root_of u"
      "entries u' = filter (\<lambda>e. Key e \<noteq> k) (entries u)"
      "\<forall>a b. path a (leaves u) b \<longrightarrow> path a (leaves u') b"
    using g by (auto simp: shrunk_def)
  have l: "live s \<subseteq> live s'" using e(2) by simp
  note kept = siblings_kept [OF t holds dist l e(3)]
  have "node_at (view s') i ks (map root_of (t1 @ u' # t2))" using kept(2) e(7) by simp
  then have "holds_tree (live s') (view s') (BNode i ks (t1 @ u' # t2))"
    using kept(1) e(2,5) iu(1) by (auto simp: holds_tree_BNode)
  moreover have "wf_seq (btwf n) lo hi (take (length t1) ks @ [] @ drop (length t1) ks) (t1 @ [u'] @ t2)"
    using g by (intro wf_seq_plug pre suf) (simp add: shrunk_def)
  moreover have "forest_entries (t1 @ u' # t2) = filter (\<lambda>e. Key e \<noteq> k) (entries t)"
    using filter_mid [OF lt] e(8) by (simp add: t)
  moreover have "\<forall>a b. path a (leaves t) b \<longrightarrow> path a (concat (map leaves (t1 @ u' # t2))) b"
    using e(9) by (simp add: t path_append) blast
  moreover have "\<forall>j\<in>live s - set (ids t). view s' j = view s j" using e(3) sub(1) by blast
  ultimately show ?thesis using e(1,2,4,6) wf(2) by (simp add: shrunk_def t)
qed

lemma deleteInNode_spec:
  assumes "btwf n lo hi t" and "ok s" and "holds_tree (live s) (view s) t" and "distinct (ids t)"
    and "lo \<le> unat k" and "unat k < hi" and "n < fuel"
  shows "\<exists>s' t'. deleteInNode ps fuel (root_of t) k s = (Inr (entry_lookup (entries t) k \<noteq> None), s') \<and>
     shrunk s s' t t' k n lo hi"
  using assms
proof (induction n arbitrary: lo hi t s fuel)
  case 0
  then obtain i es nx where t: "t = BLeaf i es nx" "ascending es" by (cases t) (auto simp: spans_def)
  obtain f where f: "fuel = Suc f" using 0 by (cases fuel) auto
  obtain p s1 where p: "ReadPage ps i s = (Inr p, s1)" "PageNodeType p = NodeTypeLeaf"
      "DecodeLeaf p = Inr \<lparr>LeafPageID = i, Entries = es, NextLeaf = nx\<rparr>" "same_store s s1"
    using read_leaf 0(2,3) unfolding t by blast
  have s1: "ok s1" "i \<in> live s1" "holds_tree (live s1) (view s1) t"
    using same_store_holds [OF p(4) 0(3)] p(4) 0(3) by (simp_all add: same_store_def t holds_tree_BLeaf)
  obtain j found where j: "LeafSearchKey es k = (j, found)" by fastforce
  note search = LeafSearchKey_cases [OF t(2) j]
  show ?case
  proof (cases found)
    case True
    then have "take j es @ drop (Suc j) es = filter (\<lambda>e. Key e \<noteq> k) es"
      using search leaf_delete [OF t(2)] by simp
    moreover obtain q s2 where
        "EncodeLeaf \<lparr>LeafPageID = i, Entries = filter (\<lambda>e. Key e \<noteq> k) es, NextLeaf = nx\<rparr> = Inr q"
        "WritePage ps q s1 = (Inr (), s2)"
        "shrunk s1 s2 (BLeaf i es nx) (BLeaf i (filter (\<lambda>e. Key e \<noteq> k) es) nx) k 0 lo hi"
      by (rule shrunk_leaf [OF s1(1,2) 0(1) [unfolded t]])
    ultimately show ?thesis
      using p j True search shrunk_after_read [OF p(4)] by (simp add: t f) blast
  next
    case False
    then have "\<forall>e\<in>set (take j es) \<union> set (drop j es). Key e \<noteq> k" using search by auto
    then have "\<forall>e\<in>set (take j es @ drop j es). Key e \<noteq> k" unfolding set_append .
    then have "filter (\<lambda>e. Key e \<noteq> k) es = es" by (simp add: filter_id_conv)
    then have "shrunk s s1 t t k 0 lo hi"
      using 0(1) p(4) s1(3) by (simp add: shrunk_def same_store_def t)
    then show ?thesis using p j False search by (simp add: t f) blast
  qed
next
  case (Suc n)
  then obtain i ks ts where t: "t = BNode i ks ts" by (cases t) auto
  obtain f where f: "fuel = Suc f" "n < f" using Suc.prems(7) by (cases fuel) auto
  obtain p s1 t1 u t2 where d: "ReadPage ps i s = (Inr p, s1)" "PageNodeType p = NodeTypeInternal"
      "DecodeInternal p = Inr \<lparr>InternalPageID = i, Keys = ks, Children = map root_of ts\<rparr>"
      "same_store s s1" "holds_tree (live s1) (view s1) u"
      "ts = t1 @ u # t2" "length t1 = FindChildIndex ks k" "map root_of ts ! FindChildIndex ks k = root_of u"
      "btwf n (last_bound lo (take (length t1) ks)) (next_bound hi (drop (length t1) ks)) u"
      "last_bound lo (take (length t1) ks) \<le> unat k"
      "unat k < next_bound hi (drop (length t1) ks)"
      "\<forall>e\<in>set (forest_entries t1). Key e < k" "\<forall>e\<in>set (forest_entries t2). k < Key e"
      "wf_pre (btwf n) lo (take (length t1) ks) t1" "wf_suf (btwf n) hi (drop (length t1) ks) t2"
      "length t1 \<le> length ks"
    by (rule descend [OF Suc.prems(1,2,3,5,6) [unfolded t]])
  have s1: "ok s1" "holds_tree (live s1) (view s1) t" "distinct (ids u)" "length ks \<le> InternalOrder"
    using d(4) same_store_holds [OF d(4)] Suc.prems(1,3,4) by (auto simp: same_store_def t d(6))
  obtain s2 u' where g: "deleteInNode ps f (root_of u) k s1 = (Inr (entry_lookup (entries u) k \<noteq> None), s2)"
      "shrunk s1 s2 u u' k n (last_bound lo (take (length t1) ks)) (next_bound hi (drop (length t1) ks))"
    using Suc.IH [OF d(9) s1(1) d(5) s1(3) d(10,11) f(2)] by blast
  have t': "t = BNode i ks (t1 @ u # t2)" by (simp add: t d(6))
  have "shrunk s s2 t (BNode i ks (t1 @ u' # t2)) k (Suc n) lo hi"
    using shrunk_child [OF t' s1(2) Suc.prems(4) d(16) s1(4) d(14,15,12,13) g(2)]
    by (rule shrunk_after_read [OF d(4)])
  moreover have "entry_lookup (entries t) k = entry_lookup (entries u) k"
    using entry_lookup_mid [OF d(12,13)] by (simp add: t d(6))
  ultimately show ?case using d(1-3,8) g(1) by (simp add: t f(1)) blast
qed

lemma btree_Delete_spec:
  assumes "ok s" and "btree_rel (live s) (view s) n es bt" and "n < fuel"
  shows "\<exists>s'. btree_Delete ps fuel bt k s = (Inr (entry_lookup es k \<noteq> None), s') \<and> ok s' \<and>
     live s' = live s \<and> btree_rel (live s') (view s') n (filter (\<lambda>e. Key e \<noteq> k) es) bt \<and> room s \<le> room s'"
proof -
  from assms(2) obtain t a where t: "btwf n 0 (2 ^ 64) t" "holds_tree (live s) (view s) t" "distinct (ids t)"
      "root_of t = rootID bt" "path a (leaves t) 0" "entries t = es"
      "headerPage bt \<in> live s" "headerPage bt \<notin> set (ids t)" "header_at (view s) bt"
    unfolding btree_rel_defs by blast
  obtain s' t' where d: "deleteInNode ps fuel (rootID bt) k s = (Inr (entry_lookup es k \<noteq> None), s')"
      "shrunk s s' t t' k n 0 (2 ^ 64)"
    using deleteInNode_spec [OF t(1) assms(1) t(2,3) unat_u64_bound [of k] assms(3)] t(4,6) by auto
  then have "view s' (headerPage bt) = view s (headerPage bt)" using t(7,8) by (auto simp: shrunk_def)
  then have "btree_rel (live s') (view s') n (filter (\<lambda>e. Key e \<noteq> k) es) bt"
    using d(2) t by (intro btree_rel_intro [of _ t' _ _ _ a]) (auto simp: shrunk_def header_at_def)
  then show ?thesis using d by (simp add: btree_Delete_def shrunk_def)
qed

end

section \<open>Range scans\<close>

definition in_range :: "u64 \<Rightarrow> u64 \<Rightarrow> Entry \<Rightarrow> bool" where
  "in_range minKey maxKey e \<longleftrightarrow> minKey \<le> Key e \<and> Key e \<le> maxKey"

lemma collect_spec:
  "ascending es \<Longrightarrow> collect mn mx es acc =
     (acc @ filter (in_range mn mx) es, \<exists>e\<in>set es. mx < Key e)"
proof (induction es arbitrary: acc)
  case (Cons e es)
  show ?case
  proof (cases "mx < Key e")
    case True
    then have "\<forall>x\<in>set (e # es). \<not> in_range mn mx x"
      using Cons.prems by (auto simp: in_range_def)
    then have "filter (in_range mn mx) (e # es) = []" by (simp only: filter_False)
    then show ?thesis using True by simp
  next
    case False
    then show ?thesis using Cons by (auto simp: in_range_def)
  qed
qed simp

lemma leaves_length: "length (leaves t) \<le> length (ids t)"
proof (induction t)
  case (BNode i ks ts)
  then have "length (concat (map leaves ts)) \<le> length (concat (map ids ts))"
    by (induction ts) (auto intro: add_mono)
  then show ?case by simp
qed simp

lemma height_ids: "btwf n lo hi t \<Longrightarrow> n < length (ids t)"
proof (induction n arbitrary: lo hi t)
  case 0
  then show ?case by (cases t) auto
next
  case (Suc n)
  then obtain i ks ts where t: "t = BNode i ks ts" "wf_seq (btwf n) lo hi ks ts" by (cases t) auto
  then obtain u us where u: "ts = u # us" using wf_seq_length by (cases ts) force+
  with t(2) have "btwf n lo (next_bound hi ks) u" by (simp add: wf_seq_cons_suf)
  then show ?case using Suc.IH t(1) u by fastforce
qed

lemma holds_tree_card:
  assumes "holds_tree L V t" and "distinct (ids t)"
  shows "length (ids t) \<le> card L"
  using assms distinct_card [of "ids t"] card_mono [of L "set (ids t)"] by (simp add: holds_tree_def)

lemma rep_leaves: "rep V t \<Longrightarrow> (i, es, nx) \<in> set (leaves t) \<Longrightarrow> leaf_at V i es nx \<and> i \<in> set (ids t)"
  by (induction t) auto

context page_store
begin

lemma find_leaf_spec:
  assumes "btwf n lo hi t" and "ok s" and "holds_tree (live s) (view s) t"
    and "lo \<le> unat k" and "unat k < hi" and "n < fuel"
  shows "\<exists>i s' ls es nx ms. find_leaf ps fuel (root_of t) k s = (Inr i, s') \<and> same_store s s' \<and>
     leaves t = ls @ (i, es, nx) # ms \<and> (\<forall>e\<in>set (leaf_entries ls). Key e < k)"
  using assms
proof (induction n arbitrary: lo hi t s fuel)
  case 0
  then obtain i es nx where t: "t = BLeaf i es nx" by (cases t) auto
  obtain f where f: "fuel = Suc f" using 0 by (cases fuel) auto
  obtain p s' where "ReadPage ps i s = (Inr p, s')" "PageNodeType p = NodeTypeLeaf" "same_store s s'"
    using read_leaf 0(2,3) unfolding t by blast
  then have "find_leaf ps fuel (root_of t) k s = (Inr i, s') \<and> same_store s s' \<and>
      leaves t = [] @ (i, es, nx) # [] \<and> (\<forall>e\<in>set (leaf_entries []). Key e < k)"
    by (simp add: t f)
  then show ?case by blast
next
  case (Suc n)
  then obtain i ks ts where t: "t = BNode i ks ts" by (cases t) auto
  obtain f where f: "fuel = Suc f" "n < f" using Suc.prems(6) by (cases fuel) auto
  obtain p s' t1 u t2 where d: "ReadPage ps i s = (Inr p, s')" "PageNodeType p = NodeTypeInternal"
      "DecodeInternal p = Inr \<lparr>InternalPageID = i, Keys = ks, Children = map root_of ts\<rparr>"
      "same_store s s'" "holds_tree (live s') (view s') u"
      "ts = t1 @ u # t2" "length t1 = FindChildIndex ks k" "map root_of ts ! FindChildIndex ks k = root_of u"
      "btwf n (last_bound lo (take (length t1) ks)) (next_bound hi (drop (length t1) ks)) u"
      "last_bound lo (take (length t1) ks) \<le> unat k"
      "unat k < next_bound hi (drop (length t1) ks)"
      "\<forall>e\<in>set (forest_entries t1). Key e < k" "\<forall>e\<in>set (forest_entries t2). k < Key e"
      "wf_pre (btwf n) lo (take (length t1) ks) t1" "wf_suf (btwf n) hi (drop (length t1) ks) t2"
      "length t1 \<le> length ks"
    by (rule descend [OF Suc.prems(1-5) [unfolded t]])
  obtain l s'' ls es nx ms where l: "find_leaf ps f (root_of u) k s' = (Inr l, s'')" "same_store s' s''"
     "leaves u = ls @ (l, es, nx) # ms" "\<forall>e\<in>set (leaf_entries ls). Key e < k"
    using Suc.IH [OF d(9) _ d(5,10,11) f(2)] d(4) unfolding same_store_def by blast
  have "leaves t = (concat (map leaves t1) @ ls) @ (l, es, nx) # (ms @ concat (map leaves t2))"
    by (simp add: t d(6) l(3))
  moreover have "\<forall>e\<in>set (leaf_entries (concat (map leaves t1) @ ls)). Key e < k"
    using d(12) l(4) by (auto simp: leaf_entries_concat)
  moreover have "find_leaf ps fuel (root_of t) k s = (Inr l, s'')"
    using d(1-3,8) l(1) by (simp add: t f(1))
  ultimately show ?case using same_store_trans [OF d(4) l(2)] by blast
qed

lemma scan_leaves_spec:
  assumes "ok s" and "path i ls 0" and "\<forall>(j, es, nx)\<in>set ls. j \<in> live s \<and> leaf_at (view s) j es nx"
    and "ascending (leaf_entries ls)" and "length ls < fuel"
  shows "\<exists>s'. scan_leaves ps fuel i mn mx acc s =
     (Inr (acc @ filter (in_range mn mx) (leaf_entries ls)), s') \<and> same_store s s'"
  using assms
proof (induction ls arbitrary: i acc s fuel)
  case Nil
  then show ?case by (cases fuel) (auto simp: same_store_def)
next
  case (Cons l ls)
  then obtain es nx where l: "l = (i, es, nx)" by (cases l) auto
  obtain f where f: "fuel = Suc f" "length ls < f" using Cons.prems(5) by (cases fuel) auto
  have i: "i \<in> live s" "leaf_at (view s) i es nx" "i \<noteq> 0"
    using Cons.prems(3) live_nonzero [OF Cons.prems(1)] by (auto simp: l)
  obtain p s1 where p: "ReadPage ps i s = (Inr p, s1)"
      "DecodeLeaf p = Inr \<lparr>LeafPageID = i, Entries = es, NextLeaf = nx\<rparr>" "same_store s s1"
    by (rule read_leaf [OF Cons.prems(1), of i es nx]) (use i(1,2) in \<open>simp_all add: holds_tree_BLeaf\<close>)
  have asc: "ascending es" "ascending (leaf_entries ls)"
      "\<forall>x\<in>set es. \<forall>y\<in>set (leaf_entries ls). Key x < Key y"
    using Cons.prems(4) by (auto simp: l)
  show ?case
  proof (cases "\<exists>e\<in>set es. mx < Key e")
    case True
    then have "\<forall>y\<in>set (leaf_entries ls). \<not> in_range mn mx y"
      using asc(3) by (fastforce simp: in_range_def)
    then show ?thesis
      using True p i(3) by (simp add: f(1) l collect_spec [OF asc(1)])
  next
    case False
    have "leaf_at (view s1) j es nx = leaf_at (view s) j es nx" if "j \<in> live s" for j es nx
      using that p(3) by (intro leaf_at_cong) (simp add: same_store_def)
    then have "\<forall>(j, es, nx)\<in>set ls. j \<in> live s1 \<and> leaf_at (view s1) j es nx"
      using Cons.prems(3) p(3) by (auto simp: same_store_def)
    then obtain s2 where "scan_leaves ps f nx mn mx (acc @ filter (in_range mn mx) es) s1 =
       (Inr ((acc @ filter (in_range mn mx) es) @ filter (in_range mn mx) (leaf_entries ls)), s2)"
       "same_store s1 s2"
      using Cons.IH [of s1 nx f "acc @ filter (in_range mn mx) es"] Cons.prems(2) p(3) asc(2) f(2)
      by (auto simp: l same_store_def)
    then show ?thesis
      using False p i(3) same_store_trans by (auto simp: f(1) l collect_spec [OF asc(1)])
  qed
qed

lemma btree_RangeScan_spec:
  assumes "ok s" and "btree_rel (live s) (view s) n es bt" and "card (live s) < fuel"
  shows "\<exists>s'. btree_RangeScan ps fuel bt mn mx s = (Inr (filter (in_range mn mx) es), s') \<and> same_store s s'"
proof (cases "mn \<le> mx")
  case True
  from assms(2) obtain t a where t: "btwf n 0 (2 ^ 64) t" "holds_tree (live s) (view s) t" "distinct (ids t)"
      "root_of t = rootID bt" "path a (leaves t) 0" "entries t = es"
    unfolding btree_rel_defs by blast
  have len: "n < fuel" "length (leaves t) < fuel"
    using holds_tree_card [OF t(2,3)] height_ids [OF t(1)] leaves_length [of t] assms(3) by linarith+
  obtain i s1 ls fs nx ms where l: "find_leaf ps fuel (rootID bt) mn s = (Inr i, s1)" "same_store s s1"
     "leaves t = ls @ (i, fs, nx) # ms" "\<forall>e\<in>set (leaf_entries ls). Key e < mn"
    using find_leaf_spec [OF t(1) assms(1) t(2) unat_u64_bound [of mn] len(1)] t(4) by auto
  let ?ms = "(i, fs, nx) # ms"
  have at: "\<forall>(j, es, nx)\<in>set ?ms. j \<in> live s1 \<and> leaf_at (view s1) j es nx"
    using same_store_holds [OF l(2) t(2)] rep_leaves l(3) by (fastforce simp: holds_tree_def)
  have "ascending (leaf_entries (leaves t))" using btwf_spans [OF t(1)] by (simp add: spans_def entries_def)
  then have asc: "ascending (leaf_entries ?ms)" by (simp add: l(3))
  have p: "path i ?ms 0" using t(5) by (auto simp: l(3) path_append)
  have ok1: "ok s1" "length ?ms < fuel" using l(2,3) len(2) by (auto simp: same_store_def)
  obtain s2 where "scan_leaves ps fuel i mn mx [] s1 =
      (Inr ([] @ filter (in_range mn mx) (leaf_entries ?ms)), s2)" "same_store s1 s2"
    using scan_leaves_spec [OF ok1(1) p at asc ok1(2)] by blast
  moreover have "filter (in_range mn mx) (leaf_entries ls) = []"
    using l(4) by (fastforce simp: in_range_def filter_empty_conv)
  then have "filter (in_range mn mx) es = filter (in_range mn mx) (leaf_entries ?ms)"
    unfolding t(6) [symmetric] entries_def l(3) by simp
  ultimately show ?thesis
    using True l(1) same_store_trans [OF l(2), of s2]
    by (intro exI [of _ s2]) (simp add: btree_RangeScan_def leD)
next
  case False
  then have "filter (in_range mn mx) es = []" by (auto simp: in_range_def filter_empty_conv)
  then show ?thesis using False assms(1) by (auto simp: btree_RangeScan_def same_store_def)
qed

end

end
