(* ===== verification/BTreeTx.thy ===== *)
theory BTreeTx
  imports BTreeRefine
begin

text \<open>
  The B+ tree as the executor uses it: over a transaction pager on a page file. The
  properties are the refinement lemmas of \<open>BTreeRefine\<close> at the interpretations of the
  transaction pager and of the raw pager.
\<close>

definition tx_btree :: "nat \<Rightarrow> Entry list \<Rightarrow> BTree \<Rightarrow> Pager TxPager \<Rightarrow> bool" where
  "tx_btree n es bt tp \<longleftrightarrow> txp_inv pager_inv pager_live tp \<and>
     btree_rel (pager_live (txbase tp)) (txp_view pager_view tp) n es bt"

definition file_btree :: "nat \<Rightarrow> Entry list \<Rightarrow> BTree \<Rightarrow> Pager \<Rightarrow> bool" where
  "file_btree n es bt pg \<longleftrightarrow> pager_inv pg \<and> btree_rel (pager_live pg) (pager_view pg) n es bt"

lemma tx_btree_ascending: "tx_btree n es bt tp \<Longrightarrow> ascending es"
  by (auto simp: tx_btree_def btree_rel_defs dest!: btwf_spans simp: spans_def)

lemma tx_btree_same_store:
  "tx_btree n es bt tp \<Longrightarrow> pager.tx.same_store tp tp' \<Longrightarrow> tx_btree n es bt tp'"
  using pager.tx.btree_rel_same_store by (auto simp: tx_btree_def pager.tx.same_store_def)

lemma btree_rel_view_cong:
  assumes "btree_rel L V n es bt" and "\<forall>j\<in>L. W j = V j"
  shows "btree_rel L W n es bt"
proof -
  obtain t a where t: "btwf n 0 (2 ^ 64) t" "holds_tree L V t" "distinct (ids t)" "root_of t = rootID bt"
      "path a (leaves t) 0" "entries t = es" "headerPage bt \<in> L" "headerPage bt \<notin> set (ids t)"
      "header_at V bt"
    using assms(1) unfolding btree_rel_defs by blast
  have "holds_tree L W t" using holds_tree_mono [OF t(2) subset_refl] t(2) assms(2)
    by (auto simp: holds_tree_def)
  moreover have "header_at W bt" using t(7,9) assms(2) by (simp add: header_at_def)
  ultimately show ?thesis using t by (intro btree_rel_intro)
qed

lemma fresh_tx_room: "txp_inv pager_inv pager_live (NewTxPager fresh_pager)"
  "pager_room (txbase (NewTxPager fresh_pager)) = 2 ^ 32 - 2"
  by (simp_all add: txp_inv_def NewTxPager_def pager_inv_fresh pager_room_def)

lemma tx_btree_example:
  "\<exists>bt tp. btree_Create (tx_store pager_store) (NewTxPager fresh_pager) = (Inr bt, tp) \<and>
     tx_btree 0 [] bt tp \<and> 2 ^ 32 - 4 \<le> pager_room (txbase tp)"
  using pager.tx.btree_Create_spec [OF fresh_tx_room(1)] fresh_tx_room(2)
  by (fastforce simp: tx_btree_def)

text \<open>C1: \<open>Insert\<close> refines the insertion into a finite map: from a tree of height \<open>n\<close> with entries
  \<open>es\<close> it returns no error, the tree invariant (order, separators, node sizes, leaf chain, header)
  holds again, and looking up any key gives the inserted value for \<open>k\<close> and the old answer for the
  others, splits of leaves, of internal nodes and of the root included.\<close>

theorem btree_insert_refines:
  assumes "tx_btree n es bt tp" and "length v = ValueSize" and "n < fuel"
    and "n + 2 \<le> pager_room (txbase tp)"
  shows "\<exists>bt' tp' n' es'. btree_Insert (tx_store pager_store) fuel k v (bt, tp) = (Inr (), (bt', tp')) \<and>
     tx_btree n' es' bt' tp' \<and> n' \<le> Suc n \<and> headerPage bt' = headerPage bt \<and>
     es' = ins_entry k v es \<and> entry_lookup es' = (entry_lookup es)(k \<mapsto> v)"
  using pager.tx.btree_Insert_spec [of tp n es bt v fuel k] assms entry_lookup_ins tx_btree_ascending
  by (auto simp: tx_btree_def)

theorem btree_insert_refines_witness:
  "\<exists>bt tp bt' tp' n' es'. tx_btree 0 [] bt tp \<and>
     btree_Insert (tx_store pager_store) 1 7 (replicate 256 3) (bt, tp) = (Inr (), (bt', tp')) \<and>
     tx_btree n' es' bt' tp' \<and> entry_lookup es' 7 = Some (replicate 256 3)"
proof -
  obtain bt tp where b: "tx_btree 0 [] bt tp" "2 ^ 32 - 4 \<le> pager_room (txbase tp)"
    using tx_btree_example by blast
  have "length (replicate 256 3 :: byte list) = ValueSize" "0 < (1 :: nat)"
      "0 + 2 \<le> pager_room (txbase tp)" using b(2) by (simp_all add: ValueSize_def)
  from btree_insert_refines [OF b(1) this, of 7] b(1) show ?thesis by fastforce
qed

text \<open>C10: \<open>Search\<close> returns the value of the key with \<open>true\<close>, or the zero value with \<open>false\<close> when
  the key is absent, and changes nothing; a fuel above the height is enough.\<close>

theorem btree_search_refines:
  assumes "tx_btree n es bt tp" and "n < fuel"
  shows "\<exists>tp'. btree_Search (tx_store pager_store) fuel bt key tp =
     (Inr (case entry_lookup es key of
             None \<Rightarrow> (replicate ValueSize 0, False) | Some v \<Rightarrow> (v, True)), tp') \<and> tx_btree n es bt tp'"
  using pager.tx.btree_Search_spec [of tp n es bt fuel key] assms tx_btree_same_store [OF assms(1)]
  by (auto simp: tx_btree_def)

theorem btree_search_refines_witness:
  "\<exists>bt tp tp'. btree_Search (tx_store pager_store) 1 bt 7 tp =
     (Inr (replicate ValueSize 0, False), tp') \<and> tx_btree 0 [] bt tp'"
proof -
  obtain bt tp where b: "tx_btree 0 [] bt tp" using tx_btree_example by blast
  from btree_search_refines [OF b, of 1 7] show ?thesis by (auto simp: entry_lookup_def)
qed

text \<open>C23: \<open>Delete\<close> reports whether the key was present and removes exactly that key; the tree keeps
  its shape, its height and its pages.\<close>

theorem btree_delete_refines:
  assumes "tx_btree n es bt tp" and "n < fuel"
  shows "\<exists>tp' es'. btree_Delete (tx_store pager_store) fuel bt k tp = (Inr (entry_lookup es k \<noteq> None), tp') \<and>
     tx_btree n es' bt tp' \<and> entry_lookup es' = (entry_lookup es)(k := None) \<and>
     pager_live (txbase tp') = pager_live (txbase tp)"
  using pager.tx.btree_Delete_spec [of tp n es bt fuel k] assms entry_lookup_delete
  by (fastforce simp: tx_btree_def)

theorem btree_delete_refines_witness:
  "\<exists>bt tp tp' es'. btree_Delete (tx_store pager_store) 1 bt 7 tp = (Inr False, tp') \<and>
     tx_btree 0 es' bt tp' \<and> entry_lookup es' 7 = None"
proof -
  obtain bt tp where b: "tx_btree 0 [] bt tp" using tx_btree_example by blast
  obtain tp' es' where d: "btree_Delete (tx_store pager_store) 1 bt 7 tp =
      (Inr (entry_lookup [] 7 \<noteq> None), tp')" "tx_btree 0 es' bt tp'"
      "entry_lookup es' = (entry_lookup [])(7 := None)"
    using btree_delete_refines [OF b, of 1 7] by auto
  have "entry_lookup [] 7 = None" by (simp add: entry_lookup_def)
  moreover have "entry_lookup es' 7 = None" by (simp add: d(3))
  ultimately show ?thesis using d(1,2) by auto
qed

text \<open>C9: \<open>RangeScan\<close> returns exactly the entries with \<open>minKey \<le> key \<le> maxKey\<close>, in ascending order,
  by walking the leaf chain; the walk ends: a fuel above the number of pages in use is enough.\<close>

theorem btree_range_scan_refines:
  assumes "tx_btree n es bt tp" and "card (pager_live (txbase tp)) < fuel"
  shows "\<exists>tp' rs. btree_RangeScan (tx_store pager_store) fuel bt minKey maxKey tp = (Inr rs, tp') \<and>
     rs = filter (\<lambda>e. minKey \<le> Key e \<and> Key e \<le> maxKey) es \<and> sorted_wrt (<) (map Key rs) \<and>
     tx_btree n es bt tp'"
proof -
  have "ascending (filter (in_range minKey maxKey) es)"
    by (rule ascending_filter [OF tx_btree_ascending [OF assms(1)]])
  moreover have "in_range minKey maxKey = (\<lambda>e. minKey \<le> Key e \<and> Key e \<le> maxKey)"
    by (simp add: fun_eq_iff in_range_def)
  ultimately show ?thesis
    using pager.tx.btree_RangeScan_spec [of tp n es bt fuel minKey maxKey] assms
      tx_btree_same_store [OF assms(1)]
    by (auto simp: tx_btree_def ascending_def)
qed

theorem btree_range_scan_refines_witness:
  "\<exists>bt tp tp' fuel. btree_RangeScan (tx_store pager_store) fuel bt 3 9 tp = (Inr [], tp')"
proof -
  obtain bt tp where b: "tx_btree 0 [] bt tp" using tx_btree_example by blast
  from btree_range_scan_refines [OF b lessI, of 3 9] show ?thesis by auto
qed

text \<open>C24: a tree committed through the transaction pager is the tree found in the file: after
  \<open>Flush\<close>, in any order of the dirty pages, \<open>Open\<close> on the raw pager with the header page gives the
  same handle, and the file holds the same entries.\<close>

theorem btree_commit_reopen:
  assumes "tx_btree n es bt tp" and "distinct ord" and "set ord = dom (dirty tp)"
  shows "\<exists>tp' pg. txp_Flush pager_store ord tp = (Inr (), tp') \<and> file_btree n es bt (txbase tp') \<and>
     btree_Open pager_store (headerPage bt) (txbase tp') = (Inr bt, pg) \<and> file_btree n es bt pg"
proof -
  have ok: "txp_inv pager_inv pager_live tp" using assms(1) by (simp add: tx_btree_def)
  obtain tp' where tp': "txp_Flush pager_store ord tp = (Inr (), tp')" "pager_inv (txbase tp')"
      "pager_live (txbase tp') = pager_live (txbase tp)"
      "\<forall>j\<in>pager_live (txbase tp). pager_view (txbase tp') j = txp_view pager_view tp j"
    using pager.flush_view [OF ok assms(2,3)] by blast
  then have rel: "btree_rel (pager_live (txbase tp')) (pager_view (txbase tp')) n es bt"
    using assms(1) btree_rel_view_cong [of "pager_live (txbase tp)" "txp_view pager_view tp"]
    by (simp add: tx_btree_def)
  obtain pg where pg: "btree_Open pager_store (headerPage bt) (txbase tp') = (Inr bt, pg)"
      "pager.same_store (txbase tp') pg"
    using pager.btree_Open_spec [OF tp'(2) rel] by blast
  then have "btree_rel (pager_live pg) (pager_view pg) n es bt"
    using pager.btree_rel_same_store [OF rel] by blast
  then show ?thesis using tp' rel pg by (auto simp: file_btree_def pager.same_store_def)
qed

theorem btree_commit_reopen_witness:
  "\<exists>tp ord bt tp' pg. txp_Flush pager_store ord tp = (Inr (), tp') \<and>
     btree_Open pager_store (headerPage bt) (txbase tp') = (Inr bt, pg)"
proof -
  obtain bt tp where b: "tx_btree 0 [] bt tp" using tx_btree_example by blast
  have "finite (dom (dirty tp))" by simp
  then obtain ord where ord: "set ord = dom (dirty tp)" "distinct ord" using finite_distinct_list by metis
  show ?thesis using btree_commit_reopen [OF b ord(2,1)] by blast
qed

end
