(* ===== verification/BTreeCursor.thy ===== *)
theory BTreeCursor
  imports BTreeTx
begin

text \<open>
  \<open>src/btree/cursor.go\<close>: the lazy iterator over the leaf chain. A cursor yields the
  entries of its range one by one, reading a leaf only when it is reached. The body of
  the loop of \<open>Next\<close> returns in every case, so it is translated without a loop.

  The lemmas: the cursor agrees with \<open>RangeScan\<close> while no leaf of the chain is empty;
  when the next leaf is empty, which deletions bring about since leaves are never merged,
  \<open>Next\<close> indexes an empty slice.
\<close>

record Cursor =
  cleaf :: "LeafNode option"
  cpos :: nat
  cmaxKey :: u64
  cdone :: bool

fun cursor_seek :: "('s, 'z) PageStore_scheme \<Rightarrow> nat \<Rightarrow> u32 \<Rightarrow> u64 \<Rightarrow> u64 \<Rightarrow> ('s, Cursor) go" where
  "cursor_seek ps 0 nodeID minKey maxKey = failG OutOfFuel"
| "cursor_seek ps (Suc fuel) nodeID minKey maxKey =
     bindG (ReadPage ps nodeID) (\<lambda>p.
     if PageNodeType p = NodeTypeLeaf then
       bindG (liftG (DecodeLeaf p)) (\<lambda>leaf.
       returnG \<lparr>cleaf = Some leaf, cpos = fst (LeafSearchKey (Entries leaf) minKey),
                cmaxKey = maxKey, cdone = False\<rparr>)
     else
       bindG (liftG (DecodeInternal p)) (\<lambda>internal.
       cursor_seek ps fuel (Children internal ! FindChildIndex (Keys internal) minKey) minKey maxKey))"

definition NewCursor ::
  "('s, 'z) PageStore_scheme \<Rightarrow> nat \<Rightarrow> BTree \<Rightarrow> u64 \<Rightarrow> u64 \<Rightarrow> ('s, Cursor) go" where
  "NewCursor ps fuel bt minKey maxKey =
     (if minKey > maxKey then
        returnG \<lparr>cleaf = None, cpos = 0, cmaxKey = 0, cdone = True\<rparr>
      else cursor_seek ps fuel (rootID bt) minKey maxKey)"

text \<open>\<open>e := c.leaf.Entries[c.pos]\<close> and what follows; the result \<open>None\<close> is \<open>(Entry{}, false, nil)\<close>.\<close>

definition cursor_emit :: "LeafNode \<Rightarrow> nat \<Rightarrow> Cursor \<Rightarrow> (go_error + Entry option) \<times> Cursor" where
  "cursor_emit leaf pos c =
     (if length (Entries leaf) \<le> pos then (Inl Panic, c)
      else
        let e = Entries leaf ! pos in
        if Key e > cmaxKey c then (Inr None, c\<lparr>cdone := True\<rparr>)
        else (Inr (Some e), c\<lparr>cpos := pos + 1\<rparr>))"

definition cursor_Next :: "('s, 'z) PageStore_scheme \<Rightarrow> (Cursor \<times> 's, Entry option) go" where
  "cursor_Next ps cs =
     (let (c, s) = cs in
      if cdone c then (Inr None, (c, s))
      else case cleaf c of
        None \<Rightarrow> (Inl Panic, (c, s))
      | Some leaf \<Rightarrow>
          if length (Entries leaf) \<le> cpos c then
            (if NextLeaf leaf = 0 then (Inr None, (c\<lparr>cdone := True\<rparr>, s))
             else case bindG (ReadPage ps (NextLeaf leaf)) (\<lambda>p. liftG (DecodeLeaf p)) s of
                 (Inl e, s) \<Rightarrow> (Inl e, (c, s))
               | (Inr leaf, s) \<Rightarrow>
                   let (r, c) = cursor_emit leaf 0 (c\<lparr>cleaf := Some leaf, cpos := 0\<rparr>)
                   in (r, (c, s)))
          else let (r, c) = cursor_emit leaf (cpos c) c in (r, (c, s)))"

definition cursor_Close :: "Cursor \<Rightarrow> go_error + unit" where
  "cursor_Close c = Inr ()"

text \<open>A caller that calls \<open>Next\<close> until it answers false: the loop of the executor's scans.\<close>

fun cursor_drain :: "('s, 'z) PageStore_scheme \<Rightarrow> nat \<Rightarrow> Cursor \<times> 's \<Rightarrow> (go_error + Entry list) \<times> Cursor \<times> 's" where
  "cursor_drain ps 0 cs = (Inl OutOfFuel, cs)"
| "cursor_drain ps (Suc fuel) cs =
     bindG (cursor_Next ps) (\<lambda>r.
       case r of None \<Rightarrow> returnG []
       | Some e \<Rightarrow> bindG (cursor_drain ps fuel) (\<lambda>es. returnG (e # es))) cs"

section \<open>What a cursor has still to yield\<close>

definition chain_at :: "u32 set \<Rightarrow> (u32 \<Rightarrow> byte list) \<Rightarrow> u32 \<Rightarrow> (u32 \<times> Entry list \<times> u32) list \<Rightarrow> bool" where
  "chain_at L V i ls \<longleftrightarrow> path i ls 0 \<and> (\<forall>(j, es, nx)\<in>set ls. j \<in> L \<and> leaf_at V j es nx)"

definition no_empty_leaf :: "(u32 \<times> Entry list \<times> u32) list \<Rightarrow> bool" where
  "no_empty_leaf ls \<longleftrightarrow> (\<forall>(j, es, nx)\<in>set ls. es \<noteq> [])"

definition cursor_at :: "u32 set \<Rightarrow> (u32 \<Rightarrow> byte list) \<Rightarrow> Cursor \<Rightarrow> Entry list \<Rightarrow> bool" where
  "cursor_at L V c rest \<longleftrightarrow>
     (\<exists>leaf ls. \<not> cdone c \<and> cleaf c = Some leaf \<and> cpos c \<le> length (Entries leaf) \<and>
        chain_at L V (NextLeaf leaf) ls \<and> no_empty_leaf ls \<and>
        rest = drop (cpos c) (Entries leaf) @ leaf_entries ls)"

lemma LeafSearchKey_lower_bound:
  assumes "ascending es"
  shows "fst (LeafSearchKey es k) \<le> length es \<and> (\<forall>e\<in>set (take (fst (LeafSearchKey es k)) es). Key e < k) \<and>
    (\<forall>e\<in>set (drop (fst (LeafSearchKey es k)) es). k \<le> Key e)"
proof -
  obtain j found where j: "LeafSearchKey es k = (j, found)" by fastforce
  show ?thesis
  proof (cases found)
    case True
    then have f: "j < length es" "Key (es ! j) = k" using LeafSearchKey_cases [OF assms j] by auto
    have "ascending (take j es @ es ! j # drop (Suc j) es)"
      using assms id_take_nth_drop [OF f(1)] by simp
    moreover have "drop j es = es ! j # drop (Suc j) es" using f(1) by (simp add: Cons_nth_drop_Suc)
    ultimately show ?thesis using f j unfolding ascending_simps by auto
  next
    case False
    then show ?thesis using LeafSearchKey_cases [OF assms j] j by auto
  qed
qed

lemma takeWhile_filter:
  "ascending es \<Longrightarrow> takeWhile (\<lambda>e. Key e \<le> mx) es = filter (\<lambda>e. Key e \<le> mx) es"
proof (induction es)
  case (Cons e es)
  have "mx < Key x" if "mx < Key e" "x \<in> set es" for x
    using Cons.prems that less_trans by auto
  then have "\<not> Key e \<le> mx \<Longrightarrow> filter (\<lambda>e. Key e \<le> mx) es = []"
    by (auto simp: filter_empty_conv not_le)
  then show ?case using Cons by auto
qed simp

lemma chain_at_cong:
  assumes "chain_at L V i ls" and "\<forall>j\<in>L. W j = V j"
  shows "chain_at L W i ls"
  using assms leaf_at_cong [of W _ V] by (fastforce simp: chain_at_def)

lemma chain_at_Cons:
  "chain_at L V i ((j, es, nx) # ls) \<longleftrightarrow> j = i \<and> i \<in> L \<and> leaf_at V i es nx \<and> chain_at L V nx ls"
  by (auto simp: chain_at_def)

context page_store
begin

lemma same_store_refl: "ok s \<Longrightarrow> same_store s s"
  by (simp add: same_store_def)

lemma cursor_Next_spec:
  assumes ok: "ok s" and c: "cursor_at (live s) (view s) c rest"
  shows "\<exists>c' s'. same_store s s' \<and> cmaxKey c' = cmaxKey c \<and>
     (if rest = [] \<or> cmaxKey c < Key (hd rest)
      then cursor_Next ps (c, s) = (Inr None, (c', s')) \<and> cdone c'
      else cursor_Next ps (c, s) = (Inr (Some (hd rest)), (c', s')) \<and>
           cursor_at (live s') (view s') c' (tl rest))"
proof -
  obtain leaf ls where l: "\<not> cdone c" "cleaf c = Some leaf" "cpos c \<le> length (Entries leaf)"
      "chain_at (live s) (view s) (NextLeaf leaf) ls" "no_empty_leaf ls"
      "rest = drop (cpos c) (Entries leaf) @ leaf_entries ls"
    using c by (auto simp: cursor_at_def)
  show ?thesis
  proof (cases "length (Entries leaf) \<le> cpos c")
    case False
    then have r: "rest = Entries leaf ! cpos c # drop (Suc (cpos c)) (Entries leaf) @ leaf_entries ls"
      using l(6) by (simp add: Cons_nth_drop_Suc [symmetric])
    let ?c = "c\<lparr>cpos := cpos c + 1\<rparr>"
    have "cursor_at (live s) (view s) ?c (tl rest)"
      unfolding cursor_at_def using l False r by (intro exI [of _ leaf] exI [of _ ls]) simp
    then show ?thesis
      using l(1,2) False r same_store_refl [OF ok]
      by (intro exI [of _ "if cmaxKey c < Key (hd rest) then c\<lparr>cdone := True\<rparr> else ?c"] exI [of _ s])
        (simp add: cursor_Next_def cursor_emit_def Let_def)
  next
    case True
    then have rest: "rest = leaf_entries ls" using l(6) by simp
    show ?thesis
    proof (cases ls)
      case Nil
      then have "NextLeaf leaf = 0" using l(4) by (simp add: chain_at_def)
      then show ?thesis
        using l True rest Nil same_store_refl [OF ok]
        by (intro exI [of _ "c\<lparr>cdone := True\<rparr>"] exI [of _ s]) (simp add: cursor_Next_def)
    next
      case (Cons m ms)
      then obtain es nx where m: "m = (NextLeaf leaf, es, nx)" "es \<noteq> []"
        using l(4,5) by (cases m) (auto simp: chain_at_def no_empty_leaf_def)
      have at: "NextLeaf leaf \<in> live s" "leaf_at (view s) (NextLeaf leaf) es nx"
          "chain_at (live s) (view s) nx ms"
        using l(4) by (simp_all add: Cons m(1) chain_at_Cons)
      then have nz: "NextLeaf leaf \<noteq> 0" using live_nonzero [OF ok] by metis
      obtain p s1 where p: "ReadPage ps (NextLeaf leaf) s = (Inr p, s1)"
          "DecodeLeaf p = Inr \<lparr>LeafPageID = NextLeaf leaf, Entries = es, NextLeaf = nx\<rparr>"
          "same_store s s1"
        by (rule read_leaf [OF ok, of "NextLeaf leaf" es nx]) (use at in \<open>simp_all add: holds_tree_BLeaf\<close>)
      let ?leaf = "\<lparr>LeafPageID = NextLeaf leaf, Entries = es, NextLeaf = nx\<rparr>"
      let ?c = "c\<lparr>cleaf := Some ?leaf, cpos := 1\<rparr>"
      have r: "rest = hd es # tl es @ leaf_entries ms" using rest m by (simp add: Cons)
      have r0: "rest \<noteq> []" "hd rest = es ! 0" using r m(2) by (simp_all add: hd_conv_nth)
      have "chain_at (live s1) (view s1) nx ms"
        using chain_at_cong [OF at(3)] p(3) by (simp add: same_store_def)
      then have "cursor_at (live s1) (view s1) ?c (tl rest)"
        unfolding cursor_at_def using l(1,5) m(2) r
        by (intro exI [of _ ?leaf] exI [of _ ms]) (simp add: Cons no_empty_leaf_def drop_Suc Suc_leI)
      then show ?thesis
        using l(1,2) True nz p m(2) r0
        by (intro exI [of _ "if cmaxKey c < Key (hd rest)
              then c\<lparr>cleaf := Some ?leaf, cpos := 0, cdone := True\<rparr> else ?c"] exI [of _ s1])
          (simp add: cursor_Next_def cursor_emit_def Let_def)
    qed
  qed
qed

lemma cursor_drain_spec:
  assumes "ok s" and "cursor_at (live s) (view s) c rest" and "length rest < fuel"
  shows "\<exists>c' s'. cursor_drain ps fuel (c, s) =
     (Inr (takeWhile (\<lambda>e. Key e \<le> cmaxKey c) rest), (c', s')) \<and> same_store s s'"
  using assms
proof (induction rest arbitrary: c s fuel)
  case Nil
  then obtain f where f: "fuel = Suc f" by (cases fuel) auto
  from cursor_Next_spec [OF Nil(1,2)] show ?case by (auto simp: f)
next
  case (Cons e rest)
  then obtain f where f: "fuel = Suc f" "length rest < f" by (cases fuel) auto
  obtain c1 s1 where n: "same_store s s1" "cmaxKey c1 = cmaxKey c"
      "if cmaxKey c < Key e then cursor_Next ps (c, s) = (Inr None, (c1, s1))
       else cursor_Next ps (c, s) = (Inr (Some e), (c1, s1)) \<and> cursor_at (live s1) (view s1) c1 rest"
    using cursor_Next_spec [OF Cons.prems(1,2)] by (cases "cmaxKey c < Key e") auto
  show ?case
  proof (cases "cmaxKey c < Key e")
    case True
    then show ?thesis using n by (auto simp: f(1))
  next
    case False
    have "ok s1" using n(1) by (simp add: same_store_def)
    then obtain c2 s2 where "cursor_drain ps f (c1, s1) =
        (Inr (takeWhile (\<lambda>e. Key e \<le> cmaxKey c) rest), (c2, s2))" "same_store s1 s2"
      using Cons.IH [of s1 c1 f] n(2,3) f(2) False by auto
    then show ?thesis using n False same_store_trans [OF n(1)] by (auto simp: f(1))
  qed
qed

lemma cursor_seek_spec:
  assumes "btwf n lo hi t" and "ok s" and "holds_tree (live s) (view s) t"
    and "lo \<le> unat k" and "unat k < hi" and "n < fuel"
  shows "\<exists>c s' i es nx ls ms. cursor_seek ps fuel (root_of t) k mx s = (Inr c, s') \<and> same_store s s' \<and>
     cmaxKey c = mx \<and> \<not> cdone c \<and> cleaf c = Some \<lparr>LeafPageID = i, Entries = es, NextLeaf = nx\<rparr> \<and>
     cpos c \<le> length es \<and> leaves t = ls @ (i, es, nx) # ms \<and>
     (\<forall>e\<in>set (leaf_entries ls @ take (cpos c) es). Key e < k) \<and>
     (\<forall>e\<in>set (drop (cpos c) es @ leaf_entries ms). k \<le> Key e)"
  using assms
proof (induction n arbitrary: lo hi t s fuel)
  case 0
  then obtain i es nx where t: "t = BLeaf i es nx" "ascending es" by (cases t) (auto simp: spans_def)
  obtain f where f: "fuel = Suc f" using 0 by (cases fuel) auto
  obtain p s' where p: "ReadPage ps i s = (Inr p, s')" "PageNodeType p = NodeTypeLeaf"
      "DecodeLeaf p = Inr \<lparr>LeafPageID = i, Entries = es, NextLeaf = nx\<rparr>" "same_store s s'"
    using read_leaf 0(2,3) unfolding t by blast
  have j: "fst (LeafSearchKey es k) \<le> length es \<and> (\<forall>e\<in>set (take (fst (LeafSearchKey es k)) es). Key e < k) \<and>
      (\<forall>e\<in>set (drop (fst (LeafSearchKey es k)) es). k \<le> Key e)"
    by (rule LeafSearchKey_lower_bound [OF t(2)])
  show ?case
    using p j by (intro exI [of _ "\<lparr>cleaf = Some \<lparr>LeafPageID = i, Entries = es, NextLeaf = nx\<rparr>,
        cpos = fst (LeafSearchKey es k), cmaxKey = mx, cdone = False\<rparr>"] exI [of _ s'] exI [of _ i]
        exI [of _ es] exI [of _ nx] exI [of _ "[]"]) (simp add: t f)
next
  case (Suc n)
  then obtain i ks ts where t: "t = BNode i ks ts" by (cases t) auto
  obtain f where f: "fuel = Suc f" "n < f" using Suc.prems(6) by (cases fuel) auto
  obtain p s' t1 u t2 where d: "ReadPage ps i s = (Inr p, s')" "PageNodeType p = NodeTypeInternal"
      "DecodeInternal p = Inr \<lparr>InternalPageID = i, Keys = ks, Children = map root_of ts\<rparr>"
      "same_store s s'" "holds_tree (live s') (view s') u"
      "ts = t1 @ u # t2" "length t1 = FindChildIndex ks k" "map root_of ts ! FindChildIndex ks k = root_of u"
      "btwf n (last_bound lo (take (length t1) ks)) (next_bound hi (drop (length t1) ks)) u"
      "last_bound lo (take (length t1) ks) \<le> unat k"
      "unat k < next_bound hi (drop (length t1) ks)"
      "\<forall>e\<in>set (forest_entries t1). Key e < k" "\<forall>e\<in>set (forest_entries t2). k < Key e"
      "wf_pre (btwf n) lo (take (length t1) ks) t1" "wf_suf (btwf n) hi (drop (length t1) ks) t2"
      "length t1 \<le> length ks"
    by (rule descend [OF Suc.prems(1-5) [unfolded t]])
  obtain c s'' l es nx ls ms where l: "cursor_seek ps f (root_of u) k mx s' = (Inr c, s'')" "same_store s' s''"
     "cmaxKey c = mx" "\<not> cdone c" "cleaf c = Some \<lparr>LeafPageID = l, Entries = es, NextLeaf = nx\<rparr>"
     "cpos c \<le> length es" "leaves u = ls @ (l, es, nx) # ms"
     "\<forall>e\<in>set (leaf_entries ls @ take (cpos c) es). Key e < k"
     "\<forall>e\<in>set (drop (cpos c) es @ leaf_entries ms). k \<le> Key e"
    using Suc.IH [OF d(9) _ d(5,10,11) f(2)] d(4) unfolding same_store_def by blast
  have "leaves t = (concat (map leaves t1) @ ls) @ (l, es, nx) # (ms @ concat (map leaves t2))"
    by (simp add: t d(6) l(7))
  moreover have "\<forall>e\<in>set (leaf_entries (concat (map leaves t1) @ ls) @ take (cpos c) es). Key e < k"
    using d(12) l(8) by (auto simp: leaf_entries_concat)
  moreover have "\<forall>e\<in>set (drop (cpos c) es @ leaf_entries (ms @ concat (map leaves t2))). k \<le> Key e"
    using d(13) l(9) by (auto simp: leaf_entries_concat)
  moreover have "cursor_seek ps fuel (root_of t) k mx s = (Inr c, s'')"
    using d(1-3,8) l(1) by (simp add: t f(1))
  ultimately show ?case using same_store_trans [OF d(4) l(2)] l(3-6) by blast
qed

lemma NewCursor_spec:
  assumes ok: "ok s" and t: "btree_tree (live s) (view s) n t bt" and ne: "no_empty_leaf (tl (leaves t))"
    and "n < fuel" and "mn \<le> mx"
  shows "\<exists>c s1 rest. NewCursor ps fuel bt mn mx s = (Inr c, s1) \<and> same_store s s1 \<and> cmaxKey c = mx \<and>
     cursor_at (live s1) (view s1) c rest \<and>
     takeWhile (\<lambda>e. Key e \<le> mx) rest = filter (in_range mn mx) (entries t) \<and> length rest \<le> length (entries t)"
proof -
  have w: "btwf n 0 (2 ^ 64) t" "holds_tree (live s) (view s) t" "distinct (ids t)" "root_of t = rootID bt"
      "\<exists>a. path a (leaves t) 0"
    using t by (auto simp: btree_tree_def)
  from cursor_seek_spec [OF w(1) ok w(2) unat_u64_bound [of mn] assms(4), of mx]
  obtain c s1 i es nx ls ms where c: "cursor_seek ps fuel (rootID bt) mn mx s = (Inr c, s1)" "same_store s s1"
     "cmaxKey c = mx" "\<not> cdone c" "cleaf c = Some \<lparr>LeafPageID = i, Entries = es, NextLeaf = nx\<rparr>"
     "cpos c \<le> length es" "leaves t = ls @ (i, es, nx) # ms"
     "\<forall>e\<in>set (leaf_entries ls @ take (cpos c) es). Key e < mn"
     "\<forall>e\<in>set (drop (cpos c) es @ leaf_entries ms). mn \<le> Key e"
    unfolding w(4) by blast
  let ?rest = "drop (cpos c) es @ leaf_entries ms"
  have ent: "entries t = (leaf_entries ls @ take (cpos c) es) @ ?rest" by (simp add: entries_def c(7))
  have ht: "holds_tree (live s1) (view s1) t" by (rule same_store_holds [OF c(2) w(2)])
  have at: "\<forall>(j, es, nx)\<in>set ms. j \<in> live s1 \<and> leaf_at (view s1) j es nx"
    using ht rep_leaves c(7) by (fastforce simp: holds_tree_def)
  have "no_empty_leaf ms" using ne c(7) by (cases ls) (auto simp: no_empty_leaf_def)
  moreover have "path nx ms 0" using w(5) by (auto simp: c(7) path_append)
  ultimately have cur: "cursor_at (live s1) (view s1) c ?rest"
    unfolding cursor_at_def chain_at_def using c(4-6) at
    by (intro exI [of _ "\<lparr>LeafPageID = i, Entries = es, NextLeaf = nx\<rparr>"] exI [of _ ms]) simp
  have "ascending (entries t)" using btwf_spans [OF w(1)] by (simp add: spans_def)
  then have "ascending ?rest" using ent ascending_simps(3) by metis
  then have "takeWhile (\<lambda>e. Key e \<le> mx) ?rest = filter (\<lambda>e. Key e \<le> mx) ?rest"
    by (rule takeWhile_filter)
  also have "\<dots> = filter (in_range mn mx) ?rest"
    using c(9) by (intro filter_cong) (auto simp: in_range_def)
  also have "\<dots> = filter (in_range mn mx) (entries t)"
  proof -
    have "filter (in_range mn mx) (leaf_entries ls @ take (cpos c) es) = []"
      using c(8) unfolding filter_empty_conv in_range_def by (meson leD)
    then show ?thesis unfolding ent by (simp only: filter_append append_Nil)
  qed
  finally show ?thesis
    using assms(5) c(1-3) cur ent by (intro exI [of _ c] exI [of _ s1] exI [of _ ?rest]) (simp add: NewCursor_def leD)
qed

lemma NewCursor_empty:
  "mx < mn \<Longrightarrow> NewCursor ps fuel bt mn mx s = (Inr \<lparr>cleaf = None, cpos = 0, cmaxKey = 0, cdone = True\<rparr>, s)"
  by (simp add: NewCursor_def)

lemma cursor_range_spec:
  assumes ok: "ok s" and t: "btree_tree (live s) (view s) n t bt" and ne: "no_empty_leaf (tl (leaves t))"
    and fuel: "card (live s) < fuel" "length (entries t) < fuel'"
  shows "\<exists>c s1 c' s2. NewCursor ps fuel bt mn mx s = (Inr c, s1) \<and> same_store s s1 \<and>
     cursor_drain ps fuel' (c, s1) = (Inr (filter (in_range mn mx) (entries t)), (c', s2)) \<and> same_store s s2"
proof (cases "mn \<le> mx")
  case False
  then have "filter (in_range mn mx) (entries t) = []" by (auto simp: in_range_def filter_empty_conv)
  moreover obtain f where "fuel' = Suc f" using fuel(2) by (cases fuel') auto
  moreover have "cursor_Next ps (\<lparr>cleaf = None, cpos = 0, cmaxKey = 0, cdone = True\<rparr>, s) =
      (Inr None, (\<lparr>cleaf = None, cpos = 0, cmaxKey = 0, cdone = True\<rparr>, s))"
    by (simp add: cursor_Next_def)
  ultimately show ?thesis
    using False same_store_refl [OF ok] by (simp add: NewCursor_empty not_le)
next
  case True
  have w: "btwf n 0 (2 ^ 64) t" "holds_tree (live s) (view s) t" "distinct (ids t)"
    using t by (auto simp: btree_tree_def)
  have "n < fuel" using holds_tree_card [OF w(2,3)] height_ids [OF w(1)] fuel(1) by linarith
  then obtain c s1 rest where c: "NewCursor ps fuel bt mn mx s = (Inr c, s1)" "same_store s s1" "cmaxKey c = mx"
     "cursor_at (live s1) (view s1) c rest"
     "takeWhile (\<lambda>e. Key e \<le> mx) rest = filter (in_range mn mx) (entries t)" "length rest \<le> length (entries t)"
    using NewCursor_spec [OF ok t ne _ True] by blast
  have "ok s1" using c(2) by (simp add: same_store_def)
  then obtain c' s2 where d: "cursor_drain ps fuel' (c, s1) =
     (Inr (takeWhile (\<lambda>e. Key e \<le> mx) rest), (c', s2))" "same_store s1 s2"
    using cursor_drain_spec [OF _ c(4), of fuel'] c(3,6) fuel(2) by auto
  then show ?thesis
    using c(1,2,5) same_store_trans [OF c(2)] by auto
qed

lemma cursor_panic_spec:
  assumes "ok s" and "\<not> cdone c" and "cleaf c = Some leaf" and "length (Entries leaf) \<le> cpos c"
    and "NextLeaf leaf \<in> live s" and "leaf_at (view s) (NextLeaf leaf) [] nx"
  shows "fst (cursor_Next ps (c, s)) = Inl Panic"
proof -
  obtain p s1 where "ReadPage ps (NextLeaf leaf) s = (Inr p, s1)"
      "DecodeLeaf p = Inr \<lparr>LeafPageID = NextLeaf leaf, Entries = [], NextLeaf = nx\<rparr>"
    by (rule read_leaf [OF assms(1), of "NextLeaf leaf" "[]" nx])
      (use assms(5,6) in \<open>simp_all add: holds_tree_BLeaf\<close>)
  moreover have "NextLeaf leaf \<noteq> 0" using live_nonzero [OF assms(1)] assms(5) by metis
  ultimately show ?thesis
    using assms(2-4) by (simp add: cursor_Next_def cursor_emit_def Let_def)
qed

end

section \<open>Properties of cursors\<close>

lemma empty_tree_example:
  "\<exists>bt tp. txp_inv pager_inv pager_live tp \<and>
     btree_tree (pager_live (txbase tp)) (txp_view pager_view tp) 0 (BLeaf (rootID bt) [] 0) bt"
proof -
  obtain bt tp where "tx_btree 0 [] bt tp" using tx_btree_example by blast
  then obtain t where t: "txp_inv pager_inv pager_live tp" "entries t = []"
      "btree_tree (pager_live (txbase tp)) (txp_view pager_view tp) 0 t bt"
    by (auto simp: tx_btree_def btree_rel_def)
  then obtain i nx where "t = BLeaf i [] nx" by (cases t) (auto simp: btree_tree_def)
  then show ?thesis using t(1,3) by (auto simp: btree_tree_def intro!: exI [of _ bt] exI [of _ tp])
qed

text \<open>A cursor that is drained yields the same entries as the range asks for: exactly those with
  \<open>minKey \<le> key \<le> maxKey\<close>, in key order, provided that no leaf after the first is empty. The
  iteration ends: one call of \<open>Next\<close> more than there are entries is enough.\<close>

lemma cursor_yields_range:
  assumes "txp_inv pager_inv pager_live tp"
    and "btree_tree (pager_live (txbase tp)) (txp_view pager_view tp) n t bt"
    and "no_empty_leaf (tl (leaves t))"
    and "card (pager_live (txbase tp)) < fuel" and "length (entries t) < fuel'"
  shows "\<exists>c tp1 c' tp2. NewCursor (tx_store pager_store) fuel bt minKey maxKey tp = (Inr c, tp1) \<and>
     cursor_drain (tx_store pager_store) fuel' (c, tp1) =
       (Inr (filter (\<lambda>e. minKey \<le> Key e \<and> Key e \<le> maxKey) (entries t)), (c', tp2))"
proof -
  have "in_range minKey maxKey = (\<lambda>e. minKey \<le> Key e \<and> Key e \<le> maxKey)"
    by (simp add: fun_eq_iff in_range_def)
  then show ?thesis using pager.tx.cursor_range_spec [OF assms, of minKey maxKey] by auto
qed

text \<open>C31: \<open>Next\<close> does not survive an empty leaf: when the current leaf is used up and the next leaf of
  the chain holds no entries, as it does once all its entries were deleted, \<open>Next\<close> indexes the empty
  entry slice and panics.\<close>

lemma cursor_empty_leaf_panics:
  assumes "txp_inv pager_inv pager_live tp" and "\<not> cdone c" and "cleaf c = Some leaf"
    and "length (Entries leaf) \<le> cpos c" and "NextLeaf leaf \<in> pager_live (txbase tp)"
    and "leaf_at (txp_view pager_view tp) (NextLeaf leaf) [] nx"
  shows "fst (cursor_Next (tx_store pager_store) (c, tp)) = Inl Panic"
  by (rule pager.tx.cursor_panic_spec [OF assms])

end
