(* ===== verification/Operators.thy ===== *)
theory Operators
  imports Planner BTreeCursor
begin

text \<open>
  \<open>src/executor/operators.go\<close>: the iterators that run a physical plan. An operator
  is a value that carries its own position; \<open>op_open\<close> and \<open>op_next\<close> take it with the
  storage state and return it moved on. The loops of the \<open>Next\<close> methods, which skip
  rows until one passes, run on fuel; that enough fuel exists is part of what the
  theorems show.

  Two things are fixed when a plan is built: the page store of every table and of
  every secondary index it reads (\<open>ExecEnv\<close>, the results of \<open>pageStoreFor\<close> and
  \<open>getOrOpenIndex\<close> with the files open), and the MVCC snapshot.
\<close>

record 's ExecEnv =
  tblStore :: "string \<Rightarrow> go_error + 's PageStore"
  idxStore :: "string \<Rightarrow> go_error + 's PageStore"

datatype 's Operator =
    ScanOp "'s PageStore" u64 u64 Table Snapshot "Cursor option"
  | IndexLookupOp "'s PageStore" "'s PageStore" u64 u64 Table Snapshot "Cursor option" "BTree option"
  | FilterOp "'s Operator" "Condition list" "Table option"
  | LimitOp "'s Operator" int int
  | ProjectOp "'s Operator" "nat list"
  | UnionOp "'s Operator list" nat nat "u64 set"
  | NlJoinOp "'s Operator" "'s Operator" "Condition list" "string list" "string list"
      "string \<Rightarrow> nat option" "string \<Rightarrow> nat option" "Value list" bool

fun baseTable :: "PhysicalNode \<Rightarrow> Table option" where
  "baseTable (IndexScan t mn mx) = Some t"
| "baseTable (IndexLookup t d mn mx) = Some t"
| "baseTable (FilterNode c ps) = baseTable c"
| "baseTable (LimitNode c n) = baseTable c"
| "baseTable (UnionNode cs k) = (case cs of c # _ \<Rightarrow> baseTable c | [] \<Rightarrow> None)"
| "baseTable (ProjectNode c cols idxs) = None"
| "baseTable (NestedLoopJoin l r on ls rs) = None"

fun buildOp :: "'s ExecEnv \<Rightarrow> Snapshot \<Rightarrow> PhysicalNode \<Rightarrow> go_error + 's Operator"
  and buildOps :: "'s ExecEnv \<Rightarrow> Snapshot \<Rightarrow> PhysicalNode list \<Rightarrow> go_error + 's Operator list" where
  "buildOp env snap (IndexScan t mn mx) =
     bindE (tblStore env (tblName t)) (\<lambda>ps. Inr (ScanOp ps mn mx t snap None))"
| "buildOp env snap (IndexLookup t d mn mx) =
     bindE (tblStore env (tblName t)) (\<lambda>ps.
     bindE (idxStore env (idxName d)) (\<lambda>idxPS.
     Inr (IndexLookupOp ps idxPS mn mx t snap None None)))"
| "buildOp env snap (FilterNode c preds) =
     bindE (buildOp env snap c) (\<lambda>child. Inr (FilterOp child preds (baseTable c)))"
| "buildOp env snap (LimitNode c n) = bindE (buildOp env snap c) (\<lambda>child. Inr (LimitOp child n 0))"
| "buildOp env snap (ProjectNode c cols idxs) =
     bindE (buildOp env snap c) (\<lambda>child. Inr (ProjectOp child idxs))"
| "buildOp env snap (UnionNode cs pkIdx) =
     bindE (buildOps env snap cs) (\<lambda>children. Inr (UnionOp children pkIdx 0 {}))"
| "buildOp env snap (NestedLoopJoin l r on ls rs) =
     bindE (buildOp env snap l) (\<lambda>left.
     bindE (buildOp env snap r) (\<lambda>right.
     Inr (NlJoinOp left right on ls rs Map.empty Map.empty [] False)))"
| "buildOps env snap [] = Inr []"
| "buildOps env snap (c # cs) =
     bindE (buildOp env snap c) (\<lambda>x. bindE (buildOps env snap cs) (\<lambda>xs. Inr (x # xs)))"

section \<open>Join columns\<close>

definition buildColMap :: "string list \<Rightarrow> string \<Rightarrow> nat option" where
  "buildColMap schema =
     (let bare = fold (\<lambda>i m. case split_last_dot (schema ! i) of
                   Some (_, b) \<Rightarrow> (if m (ToLower b) = None then m(ToLower b \<mapsto> i) else m)
                 | None \<Rightarrow> m) [0..<length schema] Map.empty
      in fold (\<lambda>i m. m(ToLower (schema ! i) \<mapsto> i)) [0..<length schema] bare)"

definition resolveInMap :: "string \<Rightarrow> (string \<Rightarrow> nat option) \<Rightarrow> nat option" where
  "resolveInMap name m =
     (case m (ToLower name) of
        Some i \<Rightarrow> Some i
      | None \<Rightarrow> (case split_last_dot name of Some (_, b) \<Rightarrow> m (ToLower b) | None \<Rightarrow> None))"

definition compare_at :: "Value list \<Rightarrow> nat \<Rightarrow> Value list \<Rightarrow> nat \<Rightarrow> CompareOp \<Rightarrow> go_error + bool" where
  "compare_at xs i ys j op =
     (if i < length xs \<and> j < length ys then Inr (compareVals (xs ! i) (ys ! j) op) else Inl Panic)"

fun evalOn ::
  "(string \<Rightarrow> nat option) \<Rightarrow> (string \<Rightarrow> nat option) \<Rightarrow> Condition list \<Rightarrow> Value list \<Rightarrow> Value list \<Rightarrow> go_error + bool" where
  "evalOn lm rm [] left right = Inr True"
| "evalOn lm rm (c # cs) left right =
     (case (resolveInMap (Column c) lm, resolveInMap (RHSCol c) rm) of
        (Some i, Some j) \<Rightarrow>
          bindE (compare_at left i right j (Op c)) (\<lambda>b. if b then evalOn lm rm cs left right else Inr False)
      | _ \<Rightarrow>
          (case (resolveInMap (Column c) rm, resolveInMap (RHSCol c) lm) of
             (Some i, Some j) \<Rightarrow>
               bindE (compare_at right i left j (Op c)) (\<lambda>b. if b then evalOn lm rm cs left right else Inr False)
           | _ \<Rightarrow> evalOn lm rm cs left right))"

section \<open>Open, Next, Close\<close>

definition open_cursor ::
  "nat \<Rightarrow> 's PageStore \<Rightarrow> u64 \<Rightarrow> u64 \<Rightarrow> ('s, Cursor) go" where
  "open_cursor fuel ps mn mx = bindG (btree_Open ps 1) (\<lambda>bt. NewCursor ps fuel bt mn mx)"

fun op_close :: "'s Operator \<Rightarrow> 's Operator" where
  "op_close (FilterOp c p t) = FilterOp (op_close c) p t"
| "op_close (LimitOp c n k) = LimitOp (op_close c) n k"
| "op_close (ProjectOp c idxs) = ProjectOp (op_close c) idxs"
| "op_close (UnionOp cs p cur seen) = UnionOp (map op_close cs) p cur seen"
| "op_close (NlJoinOp l r on ls rs lm rm row open') =
     NlJoinOp (op_close l) (if open' then op_close r else r) on ls rs lm rm row False"
| "op_close op = op"

fun op_open :: "nat \<Rightarrow> 's Operator \<Rightarrow> 's \<Rightarrow> (go_error + unit) \<times> 's Operator \<times> 's"
  and ops_open :: "nat \<Rightarrow> 's Operator list \<Rightarrow> 's \<Rightarrow> (go_error + unit) \<times> 's Operator list \<times> 's" where
  "op_open fuel (ScanOp ps mn mx t snap cur) s =
     (case open_cursor fuel ps mn mx s of
        (Inl e, s') \<Rightarrow> (Inl e, ScanOp ps mn mx t snap cur, s')
      | (Inr c, s') \<Rightarrow> (Inr (), ScanOp ps mn mx t snap (Some c), s'))"
| "op_open fuel (IndexLookupOp ps idxPS mn mx t snap cur prim) s =
     (case open_cursor fuel idxPS mn mx s of
        (Inl e, s') \<Rightarrow> (Inl e, IndexLookupOp ps idxPS mn mx t snap cur prim, s')
      | (Inr c, s') \<Rightarrow>
          (case btree_Open ps 1 s' of
             (Inl e, s'') \<Rightarrow> (Inl e, IndexLookupOp ps idxPS mn mx t snap (Some c) prim, s'')
           | (Inr bt, s'') \<Rightarrow> (Inr (), IndexLookupOp ps idxPS mn mx t snap (Some c) (Some bt), s'')))"
| "op_open fuel (FilterOp c p t) s =
     (case op_open fuel c s of (r, c', s') \<Rightarrow> (r, FilterOp c' p t, s'))"
| "op_open fuel (LimitOp c n k) s =
     (case op_open fuel c s of (r, c', s') \<Rightarrow> (r, LimitOp c' n 0, s'))"
| "op_open fuel (ProjectOp c idxs) s =
     (case op_open fuel c s of (r, c', s') \<Rightarrow> (r, ProjectOp c' idxs, s'))"
| "op_open fuel (UnionOp cs p cur seen) s =
     (case ops_open fuel cs s of (r, cs', s') \<Rightarrow> (r, UnionOp cs' p 0 {}, s'))"
| "op_open fuel (NlJoinOp l r on ls rs lm rm row ro) s =
     (case op_open fuel l s of
        (res, l', s') \<Rightarrow> (res, NlJoinOp l' r on ls rs (buildColMap ls) (buildColMap rs) row False, s'))"
| "ops_open fuel [] s = (Inr (), [], s)"
| "ops_open fuel (c # cs) s =
     (case op_open fuel c s of
        (Inl e, c', s') \<Rightarrow> (Inl e, c' # cs, s')
      | (Inr _, c', s') \<Rightarrow> (case ops_open fuel cs s' of (r, cs', s'') \<Rightarrow> (r, c' # cs', s'')))"

definition project_row :: "nat list \<Rightarrow> Value list \<Rightarrow> go_error + Value list" where
  "project_row idxs row = mapE (\<lambda>i. if i < length row then Inr (row ! i) else Inl Panic) idxs"

fun op_next :: "nat \<Rightarrow> 's Operator \<Rightarrow> 's \<Rightarrow> (go_error + Value list option) \<times> 's Operator \<times> 's" where
  "op_next 0 op s = (Inl OutOfFuel, op, s)"
| "op_next (Suc n) (ScanOp ps mn mx t snap cur) s =
     (case cur of
        None \<Rightarrow> (Inl Panic, ScanOp ps mn mx t snap cur, s)
      | Some c \<Rightarrow>
        (case cursor_Next ps (c, s) of
           (Inl e, c', s') \<Rightarrow> (Inl e, ScanOp ps mn mx t snap (Some c'), s')
         | (Inr None, c', s') \<Rightarrow> (Inr None, ScanOp ps mn mx t snap (Some c'), s')
         | (Inr (Some e), c', s') \<Rightarrow>
             if \<not> IsVisible snap (row_xmin (Value e)) (row_xmax (Value e))
             then op_next n (ScanOp ps mn mx t snap (Some c')) s'
             else (case decodeRow t (Value e) of
                     Inl er \<Rightarrow> (Inl er, ScanOp ps mn mx t snap (Some c'), s')
                   | Inr row \<Rightarrow> (Inr (Some row), ScanOp ps mn mx t snap (Some c'), s'))))"
| "op_next (Suc n) (IndexLookupOp ps idxPS mn mx t snap cur prim) s =
     (case (cur, prim) of
        (Some c, Some bt) \<Rightarrow>
        (case cursor_Next idxPS (c, s) of
           (Inl e, c', s') \<Rightarrow> (Inl e, IndexLookupOp ps idxPS mn mx t snap (Some c') prim, s')
         | (Inr None, c', s') \<Rightarrow> (Inr None, IndexLookupOp ps idxPS mn mx t snap (Some c') prim, s')
         | (Inr (Some e), c', s') \<Rightarrow>
             (let pk = from_le (seg 0 8 (Value e)) :: u64;
                  op' = IndexLookupOp ps idxPS mn mx t snap (Some c') prim
              in case btree_Search ps n bt pk s' of
                (Inl er, s'') \<Rightarrow> (Inl er, op', s'')
              | (Inr (val, found), s'') \<Rightarrow>
                  if \<not> found then op_next n op' s''
                  else if \<not> IsVisible snap (row_xmin val) (row_xmax val) then op_next n op' s''
                  else (case decodeRow t val of
                          Inl er \<Rightarrow> (Inl er, op', s'')
                        | Inr row \<Rightarrow> (Inr (Some row), op', s''))))
      | _ \<Rightarrow> (Inl Panic, IndexLookupOp ps idxPS mn mx t snap cur prim, s))"
| "op_next (Suc n) (FilterOp child preds tbl) s =
     (case op_next n child s of
        (Inl e, child', s') \<Rightarrow> (Inl e, FilterOp child' preds tbl, s')
      | (Inr None, child', s') \<Rightarrow> (Inr None, FilterOp child' preds tbl, s')
      | (Inr (Some row), child', s') \<Rightarrow>
          (case evalPreds row tbl preds of
             Inl e \<Rightarrow> (Inl e, FilterOp child' preds tbl, s')
           | Inr True \<Rightarrow> (Inr (Some row), FilterOp child' preds tbl, s')
           | Inr False \<Rightarrow> op_next n (FilterOp child' preds tbl) s'))"
| "op_next (Suc n) (LimitOp child limit count) s =
     (if count \<ge> limit then (Inr None, LimitOp child limit count, s)
      else case op_next n child s of
        (Inr (Some row), child', s') \<Rightarrow> (Inr (Some row), LimitOp child' limit (count + 1), s')
      | (r, child', s') \<Rightarrow> (r, LimitOp child' limit count, s'))"
| "op_next (Suc n) (ProjectOp child idxs) s =
     (case op_next n child s of
        (Inr (Some row), child', s') \<Rightarrow>
          (case project_row idxs row of
             Inl e \<Rightarrow> (Inl e, ProjectOp child' idxs, s')
           | Inr out \<Rightarrow> (Inr (Some out), ProjectOp child' idxs, s'))
      | (r, child', s') \<Rightarrow> (r, ProjectOp child' idxs, s'))"
| "op_next (Suc n) (UnionOp cs pkIdx cur seen) s =
     (if length cs \<le> cur then (Inr None, UnionOp cs pkIdx cur seen, s)
      else case op_next n (cs ! cur) s of
        (Inl e, c', s') \<Rightarrow> (Inl e, UnionOp (cs[cur := c']) pkIdx cur seen, s')
      | (Inr None, c', s') \<Rightarrow> op_next n (UnionOp (cs[cur := c']) pkIdx (Suc cur) seen) s'
      | (Inr (Some row), c', s') \<Rightarrow>
          (if length row \<le> pkIdx then (Inl Panic, UnionOp (cs[cur := c']) pkIdx cur seen, s')
           else let pk = IntVal (row ! pkIdx) in
             if pk \<in> seen then op_next n (UnionOp (cs[cur := c']) pkIdx cur seen) s'
             else (Inr (Some row), UnionOp (cs[cur := c']) pkIdx cur (insert pk seen), s')))"
| "op_next (Suc n) (NlJoinOp l r on ls rs lm rm row ro) s =
     (if \<not> ro then
        (case op_next n l s of
           (Inl e, l', s') \<Rightarrow> (Inl e, NlJoinOp l' r on ls rs lm rm row ro, s')
         | (Inr None, l', s') \<Rightarrow> (Inr None, NlJoinOp l' r on ls rs lm rm row ro, s')
         | (Inr (Some row'), l', s') \<Rightarrow>
             (case op_open n (op_close r) s' of
                (Inl e, r', s'') \<Rightarrow> (Inl e, NlJoinOp l' r' on ls rs lm rm row' False, s'')
              | (Inr _, r', s'') \<Rightarrow> op_next n (NlJoinOp l' r' on ls rs lm rm row' True) s''))
      else
        (case op_next n r s of
           (Inl e, r', s') \<Rightarrow> (Inl e, NlJoinOp l r' on ls rs lm rm row ro, s')
         | (Inr None, r', s') \<Rightarrow> op_next n (NlJoinOp l r' on ls rs lm rm row False) s'
         | (Inr (Some rrow), r', s') \<Rightarrow>
             (case evalOn lm rm on row rrow of
                Inl e \<Rightarrow> (Inl e, NlJoinOp l r' on ls rs lm rm row ro, s')
              | Inr False \<Rightarrow> op_next n (NlJoinOp l r' on ls rs lm rm row ro) s'
              | Inr True \<Rightarrow> (Inr (Some (row @ rrow)), NlJoinOp l r' on ls rs lm rm row ro, s'))))"

text \<open>The loop of \<open>execute\<close>.\<close>

fun drain_op :: "nat \<Rightarrow> 's Operator \<Rightarrow> 's \<Rightarrow> (go_error + Value list list) \<times> 's" where
  "drain_op 0 op s = (Inl OutOfFuel, s)"
| "drain_op (Suc n) op s =
     (case op_next n op s of
        (Inl e, op', s') \<Rightarrow> (Inl e, s')
      | (Inr None, op', s') \<Rightarrow> (Inr [], s')
      | (Inr (Some row), op', s') \<Rightarrow>
          (case drain_op n op' s' of (r, s'') \<Rightarrow> (bindE r (\<lambda>rows. Inr (row # rows)), s'')))"

definition execute ::
  "nat \<Rightarrow> 's ExecEnv \<Rightarrow> Snapshot \<Rightarrow> PhysicalNode \<Rightarrow> ('s, Value list list) go" where
  "execute fuel env snap plan s =
     (case buildOp env snap plan of
        Inl e \<Rightarrow> (Inl e, s)
      | Inr op \<Rightarrow>
          (case op_open fuel op s of
             (Inl e, op', s') \<Rightarrow> (Inl e, s')
           | (Inr _, op', s') \<Rightarrow> drain_op fuel op' s'))"

end
