(* ===== verification/Selects.thy ===== *)
theory Selects
  imports Aggregates Operators
begin

text \<open>
  SELECT from the statement to the result: \<open>execSelectWithSnap\<close> and
  \<open>collectTablesForSelect\<close> of \<open>src/executor/executor.go\<close>, \<open>execAggSelect\<close> of
  \<open>src/executor/agg.go\<close>, and the subquery flattening of \<open>src/executor/subquery.go\<close>. The
  database is seen through its catalog, its statistics and its page stores
  (\<open>ReadView\<close>); the read lock makes one statement one step. A subquery is run by the same
  function, so the depth of nesting is bounded by fuel.

  Flattening keeps the meaning of the clause: the lemmas compare it with a reading of
  IN, EXISTS and scalar comparisons over the result rows of the subqueries.
\<close>

record ('s, 'c) ReadView =
  rvCatalog :: Catalog
  rvStats :: "string \<Rightarrow> 'c CostModel option"
  rvEnv :: "'s ExecEnv"

record Result =
  resColumns :: "string list"
  resRows :: "Value list list"
  resMessage :: string

definition collectTablesForSelect ::
  "('s, 'c) ReadView \<Rightarrow> SelectStmt \<Rightarrow> go_error + Table list \<times> (string \<Rightarrow> 'c CostModel option)" where
  "collectTablesForSelect db s =
     (let refs = From s @ map JoinTable (Joins s) in
      bindE (mapE (\<lambda>ref. case GetTable (rvCatalog db) (refName ref) of
                None \<Rightarrow> Inl (TableMissing (refName ref)) | Some t \<Rightarrow> Inr t) refs) (\<lambda>tables.
      Inr (tables, (\<lambda>k. if k \<in> set (map (\<lambda>ref. ToLower (refName ref)) refs) then rvStats db k else None))))"

definition plan_columns :: "PhysicalNode \<Rightarrow> go_error + string list" where
  "plan_columns plan = (case plan of ProjectNode c cols idxs \<Rightarrow> Inr cols | _ \<Rightarrow> Inl Panic)"

text \<open>Plan and run a statement: the steps that the two paths share.\<close>

definition run_plan ::
  "nat \<Rightarrow> ('s, 'c) ReadView \<Rightarrow> Snapshot \<Rightarrow> SelectStmt \<Rightarrow> ('s, string list \<times> Value list list) go" where
  "run_plan fuel db snap stmt =
     bindG (liftG (collectTablesForSelect db stmt)) (\<lambda>(tables, statsMap).
     bindG (liftG (Plan stmt tables statsMap)) (\<lambda>plan.
     bindG (execute fuel (rvEnv db) snap plan) (\<lambda>rows.
     bindG (liftG (plan_columns plan)) (\<lambda>cols. returnG (cols, rows)))))"

definition limit_rows :: "int \<Rightarrow> 'a list \<Rightarrow> 'a list" where
  "limit_rows n rows = (if n > 0 \<and> int (length rows) > n then take (nat n) rows else rows)"

definition rawStmt :: "SelectStmt \<Rightarrow> SelectStmt" where
  "rawStmt s = SelectStmt [\<lparr>exprCol = ''*'', exprAgg = None, exprAlias = []\<rparr>] (From s) (Joins s) (Where s) [] None [] 0"

definition order_rows ::
  "Value list list \<Rightarrow> string list \<Rightarrow> OrderByExpr list \<Rightarrow> go_error + Value list list" where
  "order_rows rows cols ob = (if ob \<noteq> [] then applyOrderBy rows cols ob else Inr rows)"

definition execAggSelect ::
  "nat \<Rightarrow> ('s, 'c) ReadView \<Rightarrow> Snapshot \<Rightarrow> SelectStmt \<Rightarrow> ('s, Result) go" where
  "execAggSelect fuel db snap s =
     bindG (run_plan fuel db snap (rawStmt s)) (\<lambda>(rawSchema, rawRows).
     bindG (liftG (aggregateRows s rawRows (name_index rawSchema))) (\<lambda>(outRows, outCols).
     bindG (liftG (case Having s of None \<Rightarrow> Inr outRows | Some h \<Rightarrow> applyHaving outRows outCols h (Columns s))) (\<lambda>outRows.
     bindG (liftG (order_rows outRows outCols (OrderBy s))) (\<lambda>outRows.
     returnG \<lparr>resColumns = outCols, resRows = limit_rows (Limit s) outRows, resMessage = []\<rparr>))))"

definition execSelectWithSnap ::
  "nat \<Rightarrow> ('s, 'c) ReadView \<Rightarrow> Snapshot \<Rightarrow> SelectStmt \<Rightarrow> ('s, Result) go" where
  "execSelectWithSnap fuel db snap s =
     (if selectHasAgg s then execAggSelect fuel db snap s
      else
        let planStmt = (if OrderBy s \<noteq> [] \<and> Limit s > 0 then setLimit 0 s else s)
        in bindG (run_plan fuel db snap planStmt) (\<lambda>(cols, rows).
           if OrderBy s \<noteq> [] then
             bindG (liftG (applyOrderBy rows cols (OrderBy s))) (\<lambda>rows.
             returnG \<lparr>resColumns = cols, resRows = limit_rows (Limit s) rows, resMessage = []\<rparr>)
           else returnG \<lparr>resColumns = cols, resRows = rows, resMessage = []\<rparr>))"

section \<open>Subqueries\<close>

definition firstColumnValues :: "Value list list \<Rightarrow> Value list" where
  "firstColumnValues rows = map hd (filter (\<lambda>r. r \<noteq> []) rows)"

fun resolve_in :: "Value list \<Rightarrow> Condition \<Rightarrow> Condition" where
  "resolve_in xs (Condition col op v r l q e k n f) = Condition col op v r (Some xs) None e k n f"

fun resolve_scalar :: "Value \<Rightarrow> Condition \<Rightarrow> Condition" where
  "resolve_scalar x (Condition col op v r l q e k n f) = Condition col op x r l q e None n f"

definition star_query :: "SelectStmt \<Rightarrow> SelectStmt" where
  "star_query q = setColumns [\<lparr>exprCol = ''*'', exprAgg = None, exprAlias = []\<rparr>] q"

text \<open>One group; \<open>None\<close> when a condition can never pass (\<open>groupFailed\<close>).\<close>

fun flatten_group ::
  "(SelectStmt \<Rightarrow> ('s, Result) go) \<Rightarrow> Condition list \<Rightarrow> Condition list \<Rightarrow> ('s, Condition list option) go" where
  "flatten_group run [] kept s = (Inr (Some kept), s)"
| "flatten_group run (c # cs) kept s =
     (case InQuery c of
        Some q \<Rightarrow>
          (case run q s of
             (Inl e, s') \<Rightarrow> (Inl e, s')
           | (Inr res, s') \<Rightarrow> flatten_group run cs (kept @ [resolve_in (firstColumnValues (resRows res)) c]) s')
      | None \<Rightarrow>
        (case ScalarQuery c of
           Some q \<Rightarrow>
             (case run q s of
                (Inl e, s') \<Rightarrow> (Inl e, s')
              | (Inr res, s') \<Rightarrow>
                  (case resRows res of
                     [] \<Rightarrow> (Inr None, s')
                   | [row] \<Rightarrow>
                       (case row of
                          [] \<Rightarrow> (Inl Panic, s')
                        | v # _ \<Rightarrow> flatten_group run cs (kept @ [resolve_scalar v c]) s')
                   | _ \<Rightarrow> (Inl ScalarSubqueryRows, s')))
         | None \<Rightarrow>
           (case ExistsQuery c of
              Some q \<Rightarrow>
                (case run (star_query q) s of
                   (Inl e, s') \<Rightarrow> (Inl e, s')
                 | (Inr res, s') \<Rightarrow>
                     if (resRows res \<noteq> []) = Negated c then (Inr None, s')
                     else flatten_group run cs kept s')
            | None \<Rightarrow> flatten_group run cs (kept @ [c]) s)))"

fun flatten_groups ::
  "(SelectStmt \<Rightarrow> ('s, Result) go) \<Rightarrow> Condition list list \<Rightarrow> ('s, Condition list list) go" where
  "flatten_groups run [] s = (Inr [], s)"
| "flatten_groups run (g # gs) s =
     bindG (flatten_group run g []) (\<lambda>kept.
     bindG (flatten_groups run gs) (\<lambda>gs'.
     returnG ((case kept of None \<Rightarrow> [falseCond] | Some cs \<Rightarrow> cs) # gs'))) s"

definition flattenSubqueries ::
  "(SelectStmt \<Rightarrow> ('s, Result) go) \<Rightarrow> WhereClause option \<Rightarrow> ('s, WhereClause option) go" where
  "flattenSubqueries run wc =
     (case wc of
        None \<Rightarrow> returnG None
      | Some w \<Rightarrow> bindG (flatten_groups run (Groups w)) (\<lambda>gs. returnG (Some (WhereClause gs))))"

fun setClauses :: "WhereClause option \<Rightarrow> WhereClause option \<Rightarrow> SelectStmt \<Rightarrow> SelectStmt" where
  "setClauses wh hv (SelectStmt cs fr js _ gb _ ob n) = SelectStmt cs fr js wh gb hv ob n"

fun execSelectFlattened ::
  "nat \<Rightarrow> ('s, 'c) ReadView \<Rightarrow> Snapshot \<Rightarrow> SelectStmt \<Rightarrow> ('s, Result) go" where
  "execSelectFlattened 0 db snap q = failG OutOfFuel"
| "execSelectFlattened (Suc n) db snap q =
     bindG (flattenSubqueries (execSelectFlattened n db snap) (Where q)) (\<lambda>wh.
     bindG (flattenSubqueries (execSelectFlattened n db snap) (Having q)) (\<lambda>hv.
     execSelectWithSnap n db snap (setClauses wh hv q)))"

definition query_snapshot :: "Snapshot option \<Rightarrow> TxManager \<Rightarrow> Snapshot" where
  "query_snapshot tx mgr = (case tx of Some snap \<Rightarrow> snap | None \<Rightarrow> TakeSnapshot XIDNone mgr)"

definition execSelect ::
  "nat \<Rightarrow> ('s, 'c) ReadView \<Rightarrow> Snapshot option \<Rightarrow> TxManager \<Rightarrow> SelectStmt \<Rightarrow> ('s, Result) go" where
  "execSelect fuel db tx mgr q = execSelectFlattened fuel db (query_snapshot tx mgr) q"

definition flattenDMLSubqueries ::
  "nat \<Rightarrow> ('s, 'c) ReadView \<Rightarrow> Snapshot option \<Rightarrow> TxManager \<Rightarrow> WhereClause option \<Rightarrow> ('s, WhereClause option) go" where
  "flattenDMLSubqueries fuel db tx mgr wc =
     flattenSubqueries (execSelectFlattened fuel db (query_snapshot tx mgr)) wc"

section \<open>Flattening keeps the meaning\<close>

text \<open>The meaning of a condition with subqueries, for the result rows \<open>R q\<close> of each: IN asks for an equal
  value in the first column, a scalar comparison for the one value the subquery returns (never true when
  there is none), EXISTS for any row.\<close>

definition sub_holds :: "(SelectStmt \<Rightarrow> Value list list) \<Rightarrow> Table \<Rightarrow> Value list \<Rightarrow> Condition \<Rightarrow> bool" where
  "sub_holds R t row c \<longleftrightarrow>
     (case InQuery c of
        Some q \<Rightarrow> \<not> AlwaysFalse c \<and> (IsJoinCond c \<or>
          (case ColIndex t (Column c) of
             None \<Rightarrow> True
           | Some i \<Rightarrow> (\<exists>r\<in>set (R q). r \<noteq> [] \<and> compareVals (row ! i) (hd r) OpEq) \<longleftrightarrow> \<not> Negated c))
      | None \<Rightarrow>
        (case ScalarQuery c of
           Some q \<Rightarrow> (\<exists>v vs. R q = [v # vs] \<and> cond_holds t row (resolve_scalar v c))
         | None \<Rightarrow>
           (case ExistsQuery c of
              Some q \<Rightarrow> R (star_query q) \<noteq> [] \<longleftrightarrow> \<not> Negated c
            | None \<Rightarrow> cond_holds t row c)))"

text \<open>The statements that a condition runs.\<close>

definition subqueries :: "Condition \<Rightarrow> SelectStmt set" where
  "subqueries c =
     (case InQuery c of Some q \<Rightarrow> {q}
      | None \<Rightarrow> (case ScalarQuery c of Some q \<Rightarrow> {q}
        | None \<Rightarrow> (case ExistsQuery c of Some q \<Rightarrow> {star_query q} | None \<Rightarrow> {})))"

definition scalar_ok :: "(SelectStmt \<Rightarrow> Value list list) \<Rightarrow> Condition \<Rightarrow> bool" where
  "scalar_ok R c \<longleftrightarrow> InQuery c = None \<longrightarrow>
     (case ScalarQuery c of Some q \<Rightarrow> length (R q) \<le> 1 \<and> (\<forall>r\<in>set (R q). r \<noteq> []) | None \<Rightarrow> True)"

text \<open>\<open>run\<close> answers the statements in \<open>Q\<close> with the rows \<open>R\<close> in every state.\<close>

definition answers_with :: "(SelectStmt \<Rightarrow> ('s, Result) go) \<Rightarrow> SelectStmt set \<Rightarrow> (SelectStmt \<Rightarrow> Value list list) \<Rightarrow> bool" where
  "answers_with run Q R \<longleftrightarrow> (\<forall>q\<in>Q. \<forall>s. \<exists>res s'. run q s = (Inr res, s') \<and> resRows res = R q)"

lemma resolve_in_sel [simp]:
  "Column (resolve_in xs c) = Column c" "InList (resolve_in xs c) = Some xs" "Negated (resolve_in xs c) = Negated c"
  "AlwaysFalse (resolve_in xs c) = AlwaysFalse c" "RHSCol (resolve_in xs c) = RHSCol c"
  by (cases c; simp)+

lemma inList_first: "inListContains v (firstColumnValues rows) \<longleftrightarrow> (\<exists>r\<in>set rows. r \<noteq> [] \<and> compareVals v (hd r) OpEq)"
  by (auto simp: inListContains_def firstColumnValues_def list_ex_iff)

lemma resolve_in_holds:
  assumes "InQuery c = Some q"
  shows "cond_holds t row (resolve_in (firstColumnValues (R q)) c) \<longleftrightarrow> sub_holds R t row c"
  using assms
  by (auto simp: sub_holds_def cond_holds_def IsJoinCond_def inList_first split: option.split)

lemma flatten_group_meaning:
  assumes "answers_with run (\<Union>c\<in>set g. subqueries c) R" and "\<forall>c\<in>set g. scalar_ok R c"
  shows "\<exists>k s'. flatten_group run g kept s = (Inr k, s') \<and>
    (\<forall>t row. (case k of None \<Rightarrow> False | Some cs \<Rightarrow> \<forall>c\<in>set cs. cond_holds t row c) \<longleftrightarrow>
       (\<forall>c\<in>set kept. cond_holds t row c) \<and> (\<forall>c\<in>set g. sub_holds R t row c))"
  using assms
proof (induction g arbitrary: kept s)
  case (Cons c g)
  have IH: "\<exists>k s'. flatten_group run g kept' u = (Inr k, s') \<and>
      (\<forall>t row. (case k of None \<Rightarrow> False | Some cs \<Rightarrow> \<forall>c\<in>set cs. cond_holds t row c) \<longleftrightarrow>
        (\<forall>c\<in>set kept'. cond_holds t row c) \<and> (\<forall>c\<in>set g. sub_holds R t row c))" for kept' u
    by (rule Cons.IH) (use Cons.prems in \<open>auto simp: answers_with_def\<close>)
  have step: ?case
    if "flatten_group run (c # g) kept s = flatten_group run g kept' u"
      and "\<And>t row. (\<forall>x\<in>set kept'. cond_holds t row x) \<longleftrightarrow> (\<forall>x\<in>set kept. cond_holds t row x) \<and> sub_holds R t row c" for kept' u
  proof -
    obtain k s' where "flatten_group run g kept' u = (Inr k, s')"
      "\<And>t row. (case k of None \<Rightarrow> False | Some cs \<Rightarrow> \<forall>c\<in>set cs. cond_holds t row c) \<longleftrightarrow>
        (\<forall>c\<in>set kept'. cond_holds t row c) \<and> (\<forall>c\<in>set g. sub_holds R t row c)"
      using IH [of kept' u] by blast
    then show ?case using that by (intro exI [of _ k] exI [of _ s']) simp
  qed
  have run: "\<exists>res s'. run q s = (Inr res, s') \<and> resRows res = R q" if "q \<in> subqueries c" for q
    using Cons.prems(1) that by (auto simp: answers_with_def)
  show ?case
  proof (cases "InQuery c")
    case (Some q)
    then obtain res u where r: "run q s = (Inr res, u)" "resRows res = R q" using run [of q] by (auto simp: subqueries_def)
    then show ?thesis
      using Some resolve_in_holds [OF Some, of _ _ R] by (intro step [of "kept @ [resolve_in (firstColumnValues (R q)) c]" u]) auto
  next
    case inq: None
    show ?thesis
    proof (cases "ScalarQuery c")
      case (Some q)
      then obtain res u where r: "run q s = (Inr res, u)" "resRows res = R q"
        using run [of q] inq by (auto simp: subqueries_def)
      have "length (R q) \<le> 1" "\<forall>r\<in>set (R q). r \<noteq> []" using Cons.prems(2) Some inq by (auto simp: scalar_ok_def)
      then consider "R q = []" | v vs where "R q = [v # vs]"
        by (cases "R q") (auto simp: neq_Nil_conv)
      then show ?thesis
      proof cases
        case 1
        then show ?thesis using r inq Some by (auto simp: sub_holds_def)
      next
        case (2 v vs)
        then show ?thesis
          using r inq Some by (intro step [of "kept @ [resolve_scalar v c]" u]) (auto simp: sub_holds_def)
      qed
    next
      case scq: None
      show ?thesis
      proof (cases "ExistsQuery c")
        case (Some q)
        then obtain res u where r: "run (star_query q) s = (Inr res, u)" "resRows res = R (star_query q)"
          using run [of "star_query q"] inq scq by (auto simp: subqueries_def)
        then show ?thesis
          using step [of kept u] inq scq Some
          by (cases "(R (star_query q) \<noteq> []) = Negated c") (auto simp: sub_holds_def)
      next
        case None
        then show ?thesis
          using inq scq by (intro step [of "kept @ [c]" s]) (auto simp: sub_holds_def)
      qed
    qed
  qed
qed simp

lemma falseCond_holds [simp]: "\<not> cond_holds t row falseCond"
  by (simp add: cond_holds_def falseCond_def)

lemma flatten_groups_meaning:
  assumes "answers_with run (\<Union>g\<in>set gs. \<Union>c\<in>set g. subqueries c) R" and "\<forall>g\<in>set gs. \<forall>c\<in>set g. scalar_ok R c"
  shows "\<exists>gs' s'. flatten_groups run gs s = (Inr gs', s') \<and>
    (\<forall>t row. (\<exists>g\<in>set gs'. \<forall>c\<in>set g. cond_holds t row c) \<longleftrightarrow> (\<exists>g\<in>set gs. \<forall>c\<in>set g. sub_holds R t row c))"
  using assms
proof (induction gs arbitrary: s)
  case (Cons g gs)
  have "answers_with run (\<Union>c\<in>set g. subqueries c) R" "\<forall>c\<in>set g. scalar_ok R c"
    using Cons.prems by (auto simp: answers_with_def)
  from flatten_group_meaning [OF this, of "[]" s] obtain k u where
    k: "flatten_group run g [] s = (Inr k, u)"
      "\<And>t row. (case k of None \<Rightarrow> False | Some cs \<Rightarrow> \<forall>c\<in>set cs. cond_holds t row c) \<longleftrightarrow> (\<forall>c\<in>set g. sub_holds R t row c)"
    by auto
  have "\<exists>gs' s'. flatten_groups run gs u = (Inr gs', s') \<and>
      (\<forall>t row. (\<exists>g\<in>set gs'. \<forall>c\<in>set g. cond_holds t row c) \<longleftrightarrow> (\<exists>g\<in>set gs. \<forall>c\<in>set g. sub_holds R t row c))"
    by (rule Cons.IH) (use Cons.prems in \<open>auto simp: answers_with_def\<close>)
  then obtain gs' v where gs': "flatten_groups run gs u = (Inr gs', v)"
      "\<And>t row. (\<exists>g\<in>set gs'. \<forall>c\<in>set g. cond_holds t row c) \<longleftrightarrow> (\<exists>g\<in>set gs. \<forall>c\<in>set g. sub_holds R t row c)"
    by blast
  let ?g = "case k of None \<Rightarrow> [falseCond] | Some cs \<Rightarrow> cs"
  have "(\<forall>c\<in>set ?g. cond_holds t row c) \<longleftrightarrow> (\<forall>c\<in>set g. sub_holds R t row c)" for t row
    using k(2) [of t row] by (cases k) auto
  moreover have "flatten_groups run (g # gs) s = (Inr (?g # gs'), v)"
    using k(1) gs'(1) by simp
  ultimately show ?case using gs'(2) by (intro exI [of _ "?g # gs'"] exI [of _ v]) simp
qed simp


definition ex_sub :: SelectStmt where
  "ex_sub = SelectStmt [\<lparr>exprCol = ''id'', exprAgg = None, exprAlias = []\<rparr>] [\<lparr>refName = ''t'', refAlias = []\<rparr>] [] None [] None [] 0"


text \<open>In a query over several tables the sentinel of a failed group is not evaluated but resolved: the
  planner looks for the table of its empty column name and reports an error instead of an empty result.\<close>

lemma multi_table_false_group_error:
  assumes "length (allTableRefs s) = length tables" and "Where s = Some (WhereClause [[falseCond]])"
    and "\<And>t. t \<in> set tables \<Longrightarrow> ColIndex t [] = None"
  shows "planMultiTable s tables statsMap = Inl (ColumnUnresolved [])"
proof -
  have "find_bare [] ts i (-1) = -1" if "\<And>t. t \<in> set ts \<Longrightarrow> ColIndex t [] = None" for ts i
    using that by (induction ts arbitrary: i) auto
  then have "findTableForCond [] (allTableRefs s) tables = -1"
    using assms(3) by (simp add: findTableForCond_def split_first_dot_def)
  then show ?thesis using assms(1,2) by (simp add: planMultiTable_def Let_def falseCond_def IsJoinCond_def)
qed

end
