(* ===== verification/FileStores.thy ===== *)
theory FileStores
  imports BTreeCursor BufferPool
begin

text \<open>
  The files of a database side by side. The executor works on several page stores at
  once, one per table and per secondary index, all over one buffer pool. The locale
  \<open>db_files\<close> is what it relies on: each store satisfies the laws of \<open>page_store\<close>,
  and no operation on one of them changes what another one holds. The interpretation
  is for the \<open>BufPager\<close>s of one pool.

  \<open>framed\<close> turns the second law into the first: seen from one file, the contents of
  all the others are part of the invariant, so every lemma about a single page store
  also says that the other files are kept.
\<close>

locale db_files =
  fixes store :: "'f \<Rightarrow> 's PageStore"
    and F :: "'f set"
    and ok :: "'s \<Rightarrow> bool"
    and live :: "'f \<Rightarrow> 's \<Rightarrow> u32 set"
    and view :: "'f \<Rightarrow> 's \<Rightarrow> u32 \<Rightarrow> byte list"
    and room :: "'f \<Rightarrow> 's \<Rightarrow> nat"
  assumes file_store: "f \<in> F \<Longrightarrow> page_store (store f) ok (live f) (view f) (room f)"
    and read_frame: "ok s \<Longrightarrow> f \<in> F \<Longrightarrow> i \<in> live f s \<Longrightarrow> ReadPage (store f) i s = (r, s') \<Longrightarrow>
      g \<in> F \<Longrightarrow> g \<noteq> f \<Longrightarrow>
      live g s' = live g s \<and> (\<forall>j\<in>live g s. view g s' j = view g s j) \<and> room g s \<le> room g s'"
    and write_frame: "ok s \<Longrightarrow> f \<in> F \<Longrightarrow> wf_page p \<Longrightarrow> page_id p \<in> live f s \<Longrightarrow>
      WritePage (store f) p s = (w, s') \<Longrightarrow> g \<in> F \<Longrightarrow> g \<noteq> f \<Longrightarrow>
      live g s' = live g s \<and> (\<forall>j\<in>live g s. view g s' j = view g s j) \<and> room g s \<le> room g s'"
    and alloc_frame: "ok s \<Longrightarrow> f \<in> F \<Longrightarrow> 0 < room f s \<Longrightarrow> AllocatePage (store f) s = (a, s') \<Longrightarrow>
      g \<in> F \<Longrightarrow> g \<noteq> f \<Longrightarrow>
      live g s' = live g s \<and> (\<forall>j\<in>live g s. view g s' j = view g s j) \<and> room g s \<le> room g s'"
begin

definition kept :: "'f \<Rightarrow> 's \<Rightarrow> 's \<Rightarrow> bool" where
  "kept g s s' \<longleftrightarrow> live g s' = live g s \<and> (\<forall>j\<in>live g s. view g s' j = view g s j) \<and> room g s \<le> room g s'"

text \<open>States that hold the same in all files.\<close>

definition same :: "'s \<Rightarrow> 's \<Rightarrow> bool" where
  "same s s' \<longleftrightarrow> ok s' \<and> (\<forall>g\<in>F. kept g s s')"

lemma kept_refl [simp]: "kept g s s"
  by (simp add: kept_def)

lemma kept_trans: "kept g s t \<Longrightarrow> kept g t u \<Longrightarrow> kept g s u"
  by (auto simp: kept_def)

lemma same_refl: "ok s \<Longrightarrow> same s s"
  by (simp add: same_def)

lemma same_trans: "same s t \<Longrightarrow> same t u \<Longrightarrow> same s u"
  by (auto simp: same_def intro: kept_trans)

definition okf :: "'f \<Rightarrow> 's \<Rightarrow> 's \<Rightarrow> bool" where
  "okf f s0 s \<longleftrightarrow> ok s \<and> (\<forall>g\<in>F - {f}. kept g s0 s)"

lemma framed:
  assumes f: "f \<in> F"
  shows "page_store (store f) (okf f s0) (live f) (view f) (room f)"
proof
  note P = file_store [OF f]
  fix s assume s: "okf f s0 s"
  then have ok: "ok s" and k: "\<And>g. g \<in> F \<Longrightarrow> g \<noteq> f \<Longrightarrow> kept g s0 s" by (auto simp: okf_def)
  have step: "okf f s0 s'" if "ok s'" "\<And>g. g \<in> F \<Longrightarrow> g \<noteq> f \<Longrightarrow> kept g s s'" for s'
    using that k by (auto simp: okf_def intro: kept_trans)
  show "0 \<notin> live f s" using page_store.live_nonzero [OF P ok] .
  show "length (view f s i) = DataSize" if "i \<in> live f s" for i
    using page_store.view_length [OF P ok that] .
  show "\<exists>p s'. ReadPage (store f) i s = (Inr p, s') \<and> page_id p = i \<and> Data p = view f s i \<and>
      okf f s0 s' \<and> live f s' = live f s \<and> (\<forall>j\<in>live f s. view f s' j = view f s j) \<and> room f s \<le> room f s'"
    if i: "i \<in> live f s" for i
  proof -
    obtain p s' where p: "ReadPage (store f) i s = (Inr p, s')" "page_id p = i" "Data p = view f s i" "ok s'"
      "live f s' = live f s" "\<forall>j\<in>live f s. view f s' j = view f s j" "room f s \<le> room f s'"
      using page_store.read_live [OF P ok i] by blast
    have "okf f s0 s'" by (rule step [OF p(4)]) (use read_frame [OF ok f i p(1)] in \<open>simp add: kept_def\<close>)
    then show ?thesis using p by blast
  qed
  show "\<exists>s'. WritePage (store f) p s = (Inr (), s') \<and> okf f s0 s' \<and> live f s' = live f s \<and>
      (\<forall>j\<in>live f s. view f s' j = (if j = page_id p then Data p else view f s j)) \<and> room f s \<le> room f s'"
    if p: "wf_page p" "page_id p \<in> live f s" for p
  proof -
    obtain s' where w: "WritePage (store f) p s = (Inr (), s')" "ok s'" "live f s' = live f s"
      "\<forall>j\<in>live f s. view f s' j = (if j = page_id p then Data p else view f s j)" "room f s \<le> room f s'"
      using page_store.write_live [OF P ok p] by blast
    have "okf f s0 s'" by (rule step [OF w(2)]) (use write_frame [OF ok f p w(1)] in \<open>simp add: kept_def\<close>)
    then show ?thesis using w by blast
  qed
  show "\<exists>i s'. AllocatePage (store f) s = (Inr i, s') \<and> i \<notin> live f s \<and> okf f s0 s' \<and>
      live f s' = insert i (live f s) \<and> (\<forall>j\<in>live f s. view f s' j = view f s j) \<and> room f s \<le> Suc (room f s')"
    if r: "0 < room f s"
  proof -
    obtain i s' where a: "AllocatePage (store f) s = (Inr i, s')" "i \<notin> live f s" "ok s'"
      "live f s' = insert i (live f s)" "\<forall>j\<in>live f s. view f s' j = view f s j" "room f s \<le> Suc (room f s')"
      using page_store.alloc_room [OF P ok r] by blast
    have "okf f s0 s'" by (rule step [OF a(3)]) (use alloc_frame [OF ok f r a(1)] in \<open>simp add: kept_def\<close>)
    then show ?thesis using a by blast
  qed
qed

lemma okf_self: "ok s \<Longrightarrow> okf f s s"
  by (simp add: okf_def)

lemma same_store_same:
  assumes "f \<in> F" and "page_store.same_store (okf f s) (live f) (view f) (room f) s s'"
  shows "same s s'"
  using assms(2) unfolding page_store.same_store_def [OF framed [OF assms(1)]]
  by (auto simp: same_def kept_def okf_def)

text \<open>A file holds a tree with given entries, no leaf of whose chain is empty but the first.\<close>

definition table_file :: "'f \<Rightarrow> 's \<Rightarrow> Entry list \<Rightarrow> nat \<Rightarrow> BTree \<Rightarrow> bool" where
  "table_file f s es n bt \<longleftrightarrow> f \<in> F \<and> headerPage bt = 1 \<and>
     (\<exists>t. btree_tree (live f s) (view f s) n t bt \<and> entries t = es \<and> no_empty_leaf (tl (leaves t)))"

end

end
