(* ===== verification/OperatorSpec.thy ===== *)
theory OperatorSpec
  imports Operators FileStores
begin

text \<open>
  What the operators yield. Inside \<open>db_files\<close>, \<open>yields s0 op rows\<close> says that calling
  \<open>Next\<close> on \<open>op\<close> in any state that holds the same files as \<open>s0\<close> gives the rows of the
  list one after the other and then the end, each after finitely many steps of its
  loop. One lemma per operator reduces its rows to those of its children.
\<close>

lemma btree_tree_cong:
  assumes "btree_tree L V n t bt" and "\<forall>j\<in>L. W j = V j"
  shows "btree_tree L W n t bt"
proof -
  have "holds_tree L W t"
    using assms holds_tree_mono [of L V t L W] by (auto simp: btree_tree_def holds_tree_def)
  moreover have "header_at W bt" using assms by (simp add: btree_tree_def header_at_def)
  ultimately show ?thesis using assms(1) by (simp add: btree_tree_def)
qed

lemma cursor_at_cong:
  assumes "cursor_at L V c rest" and "\<forall>j\<in>L. W j = V j"
  shows "cursor_at L W c rest"
  using assms chain_at_cong unfolding cursor_at_def by blast

text \<open>More fuel does not change a result.\<close>

lemma bindG_mono:
  assumes "bindG m f s = (Inr y, t)" and "\<And>x s'. f x s' = (Inr y, t) \<Longrightarrow> g x s' = (Inr y, t)"
  shows "bindG m g s = (Inr y, t)"
  using assms by (auto simp: bindG_def split: prod.splits sum.splits)

lemma cursor_seek_mono:
  "cursor_seek ps m i mn mx s = (Inr c, s') \<Longrightarrow> m \<le> n \<Longrightarrow> cursor_seek ps n i mn mx s = (Inr c, s')"
proof (induction m arbitrary: i s n)
  case (Suc m)
  then obtain n' where n: "n = Suc n'" "m \<le> n'" by (cases n) auto
  show ?case unfolding n(1) cursor_seek.simps
    by (rule bindG_mono [OF Suc.prems(1) [unfolded cursor_seek.simps]])
      (auto split: if_splits elim!: bindG_mono intro: Suc.IH n(2))
qed simp

lemma open_cursor_mono:
  "open_cursor m ps mn mx s = (Inr c, s') \<Longrightarrow> m \<le> n \<Longrightarrow> open_cursor n ps mn mx s = (Inr c, s')"
  unfolding open_cursor_def NewCursor_def
  by (erule bindG_mono) (auto intro: cursor_seek_mono split: if_splits)

lemma btree_Search_mono:
  "btree_Search ps m bt k s = (Inr c, s') \<Longrightarrow> m \<le> n \<Longrightarrow> btree_Search ps n bt k s = (Inr c, s')"
proof -
  have "search_loop ps m i k s = (Inr c, s') \<Longrightarrow> m \<le> n \<Longrightarrow> search_loop ps n i k s = (Inr c, s')" for i s m n
  proof (induction m arbitrary: i s n)
    case (Suc m)
    then obtain n' where n: "n = Suc n'" "m \<le> n'" by (cases n) auto
    show ?case unfolding n(1) search_loop.simps
      by (rule bindG_mono [OF Suc.prems(1) [unfolded search_loop.simps]])
        (auto split: if_splits elim!: bindG_mono intro: Suc.IH n(2))
  qed simp
  then show "btree_Search ps m bt k s = (Inr c, s') \<Longrightarrow> m \<le> n \<Longrightarrow> btree_Search ps n bt k s = (Inr c, s')"
    by (simp add: btree_Search_def)
qed

section \<open>Static parts\<close>

text \<open>An operator as it was built, before \<open>Open\<close>.\<close>

fun fresh :: "'s Operator \<Rightarrow> 's Operator" where
  "fresh (ScanOp ps mn mx t snap cur) = ScanOp ps mn mx t snap None"
| "fresh (IndexLookupOp ps ips mn mx t snap cur prim) = IndexLookupOp ps ips mn mx t snap None None"
| "fresh (FilterOp c p t) = FilterOp (fresh c) p t"
| "fresh (LimitOp c n k) = LimitOp (fresh c) n 0"
| "fresh (ProjectOp c idxs) = ProjectOp (fresh c) idxs"
| "fresh (UnionOp cs p cur seen) = UnionOp (map fresh cs) p 0 {}"
| "fresh (NlJoinOp l r on ls rs lm rm row ro) =
     NlJoinOp (fresh l) (fresh r) on ls rs Map.empty Map.empty [] False"

lemma fresh_fresh [simp]: "fresh (fresh op) = fresh op"
  by (induction op rule: fresh.induct) auto

lemma fresh_close [simp]: "fresh (op_close op) = fresh op"
  by (induction op rule: fresh.induct) auto

context db_files
begin

lemma table_file_same:
  assumes "table_file f s es n bt" and "same s s'"
  shows "table_file f s' es n bt"
proof -
  obtain t where t: "f \<in> F" "headerPage bt = 1" "btree_tree (live f s) (view f s) n t bt" "entries t = es"
    "no_empty_leaf (tl (leaves t))" using assms(1) by (auto simp: table_file_def)
  have "live f s' = live f s" "\<forall>j\<in>live f s. view f s' j = view f s j"
    using assms(2) t(1) by (auto simp: same_def kept_def)
  then show ?thesis using t btree_tree_cong [OF t(3), of "view f s'"] by (auto simp: table_file_def)
qed

section \<open>Cursors\<close>

primrec cursor_yields :: "'f \<Rightarrow> 's \<Rightarrow> Cursor \<Rightarrow> Entry list \<Rightarrow> bool" where
  "cursor_yields f s0 c [] \<longleftrightarrow>
     (\<forall>s. same s0 s \<longrightarrow> (\<exists>c' s'. cursor_Next (store f) (c, s) = (Inr None, (c', s')) \<and> same s0 s'))"
| "cursor_yields f s0 c (e # es) \<longleftrightarrow>
     (\<forall>s. same s0 s \<longrightarrow> (\<exists>c' s'. cursor_Next (store f) (c, s) = (Inr (Some e), (c', s')) \<and> same s0 s' \<and>
        cursor_yields f s0 c' es))"

lemma cursor_at_same:
  assumes "f \<in> F" and "same s s'" and "cursor_at (live f s) (view f s) c rest"
  shows "cursor_at (live f s') (view f s') c rest"
  using assms cursor_at_cong [OF assms(3), of "view f s'"] by (simp add: same_def kept_def)

lemma cursor_at_yields:
  assumes f: "f \<in> F" and "cursor_at (live f s0) (view f s0) c rest"
  shows "cursor_yields f s0 c (takeWhile (\<lambda>e. Key e \<le> cmaxKey c) rest)"
  using assms(2)
proof (induction rest arbitrary: c)
  case Nil
  show ?case
  proof (simp, intro allI impI)
    fix s assume s: "same s0 s"
    then have ok: "okf f s s" by (simp add: same_def okf_self)
    from page_store.cursor_Next_spec [OF framed [OF f] ok cursor_at_same [OF f s Nil]]
    show "\<exists>c' s'. cursor_Next (store f) (c, s) = (Inr None, (c', s')) \<and> same s0 s'"
      using same_store_same [OF f] same_trans [OF s] by fastforce
  qed
next
  case (Cons e rest)
  have step: "\<exists>c' s'. same s0 s' \<and> cmaxKey c' = cmaxKey c \<and>
     (if cmaxKey c < Key e then cursor_Next (store f) (c, s) = (Inr None, (c', s'))
      else cursor_Next (store f) (c, s) = (Inr (Some e), (c', s')) \<and>
           cursor_at (live f s0) (view f s0) c' rest)" if s: "same s0 s" for s
  proof -
    have ok: "okf f s s" using s by (simp add: same_def okf_self)
    from page_store.cursor_Next_spec [OF framed [OF f] ok cursor_at_same [OF f s Cons.prems]]
    obtain c' s' where c: "page_store.same_store (okf f s) (live f) (view f) (room f) s s'" "cmaxKey c' = cmaxKey c"
      "if cmaxKey c < Key e then cursor_Next (store f) (c, s) = (Inr None, (c', s'))
       else cursor_Next (store f) (c, s) = (Inr (Some e), (c', s')) \<and> cursor_at (live f s') (view f s') c' rest"
      by (auto split: if_splits)
    have "same s0 s'" using same_store_same [OF f c(1)] same_trans [OF s] by blast
    moreover from this have "cursor_at (live f s') (view f s') c' rest \<Longrightarrow> cursor_at (live f s0) (view f s0) c' rest"
      using f cursor_at_cong [of "live f s'" "view f s'" c' rest "view f s0"] by (simp add: same_def kept_def)
    ultimately show ?thesis using c(2,3) by (auto split: if_splits)
  qed
  show ?case
  proof (cases "cmaxKey c < Key e")
    case True
    then show ?thesis using step by fastforce
  next
    case False
    show ?thesis
    proof (simp add: False leI not_less [symmetric], intro allI impI)
      fix s assume "same s0 s"
      from step [OF this] False Cons.IH show "\<exists>c' s'. cursor_Next (store f) (c, s) = (Inr (Some e), c', s') \<and> same s0 s' \<and>
          cursor_yields f s0 c' (takeWhile (\<lambda>e. \<not> cmaxKey c < Key e) rest)"
        by (metis (no_types, lifting) not_less takeWhile_cong)
    qed
  qed
qed

lemma open_cursor_yields:
  assumes tf: "table_file f s0 es n bt" and s: "same s0 s" and "n < fuel"
  shows "\<exists>c s'. open_cursor fuel (store f) mn mx s = (Inr c, s') \<and> same s0 s' \<and>
     cursor_yields f s0 c (filter (in_range mn mx) es)"
proof -
  obtain t where t: "f \<in> F" "headerPage bt = 1" "btree_tree (live f s) (view f s) n t bt" "entries t = es"
    "no_empty_leaf (tl (leaves t))" using table_file_same [OF tf s] by (auto simp: table_file_def)
  note P = framed [OF t(1)]
  have ok: "okf f s s" using s by (simp add: same_def okf_self)
  have rel: "btree_rel (live f s) (view f s) n es bt" using t by (auto simp: btree_rel_def)
  obtain s1 where s1: "btree_Open (store f) 1 s = (Inr bt, s1)" "page_store.same_store (okf f s) (live f) (view f) (room f) s s1"
    using page_store.btree_Open_spec [OF P ok rel] t(2) by auto
  have sm1: "same s0 s1" using same_store_same [OF t(1) s1(2)] same_trans [OF s] by blast
  have ok1: "okf f s1 s1" using sm1 by (simp add: same_def okf_self)
  have t1: "btree_tree (live f s1) (view f s1) n t bt"
    using btree_tree_cong [OF t(3), of "view f s1"] same_store_same [OF t(1) s1(2)] t(1) by (simp add: same_def kept_def)
  show ?thesis
  proof (cases "mn \<le> mx")
    case True
    obtain c s2 rest where c: "NewCursor (store f) fuel bt mn mx s1 = (Inr c, s2)"
      "page_store.same_store (okf f s1) (live f) (view f) (room f) s1 s2" "cmaxKey c = mx"
      "cursor_at (live f s2) (view f s2) c rest" "takeWhile (\<lambda>e. Key e \<le> mx) rest = filter (in_range mn mx) es"
      using page_store.NewCursor_spec [OF P ok1 t1 t(5) assms(3) True] t(4) by auto
    have sm2: "same s0 s2" using same_store_same [OF t(1) c(2)] same_trans [OF sm1] by blast
    have "cursor_at (live f s0) (view f s0) c rest"
      using cursor_at_cong [OF c(4), of "view f s0"] sm2 t(1) by (simp add: same_def kept_def)
    then show ?thesis
      using cursor_at_yields [OF t(1)] c s1(1) sm2 by (fastforce simp: open_cursor_def)
  next
    case False
    have "filter (in_range mn mx) es = []" using False by (auto simp: in_range_def filter_empty_conv)
    then show ?thesis
      using False s1(1) sm1
      by (auto simp: open_cursor_def NewCursor_def not_le cursor_Next_def)
  qed
qed

section \<open>Operators\<close>

primrec yields :: "'s \<Rightarrow> 's Operator \<Rightarrow> Value list list \<Rightarrow> bool" where
  "yields s0 op [] \<longleftrightarrow>
     (\<forall>s. same s0 s \<longrightarrow> (\<exists>N op' s'. (\<forall>n\<ge>N. op_next n op s = (Inr None, op', s')) \<and> same s0 s' \<and>
        fresh op' = fresh op))"
| "yields s0 op (r # rs) \<longleftrightarrow>
     (\<forall>s. same s0 s \<longrightarrow> (\<exists>N op' s'. (\<forall>n\<ge>N. op_next n op s = (Inr (Some r), op', s')) \<and> same s0 s' \<and>
        fresh op' = fresh op \<and> yields s0 op' rs))"

lemma next_Suc:
  assumes "\<And>n. n \<ge> N \<Longrightarrow> op_next (Suc n) op s = res"
  shows "\<exists>M. \<forall>n\<ge>M. op_next n op s = res"
proof (intro exI allI impI)
  fix n assume "Suc N \<le> n"
  then obtain m where "n = Suc m" "N \<le> m" by (cases n) auto
  then show "op_next n op s = res" using assms by simp
qed

lemma yields_Nil_I:
  assumes "\<And>s. same s0 s \<Longrightarrow>
    \<exists>N op' s'. (\<forall>n\<ge>N. op_next (Suc n) op s = (Inr None, op', s')) \<and> same s0 s' \<and> fresh op' = fresh op"
  shows "yields s0 op []"
  unfolding yields.simps using assms next_Suc by metis

lemma yields_Cons_I:
  assumes "\<And>s. same s0 s \<Longrightarrow>
    \<exists>N op' s'. (\<forall>n\<ge>N. op_next (Suc n) op s = (Inr (Some r), op', s')) \<and> same s0 s' \<and> fresh op' = fresh op \<and>
      yields s0 op' rs"
  shows "yields s0 op (r # rs)"
  unfolding yields.simps using assms next_Suc by metis

text \<open>A step of a loop that goes on with another operator state.\<close>

lemma yields_skip:
  assumes "\<And>s. same s0 s \<Longrightarrow>
    \<exists>N op' s'. (\<forall>n\<ge>N. op_next (Suc n) op s = op_next n op' s') \<and> same s0 s' \<and> fresh op' = fresh op \<and>
      yields s0 op' rows"
  shows "yields s0 op rows"
proof (cases rows)
  case Nil
  show ?thesis unfolding Nil
  proof (rule yields_Nil_I)
    fix s assume "same s0 s"
    from assms [OF this] obtain N op' s' where a: "\<forall>n\<ge>N. op_next (Suc n) op s = op_next n op' s'" "same s0 s'"
      "fresh op' = fresh op" "yields s0 op' []" unfolding Nil by blast
    then obtain M op'' s'' where "\<forall>n\<ge>M. op_next n op' s' = (Inr None, op'', s'')" "same s0 s''" "fresh op'' = fresh op'"
      by fastforce
    then show "\<exists>N op' s'. (\<forall>n\<ge>N. op_next (Suc n) op s = (Inr None, op', s')) \<and> same s0 s' \<and> fresh op' = fresh op"
      using a by (intro exI [of _ "max N M"] exI [of _ op''] exI [of _ s'']) simp
  qed
next
  case (Cons r rs)
  show ?thesis unfolding Cons
  proof (rule yields_Cons_I)
    fix s assume "same s0 s"
    from assms [OF this] obtain N op' s' where a: "\<forall>n\<ge>N. op_next (Suc n) op s = op_next n op' s'" "same s0 s'"
      "fresh op' = fresh op" "yields s0 op' (r # rs)" unfolding Cons by blast
    then obtain M op'' s'' where "\<forall>n\<ge>M. op_next n op' s' = (Inr (Some r), op'', s'')" "same s0 s''"
      "fresh op'' = fresh op'" "yields s0 op'' rs"
      by fastforce
    then show "\<exists>N op' s'. (\<forall>n\<ge>N. op_next (Suc n) op s = (Inr (Some r), op', s')) \<and> same s0 s' \<and>
        fresh op' = fresh op \<and> yields s0 op' rs"
      using a by (intro exI [of _ "max N M"] exI [of _ op''] exI [of _ s'']) simp
  qed
qed

definition visible :: "Snapshot \<Rightarrow> byte list \<Rightarrow> bool" where
  "visible snap v \<longleftrightarrow> IsVisible snap (row_xmin v) (row_xmax v)"

definition decoded :: "Table \<Rightarrow> byte list \<Rightarrow> Value list" where
  "decoded t v = projr (decodeRow t v)"

lemma scan_yields:
  assumes "cursor_yields f s0 c es" and "\<forall>e\<in>set es. \<exists>row. decodeRow t (Value e) = Inr row"
  shows "yields s0 (ScanOp (store f) mn mx t snap (Some c))
    (map (\<lambda>e. decoded t (Value e)) (filter (\<lambda>e. visible snap (Value e)) es))"
  using assms
proof (induction es arbitrary: c)
  case Nil
  show ?case
  proof (simp only: filter.simps list.map, rule yields_Nil_I)
    fix s assume "same s0 s"
    then obtain c' s' where "cursor_Next (store f) (c, s) = (Inr None, (c', s'))" "same s0 s'"
      using Nil(1) by auto
    then show "\<exists>N op' s'. (\<forall>n\<ge>N. op_next (Suc n) (ScanOp (store f) mn mx t snap (Some c)) s = (Inr None, op', s')) \<and>
        same s0 s' \<and> fresh op' = fresh (ScanOp (store f) mn mx t snap (Some c))"
      by (intro exI [of _ 0] exI [of _ "ScanOp (store f) mn mx t snap (Some c')"] exI [of _ s']) simp
  qed
next
  case (Cons e es)
  have step: "\<exists>c' s'. cursor_Next (store f) (c, s) = (Inr (Some e), (c', s')) \<and> same s0 s' \<and> cursor_yields f s0 c' es"
    if "same s0 s" for s using Cons.prems(1) that by auto
  have dec: "decodeRow t (Value e) = Inr (decoded t (Value e))" using Cons.prems(2) by (auto simp: decoded_def)
  show ?case
  proof (cases "visible snap (Value e)")
    case True
    show ?thesis
    proof (simp only: True filter.simps if_True list.map, rule yields_Cons_I)
      fix s assume "same s0 s"
      from step [OF this] obtain c' s' where c: "cursor_Next (store f) (c, s) = (Inr (Some e), (c', s'))" "same s0 s'"
        "cursor_yields f s0 c' es" by blast
      with Cons.IH [OF c(3)] Cons.prems(2) True dec
      show "\<exists>N op' s'. (\<forall>n\<ge>N. op_next (Suc n) (ScanOp (store f) mn mx t snap (Some c)) s =
            (Inr (Some (decoded t (Value e))), op', s')) \<and> same s0 s' \<and>
          fresh op' = fresh (ScanOp (store f) mn mx t snap (Some c)) \<and>
          yields s0 op' (map (\<lambda>e. decoded t (Value e)) (filter (\<lambda>e. visible snap (Value e)) es))"
        by (intro exI [of _ 0] exI [of _ "ScanOp (store f) mn mx t snap (Some c')"] exI [of _ s'])
          (simp add: visible_def)
    qed
  next
    case False
    show ?thesis
    proof (simp only: False filter.simps if_False, rule yields_skip)
      fix s assume "same s0 s"
      from step [OF this] obtain c' s' where c: "cursor_Next (store f) (c, s) = (Inr (Some e), (c', s'))" "same s0 s'"
        "cursor_yields f s0 c' es" by blast
      with Cons.IH [OF c(3)] Cons.prems(2) False
      show "\<exists>N op' s'. (\<forall>n\<ge>N. op_next (Suc n) (ScanOp (store f) mn mx t snap (Some c)) s = op_next n op' s') \<and>
          same s0 s' \<and> fresh op' = fresh (ScanOp (store f) mn mx t snap (Some c)) \<and>
          yields s0 op' (map (\<lambda>e. decoded t (Value e)) (filter (\<lambda>e. visible snap (Value e)) es))"
        by (intro exI [of _ 0] exI [of _ "ScanOp (store f) mn mx t snap (Some c')"] exI [of _ s'])
          (simp add: visible_def)
    qed
  qed
qed

lemma yields_NilD:
  assumes "yields s0 op []" and "same s0 s"
  obtains N op' s' where "\<And>n. n \<ge> N \<Longrightarrow> op_next n op s = (Inr None, op', s')" "same s0 s'" "fresh op' = fresh op"
  using assms unfolding yields.simps by blast

lemma yields_ConsD:
  assumes "yields s0 op (r # rs)" and "same s0 s"
  obtains N op' s' where "\<And>n. n \<ge> N \<Longrightarrow> op_next n op s = (Inr (Some r), op', s')" "same s0 s'"
    "fresh op' = fresh op" "yields s0 op' rs"
  using assms unfolding yields.simps by blast

declare yields.simps [simp del]

end

text \<open>A loop over the rows of a child that keeps a state: each row is turned into one output row
  or skipped; \<open>tl\<close> is what follows the end of the child.\<close>

fun transduce :: "('w \<Rightarrow> 'r \<Rightarrow> 'w \<times> 'x option) \<Rightarrow> 'w \<Rightarrow> 'r list \<Rightarrow> ('w \<Rightarrow> 'x list) \<Rightarrow> 'x list" where
  "transduce st w [] fin = fin w"
| "transduce st w (r # rs) fin =
     (case st w r of
        (w', Some x) \<Rightarrow> x # transduce st w' rs fin
      | (w', None) \<Rightarrow> transduce st w' rs fin)"

context db_files
begin

lemma transduce_yields:
  assumes "yields s0 child rows"
    and step: "\<And>w child s n r child' s'. r \<in> set rows \<Longrightarrow> op_next n child s = (Inr (Some r), child', s') \<Longrightarrow>
      op_next (Suc n) (W w child) s =
        (case st w r of (w', Some x) \<Rightarrow> (Inr (Some x), W w' child', s')
                      | (w', None) \<Rightarrow> op_next n (W w' child') s')"
    and fin: "\<And>w c. fresh c = fresh child \<Longrightarrow> yields s0 c [] \<Longrightarrow> yields s0 (W w c) (fin w)"
    and fresh: "\<And>w w' c c'. fresh c = fresh c' \<Longrightarrow> fresh (W w c) = fresh (W w' c')"
  shows "yields s0 (W w child) (transduce st w rows fin)"
  using assms(1) step fin
proof (induction rows arbitrary: w child)
  case Nil
  then show ?case by simp
next
  case (Cons r rs)
  have IH: "yields s0 (W w' c') (transduce st w' rs fin)" if "yields s0 c' rs" "fresh c' = fresh child" for w' c'
    using Cons.IH [OF that(1)] Cons.prems(2,3) that(2) by simp
  obtain w' o' where st: "st w r = (w', o')" by fastforce
  show ?case
  proof (cases o')
    case None
    show ?thesis unfolding transduce.simps st None prod.case option.case
    proof (rule yields_skip)
      fix s assume "same s0 s"
      from yields_ConsD [OF Cons.prems(1) this] obtain N c' s' where
        c: "\<And>n. n \<ge> N \<Longrightarrow> op_next n child s = (Inr (Some r), c', s')" "same s0 s'" "fresh c' = fresh child" "yields s0 c' rs"
        by blast
      then show "\<exists>N op' s'. (\<forall>n\<ge>N. op_next (Suc n) (W w child) s = op_next n op' s') \<and> same s0 s' \<and>
          fresh op' = fresh (W w child) \<and> yields s0 op' (transduce st w' rs fin)"
        using Cons.prems(2) [OF _ c(1)] st None fresh [OF c(3)] IH [OF c(4,3)]
        by (intro exI [of _ N] exI [of _ "W w' c'"] exI [of _ s']) simp
    qed
  next
    case (Some x)
    show ?thesis unfolding transduce.simps st Some prod.case option.case
    proof (rule yields_Cons_I)
      fix s assume "same s0 s"
      from yields_ConsD [OF Cons.prems(1) this] obtain N c' s' where
        c: "\<And>n. n \<ge> N \<Longrightarrow> op_next n child s = (Inr (Some r), c', s')" "same s0 s'" "fresh c' = fresh child" "yields s0 c' rs"
        by blast
      then show "\<exists>N op' s'. (\<forall>n\<ge>N. op_next (Suc n) (W w child) s = (Inr (Some x), op', s')) \<and> same s0 s' \<and>
          fresh op' = fresh (W w child) \<and> yields s0 op' (transduce st w' rs fin)"
        using Cons.prems(2) [OF _ c(1)] st Some fresh [OF c(3)] IH [OF c(4,3)]
        by (intro exI [of _ N] exI [of _ "W w' c'"] exI [of _ s']) simp
    qed
  qed
qed

text \<open>An operator that ends with its child.\<close>

lemma yields_end:
  assumes "yields s0 c []"
    and "\<And>n s c' s'. op_next n c s = (Inr None, c', s') \<Longrightarrow> op_next (Suc n) (W c) s = (Inr None, W c', s')"
    and "\<And>c'. fresh c' = fresh c \<Longrightarrow> fresh (W c') = fresh (W c)"
  shows "yields s0 (W c) []"
proof (rule yields_Nil_I)
  fix s assume "same s0 s"
  from yields_NilD [OF assms(1) this] obtain N c' s' where
    c: "\<And>n. n \<ge> N \<Longrightarrow> op_next n c s = (Inr None, c', s')" "same s0 s'" "fresh c' = fresh c" by blast
  then show "\<exists>N op' s'. (\<forall>n\<ge>N. op_next (Suc n) (W c) s = (Inr None, op', s')) \<and> same s0 s' \<and> fresh op' = fresh (W c)"
    using assms(2) [OF c(1)] assms(3) [OF c(3)] by (intro exI [of _ N] exI [of _ "W c'"] exI [of _ s']) simp
qed

lemma transduce_filter: "transduce (\<lambda>w r. ((), if P r then Some r else None)) w rows (\<lambda>_. []) = filter P rows"
  by (induction rows) auto

lemma transduce_map: "transduce (\<lambda>w r. ((), Some (g r))) w rows (\<lambda>_. []) = map g rows"
  by (induction rows) auto

lemma filter_yields:
  assumes "yields s0 child rows" and "\<forall>r\<in>set rows. evalPreds r tbl preds = Inr (P r)"
  shows "yields s0 (FilterOp child preds tbl) (filter P rows)"
proof -
  have "yields s0 ((\<lambda>_ c. FilterOp c preds tbl) () child)
      (transduce (\<lambda>w r. ((), if P r then Some r else None)) () rows (\<lambda>_. []))"
    by (rule transduce_yields [OF assms(1)]) (use assms(2) in \<open>auto intro: yields_end\<close>)
  then show ?thesis by (simp add: transduce_filter)
qed

lemma project_yields:
  assumes "yields s0 child rows" and "\<forall>r\<in>set rows. project_row idxs r = Inr (g r)"
  shows "yields s0 (ProjectOp child idxs) (map g rows)"
proof -
  have "yields s0 ((\<lambda>_ c. ProjectOp c idxs) () child) (transduce (\<lambda>w r. ((), Some (g r))) () rows (\<lambda>_. []))"
    by (rule transduce_yields [OF assms(1)]) (use assms(2) in \<open>auto intro: yields_end\<close>)
  then show ?thesis by (simp add: transduce_map)
qed

lemma limit_done:
  assumes "limit \<le> count" shows "yields s0 (LimitOp child limit count) []"
proof (rule yields_Nil_I)
  fix s assume "same s0 s"
  then show "\<exists>N op' s'. (\<forall>n\<ge>N. op_next (Suc n) (LimitOp child limit count) s = (Inr None, op', s')) \<and> same s0 s' \<and>
      fresh op' = fresh (LimitOp child limit count)"
    using assms by (intro exI [of _ 0] exI [of _ "LimitOp child limit count"] exI [of _ s]) simp
qed

lemma limit_yields:
  assumes "yields s0 child rows"
  shows "yields s0 (LimitOp child limit count) (take (nat (limit - count)) rows)"
proof (cases "limit \<le> count")
  case True
  then show ?thesis using limit_done by simp
next
  case False
  then show ?thesis using assms
  proof (induction rows arbitrary: child count)
    case Nil
    then show ?case by (simp add: yields_end [of s0 child "\<lambda>c. LimitOp c limit count"])
  next
    case (Cons r rs)
    have "nat (limit - count) = Suc (nat (limit - (count + 1)))" using Cons.prems(1) by simp
    then have t: "take (nat (limit - count)) (r # rs) = r # take (nat (limit - (count + 1))) rs" by simp
    show ?case unfolding t
    proof (rule yields_Cons_I)
      fix s assume "same s0 s"
      from yields_ConsD [OF Cons.prems(2) this] obtain N c' s' where
        c: "\<And>n. n \<ge> N \<Longrightarrow> op_next n child s = (Inr (Some r), c', s')" "same s0 s'" "fresh c' = fresh child" "yields s0 c' rs"
        by blast
      have "yields s0 (LimitOp c' limit (count + 1)) (take (nat (limit - (count + 1))) rs)"
        using Cons.IH [OF _ c(4)] limit_done [of limit "count + 1"] by (cases "limit \<le> count + 1") simp_all
      then show "\<exists>N op' s'. (\<forall>n\<ge>N. op_next (Suc n) (LimitOp child limit count) s = (Inr (Some r), op', s')) \<and> same s0 s' \<and>
          fresh op' = fresh (LimitOp child limit count) \<and> yields s0 op' (take (nat (limit - (count + 1))) rs)"
        using Cons.prems(1) c
        by (intro exI [of _ N] exI [of _ "LimitOp c' limit (count + 1)"] exI [of _ s']) simp
    qed
  qed
qed

end

fun dedup :: "nat \<Rightarrow> u64 set \<Rightarrow> Value list list \<Rightarrow> Value list list" where
  "dedup p seen [] = []"
| "dedup p seen (r # rs) =
     (if IntVal (r ! p) \<in> seen then dedup p seen rs else r # dedup p (insert (IntVal (r ! p)) seen) rs)"

definition dedup_step :: "nat \<Rightarrow> u64 set \<Rightarrow> Value list \<Rightarrow> u64 set \<times> Value list option" where
  "dedup_step p seen r =
     (if IntVal (r ! p) \<in> seen then (seen, None) else (insert (IntVal (r ! p)) seen, Some r))"

lemma transduce_dedup:
  "transduce (dedup_step p) seen rows (\<lambda>seen. dedup p seen rest) = dedup p seen (rows @ rest)"
  by (induction rows arbitrary: seen) (auto simp: dedup_step_def)

context db_files
begin

lemma union_yields:
  assumes "length rss = length cs" and "\<And>i. cur \<le> i \<Longrightarrow> i < length cs \<Longrightarrow> yields s0 (cs ! i) (rss ! i)"
    and "\<And>rows r. rows \<in> set rss \<Longrightarrow> r \<in> set rows \<Longrightarrow> p < length r"
  shows "yields s0 (UnionOp cs p cur seen) (dedup p seen (concat (drop cur rss)))"
  using assms
proof (induction "length cs - cur" arbitrary: cs cur seen)
  case 0
  then have "length cs \<le> cur" by simp
  then have "yields s0 (UnionOp cs p cur seen) []"
    by (intro yields_Nil_I) (auto intro!: exI [of _ 0])
  then show ?case using 0 by simp
next
  case (Suc k)
  then have cur: "cur < length cs" by simp
  let ?W = "\<lambda>seen c. UnionOp (cs[cur := c]) p cur seen"
  have rest: "yields s0 (?W w c) (dedup p w (concat (drop (Suc cur) rss)))"
    if c: "fresh c = fresh (cs ! cur)" "yields s0 c []" for w c
  proof (rule yields_skip)
    fix s assume "same s0 s"
    from yields_NilD [OF c(2) this] obtain N c' s' where
      n: "\<And>n. n \<ge> N \<Longrightarrow> op_next n c s = (Inr None, c', s')" "same s0 s'" "fresh c' = fresh c" by blast
    have "yields s0 (UnionOp (cs[cur := c']) p (Suc cur) w) (dedup p w (concat (drop (Suc cur) rss)))"
      using Suc by (intro Suc.hyps(1)) auto
    moreover have "(map fresh cs)[cur := fresh c'] = (map fresh cs)[cur := fresh c]" using n(3) by simp
    ultimately show "\<exists>N op' s'. (\<forall>n\<ge>N. op_next (Suc n) (?W w c) s = op_next n op' s') \<and> same s0 s' \<and>
        fresh op' = fresh (?W w c) \<and> yields s0 op' (dedup p w (concat (drop (Suc cur) rss)))"
      using cur n by (intro exI [of _ N] exI [of _ "UnionOp (cs[cur := c']) p (Suc cur) w"] exI [of _ s'])
        (simp add: map_update)
  qed
  have "yields s0 (?W seen (cs ! cur))
      (transduce (dedup_step p) seen (rss ! cur) (\<lambda>seen. dedup p seen (concat (drop (Suc cur) rss))))"
  proof (rule transduce_yields [where W = ?W])
    show "yields s0 (cs ! cur) (rss ! cur)" using Suc.prems(2) cur by simp
    show "op_next (Suc n) (?W w child) s =
        (case dedup_step p w r of (w', Some x) \<Rightarrow> (Inr (Some x), ?W w' child', s')
           | (w', None) \<Rightarrow> op_next n (?W w' child') s')"
      if "r \<in> set (rss ! cur)" "op_next n child s = (Inr (Some r), child', s')" for w child s n r child' s'
    proof -
      have "p < length r" using Suc.prems(1,3) that(1) cur by (metis nth_mem)
      then show ?thesis using that(2) cur by (simp add: dedup_step_def Let_def not_le)
    qed
    show "fresh (?W w c) = fresh (?W w' c')" if "fresh c = fresh c'" for w w' c c'
      using that by (simp add: map_update)
  qed (use rest in auto)
  then show ?case
    using cur Suc.prems(1) by (simp add: transduce_dedup flip: concat.simps(2) Cons_nth_drop_Suc)
qed

section \<open>Opening\<close>

definition opens :: "'s \<Rightarrow> 's Operator \<Rightarrow> Value list list \<Rightarrow> bool" where
  "opens s0 op0 rows \<longleftrightarrow>
     (\<forall>op s. fresh op = fresh op0 \<longrightarrow> same s0 s \<longrightarrow>
        (\<exists>N op' s'. (\<forall>n\<ge>N. op_open n op s = (Inr (), op', s')) \<and> same s0 s' \<and> fresh op' = fresh op0 \<and>
           yields s0 op' rows))"

lemma opensD:
  assumes "opens s0 op0 rows" and "fresh op = fresh op0" and "same s0 s"
  obtains N op' s' where "\<And>n. n \<ge> N \<Longrightarrow> op_open n op s = (Inr (), op', s')" "same s0 s'"
    "fresh op' = fresh op0" "yields s0 op' rows"
  using assms unfolding opens_def by blast

lemma opensI:
  assumes "\<And>op s. fresh op = fresh op0 \<Longrightarrow> same s0 s \<Longrightarrow>
    \<exists>N op' s'. (\<forall>n\<ge>N. op_open n op s = (Inr (), op', s')) \<and> same s0 s' \<and> fresh op' = fresh op0 \<and> yields s0 op' rows"
  shows "opens s0 op0 rows"
  using assms unfolding opens_def by blast

text \<open>Operators with one child that only forward \<open>Open\<close>.\<close>

lemma unary_opens:
  assumes child: "opens s0 child rows"
    and inv: "\<And>op. fresh op = fresh (W wi child) \<Longrightarrow> \<exists>w c. op = W w c \<and> fresh c = fresh child"
    and open': "\<And>n w c s r c' s'. op_open n c s = (r, c', s') \<Longrightarrow> op_open n (W w c) s = (r, W wi c', s')"
    and fr: "\<And>w w' c c'. fresh c = fresh c' \<Longrightarrow> fresh (W w c) = fresh (W w' c')"
    and y: "\<And>c. yields s0 c rows \<Longrightarrow> yields s0 (W wi c) rows'"
  shows "opens s0 (W wi child) rows'"
proof (rule opensI)
  fix op s assume op: "fresh op = fresh (W wi child)" and s: "same s0 s"
  obtain w c where w: "op = W w c" "fresh c = fresh child" using inv [OF op] by blast
  from opensD [OF child w(2) s] obtain N c' s' where
    c: "\<And>n. n \<ge> N \<Longrightarrow> op_open n c s = (Inr (), c', s')" "same s0 s'" "fresh c' = fresh child" "yields s0 c' rows" by blast
  show "\<exists>N op' s'. (\<forall>n\<ge>N. op_open n op s = (Inr (), op', s')) \<and> same s0 s' \<and> fresh op' = fresh (W wi child) \<and>
      yields s0 op' rows'"
    unfolding w(1) using open' [OF c(1)] c(2) fr [OF c(3)] y [OF c(4)]
    by (intro exI [of _ N] exI [of _ "W wi c'"] exI [of _ s']) simp
qed

lemma filter_opens:
  assumes "opens s0 child rows" and "\<forall>r\<in>set rows. evalPreds r tbl preds = Inr (P r)"
  shows "opens s0 (FilterOp child preds tbl) (filter P rows)"
proof (rule unary_opens [where W = "\<lambda>_ c. FilterOp c preds tbl" and wi = "()", OF assms(1)])
  show "\<exists>w c. op = FilterOp c preds tbl \<and> fresh c = fresh child" if "fresh op = fresh (FilterOp child preds tbl)" for op
    using that by (cases op) auto
qed (use filter_yields [OF _ assms(2)] in auto)

lemma project_opens:
  assumes "opens s0 child rows" and "\<forall>r\<in>set rows. project_row idxs r = Inr (g r)"
  shows "opens s0 (ProjectOp child idxs) (map g rows)"
proof (rule unary_opens [where W = "\<lambda>_ c. ProjectOp c idxs" and wi = "()", OF assms(1)])
  show "\<exists>w c. op = ProjectOp c idxs \<and> fresh c = fresh child" if "fresh op = fresh (ProjectOp child idxs)" for op
    using that by (cases op) auto
qed (use project_yields [OF _ assms(2)] in auto)

lemma limit_opens:
  assumes "opens s0 child rows"
  shows "opens s0 (LimitOp child limit 0) (take (nat limit) rows)"
proof (rule unary_opens [where W = "\<lambda>k c. LimitOp c limit k" and wi = 0, OF assms(1)])
  show "\<exists>k c. op = LimitOp c limit k \<and> fresh c = fresh child" if "fresh op = fresh (LimitOp child limit 0)" for op
    using that by (cases op) auto
  show "yields s0 (LimitOp c limit 0) (take (nat limit) rows)" if "yields s0 c rows" for c
    using limit_yields [OF that, of limit 0] by simp
qed auto

lemma scan_opens:
  assumes tf: "table_file f s0 es n bt" and dec: "\<forall>e\<in>set es. \<exists>row. decodeRow t (Value e) = Inr row"
  shows "opens s0 (ScanOp (store f) mn mx t snap None)
    (map (\<lambda>e. decoded t (Value e)) (filter (\<lambda>e. visible snap (Value e)) (filter (in_range mn mx) es)))"
proof (rule opensI)
  fix op s assume "fresh op = fresh (ScanOp (store f) mn mx t snap None)" and s: "same s0 s"
  then obtain cur where op: "op = ScanOp (store f) mn mx t snap cur" by (cases op) auto
  from open_cursor_yields [OF tf s lessI, of mn mx] obtain c s' where
    c: "open_cursor (Suc n) (store f) mn mx s = (Inr c, s')" "same s0 s'"
      "cursor_yields f s0 c (filter (in_range mn mx) es)" by blast
  have "op_open m op s = (Inr (), ScanOp (store f) mn mx t snap (Some c), s')" if "m \<ge> Suc n" for m
    using open_cursor_mono [OF c(1) that] op by simp
  then show "\<exists>N op' s'. (\<forall>n\<ge>N. op_open n op s = (Inr (), op', s')) \<and> same s0 s' \<and>
      fresh op' = fresh (ScanOp (store f) mn mx t snap None) \<and> yields s0 op'
        (map (\<lambda>e. decoded t (Value e)) (filter (\<lambda>e. visible snap (Value e)) (filter (in_range mn mx) es)))"
    using c(2) scan_yields [OF c(3)] dec
    by (intro exI [of _ "Suc n"] exI [of _ "ScanOp (store f) mn mx t snap (Some c)"] exI [of _ s']) simp
qed

lemma ops_open_yields:
  assumes "list_all2 (opens s0) cs rss" and "map fresh ops = map fresh cs" and "same s0 s"
  shows "\<exists>N ops' s'. (\<forall>n\<ge>N. ops_open n ops s = (Inr (), ops', s')) \<and> same s0 s' \<and> map fresh ops' = map fresh cs \<and>
    list_all2 (yields s0) ops' rss"
  using assms
proof (induction arbitrary: ops s rule: list_all2_induct)
  case Nil
  then show ?case by auto
next
  case (Cons c cs rows rss)
  obtain o1 os where ops: "ops = o1 # os" "fresh o1 = fresh c" "map fresh os = map fresh cs"
    using Cons.prems(1) by (cases ops) auto
  from opensD [OF Cons.hyps(1) ops(2) Cons.prems(2)] obtain N o' s' where
    c: "\<And>n. n \<ge> N \<Longrightarrow> op_open n o1 s = (Inr (), o', s')" "same s0 s'" "fresh o' = fresh c" "yields s0 o' rows" by blast
  from Cons.IH [OF ops(3) c(2)] obtain M os' s'' where
    r: "\<forall>n\<ge>M. ops_open n os s' = (Inr (), os', s'')" "same s0 s''" "map fresh os' = map fresh cs"
      "list_all2 (yields s0) os' rss" by blast
  show ?case
    using ops c r by (intro exI [of _ "max N M"] exI [of _ "o' # os'"] exI [of _ s'']) simp
qed

lemma union_opens:
  assumes cs: "list_all2 (opens s0) cs rss"
    and "\<And>rows r. rows \<in> set rss \<Longrightarrow> r \<in> set rows \<Longrightarrow> p < length r"
  shows "opens s0 (UnionOp cs p 0 {}) (dedup p {} (concat rss))"
proof (rule opensI)
  fix op s assume "fresh op = fresh (UnionOp cs p 0 {})" and s: "same s0 s"
  then obtain ops cur seen where op: "op = UnionOp ops p cur seen" "map fresh ops = map fresh cs" by (cases op) auto
  from ops_open_yields [OF cs op(2) s] obtain N ops' s' where
    r: "\<forall>n\<ge>N. ops_open n ops s = (Inr (), ops', s')" "same s0 s'" "map fresh ops' = map fresh cs"
      "list_all2 (yields s0) ops' rss" by blast
  have "yields s0 (UnionOp ops' p 0 {}) (dedup p {} (concat (drop 0 rss)))"
    using r(4) assms(2) by (intro union_yields) (auto simp: list_all2_conv_all_nth)
  then show "\<exists>N op' s'. (\<forall>n\<ge>N. op_open n op s = (Inr (), op', s')) \<and> same s0 s' \<and> fresh op' = fresh (UnionOp cs p 0 {}) \<and>
      yields s0 op' (dedup p {} (concat rss))"
    using op r by (intro exI [of _ N] exI [of _ "UnionOp ops' p 0 {}"] exI [of _ s']) simp
qed

end

definition join_row :: "(Value list \<Rightarrow> Value list \<Rightarrow> bool) \<Rightarrow> Value list \<Rightarrow> Value list list \<Rightarrow> Value list list" where
  "join_row P l rs = map (\<lambda>r. l @ r) (filter (P l) rs)"

definition join_rows :: "(Value list \<Rightarrow> Value list \<Rightarrow> bool) \<Rightarrow> Value list list \<Rightarrow> Value list list \<Rightarrow> Value list list" where
  "join_rows P ls rs = concat (map (\<lambda>l. join_row P l rs) ls)"

lemma transduce_join:
  "transduce (\<lambda>w r. ((), if P l r then Some (l @ r) else None)) w rows (\<lambda>_. rest) = join_row P l rows @ rest"
  by (induction rows) (auto simp: join_row_def)

definition lookup_row :: "Table \<Rightarrow> Snapshot \<Rightarrow> Entry list \<Rightarrow> Entry \<Rightarrow> Value list option" where
  "lookup_row t snap es e =
     (case entry_lookup es (from_le (seg 0 8 (Value e))) of
        None \<Rightarrow> None
      | Some v \<Rightarrow> if IsVisible snap (row_xmin v) (row_xmax v) then Some (projr (decodeRow t v)) else None)"

context db_files
begin

lemma join_yields:
  assumes "yields s0 l lrows" and "opens s0 r0 rrows" and "fresh r = fresh r0"
    and "\<And>x y. x \<in> set lrows \<Longrightarrow> y \<in> set rrows \<Longrightarrow> evalOn lm rm on x y = Inr (P x y)"
  shows "yields s0 (NlJoinOp l r on ls rs lm rm row False) (join_rows P lrows rrows)"
  using assms
proof (induction lrows arbitrary: l r row)
  case Nil
  have "yields s0 ((\<lambda>c. NlJoinOp c r on ls rs lm rm row False) l) []"
    by (rule yields_end [OF Nil(1)]) auto
  then show ?case by (simp add: join_rows_def)
next
  case (Cons x lrows)
  show ?case
  proof (rule yields_skip)
    fix s assume "same s0 s"
    from yields_ConsD [OF Cons.prems(1) this] obtain N l' s' where
      l: "\<And>n. n \<ge> N \<Longrightarrow> op_next n l s = (Inr (Some x), l', s')" "same s0 s'" "fresh l' = fresh l" "yields s0 l' lrows"
      by blast
    have "fresh (op_close r) = fresh r0" using Cons.prems(3) by simp
    from opensD [OF Cons.prems(2) this l(2)] obtain M r' s'' where
      r: "\<And>n. n \<ge> M \<Longrightarrow> op_open n (op_close r) s' = (Inr (), r', s'')" "same s0 s''" "fresh r' = fresh r0" "yields s0 r' rrows"
      by blast
    let ?W = "\<lambda>(_::unit) c. NlJoinOp l' c on ls rs lm rm x True"
    have rest: "yields s0 (?W w c) (join_rows P lrows rrows)" if c: "fresh c = fresh r'" "yields s0 c []" for w :: unit and c
    proof (rule yields_skip)
      fix s assume "same s0 s"
      from yields_NilD [OF c(2) this] obtain K c' t where
        n: "\<And>n. n \<ge> K \<Longrightarrow> op_next n c s = (Inr None, c', t)" "same s0 t" "fresh c' = fresh c" by blast
      have "yields s0 (NlJoinOp l' c' on ls rs lm rm x False) (join_rows P lrows rrows)"
        by (rule Cons.IH [OF l(4) Cons.prems(2)]) (use n(3) c(1) r(3) Cons.prems(4) in auto)
      then show "\<exists>N op' s'. (\<forall>n\<ge>N. op_next (Suc n) (?W w c) s = op_next n op' s') \<and> same s0 s' \<and>
          fresh op' = fresh (?W w c) \<and> yields s0 op' (join_rows P lrows rrows)"
        using n by (intro exI [of _ K] exI [of _ "NlJoinOp l' c' on ls rs lm rm x False"] exI [of _ t]) simp
    qed
    have "yields s0 (?W () r') (transduce (\<lambda>w r. ((), if P x r then Some (x @ r) else None)) () rrows
        (\<lambda>_. join_rows P lrows rrows))"
      by (rule transduce_yields [where W = ?W, OF r(4)]) (use rest Cons.prems(4) in auto)
    then have "yields s0 (NlJoinOp l' r' on ls rs lm rm x True) (join_rows P (x # lrows) rrows)"
      by (simp add: transduce_join join_rows_def)
    then show "\<exists>N op' s'. (\<forall>n\<ge>N. op_next (Suc n) (NlJoinOp l r on ls rs lm rm row False) s = op_next n op' s') \<and> same s0 s' \<and>
        fresh op' = fresh (NlJoinOp l r on ls rs lm rm row False) \<and> yields s0 op' (join_rows P (x # lrows) rrows)"
      using l r Cons.prems(3)
      by (intro exI [of _ "max N M"] exI [of _ "NlJoinOp l' r' on ls rs lm rm x True"] exI [of _ s'']) simp
  qed
qed

lemma join_opens:
  assumes l: "opens s0 l lrows" and r: "opens s0 r rrows"
    and P: "\<And>x y. x \<in> set lrows \<Longrightarrow> y \<in> set rrows \<Longrightarrow> evalOn (buildColMap ls) (buildColMap rs) on x y = Inr (P x y)"
  shows "opens s0 (NlJoinOp l r on ls rs Map.empty Map.empty [] False) (join_rows P lrows rrows)"
proof (rule opensI)
  fix op s assume "fresh op = fresh (NlJoinOp l r on ls rs Map.empty Map.empty [] False)" and s: "same s0 s"
  then obtain l1 r1 lm rm row ro where op: "op = NlJoinOp l1 r1 on ls rs lm rm row ro" "fresh l1 = fresh l" "fresh r1 = fresh r"
    by (cases op) auto
  from opensD [OF l op(2) s] obtain N l' s' where
    c: "\<And>n. n \<ge> N \<Longrightarrow> op_open n l1 s = (Inr (), l', s')" "same s0 s'" "fresh l' = fresh l" "yields s0 l' lrows" by blast
  show "\<exists>N op' s'. (\<forall>n\<ge>N. op_open n op s = (Inr (), op', s')) \<and> same s0 s' \<and>
      fresh op' = fresh (NlJoinOp l r on ls rs Map.empty Map.empty [] False) \<and> yields s0 op' (join_rows P lrows rrows)"
    using c op join_yields [OF c(4) r op(3) P]
    by (intro exI [of _ N] exI [of _ "NlJoinOp l' r1 on ls rs (buildColMap ls) (buildColMap rs) row False"] exI [of _ s']) simp
qed

text \<open>The primary lookup of one index entry.\<close>

lemma search_same:
  assumes tf: "table_file f s0 es n bt" and s: "same s0 s"
  obtains s' where "same s0 s'" "\<And>m. m \<ge> Suc n \<Longrightarrow> btree_Search (store f) m bt key s =
     (Inr (case entry_lookup es key of None \<Rightarrow> (replicate ValueSize 0, False) | Some v \<Rightarrow> (v, True)), s')"
proof -
  obtain t where t: "f \<in> F" "btree_tree (live f s) (view f s) n t bt" "entries t = es"
    using table_file_same [OF tf s] by (auto simp: table_file_def)
  have ok: "okf f s s" using s by (simp add: same_def okf_self)
  have rel: "btree_rel (live f s) (view f s) n es bt" using t by (auto simp: btree_rel_def)
  from page_store.btree_Search_spec [OF framed [OF t(1)] ok rel lessI] obtain s' where
    s': "btree_Search (store f) (Suc n) bt key s =
     (Inr (case entry_lookup es key of None \<Rightarrow> (replicate ValueSize 0, False) | Some v \<Rightarrow> (v, True)), s')"
     "page_store.same_store (okf f s) (live f) (view f) (room f) s s'" by blast
  show thesis
    using that [of s'] btree_Search_mono [OF s'(1)] same_trans [OF s same_store_same [OF t(1) s'(2)]] by blast
qed

lemma lookup_yields:
  assumes tf: "table_file f s0 es n bt"
    and "cursor_yields g s0 c ies"
    and dec: "\<And>v. v \<in> Value ` set es \<Longrightarrow> \<exists>row. decodeRow t v = Inr row"
    and lk: "\<And>k v. entry_lookup es k = Some v \<Longrightarrow> v \<in> Value ` set es"
  shows "yields s0 (IndexLookupOp (store f) (store g) mn mx t snap (Some c) (Some bt))
    (List.map_filter (lookup_row t snap es) ies)"
  using assms(2)
proof (induction ies arbitrary: c)
  case Nil
  have "yields s0 (IndexLookupOp (store f) (store g) mn mx t snap (Some c) (Some bt)) []"
  proof (rule yields_Nil_I)
    fix s assume "same s0 s"
    then obtain c' s' where "cursor_Next (store g) (c, s) = (Inr None, (c', s'))" "same s0 s'"
      using Nil by auto
    then show "\<exists>N op' s'. (\<forall>n\<ge>N. op_next (Suc n) (IndexLookupOp (store f) (store g) mn mx t snap (Some c) (Some bt)) s =
        (Inr None, op', s')) \<and> same s0 s' \<and>
        fresh op' = fresh (IndexLookupOp (store f) (store g) mn mx t snap (Some c) (Some bt))"
      by (intro exI [of _ 0] exI [of _ "IndexLookupOp (store f) (store g) mn mx t snap (Some c') (Some bt)"] exI [of _ s']) simp
  qed
  then show ?case by (simp add: List.map_filter_simps)
next
  case (Cons e ies)
  let ?op = "\<lambda>c. IndexLookupOp (store f) (store g) mn mx t snap (Some c) (Some bt)"
  let ?k = "from_le (seg 0 8 (Value e)) :: u64"
  have step: "\<exists>c' s''. same s0 s'' \<and> cursor_yields g s0 c' ies \<and>
      (\<forall>m\<ge>Suc n. op_next (Suc m) (?op c) s =
        (case lookup_row t snap es e of Some row \<Rightarrow> (Inr (Some row), ?op c', s'') | None \<Rightarrow> op_next m (?op c') s''))"
    if s: "same s0 s" for s
  proof -
    obtain c' s' where c: "cursor_Next (store g) (c, s) = (Inr (Some e), (c', s'))" "same s0 s'" "cursor_yields g s0 c' ies"
      using Cons.prems s by auto
    from search_same [OF tf c(2), of ?k] obtain s'' where
      b: "same s0 s''" "\<And>m. m \<ge> Suc n \<Longrightarrow> btree_Search (store f) m bt ?k s' =
        (Inr (case entry_lookup es ?k of None \<Rightarrow> (replicate ValueSize 0, False) | Some v \<Rightarrow> (v, True)), s'')" by blast
    show ?thesis
    proof (intro exI conjI allI impI)
      fix m assume "m \<ge> Suc n"
      then show "op_next (Suc m) (?op c) s =
        (case lookup_row t snap es e of Some row \<Rightarrow> (Inr (Some row), ?op c', s'') | None \<Rightarrow> op_next m (?op c') s'')"
        using c(1) b(2) dec [OF lk, of ?k] by (auto simp: lookup_row_def split: option.splits)
    qed (use b c in auto)
  qed
  show ?case
  proof (cases "lookup_row t snap es e")
    case None
    have "yields s0 (?op c) (List.map_filter (lookup_row t snap es) ies)"
    proof (rule yields_skip)
      fix s assume "same s0 s"
      from step [OF this] None Cons.IH show "\<exists>N op' s'. (\<forall>n\<ge>N. op_next (Suc n) (?op c) s = op_next n op' s') \<and>
          same s0 s' \<and> fresh op' = fresh (?op c) \<and> yields s0 op' (List.map_filter (lookup_row t snap es) ies)"
        by (metis (no_types, lifting) fresh.simps(2) option.case(1))
    qed
    then show ?thesis using None by (simp add: List.map_filter_simps)
  next
    case (Some row)
    have "yields s0 (?op c) (row # List.map_filter (lookup_row t snap es) ies)"
    proof (rule yields_Cons_I)
      fix s assume "same s0 s"
      from step [OF this] Some Cons.IH show "\<exists>N op' s'. (\<forall>n\<ge>N. op_next (Suc n) (?op c) s = (Inr (Some row), op', s')) \<and>
          same s0 s' \<and> fresh op' = fresh (?op c) \<and> yields s0 op' (List.map_filter (lookup_row t snap es) ies)"
        by (metis (no_types, lifting) fresh.simps(2) option.case(2))
    qed
    then show ?thesis using Some by (simp add: List.map_filter_simps)
  qed
qed

end

end
