(* ===== verification/Statistics.thy ===== *)
theory Statistics
  imports Catalog OperatorSpec
begin

text \<open>
  \<open>src/stats/stats.go\<close>: the statistics that ANALYZE collects (\<open>Collect\<close>), the table of
  statistics (\<open>StatsDB\<close>) with its file, and the cost estimates that the planner compares. HOL has no
  float64; the arithmetic the estimates use is the argument \<open>Float64\<close>, a record of the operations of
  that type, and every theorem holds for any choice of them.

  The lemmas: \<open>Collect\<close> ends and its numbers are the exact counts, minima and maxima of the
  values it decodes; a saved file loads back; selectivities lie between 0 and 1.
\<close>

definition statsMagic :: u32 where "statsMagic = 0x53544154"

record ColumnStat =
  csName :: string
  NDistinct :: u64
  csMin :: u64
  csMax :: u64

record TableStats =
  tsTable :: string
  RowCount :: u64
  tsColumns :: "ColumnStat list"

definition ColStat :: "TableStats \<Rightarrow> string \<Rightarrow> ColumnStat option" where
  "ColStat ts name = (let lower = ToLower name in find (\<lambda>c. ToLower (csName c) = lower) (tsColumns ts))"

record StatsDB =
  st_tables :: "string \<rightharpoonup> TableStats"
  st_file :: go_file

definition NewStatsDB :: "go_file \<Rightarrow> StatsDB" where
  "NewStatsDB f = \<lparr>st_tables = Map.empty, st_file = f\<rparr>"

definition stats_Get :: "StatsDB \<Rightarrow> string \<Rightarrow> TableStats option" where
  "stats_Get db name = st_tables db (ToLower name)"

definition stats_Set :: "TableStats \<Rightarrow> StatsDB \<Rightarrow> StatsDB" where
  "stats_Set ts db = db\<lparr>st_tables := (st_tables db)(ToLower (tsTable ts) \<mapsto> ts)\<rparr>"

section \<open>Collecting\<close>

text \<open>A nil map is \<open>None\<close>: writing to it panics.\<close>

record colTracker =
  intSet :: "u64 set option"
  textSet :: "string set option"
  trMin :: u64
  trMax :: u64
  seenAny :: bool

definition new_tracker :: "ColumnDef \<Rightarrow> colTracker" where
  "new_tracker c =
     (if colType c = TypeInt
      then \<lparr>intSet = Some {}, textSet = None, trMin = 0xFFFFFFFFFFFFFFFF, trMax = 0, seenAny = False\<rparr>
      else \<lparr>intSet = None, textSet = Some {}, trMin = 0, trMax = 0, seenAny = False\<rparr>)"

definition track :: "Value \<Rightarrow> colTracker \<Rightarrow> go_error + colTracker" where
  "track v tr =
     (if valType v = TypeInt then
        (case intSet tr of
           None \<Rightarrow> Inl Panic
         | Some s \<Rightarrow>
             Inr (tr\<lparr>intSet := Some (insert (IntVal v) s),
                     trMin := (if IntVal v < trMin tr then IntVal v else trMin tr),
                     trMax := (if IntVal v > trMax tr then IntVal v else trMax tr), seenAny := True\<rparr>))
      else if valType v = TypeText then
        (case textSet tr of
           None \<Rightarrow> Inl Panic
         | Some s \<Rightarrow> Inr (tr\<lparr>textSet := Some (insert (TextVal v) s)\<rparr>))
      else Inr tr)"

fun track_row :: "Value list \<Rightarrow> colTracker list \<Rightarrow> go_error + colTracker list" where
  "track_row [] trs = Inr trs"
| "track_row (v # vs) [] = Inl Panic"
| "track_row (v # vs) (tr # trs) = bindE (track v tr) (\<lambda>tr. bindE (track_row vs trs) (\<lambda>trs. Inr (tr # trs)))"

fun collect_loop ::
  "nat \<Rightarrow> ('s, 'z) PageStore_scheme \<Rightarrow> Table \<Rightarrow> Cursor \<Rightarrow> u64 \<Rightarrow> colTracker list \<Rightarrow> ('s, u64 \<times> colTracker list) go" where
  "collect_loop 0 ps t cur n trs s = (Inl OutOfFuel, s)"
| "collect_loop (Suc fuel) ps t cur n trs s =
     (case cursor_Next ps (cur, s) of
        (Inl e, cur, s) \<Rightarrow> (Inl e, s)
      | (Inr None, cur, s) \<Rightarrow> (Inr (n, trs), s)
      | (Inr (Some e), cur, s) \<Rightarrow>
          (case bindE (Table_Decode t (Value e)) (\<lambda>row. track_row row trs) of
             Inl er \<Rightarrow> (Inl er, s)
           | Inr trs \<Rightarrow> collect_loop fuel ps t cur (n + 1) trs s))"

definition column_stat :: "ColumnDef \<Rightarrow> colTracker \<Rightarrow> ColumnStat" where
  "column_stat c tr =
     (if colType c = TypeInt then
        \<lparr>csName = colName c, NDistinct = word_of_nat (card (case intSet tr of None \<Rightarrow> {} | Some s \<Rightarrow> s)),
         csMin = (if seenAny tr then trMin tr else 0), csMax = (if seenAny tr then trMax tr else 0)\<rparr>
      else
        \<lparr>csName = colName c, NDistinct = word_of_nat (card (case textSet tr of None \<Rightarrow> {} | Some s \<Rightarrow> s)),
         csMin = 0, csMax = 0\<rparr>)"

definition Collect_stats :: "nat \<Rightarrow> ('s, 'z) PageStore_scheme \<Rightarrow> Table \<Rightarrow> ('s, TableStats) go" where
  "Collect_stats fuel ps t =
     bindG (btree_Open ps 1) (\<lambda>bt.
     bindG (NewCursor ps fuel bt 0 0xFFFFFFFFFFFFFFFF) (\<lambda>cur.
     bindG (collect_loop fuel ps t cur 0 (map new_tracker (tblColumns t))) (\<lambda>(rowCount, trackers).
     returnG \<lparr>tsTable = ToLower (tblName t), RowCount = rowCount, tsColumns = map2 column_stat (tblColumns t) trackers\<rparr>)))"

section \<open>Cost estimates\<close>

record 'f Float64 =
  flOfU64 :: "u64 \<Rightarrow> 'f"
  flTenth :: 'f
  flAdd :: "'f \<Rightarrow> 'f \<Rightarrow> 'f"
  flMul :: "'f \<Rightarrow> 'f \<Rightarrow> 'f"
  flDiv :: "'f \<Rightarrow> 'f \<Rightarrow> 'f"
  flLess :: "'f \<Rightarrow> 'f \<Rightarrow> bool"
  flCeil :: "'f \<Rightarrow> 'f"
  flLog2 :: "'f \<Rightarrow> 'f"
  flToU64 :: "'f \<Rightarrow> u64"

definition stats_leafOrder :: u64 where "stats_leafOrder = 56"

definition FullScanCost :: "'f Float64 \<Rightarrow> u64 \<Rightarrow> 'f" where
  "FullScanCost F rowCount =
     (if rowCount = 0 then flOfU64 F 1 else flCeil F (flDiv F (flOfU64 F rowCount) (flOfU64 F stats_leafOrder)))"

definition IndexLookupCost :: "'f Float64 \<Rightarrow> u64 \<Rightarrow> u64 \<Rightarrow> 'f" where
  "IndexLookupCost F matchingRows rowCount =
     (if rowCount = 0 \<or> matchingRows = 0 then flOfU64 F 1
      else let logN = flLog2 F (flAdd F (flOfU64 F rowCount) (flOfU64 F 1))
           in flAdd F (flMul F (flMul F (flOfU64 F matchingRows) logN) (flOfU64 F 2)) logN)"

definition clamp :: "'f Float64 \<Rightarrow> 'f \<Rightarrow> 'f" where
  "clamp F v = (if flLess F v (flOfU64 F 0) then flOfU64 F 0 else if flLess F (flOfU64 F 1) v then flOfU64 F 1 else v)"

definition EstimateSelectivity :: "'f Float64 \<Rightarrow> Condition \<Rightarrow> ColumnStat option \<Rightarrow> 'f" where
  "EstimateSelectivity F cond cso =
     (case cso of
        None \<Rightarrow> flTenth F
      | Some cs \<Rightarrow>
          if NDistinct cs = 0 then flTenth F
          else let v = IntVal (Val cond);
                   span = flAdd F (flOfU64 F (csMax cs - csMin cs)) (flOfU64 F 1) in
            (case Op cond of
              OpEq \<Rightarrow> flDiv F (flOfU64 F 1) (flOfU64 F (NDistinct cs))
            | OpGt \<Rightarrow> if v \<ge> csMax cs then flOfU64 F 0 else clamp F (flDiv F (flOfU64 F (csMax cs - v)) span)
            | OpGte \<Rightarrow> if v > csMax cs then flOfU64 F 0 else clamp F (flDiv F (flOfU64 F (csMax cs - v + 1)) span)
            | OpLt \<Rightarrow> if v \<le> csMin cs then flOfU64 F 0 else clamp F (flDiv F (flOfU64 F (v - csMin cs)) span)
            | OpLte \<Rightarrow> if v < csMin cs then flOfU64 F 0 else clamp F (flDiv F (flOfU64 F (v - csMin cs + 1)) span)))"

text \<open>The estimates that \<open>costBasedPlanGroup\<close> compares, computed from the statistics of a table
  (\<open>src/planner/planner.go\<close>).\<close>

definition matching_rows :: "'f Float64 \<Rightarrow> TableStats \<Rightarrow> Condition \<Rightarrow> u64" where
  "matching_rows F ts cond =
     (let n = flToU64 F (flMul F (EstimateSelectivity F cond (ColStat ts (Column cond))) (flOfU64 F (RowCount ts)))
      in if n = 0 then 1 else n)"

definition cost_model :: "'f Float64 \<Rightarrow> TableStats \<Rightarrow> 'f CostModel" where
  "cost_model F ts =
     \<lparr>fullScanCost = FullScanCost F (RowCount ts),
      indexLookupCost = (\<lambda>cond. IndexLookupCost F (matching_rows F ts cond) (RowCount ts)),
      cheaper = flLess F\<rparr>"

section \<open>The file\<close>

definition col_stat_chunks :: "ColumnStat \<Rightarrow> byte list list" where
  "col_stat_chunks cs =
     [[len_byte (csName cs)], string_bytes (csName cs), le64 (NDistinct cs), le64 (csMin cs), le64 (csMax cs)]"

definition writeColStat :: "ColumnStat \<Rightarrow> (go_file, unit) go" where
  "writeColStat cs = write_all (col_stat_chunks cs)"

fun writeColStats :: "ColumnStat list \<Rightarrow> (go_file, unit) go" where
  "writeColStats [] = returnG ()"
| "writeColStats (c # cs) = bindG (writeColStat c) (\<lambda>_. writeColStats cs)"

definition writeTableStats :: "TableStats \<Rightarrow> (go_file, unit) go" where
  "writeTableStats ts =
     bindG (write_all [[len_byte (tsTable ts)], string_bytes (tsTable ts), le64 (RowCount ts), [len_byte (tsColumns ts)]])
       (\<lambda>_. writeColStats (tsColumns ts))"

fun write_stats :: "TableStats list \<Rightarrow> (go_file, unit) go" where
  "write_stats [] = returnG ()"
| "write_stats (t # ts) = bindG (writeTableStats t) (\<lambda>_. write_stats ts)"

text \<open>\<open>ord\<close> is the order in which the loop visits the map.\<close>

definition stats_serialize :: "string list \<Rightarrow> StatsDB \<Rightarrow> (go_file, unit) go" where
  "stats_serialize ord db =
     bindG (file_Write (le32 statsMagic)) (\<lambda>_.
     bindG (file_Write (le16 (word_of_nat (length ord)))) (\<lambda>_.
     write_stats (map (\<lambda>k. the (st_tables db k)) ord)))"

definition stats_Save :: "string list \<Rightarrow> (StatsDB, unit) go" where
  "stats_Save ord db =
     (case bindG os_Create (\<lambda>_. stats_serialize ord db) (st_file db) of (r, f) \<Rightarrow> (r, db\<lparr>st_file := f\<rparr>))"

definition read_u64 :: "(byte list, u64) go" where
  "read_u64 = bindG (ReadFull 8) (\<lambda>b. returnG (from_le b))"

definition readColStat :: "(byte list, ColumnStat) go" where
  "readColStat =
     bindG read_string (\<lambda>n. bindG read_u64 (\<lambda>d. bindG read_u64 (\<lambda>mn. bindG read_u64 (\<lambda>mx.
     returnG \<lparr>csName = n, NDistinct = d, csMin = mn, csMax = mx\<rparr>))))"

definition readTableStats :: "(byte list, TableStats) go" where
  "readTableStats =
     bindG read_string (\<lambda>n. bindG read_u64 (\<lambda>rc. bindG read_byte (\<lambda>ncols.
     bindG (read_times (unat ncols) readColStat) (\<lambda>cols.
     returnG \<lparr>tsTable = n, RowCount = rc, tsColumns = cols\<rparr>))))"

fun load_stats :: "nat \<Rightarrow> StatsDB \<Rightarrow> (byte list, StatsDB) go" where
  "load_stats 0 db = returnG db"
| "load_stats (Suc n) db = bindG readTableStats (\<lambda>ts. load_stats n (stats_Set ts db))"

definition stats_deserialize :: "StatsDB \<Rightarrow> (byte list, StatsDB) go" where
  "stats_deserialize db =
     bindG (ReadFull 4) (\<lambda>magic.
     if (from_le magic :: u32) \<noteq> statsMagic then failG NotStatsFile
     else bindG (ReadFull 2) (\<lambda>n. load_stats (unat (from_le n :: u16)) db))"

definition LoadStatsDB :: "go_file option \<Rightarrow> go_error + StatsDB" where
  "LoadStatsDB sf =
     (case sf of
        None \<Rightarrow> Inr (NewStatsDB empty_file)
      | Some f \<Rightarrow> fst (stats_deserialize (NewStatsDB f) (contents f)))"

section \<open>The codec\<close>

definition stats_codable :: "TableStats \<Rightarrow> bool" where
  "stats_codable ts \<longleftrightarrow> length (tsTable ts) < 256 \<and> length (tsColumns ts) < 256 \<and> (\<forall>c\<in>set (tsColumns ts). length (csName c) < 256)"

definition col_stat_bytes :: "ColumnStat \<Rightarrow> byte list" where
  "col_stat_bytes cs = concat (col_stat_chunks cs)"

definition table_stats_bytes :: "TableStats \<Rightarrow> byte list" where
  "table_stats_bytes ts =
     len_byte (tsTable ts) # string_bytes (tsTable ts) @ le64 (RowCount ts) @ [len_byte (tsColumns ts)] @
     concat (map col_stat_bytes (tsColumns ts))"

definition stats_bytes :: "TableStats list \<Rightarrow> byte list" where
  "stats_bytes ts = le32 statsMagic @ le16 (word_of_nat (length ts)) @ concat (map table_stats_bytes ts)"

lemma read_u64_append [simp]: "read_u64 (le64 x @ bs) = (Inr x, bs)"
  by (simp add: read_u64_def bindG_def)

lemma readColStat_append: "length (csName c) < 256 \<Longrightarrow> readColStat (col_stat_bytes c @ ys) = (Inr c, ys)"
  by (simp add: readColStat_def col_stat_bytes_def col_stat_chunks_def bindG_def)

lemma readTableStats_append: "stats_codable t \<Longrightarrow> readTableStats (table_stats_bytes t @ ys) = (Inr t, ys)"
  using read_times_append [of "tsColumns t" readColStat col_stat_bytes] readColStat_append
  by (simp add: readTableStats_def table_stats_bytes_def stats_codable_def bindG_def)

lemma load_stats_append:
  "\<forall>t\<in>set ts. stats_codable t \<Longrightarrow> load_stats (length ts) db (concat (map table_stats_bytes ts) @ ys) = (Inr (fold stats_Set ts db), ys)"
  by (induction ts arbitrary: db) (simp_all add: bindG_def readTableStats_append)

lemma stats_deserialize_bytes:
  assumes "\<forall>t\<in>set ts. stats_codable t" and "length ts < 65536"
  shows "stats_deserialize db (stats_bytes ts) = (Inr (fold stats_Set ts db), [])"
proof -
  have "unat (word_of_nat (length ts) :: u16) = length ts" using assms(2) by (simp add: unat_of_nat)
  then show ?thesis
    using load_stats_append [OF assms(1), of db "[]"] by (simp add: stats_deserialize_def bindG_def stats_bytes_def)
qed

lemma writeColStats_ok: "faults f = [] \<Longrightarrow> writeColStats cs f = (Inr (), f\<lparr>contents := contents f @ concat (map col_stat_bytes cs)\<rparr>)"
  by (induction cs arbitrary: f) (simp_all add: bindG_def writeColStat_def col_stat_bytes_def)

lemma writeTableStats_ok: "faults f = [] \<Longrightarrow> writeTableStats t f = (Inr (), f\<lparr>contents := contents f @ table_stats_bytes t\<rparr>)"
  by (simp add: writeTableStats_def bindG_def writeColStats_ok table_stats_bytes_def)

lemma write_stats_ok: "faults f = [] \<Longrightarrow> write_stats ts f = (Inr (), f\<lparr>contents := contents f @ concat (map table_stats_bytes ts)\<rparr>)"
  by (induction ts arbitrary: f) (simp_all add: bindG_def writeTableStats_ok)

lemma stats_Save_ok:
  "faults (st_file db) = [] \<Longrightarrow>
   stats_Save ord db = (Inr (), db\<lparr>st_file := (st_file db)\<lparr>contents := stats_bytes (map (\<lambda>k. the (st_tables db k)) ord)\<rparr>\<rparr>)"
  by (simp add: stats_Save_def os_Create_def stats_serialize_def bindG_def write_stats_ok stats_bytes_def)

text \<open>Every table is filed under its own name in lower case.\<close>

definition stats_inv :: "StatsDB \<Rightarrow> bool" where
  "stats_inv db \<longleftrightarrow> (\<forall>k ts. st_tables db k = Some ts \<longrightarrow> k = ToLower (tsTable ts))"

lemma stats_inv_ops: "stats_inv (NewStatsDB f)" "stats_inv db \<Longrightarrow> stats_inv (stats_Set ts db)"
  by (simp_all add: stats_inv_def NewStatsDB_def stats_Set_def)

lemma fold_stats_Set:
  "distinct (map (\<lambda>t. ToLower (tsTable t)) ts) \<Longrightarrow>
   st_tables (fold stats_Set ts db) = st_tables db ++ map_of (map (\<lambda>t. (ToLower (tsTable t), t)) ts)"
proof (induction ts arbitrary: db)
  case (Cons t ts)
  have "ToLower (tsTable t) \<notin> dom (map_of (map (\<lambda>t. (ToLower (tsTable t), t)) ts))"
    using Cons.prems by (auto simp: dom_map_of_conv_image_fst)
  then have "st_tables (stats_Set t db) ++ map_of (map (\<lambda>t. (ToLower (tsTable t), t)) ts) =
      st_tables db ++ map_of (map (\<lambda>t. (ToLower (tsTable t), t)) (t # ts))"
    by (auto simp: stats_Set_def fun_eq_iff map_add_def split: option.split)
  moreover have "st_tables (fold stats_Set ts (stats_Set t db)) = st_tables (stats_Set t db) ++ map_of (map (\<lambda>t. (ToLower (tsTable t), t)) ts)"
    by (rule Cons.IH) (use Cons.prems in simp)
  ultimately show ?case by (simp only: fold_simps)
qed simp

lemma stats_reload:
  assumes inv: "stats_inv db" and ord: "distinct ord" "set ord = dom (st_tables db)"
  shows "st_tables (fold stats_Set (map (\<lambda>k. the (st_tables db k)) ord) (NewStatsDB f)) = st_tables db"
proof -
  let ?ts = "map (\<lambda>k. the (st_tables db k)) ord"
  have key: "ToLower (tsTable (the (st_tables db k))) = k" if "k \<in> set ord" for k
    using inv that ord(2) by (fastforce simp: stats_inv_def)
  then have names: "map (\<lambda>t. ToLower (tsTable t)) ?ts = ord" by (simp add: map_idI)
  have "map (\<lambda>t. (ToLower (tsTable t), t)) ?ts = map (\<lambda>k. (k, the (st_tables db k))) ord" using key by simp
  moreover have "map_of (map (\<lambda>k. (k, the (st_tables db k))) ord) = st_tables db"
    using ord(2) by (auto simp: fun_eq_iff map_of_map_restrict [unfolded comp_def] restrict_map_def comp_def)
  moreover have "st_tables (fold stats_Set ?ts (NewStatsDB f)) = Map.empty ++ map_of (map (\<lambda>t. (ToLower (tsTable t), t)) ?ts)"
    using fold_stats_Set [of ?ts "NewStatsDB f"] names ord(1) by (simp only: NewStatsDB_def StatsDB.select_convs)
  ultimately show ?thesis by (simp only: empty_map_add)
qed

section \<open>Selectivities\<close>

lemma EstimateSelectivity_range:
  assumes laws: "\<And>x. \<not> flLess F x x" "\<not> flLess F (flOfU64 F 1) (flOfU64 F 0)" "\<not> flLess F (flTenth F) (flOfU64 F 0)"
      "\<not> flLess F (flOfU64 F 1) (flTenth F)"
    and unit: "\<And>n. 0 < n \<Longrightarrow> \<not> flLess F (flDiv F (flOfU64 F 1) (flOfU64 F n)) (flOfU64 F 0)"
      "\<And>n. 0 < n \<Longrightarrow> \<not> flLess F (flOfU64 F 1) (flDiv F (flOfU64 F 1) (flOfU64 F n))"
  shows "\<not> flLess F (EstimateSelectivity F c cs) (flOfU64 F 0) \<and> \<not> flLess F (flOfU64 F 1) (EstimateSelectivity F c cs)"
proof -
  have clamped: "\<not> flLess F (clamp F v) (flOfU64 F 0) \<and> \<not> flLess F (flOfU64 F 1) (clamp F v)" for v
    using laws(1,2) by (simp add: clamp_def)
  have pos: "0 < n" if "n \<noteq> 0" for n :: u64 using that word_neq_0_conv by blast
  show ?thesis
    using laws unit [OF pos] clamped
    by (cases cs; cases "Op c") (simp_all add: EstimateSelectivity_def Let_def)
qed

section \<open>What ANALYZE computes\<close>

definition column_summary :: "ColumnDef \<Rightarrow> Value list \<Rightarrow> ColumnStat" where
  "column_summary c vs =
     (if colType c = TypeInt then
        \<lparr>csName = colName c, NDistinct = word_of_nat (card (IntVal ` set vs)),
         csMin = (if vs = [] then 0 else Min (IntVal ` set vs)), csMax = (if vs = [] then 0 else Max (IntVal ` set vs))\<rparr>
      else \<lparr>csName = colName c, NDistinct = word_of_nat (card (TextVal ` set vs)), csMin = 0, csMax = 0\<rparr>)"

definition row_summary :: "Table \<Rightarrow> Value list list \<Rightarrow> TableStats" where
  "row_summary t rows =
     \<lparr>tsTable = ToLower (tblName t), RowCount = word_of_nat (length rows),
      tsColumns = map (\<lambda>i. column_summary (tblColumns t ! i) (map (\<lambda>r. r ! i) rows)) [0..<length (tblColumns t)]\<rparr>"

text \<open>The tracker of a column after the values \<open>vs\<close>.\<close>

definition tracker :: "ColumnDef \<Rightarrow> Value list \<Rightarrow> colTracker" where
  "tracker c vs =
     (if colType c = TypeInt
      then \<lparr>intSet = Some (IntVal ` set vs), textSet = None, trMin = Min (insert 0xFFFFFFFFFFFFFFFF (IntVal ` set vs)),
            trMax = Max (insert 0 (IntVal ` set vs)), seenAny = (vs \<noteq> [])\<rparr>
      else \<lparr>intSet = None, textSet = Some (TextVal ` set vs), trMin = 0, trMax = 0, seenAny = False\<rparr>)"

lemma tracker_Nil: "tracker c [] = new_tracker c"
  by (simp add: tracker_def new_tracker_def)

lemma track_tracker:
  assumes "valType v = colType c" and "colType c = TypeInt \<or> colType c = TypeText"
  shows "track v (tracker c vs) = Inr (tracker c (vs @ [v]))"
proof (cases "colType c = TypeInt")
  case True
  let ?S = "IntVal ` set vs"
  define m M where "m = Min (insert 0xFFFFFFFFFFFFFFFF ?S)" and "M = Max (insert 0 ?S)"
  have "Min (insert 0xFFFFFFFFFFFFFFFF (insert (IntVal v) ?S)) = min (IntVal v) m"
    unfolding m_def by (subst insert_commute) (rule Min_insert, simp_all)
  moreover have "Max (insert 0 (insert (IntVal v) ?S)) = max (IntVal v) M"
    unfolding M_def by (subst insert_commute) (rule Max_insert, simp_all)
  ultimately have new: "tracker c (vs @ [v]) =
      \<lparr>intSet = Some (insert (IntVal v) ?S), textSet = None, trMin = min (IntVal v) m, trMax = max (IntVal v) M, seenAny = True\<rparr>"
    using True by (simp add: tracker_def)
  have "tracker c vs = \<lparr>intSet = Some ?S, textSet = None, trMin = m, trMax = M, seenAny = (vs \<noteq> [])\<rparr>"
    using True by (simp add: tracker_def m_def M_def)
  then show ?thesis using assms(1) True new by (auto simp: track_def min_def max_def)
next
  case False
  then show ?thesis using assms by (simp add: track_def tracker_def)
qed

lemma u64_top: "(x :: u64) \<le> 0xFFFFFFFFFFFFFFFF"
proof -
  have "(0xFFFFFFFFFFFFFFFF :: u64) = - 1" by simp
  then show ?thesis using word_n1_ge [of x] by metis
qed

lemma column_stat_tracker: "column_stat c (tracker c vs) = column_summary c vs"
proof (cases "colType c = TypeInt \<and> vs \<noteq> []")
  case True
  let ?S = "IntVal ` set vs"
  have S: "finite ?S" "?S \<noteq> {}" using True by auto
  have "Min (insert 0xFFFFFFFFFFFFFFFF ?S) = Min ?S" by (simp only: Min_insert [OF S] min_absorb2 [OF u64_top])
  moreover have "Max (insert 0 ?S) = Max ?S" using Max_insert [OF S] by (simp add: max_def)
  ultimately show ?thesis using True by (simp add: column_stat_def tracker_def column_summary_def)
next
  case False
  then show ?thesis by (auto simp: column_stat_def tracker_def column_summary_def)
qed

lemma track_row_ok:
  "length trs = length row \<Longrightarrow> length trs' = length row \<Longrightarrow> \<forall>i<length row. track (row ! i) (trs ! i) = Inr (trs' ! i) \<Longrightarrow>
   track_row row trs = Inr trs'"
proof (induction row arbitrary: trs trs')
  case (Cons v vs)
  obtain tr us where trs: "trs = tr # us" "length us = length vs" using Cons.prems(1) by (cases trs) auto
  obtain tr' us' where trs': "trs' = tr' # us'" "length us' = length vs" using Cons.prems(2) by (cases trs') auto
  have "track v tr = Inr tr'" using Cons.prems(3) trs trs' by (metis length_Cons nth_Cons_0 zero_less_Suc)
  moreover have "\<forall>i<length vs. track (vs ! i) (us ! i) = Inr (us' ! i)" using Cons.prems(3) trs trs' by fastforce
  ultimately show ?case using Cons.IH [OF trs(2) trs'(2)] trs trs' by simp
qed simp

definition trackers :: "Table \<Rightarrow> Value list list \<Rightarrow> colTracker list" where
  "trackers t rows = map (\<lambda>i. tracker (tblColumns t ! i) (map (\<lambda>r. r ! i) rows)) [0..<length (tblColumns t)]"

definition typed_row :: "Table \<Rightarrow> Value list \<Rightarrow> bool" where
  "typed_row t row \<longleftrightarrow> length row = length (tblColumns t) \<and> (\<forall>i<length row. valType (row ! i) = colType (tblColumns t ! i))"

definition plain_columns :: "Table \<Rightarrow> bool" where
  "plain_columns t \<longleftrightarrow> (\<forall>c\<in>set (tblColumns t). colType c = TypeInt \<or> colType c = TypeText)"

lemma track_row_trackers:
  assumes "typed_row t row" and "plain_columns t"
  shows "track_row row (trackers t rows) = Inr (trackers t (rows @ [row]))"
proof (rule track_row_ok)
  show "\<forall>i<length row. track (row ! i) (trackers t rows ! i) = Inr (trackers t (rows @ [row]) ! i)"
    using assms by (auto simp: typed_row_def plain_columns_def trackers_def intro!: track_tracker)
qed (use assms(1) in \<open>simp_all add: trackers_def typed_row_def\<close>)

lemma decode_columns_typed:
  "decode_columns cs buf off = Inr ws \<Longrightarrow> \<forall>c\<in>set cs. colType c = TypeInt \<or> colType c = TypeText \<Longrightarrow>
   list_all2 (\<lambda>w c. valType w = colType c) ws cs"
proof (induction cs buf off arbitrary: ws rule: decode_columns.induct)
  case (2 c cs buf off)
  then show ?case
    by (cases "decode_columns cs buf (off + IntColSize)"; cases "decode_columns cs buf (off + TextColSize)")
      (auto simp: intValue_def textValue_def split: if_splits)
qed simp

lemma Table_Decode_typed: "Table_Decode t buf = Inr row \<Longrightarrow> plain_columns t \<Longrightarrow> typed_row t row"
  using decode_columns_typed [of "tblColumns t" buf 0 row]
  by (auto simp: Table_Decode_def plain_columns_def typed_row_def list_all2_conv_all_nth)

context page_store
begin

lemma collect_loop_spec:
  assumes "ok s" and "cursor_at (live s) (view s) c rest" and "cmaxKey c = 0xFFFFFFFFFFFFFFFF" and "length rest < fuel"
    and "\<forall>e\<in>set rest. Table_Decode t (Value e) = Inr (dec e)" and "plain_columns t"
  shows "\<exists>s'. collect_loop fuel ps t c n (trackers t rows) s =
      (Inr (n + word_of_nat (length rest), trackers t (rows @ map dec rest)), s') \<and> same_store s s'"
  using assms
proof (induction rest arbitrary: s c n rows fuel)
  case Nil
  then obtain m where "fuel = Suc m" by (cases fuel) auto
  then show ?case using cursor_Next_spec [OF Nil(1,2)] by auto
next
  case (Cons e rest)
  then obtain m where m: "fuel = Suc m" "length rest < m" by (cases fuel) auto
  have "\<not> cmaxKey c < Key e" using Cons.prems(3) u64_top [of "Key e"] by (simp add: not_less)
  then obtain c' s1 where c': "cursor_Next ps (c, s) = (Inr (Some e), (c', s1))" "same_store s s1" "cmaxKey c' = 0xFFFFFFFFFFFFFFFF"
    "cursor_at (live s1) (view s1) c' rest"
    using cursor_Next_spec [OF Cons.prems(1,2)] Cons.prems(3) by auto
  have ok1: "ok s1" using c'(2) by (simp add: same_store_def)
  have d: "Table_Decode t (Value e) = Inr (dec e)" "\<forall>e\<in>set rest. Table_Decode t (Value e) = Inr (dec e)" using Cons.prems(5) by auto
  have "collect_loop fuel ps t c n (trackers t rows) s = collect_loop m ps t c' (n + 1) (trackers t (rows @ [dec e])) s1"
    using c'(1) d(1) m(1) track_row_trackers [OF Table_Decode_typed [OF d(1) Cons.prems(6)] Cons.prems(6)] by simp
  moreover obtain s' where "collect_loop m ps t c' (n + 1) (trackers t (rows @ [dec e])) s1 =
      (Inr (n + 1 + word_of_nat (length rest), trackers t ((rows @ [dec e]) @ map dec rest)), s')" "same_store s1 s'"
    using Cons.IH [OF ok1 c'(4,3) m(2) d(2) Cons.prems(6), of "n + 1" "rows @ [dec e]"] by blast
  ultimately show ?case using same_store_trans [OF c'(2)] by (auto simp: algebra_simps)
qed

lemma Collect_spec:
  assumes ok: "ok s" and t: "btree_tree (live s) (view s) h u bt" and hd: "headerPage bt = 1" and ne: "no_empty_leaf (tl (leaves u))"
    and "h < fuel" and "length (entries u) < fuel" and dec: "\<forall>e\<in>set (entries u). Table_Decode t (Value e) = Inr (dec e)"
    and pl: "plain_columns t"
  shows "\<exists>s'. Collect_stats fuel ps t s = (Inr (row_summary t (map dec (entries u))), s') \<and> same_store s s'"
proof -
  have rel: "btree_rel (live s) (view s) h (entries u) bt" using t by (auto simp: btree_rel_def)
  obtain s1 where s1: "btree_Open ps 1 s = (Inr bt, s1)" "same_store s s1" using btree_Open_spec [OF ok rel] hd by auto
  have ok1: "ok s1" using s1(2) by (simp add: same_store_def)
  have t1: "btree_tree (live s1) (view s1) h u bt"
    using s1(2) btree_tree_cong [OF t, of "view s1"] by (simp add: same_store_def)
  have all: "filter (in_range 0 0xFFFFFFFFFFFFFFFF) es = es" for es
    by (rule filter_True) (use u64_top in \<open>auto simp: in_range_def\<close>)
  obtain c s2 rest where c: "NewCursor ps fuel bt 0 0xFFFFFFFFFFFFFFFF s1 = (Inr c, s2)" "same_store s1 s2" "cmaxKey c = 0xFFFFFFFFFFFFFFFF"
    "cursor_at (live s2) (view s2) c rest" "takeWhile (\<lambda>e. Key e \<le> 0xFFFFFFFFFFFFFFFF) rest = entries u"
    using NewCursor_spec [OF ok1 t1 ne assms(5), where mn = 0 and mx = "0xFFFFFFFFFFFFFFFF"] unfolding all by auto
  have "takeWhile (\<lambda>e. Key e \<le> 0xFFFFFFFFFFFFFFFF) rest = rest" using u64_top by (subst takeWhile_eq_all_conv) blast
  then have r: "rest = entries u" using c(5) by simp
  have ok2: "ok s2" using c(2) by (simp add: same_store_def)
  have init: "map new_tracker (tblColumns t) = trackers t []" by (rule nth_equalityI) (simp_all add: trackers_def tracker_Nil)
  obtain s3 where s3: "collect_loop fuel ps t c 0 (trackers t []) s2 = (Inr (word_of_nat (length rest), trackers t (map dec rest)), s3)" "same_store s2 s3"
    using collect_loop_spec [OF ok2 c(4,3), where fuel = fuel and t = t and dec = dec and n = 0 and rows = "[]"] assms(6) dec pl r by auto
  have cols: "map2 column_stat (tblColumns t) (trackers t rows) =
      map (\<lambda>i. column_summary (tblColumns t ! i) (map (\<lambda>r. r ! i) rows)) [0..<length (tblColumns t)]" for rows
    by (rule nth_equalityI) (simp_all add: trackers_def column_stat_tracker)
  have "Collect_stats fuel ps t s = (Inr (row_summary t (map dec (entries u))), s3)"
    using s1(1) c(1) s3(1) r by (simp add: Collect_stats_def bindG_def init row_summary_def cols)
  then show ?thesis using same_store_trans [OF same_store_trans [OF s1(2) c(2)] s3(2)] by blast
qed

end

end
