(* ===== verification/Database.thy ===== *)
theory Database
  imports Selects WalRecover Statistics
begin

text \<open>
  \<open>src/executor/executor.go\<close>: the database object, its open files, transactions and the
  commit protocol, and INSERT.

  A \<open>DB\<close> holds the catalog, the statistics, the log, the buffer pool with the open pagers, the transaction
  manager and the registries of open tables, open indexes and running transactions (one per
  goroutine, whose number is the argument \<open>gid\<close>). \<open>dbDir\<close> are the files that no pager has
  open; the bytes of an open file are in its pager. The lock \<open>DB.mu\<close> makes a statement one step.

  The body of a writing statement runs on \<open>Work\<close>: the database and the map from keys
  (a table name, or \<open>idx:\<close> and an index name, in lower case) to transaction pagers. That map
  is \<open>tx.pagers\<close> in an explicit transaction and the local variables \<open>pagers\<close> and
  \<open>idxPagerCache\<close> of the auto-commit functions, which are used under the same keys.
  All transaction pagers share the one buffer pool, so \<open>TxBuf\<close> has only the pager's own part.

  Go leaves the order of a range over a map open; \<open>MapOrder\<close> gives the order of every
  such loop.
\<close>

section \<open>The database object\<close>

record TxBuf =
  tbPager :: BufPager
  tbDirty :: "u32 \<rightharpoonup> Page"
  tbAlloc :: "u32 list"

record activeTx =
  txXid :: u32
  txSnap :: Snapshot
  txPagers :: "string \<rightharpoonup> TxBuf"

record DB =
  dbCatalog :: Catalog
  dbWal :: WAL
  dbBuf :: BufState
  dbNextPager :: nat
  dbTxMgr :: TxManager
  dbOpenTbls :: "string \<rightharpoonup> BufPager"
  dbOpenIdxs :: "string \<rightharpoonup> BufPager"
  dbTxns :: "int \<rightharpoonup> activeTx"
  dbDir :: dir
  dbStats :: StatsDB

record MapOrder =
  keysLog :: "(string \<rightharpoonup> TxBuf) \<Rightarrow> string list"
  keysFlush :: "(string \<rightharpoonup> TxBuf) \<Rightarrow> string list"
  keysUndo :: "(string \<rightharpoonup> TxBuf) \<Rightarrow> string list"
  pagesLog :: "(u32 \<rightharpoonup> Page) \<Rightarrow> u32 list"
  pagesFlush :: "(u32 \<rightharpoonup> Page) \<Rightarrow> u32 list"

record Work =
  wDB :: DB
  wPagers :: "string \<rightharpoonup> TxBuf"

definition tablePath :: "string \<Rightarrow> string" where "tablePath name = ToLower name @ ''.db''"
definition indexPath :: "string \<Rightarrow> string" where "indexPath name = ToLower name @ ''.idx''"

definition goroutineTx :: "int \<Rightarrow> DB \<Rightarrow> activeTx option" where
  "goroutineTx gid db = dbTxns db gid"

definition setGoroutineTx :: "int \<Rightarrow> activeTx \<Rightarrow> DB \<Rightarrow> DB" where
  "setGoroutineTx gid tx db = db\<lparr>dbTxns := (dbTxns db)(gid \<mapsto> tx)\<rparr>"

definition clearGoroutineTx :: "int \<Rightarrow> DB \<Rightarrow> DB" where
  "clearGoroutineTx gid db = db\<lparr>dbTxns := (dbTxns db)(gid := None)\<rparr>"

definition InTransaction :: "int \<Rightarrow> DB \<Rightarrow> bool" where
  "InTransaction gid db \<longleftrightarrow> goroutineTx gid db \<noteq> None"

definition on_wal :: "(WAL, 'a) go \<Rightarrow> (DB, 'a) go" where
  "on_wal op db = (case op (dbWal db) of (r, w) \<Rightarrow> (r, db\<lparr>dbWal := w\<rparr>))"

definition on_db :: "(DB, 'a) go \<Rightarrow> (Work, 'a) go" where
  "on_db op w = (case op (wDB w) of (r, db) \<Rightarrow> (r, w\<lparr>wDB := db\<rparr>))"

section \<open>Open files\<close>

text \<open>\<open>pager.Open\<close>, \<open>Register\<close> and \<open>NewBufPager\<close>.\<close>

definition open_pager :: "string \<Rightarrow> (DB, BufPager) go" where
  "open_pager fname db =
     (case pager_Open (case dbDir db fname of None \<Rightarrow> empty_file | Some f \<Rightarrow> f) of
        (Inl e, pg) \<Rightarrow> (Inl e, db\<lparr>dbDir := (dbDir db)(fname \<mapsto> pfile pg)\<rparr>)
      | (Inr _, pg) \<Rightarrow>
          (let a = dbNextPager db;
               (f, p) = pool_Register a (pool (dbBuf db));
               bp = NewBufPager a f
           in (Inr bp, db\<lparr>dbNextPager := a + 1,
                dbBuf := \<lparr>pool = p, pagers = (pagers (dbBuf db))(a := pg)\<rparr>,
                dbDir := (dbDir db)(fname := None)\<rparr>)))"

definition getOrOpenTable :: "string \<Rightarrow> (DB, BufPager) go" where
  "getOrOpenTable name db =
     (let key = ToLower name in
      case dbOpenTbls db key of
        Some bp \<Rightarrow> (Inr bp, db)
      | None \<Rightarrow>
          (case open_pager (tablePath name) db of
             (Inl e, db) \<Rightarrow> (Inl e, db)
           | (Inr bp, db) \<Rightarrow> (Inr bp, db\<lparr>dbOpenTbls := (dbOpenTbls db)(key \<mapsto> bp)\<rparr>)))"

definition getOrOpenIndex :: "string \<Rightarrow> (DB, BufPager) go" where
  "getOrOpenIndex name db =
     (let key = ToLower name in
      case dbOpenIdxs db key of
        Some bp \<Rightarrow> (Inr bp, db)
      | None \<Rightarrow>
          (case open_pager (indexPath name) db of
             (Inl e, db) \<Rightarrow> (Inl e, db)
           | (Inr bp, db) \<Rightarrow> (Inr bp, db\<lparr>dbOpenIdxs := (dbOpenIdxs db)(key \<mapsto> bp)\<rparr>)))"

section \<open>Transaction pagers over one pool\<close>

definition newTxBuf :: "BufPager \<Rightarrow> TxBuf" where
  "newTxBuf bp = \<lparr>tbPager = bp, tbDirty = Map.empty, tbAlloc = []\<rparr>"

definition tx_view :: "BufState \<Rightarrow> TxBuf \<Rightarrow> BufState TxPager" where
  "tx_view st b = \<lparr>txbase = st, dirty = tbDirty b, allocated = tbAlloc b\<rparr>"

text \<open>Run a method of the transaction pager under a key; without an entry the pointer is nil.\<close>

definition tx_run :: "string \<Rightarrow> (BufPager \<Rightarrow> (BufState TxPager, 'a) go) \<Rightarrow> (Work, 'a) go" where
  "tx_run key op w =
     (case wPagers w key of
        None \<Rightarrow> (Inl Panic, w)
      | Some b \<Rightarrow>
          (case op (tbPager b) (tx_view (dbBuf (wDB w)) b) of
             (r, tp) \<Rightarrow> (r, w\<lparr>wDB := (wDB w)\<lparr>dbBuf := txbase tp\<rparr>,
                wPagers := (wPagers w)(key \<mapsto> b\<lparr>tbDirty := dirty tp, tbAlloc := allocated tp\<rparr>)\<rparr>)))"

definition work_store :: "string \<Rightarrow> Work PageStore" where
  "work_store key =
     \<lparr>ReadPage = (\<lambda>i. tx_run key (\<lambda>bp. txp_ReadPage (buf_store bp) i)),
      WritePage = (\<lambda>p. tx_run key (\<lambda>bp. txp_WritePage p)),
      AllocatePage = tx_run key (\<lambda>bp. txp_AllocatePage (buf_store bp))\<rparr>"

definition tableKey :: "string \<Rightarrow> string" where "tableKey name = ToLower name"
definition indexKey :: "string \<Rightarrow> string" where "indexKey name = ''idx:'' @ ToLower name"

text \<open>\<open>txPagerForTable\<close> and \<open>txPagerForIndex\<close> return the key of the pager. In the auto-commit
  functions the same lines open the file and make a new transaction pager.\<close>

definition tx_pager_for :: "string \<Rightarrow> (DB, BufPager) go \<Rightarrow> (Work, string) go" where
  "tx_pager_for key getOrOpen w =
     (case wPagers w key of
        Some _ \<Rightarrow> (Inr key, w)
      | None \<Rightarrow>
          (case on_db getOrOpen w of
             (Inl e, w) \<Rightarrow> (Inl e, w)
           | (Inr bp, w) \<Rightarrow> (Inr key, w\<lparr>wPagers := (wPagers w)(key \<mapsto> newTxBuf bp)\<rparr>)))"

definition txPagerForTable :: "string \<Rightarrow> (Work, string) go" where
  "txPagerForTable name = tx_pager_for (tableKey name) (getOrOpenTable name)"

definition txPagerForIndex :: "string \<Rightarrow> (Work, string) go" where
  "txPagerForIndex name = tx_pager_for (indexKey name) (getOrOpenIndex name)"

section \<open>The commit protocol\<close>

text \<open>The file name of a key, as it is logged.\<close>

definition key_file :: "string \<Rightarrow> string" where
  "key_file key =
     (if take 4 key = ''idx:'' then drop 4 key @ ''.idx'' else key @ ''.db'')"

fun log_pages :: "u32 \<Rightarrow> string \<Rightarrow> Page list \<Rightarrow> (WAL, unit) go" where
  "log_pages xid fileName [] = returnG ()"
| "log_pages xid fileName (p # ps) =
     bindG (AppendWrite xid fileName (page_id p) (Encode p)) (\<lambda>_. log_pages xid fileName ps)"

fun log_pagers :: "MapOrder \<Rightarrow> u32 \<Rightarrow> (string \<rightharpoonup> TxBuf) \<Rightarrow> string list \<Rightarrow> (WAL, unit) go" where
  "log_pagers ord xid m [] = returnG ()"
| "log_pagers ord xid m (key # ks) =
     (case m key of
        None \<Rightarrow> failG Panic
      | Some b \<Rightarrow>
          bindG (log_pages xid (key_file key) (map (\<lambda>i. the (tbDirty b i)) (pagesLog ord (tbDirty b))))
            (\<lambda>_. log_pagers ord xid m ks))"

fun flush_pagers :: "MapOrder \<Rightarrow> string list \<Rightarrow> (Work, unit) go" where
  "flush_pagers ord [] = returnG ()"
| "flush_pagers ord (key # ks) =
     bindG (tx_run key (\<lambda>bp tp. txp_Flush (buf_store bp) (pagesFlush ord (dirty tp)) tp))
       (\<lambda>_. flush_pagers ord ks)"

text \<open>\<open>wal.Sync\<close> is an fsync without a result in this model.\<close>

definition commitTx :: "MapOrder \<Rightarrow> u32 \<Rightarrow> (Work, unit) go" where
  "commitTx ord xid w =
     bindG (on_db (on_wal (log_pagers ord xid (wPagers w) (keysLog ord (wPagers w))))) (\<lambda>_.
     bindG (on_db (on_wal (AppendCommit xid))) (\<lambda>_.
     flush_pagers ord (keysFlush ord (wPagers w)))) w"

text \<open>\<open>for _, p := range pagers { _ = p.Rollback() }\<close>\<close>

definition undo_pager :: "string \<Rightarrow> Work \<Rightarrow> Work" where
  "undo_pager key w = snd (tx_run key (\<lambda>bp. txp_Rollback (buf_store bp)) w)"

definition rollback_pagers :: "MapOrder \<Rightarrow> Work \<Rightarrow> Work" where
  "rollback_pagers ord w = foldl (\<lambda>w key. undo_pager key w) w (keysUndo ord (wPagers w))"

definition rollbackTx :: "MapOrder \<Rightarrow> u32 \<Rightarrow> (Work, unit) go" where
  "rollbackTx ord xid w = on_db (on_wal (AppendRollback xid)) (rollback_pagers ord w)"

definition mark_committed :: "u32 \<Rightarrow> DB \<Rightarrow> DB" where
  "mark_committed xid db = db\<lparr>dbTxMgr := MarkCommitted xid (dbTxMgr db)\<rparr>"

section \<open>Transaction control\<close>

definition execBegin :: "int \<Rightarrow> (DB, unit) go" where
  "execBegin gid db =
     (if goroutineTx gid db \<noteq> None then (Inl TransactionInProgress, db)
      else case on_wal AllocXID db of
        (Inl e, db) \<Rightarrow> (Inl e, db)
      | (Inr xid, db) \<Rightarrow>
          (Inr (), setGoroutineTx gid
             \<lparr>txXid = xid, txSnap = TakeSnapshot xid (dbTxMgr db), txPagers = Map.empty\<rparr> db))"

definition execCommit :: "MapOrder \<Rightarrow> int \<Rightarrow> (DB, unit) go" where
  "execCommit ord gid db =
     (case goroutineTx gid db of
        None \<Rightarrow> (Inl NoTransaction, db)
      | Some tx \<Rightarrow>
          (case commitTx ord (txXid tx) \<lparr>wDB = clearGoroutineTx gid db, wPagers = txPagers tx\<rparr> of
             (Inl e, w) \<Rightarrow> (Inl e, wDB w)
           | (Inr _, w) \<Rightarrow> (Inr (), mark_committed (txXid tx) (wDB w))))"

definition execRollback :: "MapOrder \<Rightarrow> int \<Rightarrow> (DB, unit) go" where
  "execRollback ord gid db =
     (case goroutineTx gid db of
        None \<Rightarrow> (Inl NoTransaction, db)
      | Some tx \<Rightarrow>
          (case rollbackTx ord (txXid tx) \<lparr>wDB = clearGoroutineTx gid db, wPagers = txPagers tx\<rparr> of
             (r, w) \<Rightarrow> (r, wDB w)))"

text \<open>A statement inside an explicit transaction: whatever it returns, its changes stay in the
  transaction pagers.\<close>

definition in_tx :: "int \<Rightarrow> activeTx \<Rightarrow> (Work, 'a) go \<Rightarrow> (DB, 'a) go" where
  "in_tx gid tx body db =
     (case body \<lparr>wDB = db, wPagers = txPagers tx\<rparr> of
        (r, w) \<Rightarrow> (r, setGoroutineTx gid (tx\<lparr>txPagers := wPagers w\<rparr>) (wDB w)))"

text \<open>The frame that the three auto-commit functions share: allocate a transaction number, run the body,
  roll back and log a rollback when it fails, commit when it succeeds; a failed commit is rolled
  back too. A panic passes through.\<close>

definition auto_commit :: "MapOrder \<Rightarrow> (u32 \<Rightarrow> (Work, 'a) go) \<Rightarrow> (DB, 'a) go" where
  "auto_commit ord body db =
     (case on_wal AllocXID db of
        (Inl e, db) \<Rightarrow> (Inl e, db)
      | (Inr xid, db) \<Rightarrow>
          (case body xid \<lparr>wDB = db, wPagers = Map.empty\<rparr> of
             (Inl e, w) \<Rightarrow>
               if e = Panic then (Inl e, wDB w)
               else (Inl e, wDB (snd (rollbackTx ord xid w)))
           | (Inr x, w) \<Rightarrow>
               (case commitTx ord xid w of
                  (Inl e, w) \<Rightarrow> (Inl e, wDB (rollback_pagers ord w))
                | (Inr _, w) \<Rightarrow> (Inr x, mark_committed xid (wDB w)))))"

section \<open>INSERT\<close>

definition index_value :: "u64 \<Rightarrow> byte list" where
  "index_value pk = put 0 (le64 pk) (replicate ValueSize 0)"

text \<open>The key of a row in an index: the value of the indexed column, when there is such a column
  and the value is an INT.\<close>

definition index_key_of :: "Table \<Rightarrow> Value list \<Rightarrow> IndexDef \<Rightarrow> u64 option" where
  "index_key_of t values idx =
     (case ColIndex t (idxColumn idx) of
        None \<Rightarrow> None
      | Some i \<Rightarrow> if valType (values ! i) \<noteq> TypeInt then None else Some (IntVal (values ! i)))"

text \<open>The loops over \<open>tbl.Indexes\<close> in \<open>autoCommitInsert\<close> and \<open>insertIntoIndexes\<close>. An error of
  \<open>Search\<close> is ignored.\<close>

definition insert_index :: "nat \<Rightarrow> string \<Rightarrow> u64 \<Rightarrow> u64 \<Rightarrow> (Work, unit) go" where
  "insert_index fuel name idxKey pk =
     bindG (txPagerForIndex name) (\<lambda>key.
     bindG (btree_Open (work_store key) 1) (\<lambda>bt w.
       case btree_Search (work_store key) fuel bt idxKey w of
         (r, w) \<Rightarrow>
           if (case r of Inr (_, found) \<Rightarrow> found | Inl _ \<Rightarrow> False) then (Inl (UniqueViolation name idxKey), w)
           else (case btree_Insert (work_store key) fuel idxKey (index_value pk) (bt, w) of
                   (r, bt, w) \<Rightarrow> (r, w))))"

fun insertIntoIndexes :: "nat \<Rightarrow> Table \<Rightarrow> Value list \<Rightarrow> u64 \<Rightarrow> IndexDef list \<Rightarrow> (Work, unit) go" where
  "insertIntoIndexes fuel t values pk [] = returnG ()"
| "insertIntoIndexes fuel t values pk (idx # idxs) =
     (case index_key_of t values idx of
        None \<Rightarrow> insertIntoIndexes fuel t values pk idxs
      | Some idxKey \<Rightarrow>
          bindG (insert_index fuel (idxName idx) idxKey pk) (\<lambda>_. insertIntoIndexes fuel t values pk idxs))"

definition insert_row :: "nat \<Rightarrow> Table \<Rightarrow> string \<Rightarrow> u64 \<Rightarrow> Value list \<Rightarrow> u32 \<Rightarrow> (Work, unit) go" where
  "insert_row fuel t tableName key values xid =
     bindG (liftG (encodeRow t values xid)) (\<lambda>encoded.
     bindG (txPagerForTable tableName) (\<lambda>k.
     bindG (btree_Open (work_store k) 1) (\<lambda>bt.
     bindG (\<lambda>w. case btree_Insert (work_store k) fuel key encoded (bt, w) of (r, bt, w) \<Rightarrow> (r, w)) (\<lambda>_.
     insertIntoIndexes fuel t values key (tblIndexes t)))))"

definition autoCommitInsert ::
  "MapOrder \<Rightarrow> nat \<Rightarrow> Table \<Rightarrow> string \<Rightarrow> u64 \<Rightarrow> Value list \<Rightarrow> (DB, unit) go" where
  "autoCommitInsert ord fuel t tableName key values = auto_commit ord (insert_row fuel t tableName key values)"

fun check_types :: "ColumnDef list \<Rightarrow> Value list \<Rightarrow> go_error + unit" where
  "check_types (c # cs) (v # vs) =
     (if valType v \<noteq> colType c then Inl (ColumnTypeMismatch (colName c)) else check_types cs vs)"
| "check_types _ _ = Inr ()"

definition execInsert :: "MapOrder \<Rightarrow> nat \<Rightarrow> int \<Rightarrow> string \<Rightarrow> Value list \<Rightarrow> (DB, unit) go" where
  "execInsert ord fuel gid tableName values db =
     (case GetTable (dbCatalog db) tableName of
        None \<Rightarrow> (Inl (TableMissing tableName), db)
      | Some t \<Rightarrow>
          if length values \<noteq> length (tblColumns t) then (Inl ColumnCountMismatch, db)
          else case check_types (tblColumns t) values of
            Inl e \<Rightarrow> (Inl e, db)
          | Inr _ \<Rightarrow>
              (case PrimaryKeyIndex t of
                 None \<Rightarrow> (Inl (NoPrimaryKey (tblName t)), db)
               | Some pkIdx \<Rightarrow>
                   (let key = IntVal (values ! pkIdx) in
                    case goroutineTx gid db of
                      Some tx \<Rightarrow> in_tx gid tx (insert_row fuel t tableName key values (txXid tx)) db
                    | None \<Rightarrow> autoCommitInsert ord fuel t tableName key values db)))"

end
