(* ===== verification/Dml.thy ===== *)
theory Dml
  imports Database
begin

text \<open>
  \<open>src/executor/dml.go\<close>: DELETE and UPDATE, and the statements of \<open>src/executor/executor.go\<close> that
  change the schema. Both DML statements first collect the visible rows that match the WHERE
  clause and then change them one by one. The state of the second phase is \<open>Dml\<close>: the
  work area, the handle of the table's tree and the cache of index trees (\<open>idxBTProvider\<close>).
\<close>

record scannedRow =
  srPk :: u64
  srValues :: "Value list"

section \<open>The scan phase\<close>

fun scan_loop ::
  "nat \<Rightarrow> ('s, 'z) PageStore_scheme \<Rightarrow> Table \<Rightarrow> Snapshot \<Rightarrow> WhereClause option \<Rightarrow> Cursor \<Rightarrow> scannedRow list \<Rightarrow> ('s, scannedRow list) go" where
  "scan_loop 0 ps t snap wh cur rows s = (Inl OutOfFuel, s)"
| "scan_loop (Suc n) ps t snap wh cur rows s =
     (case cursor_Next ps (cur, s) of
        (Inl e, cur, s) \<Rightarrow> (Inl e, s)
      | (Inr None, cur, s) \<Rightarrow> (Inr rows, s)
      | (Inr (Some e), cur, s) \<Rightarrow>
          if \<not> IsVisible snap (row_xmin (Value e)) (row_xmax (Value e)) then scan_loop n ps t snap wh cur rows s
          else case decodeRow t (Value e) of
            Inl er \<Rightarrow> (Inl er, s)
          | Inr vals \<Rightarrow>
              (case matchesWhere vals t wh of
                 Inl er \<Rightarrow> (Inl er, s)
               | Inr False \<Rightarrow> scan_loop n ps t snap wh cur rows s
               | Inr True \<Rightarrow> scan_loop n ps t snap wh cur (rows @ [\<lparr>srPk = Key e, srValues = vals\<rparr>]) s))"

definition scanVisible ::
  "nat \<Rightarrow> ('s, 'z) PageStore_scheme \<Rightarrow> BTree \<Rightarrow> Table \<Rightarrow> Snapshot \<Rightarrow> WhereClause option \<Rightarrow> ('s, scannedRow list) go" where
  "scanVisible fuel ps bt t snap wh =
     bindG (NewCursor ps fuel bt 0 0xFFFFFFFFFFFFFFFF) (\<lambda>cur. scan_loop fuel ps t snap wh cur [])"

section \<open>The index cache\<close>

record Dml =
  dWork :: Work
  dTree :: BTree
  dCache :: "string \<rightharpoonup> BTree"

definition on_work :: "(Work, 'a) go \<Rightarrow> (Dml, 'a) go" where
  "on_work op d = (case op (dWork d) of (r, w) \<Rightarrow> (r, d\<lparr>dWork := w\<rparr>))"

text \<open>\<open>idxBTProvider.get\<close>, with the \<open>open\<close> functions of the callers: the index's transaction pager, made
  when it is first asked for.\<close>

definition idx_get :: "string \<Rightarrow> (Dml, BTree) go" where
  "idx_get name d =
     (let lower = ToLower name in
      case dCache d lower of
        Some bt \<Rightarrow> (Inr bt, d)
      | None \<Rightarrow>
          (case on_work (bindG (txPagerForIndex name) (\<lambda>key. btree_Open (work_store key) 1)) d of
             (Inl e, d) \<Rightarrow> (Inl e, d)
           | (Inr bt, d) \<Rightarrow> (Inr bt, d\<lparr>dCache := (dCache d)(lower \<mapsto> bt)\<rparr>)))"

text \<open>\<open>bt.Insert\<close> on the table's tree and on a cached index tree; the handle's root may change.\<close>

definition tree_insert :: "nat \<Rightarrow> string \<Rightarrow> u64 \<Rightarrow> byte list \<Rightarrow> (Dml, unit) go" where
  "tree_insert fuel key k v d =
     (case btree_Insert (work_store key) fuel k v (dTree d, dWork d) of
        (r, bt, w) \<Rightarrow> (r, d\<lparr>dTree := bt, dWork := w\<rparr>))"

definition idx_insert :: "nat \<Rightarrow> string \<Rightarrow> BTree \<Rightarrow> u64 \<Rightarrow> byte list \<Rightarrow> (Dml, unit) go" where
  "idx_insert fuel name bt k v d =
     (case btree_Insert (work_store (indexKey name)) fuel k v (bt, dWork d) of
        (r, bt, w) \<Rightarrow> (r, d\<lparr>dCache := (dCache d)(ToLower name \<mapsto> bt), dWork := w\<rparr>))"

section \<open>DELETE\<close>

fun delete_entries :: "nat \<Rightarrow> Table \<Rightarrow> Value list \<Rightarrow> IndexDef list \<Rightarrow> (Dml, unit) go" where
  "delete_entries fuel t values [] = returnG ()"
| "delete_entries fuel t values (idx # idxs) =
     (case index_key_of t values idx of
        None \<Rightarrow> delete_entries fuel t values idxs
      | Some idxKey \<Rightarrow>
          bindG (idx_get (idxName idx)) (\<lambda>bt.
          bindG (on_work (btree_Delete (work_store (indexKey (idxName idx))) fuel bt idxKey)) (\<lambda>_.
          delete_entries fuel t values idxs)))"

definition set_xmax :: "u32 \<Rightarrow> byte list \<Rightarrow> byte list" where
  "set_xmax xid raw = put 4 (le32 xid) raw"

fun applyDelete :: "nat \<Rightarrow> string \<Rightarrow> Table \<Rightarrow> u32 \<Rightarrow> scannedRow list \<Rightarrow> (Dml, unit) go" where
  "applyDelete fuel key t xid [] = returnG ()"
| "applyDelete fuel key t xid (r # rs) =
     bindG (\<lambda>d. on_work (btree_Search (work_store key) fuel (dTree d) (srPk r)) d) (\<lambda>(raw, found).
     if \<not> found then applyDelete fuel key t xid rs
     else
       bindG (tree_insert fuel key (srPk r) (set_xmax xid raw)) (\<lambda>_.
       bindG (delete_entries fuel t (srValues r) (tblIndexes t)) (\<lambda>_.
       applyDelete fuel key t xid rs)))"

text \<open>The common part of \<open>deleteTx\<close> and \<open>autoCommitDelete\<close>, and of the functions for UPDATE: open the
  tree, scan, modify; the result is the number of rows.\<close>

definition modify_rows ::
  "nat \<Rightarrow> Table \<Rightarrow> string \<Rightarrow> Snapshot \<Rightarrow> WhereClause option \<Rightarrow> (string \<Rightarrow> scannedRow list \<Rightarrow> (Dml, unit) go) \<Rightarrow> (Work, nat) go" where
  "modify_rows fuel t tableName snap wh apply_rows =
     bindG (txPagerForTable tableName) (\<lambda>key.
     bindG (btree_Open (work_store key) 1) (\<lambda>bt.
     bindG (scanVisible fuel (work_store key) bt t snap wh) (\<lambda>rows w.
       case apply_rows key rows \<lparr>dWork = w, dTree = bt, dCache = Map.empty\<rparr> of
         (Inl e, d) \<Rightarrow> (Inl e, dWork d)
       | (Inr _, d) \<Rightarrow> (Inr (length rows), dWork d))))"

definition delete_body :: "nat \<Rightarrow> Table \<Rightarrow> string \<Rightarrow> WhereClause option \<Rightarrow> Snapshot \<Rightarrow> u32 \<Rightarrow> (Work, nat) go" where
  "delete_body fuel t tableName wh snap xid =
     modify_rows fuel t tableName snap wh (\<lambda>key rows. applyDelete fuel key t xid rows)"

text \<open>The snapshot of an auto-commit statement is taken after the transaction number was allocated.\<close>

definition fresh_snapshot :: "(Snapshot \<Rightarrow> (Work, 'a) go) \<Rightarrow> (Work, 'a) go" where
  "fresh_snapshot body w = body (TakeSnapshot XIDNone (dbTxMgr (wDB w))) w"

definition autoCommitDelete :: "MapOrder \<Rightarrow> nat \<Rightarrow> Table \<Rightarrow> string \<Rightarrow> WhereClause option \<Rightarrow> (DB, nat) go" where
  "autoCommitDelete ord fuel t tableName wh =
     auto_commit ord (\<lambda>xid. fresh_snapshot (\<lambda>snap. delete_body fuel t tableName wh snap xid))"

definition deleteTx :: "nat \<Rightarrow> int \<Rightarrow> Table \<Rightarrow> string \<Rightarrow> WhereClause option \<Rightarrow> activeTx \<Rightarrow> (DB, nat) go" where
  "deleteTx fuel gid t tableName wh tx = in_tx gid tx (delete_body fuel t tableName wh (txSnap tx) (txXid tx))"

definition execDelete :: "MapOrder \<Rightarrow> nat \<Rightarrow> int \<Rightarrow> string \<Rightarrow> WhereClause option \<Rightarrow> (DB, nat) go" where
  "execDelete ord fuel gid tableName wh db =
     (case GetTable (dbCatalog db) tableName of
        None \<Rightarrow> (Inl (TableMissing tableName), db)
      | Some t \<Rightarrow>
          (case goroutineTx gid db of
             Some tx \<Rightarrow> deleteTx fuel gid t tableName wh tx db
           | None \<Rightarrow> autoCommitDelete ord fuel t tableName wh db))"

section \<open>UPDATE\<close>

type_synonym updatePlan = "nat \<times> Value"

fun buildUpdatePlans :: "Table \<Rightarrow> Assignment list \<Rightarrow> go_error + updatePlan list" where
  "buildUpdatePlans t [] = Inr []"
| "buildUpdatePlans t (a # as) =
     (case ColIndex t (asgColumn a) of
        None \<Rightarrow> Inl (ColumnMissing (asgColumn a))
      | Some colIdx \<Rightarrow>
          if PrimaryKeyIndex t = Some colIdx then Inl (UpdatesPrimaryKey (asgColumn a))
          else if valType (asgValue a) \<noteq> colType (tblColumns t ! colIdx) then Inl (ColumnTypeMismatch (asgColumn a))
          else bindE (buildUpdatePlans t as) (\<lambda>ps. Inr ((colIdx, asgValue a) # ps)))"

definition new_values :: "updatePlan list \<Rightarrow> Value list \<Rightarrow> Value list" where
  "new_values plans values = foldl (\<lambda>vs (i, v). vs[i := v]) values plans"

fun update_entries :: "nat \<Rightarrow> Table \<Rightarrow> u64 \<Rightarrow> Value list \<Rightarrow> Value list \<Rightarrow> IndexDef list \<Rightarrow> (Dml, unit) go" where
  "update_entries fuel t pk values newVals [] = returnG ()"
| "update_entries fuel t pk values newVals (idx # idxs) =
     (case index_key_of t values idx of
        None \<Rightarrow> update_entries fuel t pk values newVals idxs
      | Some oldKey \<Rightarrow>
          (let newKey = IntVal (newVals ! the (ColIndex t (idxColumn idx))) in
           if oldKey = newKey then update_entries fuel t pk values newVals idxs
           else
             bindG (idx_get (idxName idx)) (\<lambda>bt.
             bindG (on_work (btree_Delete (work_store (indexKey (idxName idx))) fuel bt oldKey)) (\<lambda>_.
             bindG (idx_insert fuel (idxName idx) bt newKey (index_value pk)) (\<lambda>_.
             update_entries fuel t pk values newVals idxs)))))"

fun applyUpdate :: "nat \<Rightarrow> string \<Rightarrow> Table \<Rightarrow> u32 \<Rightarrow> updatePlan list \<Rightarrow> scannedRow list \<Rightarrow> (Dml, unit) go" where
  "applyUpdate fuel key t xid plans [] = returnG ()"
| "applyUpdate fuel key t xid plans (r # rs) =
     (let newVals = new_values plans (srValues r) in
      bindG (liftG (encodeRow t newVals xid)) (\<lambda>newRaw.
      bindG (tree_insert fuel key (srPk r) newRaw) (\<lambda>_.
      bindG (update_entries fuel t (srPk r) (srValues r) newVals (tblIndexes t)) (\<lambda>_.
      applyUpdate fuel key t xid plans rs))))"

definition update_body ::
  "nat \<Rightarrow> Table \<Rightarrow> string \<Rightarrow> WhereClause option \<Rightarrow> updatePlan list \<Rightarrow> Snapshot \<Rightarrow> u32 \<Rightarrow> (Work, nat) go" where
  "update_body fuel t tableName wh plans snap xid =
     modify_rows fuel t tableName snap wh (\<lambda>key rows. applyUpdate fuel key t xid plans rows)"

definition autoCommitUpdate ::
  "MapOrder \<Rightarrow> nat \<Rightarrow> Table \<Rightarrow> string \<Rightarrow> WhereClause option \<Rightarrow> updatePlan list \<Rightarrow> (DB, nat) go" where
  "autoCommitUpdate ord fuel t tableName wh plans =
     auto_commit ord (\<lambda>xid. fresh_snapshot (\<lambda>snap. update_body fuel t tableName wh plans snap xid))"

definition updateTx ::
  "nat \<Rightarrow> int \<Rightarrow> Table \<Rightarrow> string \<Rightarrow> WhereClause option \<Rightarrow> activeTx \<Rightarrow> updatePlan list \<Rightarrow> (DB, nat) go" where
  "updateTx fuel gid t tableName wh tx plans =
     in_tx gid tx (update_body fuel t tableName wh plans (txSnap tx) (txXid tx))"

definition execUpdate ::
  "MapOrder \<Rightarrow> nat \<Rightarrow> int \<Rightarrow> string \<Rightarrow> Assignment list \<Rightarrow> WhereClause option \<Rightarrow> (DB, nat) go" where
  "execUpdate ord fuel gid tableName asgs wh db =
     (case GetTable (dbCatalog db) tableName of
        None \<Rightarrow> (Inl (TableMissing tableName), db)
      | Some t \<Rightarrow>
          (case buildUpdatePlans t asgs of
             Inl e \<Rightarrow> (Inl e, db)
           | Inr plans \<Rightarrow>
               (case goroutineTx gid db of
                  Some tx \<Rightarrow> updateTx fuel gid t tableName wh tx plans db
                | None \<Rightarrow> autoCommitUpdate ord fuel t tableName wh plans db)))"

end
