(* ===== verification/PlanExec.thy ===== *)
theory PlanExec
  imports OperatorSpec
begin

text \<open>
  The meaning of a physical plan as a list of rows over the contents of the table and
  index files (\<open>plan_rows\<close>), and that \<open>execute\<close> computes it: for a well-formed plan over
  open files the operators end, raise no error and change no file. The planner's
  plans are well formed (theory \<open>PlannerCorrect\<close>).
\<close>

record contents_of =
  tblEntries :: "string \<Rightarrow> Entry list"
  idxEntries :: "string \<Rightarrow> Entry list"

definition row_visible :: "Snapshot \<Rightarrow> Entry \<Rightarrow> bool" where
  "row_visible snap e \<longleftrightarrow> IsVisible snap (row_xmin (Value e)) (row_xmax (Value e))"

definition row_of :: "Table \<Rightarrow> Entry \<Rightarrow> Value list" where
  "row_of t e = projr (decodeRow t (Value e))"

fun plan_rows :: "contents_of \<Rightarrow> Snapshot \<Rightarrow> PhysicalNode \<Rightarrow> Value list list" where
  "plan_rows C snap (IndexScan t mn mx) =
     map (row_of t) (filter (row_visible snap) (filter (in_range mn mx) (tblEntries C (tblName t))))"
| "plan_rows C snap (IndexLookup t d mn mx) =
     List.map_filter (lookup_row t snap (tblEntries C (tblName t))) (filter (in_range mn mx) (idxEntries C (idxName d)))"
| "plan_rows C snap (FilterNode c preds) =
     filter (\<lambda>r. evalPreds r (baseTable c) preds = Inr True) (plan_rows C snap c)"
| "plan_rows C snap (ProjectNode c cols idxs) = map (\<lambda>r. map (\<lambda>i. r ! i) idxs) (plan_rows C snap c)"
| "plan_rows C snap (LimitNode c n) = take (nat n) (plan_rows C snap c)"
| "plan_rows C snap (UnionNode cs p) = dedup p {} (concat (map (plan_rows C snap) cs))"
| "plan_rows C snap (NestedLoopJoin l r on ls rs) =
     join_rows (\<lambda>x y. evalOn (buildColMap ls) (buildColMap rs) on x y = Inr True)
       (plan_rows C snap l) (plan_rows C snap r)"

fun plan_width :: "PhysicalNode \<Rightarrow> nat" where
  "plan_width (IndexScan t mn mx) = length (tblColumns t)"
| "plan_width (IndexLookup t d mn mx) = length (tblColumns t)"
| "plan_width (FilterNode c preds) = plan_width c"
| "plan_width (ProjectNode c cols idxs) = length idxs"
| "plan_width (LimitNode c n) = plan_width c"
| "plan_width (UnionNode cs p) = (case cs of c # _ \<Rightarrow> plan_width c | [] \<Rightarrow> 0)"
| "plan_width (NestedLoopJoin l r on ls rs) = plan_width l + plan_width r"

text \<open>Plans whose operators stay inside the rows they are given.\<close>

fun plan_ok :: "PhysicalNode \<Rightarrow> bool" where
  "plan_ok (IndexScan t mn mx) \<longleftrightarrow> True"
| "plan_ok (IndexLookup t d mn mx) \<longleftrightarrow> True"
| "plan_ok (FilterNode c preds) \<longleftrightarrow> plan_ok c \<and>
     (case baseTable c of None \<Rightarrow> True | Some t \<Rightarrow> plan_width c = length (tblColumns t))"
| "plan_ok (ProjectNode c cols idxs) \<longleftrightarrow> plan_ok c \<and> (\<forall>i\<in>set idxs. i < plan_width c)"
| "plan_ok (LimitNode c n) \<longleftrightarrow> plan_ok c"
| "plan_ok (UnionNode cs p) \<longleftrightarrow> (\<forall>c\<in>set cs. plan_ok c \<and> plan_width c = plan_width (hd cs) \<and> p < plan_width c)"
| "plan_ok (NestedLoopJoin l r on ls rs) \<longleftrightarrow> plan_ok l \<and> plan_ok r \<and>
     length ls = plan_width l \<and> length rs = plan_width r"

fun plan_tables :: "PhysicalNode \<Rightarrow> Table set" where
  "plan_tables (IndexScan t mn mx) = {t}"
| "plan_tables (IndexLookup t d mn mx) = {t}"
| "plan_tables (FilterNode c preds) = plan_tables c"
| "plan_tables (ProjectNode c cols idxs) = plan_tables c"
| "plan_tables (LimitNode c n) = plan_tables c"
| "plan_tables (UnionNode cs p) = (\<Union>c\<in>set cs. plan_tables c)"
| "plan_tables (NestedLoopJoin l r on ls rs) = plan_tables l \<union> plan_tables r"

fun plan_indexes :: "PhysicalNode \<Rightarrow> IndexDef set" where
  "plan_indexes (IndexScan t mn mx) = {}"
| "plan_indexes (IndexLookup t d mn mx) = {d}"
| "plan_indexes (FilterNode c preds) = plan_indexes c"
| "plan_indexes (ProjectNode c cols idxs) = plan_indexes c"
| "plan_indexes (LimitNode c n) = plan_indexes c"
| "plan_indexes (UnionNode cs p) = (\<Union>c\<in>set cs. plan_indexes c)"
| "plan_indexes (NestedLoopJoin l r on ls rs) = plan_indexes l \<union> plan_indexes r"

text \<open>Every stored row of a table decodes.\<close>

definition rows_decode :: "Table \<Rightarrow> Entry list \<Rightarrow> bool" where
  "rows_decode t es \<longleftrightarrow> (\<forall>e\<in>set es. \<exists>row. decodeRow t (Value e) = Inr row)"

lemma decode_columns_length: "decode_columns cs buf off = Inr row \<Longrightarrow> length row = length cs"
  by (induction cs buf off arbitrary: row rule: decode_columns.induct)
    (auto split: if_splits simp: map_sum_def split: sum.splits)

lemma decodeRow_length: "decodeRow t v = Inr row \<Longrightarrow> length row = length (tblColumns t)"
  by (simp add: decodeRow_def decode_columns_length)

lemma row_of_length: "rows_decode t es \<Longrightarrow> e \<in> set es \<Longrightarrow> length (row_of t e) = length (tblColumns t)"
  using decodeRow_length by (fastforce simp: rows_decode_def row_of_def)

lemma entry_lookup_mem: "entry_lookup es k = Some v \<Longrightarrow> \<exists>e\<in>set es. Key e = k \<and> Value e = v"
  by (auto simp: entry_lookup_def dest!: map_of_SomeD)

lemma lookup_row_length:
  "rows_decode t es \<Longrightarrow> lookup_row t snap es e = Some row \<Longrightarrow> length row = length (tblColumns t)"
  using row_of_length by (fastforce simp: lookup_row_def row_of_def split: option.splits if_splits dest!: entry_lookup_mem)

lemma dedup_subset: "set (dedup p seen rows) \<subseteq> set rows"
  by (induction p seen rows rule: dedup.induct) auto

lemma map_filter_in: "x \<in> set (List.map_filter f xs) \<Longrightarrow> \<exists>y\<in>set xs. f y = Some x"
  by (auto simp: List.map_filter_def)

lemma plan_rows_width:
  assumes "plan_ok p" and "\<And>t. t \<in> plan_tables p \<Longrightarrow> rows_decode t (tblEntries C (tblName t))"
  shows "\<forall>r\<in>set (plan_rows C snap p). length r = plan_width p"
  using assms
proof (induction p)
  case (UnionNode cs k)
  have "length r = plan_width (UnionNode cs k)"
    if r: "r \<in> set (plan_rows C snap c)" "c \<in> set cs" for r c
  proof -
    have "length r = plan_width c" using UnionNode r by auto
    also have "\<dots> = plan_width (hd cs)" using UnionNode.prems(1) r(2) by simp
    finally show ?thesis using r(2) by (cases cs) auto
  qed
  then show ?case using dedup_subset by fastforce
next
  case (NestedLoopJoin l r on ls rs)
  then show ?case by (auto simp: join_rows_def join_row_def)
qed (auto simp: row_of_length lookup_row_length dest: in_set_takeD map_filter_in)

section \<open>Join columns\<close>

lemma fold_map_bound:
  assumes "\<And>i m n k. i \<in> set is' \<Longrightarrow> f i m n = Some k \<Longrightarrow> m n = Some k \<or> k = i"
  shows "fold f is' m n = Some k \<Longrightarrow> m n = Some k \<or> k \<in> set is'"
  using assms
proof (induction is' arbitrary: m)
  case (Cons i is')
  then show ?case by fastforce
qed simp

lemma buildColMap_bound: "buildColMap schema n = Some i \<Longrightarrow> i < length schema"
proof -
  assume "buildColMap schema n = Some i"
  then have "i \<in> set [0..<length schema]"
    unfolding buildColMap_def Let_def
    by - (drule fold_map_bound [rotated], force split: if_splits option.splits,
        elim disjE, drule fold_map_bound [rotated], auto split: if_splits option.splits prod.splits)
  then show ?thesis by simp
qed

lemma resolve_bound: "resolveInMap n (buildColMap schema) = Some i \<Longrightarrow> i < length schema"
  by (auto simp: resolveInMap_def buildColMap_bound split: option.splits)

lemma evalOn_total:
  assumes "length x = length ls" and "length y = length rs"
  shows "\<exists>b. evalOn (buildColMap ls) (buildColMap rs) on x y = Inr b"
  by (induction on)
    (use assms in \<open>auto simp: compare_at_def dest!: resolve_bound split: option.splits\<close>)

lemma evalPreds_None: "\<exists>b. evalPreds row None preds = Inr b"
  by (induction preds) auto

section \<open>Running a plan\<close>

context db_files
begin

text \<open>The files that the names of a plan stand for are open and hold the given contents.\<close>

definition table_open :: "'s ExecEnv \<Rightarrow> (string \<Rightarrow> 'f) \<Rightarrow> contents_of \<Rightarrow> 's \<Rightarrow> Table \<Rightarrow> bool" where
  "table_open env tf C s t \<longleftrightarrow>
     tblStore env (tblName t) = Inr (store (tf (tblName t))) \<and>
     (\<exists>n bt. table_file (tf (tblName t)) s (tblEntries C (tblName t)) n bt) \<and>
     rows_decode t (tblEntries C (tblName t))"

definition index_open :: "'s ExecEnv \<Rightarrow> (string \<Rightarrow> 'f) \<Rightarrow> contents_of \<Rightarrow> 's \<Rightarrow> IndexDef \<Rightarrow> bool" where
  "index_open env xf C s d \<longleftrightarrow>
     idxStore env (idxName d) = Inr (store (xf (idxName d))) \<and>
     (\<exists>n bt. table_file (xf (idxName d)) s (idxEntries C (idxName d)) n bt)"

lemma decoded_row_of: "decoded t (Value e) = row_of t e"
  by (simp add: decoded_def row_of_def)

lemma visible_row_visible: "visible snap (Value e) = row_visible snap e"
  by (simp add: visible_def row_visible_def)

lemma lookup_opens:
  assumes tf: "table_file f s0 es n bt" and xf: "table_file g s0 ies m ibt" and dec: "rows_decode t es"
  shows "opens s0 (IndexLookupOp (store f) (store g) mn mx t snap None None)
    (List.map_filter (lookup_row t snap es) (filter (in_range mn mx) ies))"
proof (rule opensI)
  fix op s assume "fresh op = fresh (IndexLookupOp (store f) (store g) mn mx t snap None None)" and s: "same s0 s"
  then obtain cur prim where op: "op = IndexLookupOp (store f) (store g) mn mx t snap cur prim" by (cases op) auto
  from open_cursor_yields [OF xf s lessI, of mn mx] obtain c s1 where
    c: "open_cursor (Suc m) (store g) mn mx s = (Inr c, s1)" "same s0 s1"
      "cursor_yields g s0 c (filter (in_range mn mx) ies)" by blast
  obtain u where u: "f \<in> F" "headerPage bt = 1" "btree_tree (live f s1) (view f s1) n u bt" "entries u = es"
    using table_file_same [OF tf c(2)] by (auto simp: table_file_def)
  have rel: "btree_rel (live f s1) (view f s1) n es bt" using u by (auto simp: btree_rel_def)
  have ok: "okf f s1 s1" using c(2) by (simp add: same_def okf_self)
  obtain s2 where s2: "btree_Open (store f) 1 s1 = (Inr bt, s2)"
      "page_store.same_store (okf f s1) (live f) (view f) (room f) s1 s2"
    using page_store.btree_Open_spec [OF framed [OF u(1)] ok rel] u(2) by auto
  have sm: "same s0 s2" using same_trans [OF c(2) same_store_same [OF u(1) s2(2)]] .
  have y: "yields s0 (IndexLookupOp (store f) (store g) mn mx t snap (Some c) (Some bt))
      (List.map_filter (lookup_row t snap es) (filter (in_range mn mx) ies))"
    by (rule lookup_yields [OF tf c(3)]) (use dec entry_lookup_mem in \<open>force simp: rows_decode_def\<close>)+
  have "op_open k op s = (Inr (), IndexLookupOp (store f) (store g) mn mx t snap (Some c) (Some bt), s2)" if "k \<ge> Suc m" for k
    using open_cursor_mono [OF c(1) that] op s2(1) by simp
  then show "\<exists>N op' s'. (\<forall>n\<ge>N. op_open n op s = (Inr (), op', s')) \<and> same s0 s' \<and>
      fresh op' = fresh (IndexLookupOp (store f) (store g) mn mx t snap None None) \<and>
      yields s0 op' (List.map_filter (lookup_row t snap es) (filter (in_range mn mx) ies))"
    using sm y
    by (intro exI [of _ "Suc m"] exI [of _ "IndexLookupOp (store f) (store g) mn mx t snap (Some c) (Some bt)"] exI [of _ s2]) simp
qed

lemma buildOps_opens:
  assumes "\<And>c. c \<in> set cs \<Longrightarrow> \<exists>op. buildOp env snap c = Inr op \<and> opens s0 op (g c)"
  shows "\<exists>ops. buildOps env snap cs = Inr ops \<and> list_all2 (opens s0) ops (map g cs)"
  using assms by (induction cs) fastforce+

lemma plan_opens:
  assumes "plan_ok p"
    and "\<And>t. t \<in> plan_tables p \<Longrightarrow> table_open env tf C s0 t"
    and "\<And>d. d \<in> plan_indexes p \<Longrightarrow> index_open env xf C s0 d"
  shows "\<exists>op. buildOp env snap p = Inr op \<and> opens s0 op (plan_rows C snap p)"
  using assms
proof (induction p)
  case (IndexScan t mn mx)
  then obtain n bt where t: "tblStore env (tblName t) = Inr (store (tf (tblName t)))"
    "table_file (tf (tblName t)) s0 (tblEntries C (tblName t)) n bt" "rows_decode t (tblEntries C (tblName t))"
    by (auto simp: table_open_def)
  from scan_opens [OF t(2), of t mn mx snap] t(1,3) show ?case
    by (simp add: rows_decode_def decoded_row_of visible_row_visible)
next
  case (IndexLookup t d mn mx)
  then obtain n bt m ibt where t: "tblStore env (tblName t) = Inr (store (tf (tblName t)))"
    "table_file (tf (tblName t)) s0 (tblEntries C (tblName t)) n bt" "rows_decode t (tblEntries C (tblName t))"
    "idxStore env (idxName d) = Inr (store (xf (idxName d)))"
    "table_file (xf (idxName d)) s0 (idxEntries C (idxName d)) m ibt"
    by (auto simp: table_open_def index_open_def)
  from lookup_opens [OF t(2,5,3)] t(1,4) show ?case by simp
next
  case (FilterNode c preds)
  then obtain op where op: "buildOp env snap c = Inr op" "opens s0 op (plan_rows C snap c)" by auto
  have w: "\<forall>r\<in>set (plan_rows C snap c). length r = plan_width c"
    by (rule plan_rows_width) (use FilterNode in \<open>auto simp: table_open_def\<close>)
  have "\<forall>r\<in>set (plan_rows C snap c). evalPreds r (baseTable c) preds = Inr (evalPreds r (baseTable c) preds = Inr True)"
  proof
    fix r assume r: "r \<in> set (plan_rows C snap c)"
    have "\<exists>b. evalPreds r (baseTable c) preds = Inr b"
      using w r FilterNode.prems(1) evalPreds_None evalPreds_holds [of r _ preds]
      by (cases "baseTable c") auto
    then show "evalPreds r (baseTable c) preds = Inr (evalPreds r (baseTable c) preds = Inr True)" by fastforce
  qed
  from filter_opens [OF op(2) this] op(1) show ?case by simp
next
  case (ProjectNode c cols idxs)
  then obtain op where op: "buildOp env snap c = Inr op" "opens s0 op (plan_rows C snap c)" by auto
  have w: "\<forall>r\<in>set (plan_rows C snap c). length r = plan_width c"
    by (rule plan_rows_width) (use ProjectNode in \<open>auto simp: table_open_def\<close>)
  have "\<forall>r\<in>set (plan_rows C snap c). project_row idxs r = Inr (map (\<lambda>i. r ! i) idxs)"
    unfolding project_row_def using w ProjectNode.prems(1) by (auto intro!: mapE_Inr)
  from project_opens [OF op(2) this] op(1) show ?case by simp
next
  case (LimitNode c n)
  then obtain op where "buildOp env snap c = Inr op" "opens s0 op (plan_rows C snap c)" by auto
  then show ?case using limit_opens by auto
next
  case (UnionNode cs k)
  have "\<exists>op. buildOp env snap c = Inr op \<and> opens s0 op (plan_rows C snap c)" if c: "c \<in> set cs" for c
  proof (rule UnionNode.IH [OF c])
    show "plan_ok c" using UnionNode.prems(1) c by simp
    show "table_open env tf C s0 t" if "t \<in> plan_tables c" for t using UnionNode.prems(2) [of t] that c by auto
    show "index_open env xf C s0 d" if "d \<in> plan_indexes c" for d using UnionNode.prems(3) [of d] that c by auto
  qed
  from buildOps_opens [of cs, OF this] obtain ops where
    ops: "buildOps env snap cs = Inr ops" "list_all2 (opens s0) ops (map (plan_rows C snap) cs)" by blast
  have "k < length r" if rows: "rows \<in> set (map (plan_rows C snap) cs)" "r \<in> set rows" for rows r
  proof -
    obtain c where c: "c \<in> set cs" "r \<in> set (plan_rows C snap c)" using rows by auto
    have "\<forall>r\<in>set (plan_rows C snap c). length r = plan_width c"
      by (rule plan_rows_width) (use UnionNode.prems c(1) in \<open>auto simp: table_open_def\<close>)
    then show ?thesis using c UnionNode.prems(1) by auto
  qed
  from union_opens [OF ops(2) this] ops(1) show ?case by simp
next
  case (NestedLoopJoin l r on ls rs)
  then obtain lo ro where o1: "buildOp env snap l = Inr lo" "opens s0 lo (plan_rows C snap l)"
    "buildOp env snap r = Inr ro" "opens s0 ro (plan_rows C snap r)" by auto
  have wl: "\<forall>r\<in>set (plan_rows C snap l). length r = plan_width l"
    by (rule plan_rows_width) (use NestedLoopJoin in \<open>auto simp: table_open_def\<close>)
  have wr: "\<forall>x\<in>set (plan_rows C snap r). length x = plan_width r"
    by (rule plan_rows_width) (use NestedLoopJoin in \<open>auto simp: table_open_def\<close>)
  have "evalOn (buildColMap ls) (buildColMap rs) on x y = Inr (evalOn (buildColMap ls) (buildColMap rs) on x y = Inr True)"
    if "x \<in> set (plan_rows C snap l)" "y \<in> set (plan_rows C snap r)" for x y
    using evalOn_total [of x ls y rs on] that wl wr NestedLoopJoin.prems(1) by fastforce
  from join_opens [OF o1(2,4) this] o1(1,3) show ?case by simp
qed

lemma drain_yields:
  assumes "yields s0 op rows" and "same s0 s"
  shows "\<exists>N s'. (\<forall>n\<ge>N. drain_op n op s = (Inr rows, s')) \<and> same s0 s'"
  using assms
proof (induction rows arbitrary: op s)
  case Nil
  from yields_NilD [OF Nil] obtain N op' s' where
    n: "\<And>n. n \<ge> N \<Longrightarrow> op_next n op s = (Inr None, op', s')" "same s0 s'" "fresh op' = fresh op" by blast
  have "drain_op n op s = (Inr [], s')" if "n \<ge> Suc N" for n
    using n(1) [of "n - 1"] that by (cases n) auto
  then show ?case using n(2) by blast
next
  case (Cons r rs)
  from yields_ConsD [OF Cons.prems] obtain N op' s' where
    n: "\<And>n. n \<ge> N \<Longrightarrow> op_next n op s = (Inr (Some r), op', s')" "same s0 s'" "fresh op' = fresh op" "yields s0 op' rs"
    by blast
  from Cons.IH [OF n(4,2)] obtain M s'' where m: "\<forall>n\<ge>M. drain_op n op' s' = (Inr rs, s'')" "same s0 s''" by blast
  have "drain_op n op s = (Inr (r # rs), s'')" if "n \<ge> Suc (max N M)" for n
    using n(1) [of "n - 1"] m(1) [rule_format, of "n - 1"] that by (cases n) auto
  then show ?case using m(2) by blast
qed

lemma execute_plan:
  assumes "plan_ok p"
    and "\<And>t. t \<in> plan_tables p \<Longrightarrow> table_open env tf C s t"
    and "\<And>d. d \<in> plan_indexes p \<Longrightarrow> index_open env xf C s d"
    and "ok s"
  shows "\<exists>N s'. (\<forall>fuel\<ge>N. execute fuel env snap p s = (Inr (plan_rows C snap p), s')) \<and> same s s'"
proof -
  obtain op where op: "buildOp env snap p = Inr op" "opens s op (plan_rows C snap p)"
    using plan_opens [OF assms(1-3)] by blast
  from opensD [OF op(2) refl same_refl [OF assms(4)]] obtain N op' s' where
    o1: "\<And>n. n \<ge> N \<Longrightarrow> op_open n op s = (Inr (), op', s')" "same s s'" "fresh op' = fresh op"
      "yields s op' (plan_rows C snap p)" by blast
  from drain_yields [OF o1(4,2)] obtain M s'' where
    d: "\<forall>n\<ge>M. drain_op n op' s' = (Inr (plan_rows C snap p), s'')" "same s s''" by blast
  have "execute fuel env snap p s = (Inr (plan_rows C snap p), s'')" if "fuel \<ge> max N M" for fuel
    using op(1) o1(1) [of fuel] d(1) [rule_format, of fuel] that by (simp add: execute_def)
  then show ?thesis using d(2) by blast
qed

end

end
