(* ===== verification/BufferFiles.thy ===== *)
theory BufferFiles
  imports PlanExec
begin

text \<open>
  The open files of one database over one buffer pool: the page store of file \<open>f\<close> is the
  \<open>BufPager\<close> that \<open>bp\<close> gives for it. Distinct files have distinct pagers, so an access to
  one leaves the others as they are, though all of them share the frames of the pool.
\<close>

definition pool_store :: "('f \<Rightarrow> BufPager) \<Rightarrow> 'f \<Rightarrow> BufState PageStore" where
  "pool_store bp f =
     \<lparr>ReadPage = buf_ReadPage (bp f), WritePage = buf_WritePage (bp f), AllocatePage = buf_AllocatePage (bp f)\<rparr>"

definition pool_files_ok :: "('f \<Rightarrow> BufPager) \<Rightarrow> 'f set \<Rightarrow> BufState \<Rightarrow> bool" where
  "pool_files_ok bp F st \<longleftrightarrow> pool_inv st \<and> inj_on (\<lambda>f. bpg (bp f)) F \<and>
     (\<forall>f\<in>F. files (pool st) (fid (bp f)) = Some (bpg (bp f)))"

lemma files_evictOne: "evictOne p = (r, q) \<Longrightarrow> files q = files p"
  by (auto simp: evictOne_def Let_def split: if_splits)

lemma files_push [simp]: "files (push_frame k page p) = files p"
  by (simp add: push_frame_def)

lemma FetchPage_frame:
  assumes "FetchPage f i st = (r, st')" and "files (pool st) f = Some a"
  shows "files (pool st') = files (pool st) \<and> (\<forall>b. b \<noteq> a \<longrightarrow> pagers st' b = pagers st b)"
  using assms
  by (auto simp: FetchPage_def Let_def split: option.splits sum.splits prod.splits if_splits dest!: files_evictOne)

lemma buf_WritePage_frame:
  "buf_WritePage bp p st = (r, st') \<Longrightarrow>
   files (pool st') = files (pool st) \<and> (\<forall>b. b \<noteq> bpg bp \<longrightarrow> pagers st' b = pagers st b)"
  by (auto simp: buf_WritePage_def split: sum.splits prod.splits)

lemma buf_AllocatePage_frame:
  "buf_AllocatePage bp st = (r, st') \<Longrightarrow>
   files (pool st') = files (pool st) \<and> (\<forall>b. b \<noteq> bpg bp \<longrightarrow> pagers st' b = pagers st b)"
  by (auto simp: buf_AllocatePage_def split: prod.splits)

lemma pool_files_ok_step:
  assumes "pool_files_ok bp F st" and "buf_ok (bp f) st'" and "files (pool st') = files (pool st)"
  shows "pool_files_ok bp F st'"
  using assms by (simp add: pool_files_ok_def buf_ok_def)

lemma pool_files_kept:
  assumes "pool_files_ok bp F st" and "f \<in> F" "g \<in> F" "g \<noteq> f" and "\<forall>b. b \<noteq> bpg (bp f) \<longrightarrow> pagers st' b = pagers st b"
  shows "buf_live (bp g) st' = buf_live (bp g) st \<and>
    (\<forall>j\<in>buf_live (bp g) st. buf_view (bp g) st' j = buf_view (bp g) st j) \<and>
    buf_room (bp g) st \<le> buf_room (bp g) st'"
proof -
  have "bpg (bp g) \<noteq> bpg (bp f)" using assms(1-4) by (auto simp: pool_files_ok_def inj_on_def)
  then have "pagers st' (bpg (bp g)) = pagers st (bpg (bp g))" using assms(5) by blast
  then show ?thesis by (simp add: buf_live_def buf_view_def buf_room_def)
qed

lemma pool_page_store:
  assumes f: "f \<in> F"
  shows "page_store (pool_store bp f) (pool_files_ok bp F) (buf_live (bp f)) (buf_view (bp f)) (buf_room (bp f))"
proof
  fix s assume s: "pool_files_ok bp F s"
  then have ok: "buf_ok (bp f) s" and fl: "files (pool s) (fid (bp f)) = Some (bpg (bp f))"
    using f by (auto simp: pool_files_ok_def buf_ok_def)
  note step = pool_files_ok_step [OF s, of f]
  show "0 \<notin> buf_live (bp f) s" using buf.live_nonzero [OF ok] .
  show "length (buf_view (bp f) s i) = DataSize" if "i \<in> buf_live (bp f) s" for i
    using buf.view_length [OF ok that] .
  show "\<exists>p s'. ReadPage (pool_store bp f) i s = (Inr p, s') \<and> page_id p = i \<and> Data p = buf_view (bp f) s i \<and>
      pool_files_ok bp F s' \<and> buf_live (bp f) s' = buf_live (bp f) s \<and>
      (\<forall>j\<in>buf_live (bp f) s. buf_view (bp f) s' j = buf_view (bp f) s j) \<and> buf_room (bp f) s \<le> buf_room (bp f) s'"
    if i: "i \<in> buf_live (bp f) s" for i
  proof -
    obtain p s' where r: "buf_ReadPage (bp f) i s = (Inr p, s')" "page_id p = i" "Data p = buf_view (bp f) s i"
      "buf_ok (bp f) s'" "buf_live (bp f) s' = buf_live (bp f) s"
      "\<forall>j\<in>buf_live (bp f) s. buf_view (bp f) s' j = buf_view (bp f) s j" "buf_room (bp f) s \<le> buf_room (bp f) s'"
      using buf.read_live [OF ok i] by auto
    have "pool_files_ok bp F s'"
      using step [OF r(4)] FetchPage_frame [OF r(1) [unfolded buf_ReadPage_def] fl] by blast
    then show ?thesis using r by (simp add: pool_store_def)
  qed
  show "\<exists>s'. WritePage (pool_store bp f) p s = (Inr (), s') \<and> pool_files_ok bp F s' \<and>
      buf_live (bp f) s' = buf_live (bp f) s \<and>
      (\<forall>j\<in>buf_live (bp f) s. buf_view (bp f) s' j = (if j = page_id p then Data p else buf_view (bp f) s j)) \<and>
      buf_room (bp f) s \<le> buf_room (bp f) s'"
    if p: "wf_page p" "page_id p \<in> buf_live (bp f) s" for p
  proof -
    obtain s' where r: "buf_WritePage (bp f) p s = (Inr (), s')" "buf_ok (bp f) s'" "buf_live (bp f) s' = buf_live (bp f) s"
      "\<forall>j\<in>buf_live (bp f) s. buf_view (bp f) s' j = (if j = page_id p then Data p else buf_view (bp f) s j)"
      "buf_room (bp f) s \<le> buf_room (bp f) s'"
      using buf.write_live [OF ok p] by auto
    have "pool_files_ok bp F s'" using step [OF r(2)] buf_WritePage_frame [OF r(1)] by blast
    then show ?thesis using r by (simp add: pool_store_def)
  qed
  show "\<exists>i s'. AllocatePage (pool_store bp f) s = (Inr i, s') \<and> i \<notin> buf_live (bp f) s \<and> pool_files_ok bp F s' \<and>
      buf_live (bp f) s' = insert i (buf_live (bp f) s) \<and>
      (\<forall>j\<in>buf_live (bp f) s. buf_view (bp f) s' j = buf_view (bp f) s j) \<and> buf_room (bp f) s \<le> Suc (buf_room (bp f) s')"
    if r: "0 < buf_room (bp f) s"
  proof -
    obtain i s' where r: "buf_AllocatePage (bp f) s = (Inr i, s')" "i \<notin> buf_live (bp f) s" "buf_ok (bp f) s'"
      "buf_live (bp f) s' = insert i (buf_live (bp f) s)"
      "\<forall>j\<in>buf_live (bp f) s. buf_view (bp f) s' j = buf_view (bp f) s j" "buf_room (bp f) s \<le> Suc (buf_room (bp f) s')"
      using buf.alloc_room [OF ok r] by auto
    have "pool_files_ok bp F s'" using step [OF r(3)] buf_AllocatePage_frame [OF r(1)] by blast
    then show ?thesis using r by (simp add: pool_store_def)
  qed
qed

interpretation pf: db_files "pool_store bp" F "pool_files_ok bp F" "\<lambda>f. buf_live (bp f)" "\<lambda>f. buf_view (bp f)"
  "\<lambda>f. buf_room (bp f)" for bp :: "'f \<Rightarrow> BufPager" and F :: "'f set"
proof (rule db_files.intro, goal_cases)
  case (1 f)
  then show ?case by (rule pool_page_store)
next
  case (2 s f i r s' g)
  then have "files (pool s) (fid (bp f)) = Some (bpg (bp f))" by (simp add: pool_files_ok_def)
  with 2 show ?case
    using pool_files_kept [OF 2(1,2,5,6), of s'] FetchPage_frame [of "fid (bp f)" i s r s' "bpg (bp f)"]
    by (simp add: pool_store_def buf_ReadPage_def)
next
  case (3 s f p w s' g)
  then show ?case
    using pool_files_kept [OF 3(1,2,6,7), of s'] buf_WritePage_frame [of "bp f" p s w s'] by (simp add: pool_store_def)
next
  case (4 s f a s' g)
  then show ?case
    using pool_files_kept [OF 4(1,2,5,6), of s'] buf_AllocatePage_frame [of "bp f" s a s'] by (simp add: pool_store_def)
qed

end
