(* ===== verification/BTreeReplace.thy ===== *)
theory BTreeReplace
  imports BTreeCursor
begin

text \<open>
  \<open>Insert\<close> of a key that is already in the tree: the value is replaced in its leaf, no page is
  allocated, and the shape of the tree stays (which keys there are, which leaves are empty). DELETE and
  UPDATE statements change rows this way.
\<close>

definition leaf_shape :: "u32 \<times> Entry list \<times> u32 \<Rightarrow> u32 \<times> bool \<times> u32" where
  "leaf_shape l = (case l of (j, es, nx) \<Rightarrow> (j, es = [], nx))"

lemma leaf_shape_eq [simp]: "leaf_shape (a, es, c) = leaf_shape (b, fs, d) \<longleftrightarrow> a = b \<and> (es = [] \<longleftrightarrow> fs = []) \<and> c = d"
  by (simp add: leaf_shape_def)

lemma map_shape_list_all2:
  "map leaf_shape ls' = map leaf_shape ls \<longleftrightarrow> list_all2 (\<lambda>x y. leaf_shape x = leaf_shape y) ls' ls"
  by (auto simp: list_eq_iff_nth_eq list_all2_conv_all_nth)

lemma path_shape: "map leaf_shape ls' = map leaf_shape ls \<Longrightarrow> path a ls b \<Longrightarrow> path a ls' b"
  unfolding map_shape_list_all2 by (induction ls' ls arbitrary: a rule: list_all2_induct) auto

lemma no_empty_leaf_all2:
  "list_all2 (\<lambda>x y. leaf_shape x = leaf_shape y) ls' ls \<Longrightarrow> no_empty_leaf ls \<Longrightarrow> no_empty_leaf ls'"
  by (induction ls' ls rule: list_all2_induct) (auto simp: no_empty_leaf_def)

lemma no_empty_leaf_shape:
  assumes "map leaf_shape ls' = map leaf_shape ls" and "no_empty_leaf (tl ls)"
  shows "no_empty_leaf (tl ls')"
proof -
  have "list_all2 (\<lambda>x y. leaf_shape x = leaf_shape y) (tl ls') (tl ls)"
    using assms(1) unfolding map_shape_list_all2 by (auto elim: list.rel_cases)
  then show ?thesis using assms(2) by (rule no_empty_leaf_all2)
qed

lemma ins_entry_middle:
  assumes "\<forall>e\<in>set es. Key e < k" and "\<forall>e\<in>set gs. k < Key e"
  shows "ins_entry k v (es @ fs @ gs) = es @ ins_entry k v fs @ gs"
  using assms by (simp add: ins_entry_append_left ins_entry_append_right)

lemma ins_entry_nonempty [simp]: "ins_entry k v es \<noteq> []"
  by (cases es) simp_all

context page_store
begin

definition replaced :: "'s \<Rightarrow> 's \<Rightarrow> bt \<Rightarrow> bt \<Rightarrow> u64 \<Rightarrow> byte list \<Rightarrow> nat \<Rightarrow> nat \<Rightarrow> nat \<Rightarrow> bool" where
  "replaced s s' t t' k v n lo hi \<longleftrightarrow>
     (ok s' \<and> live s' = live s \<and> (\<forall>j\<in>live s - set (ids t). view s' j = view s j) \<and> room s \<le> room s') \<and>
     (btwf n lo hi t' \<and> holds_tree (live s') (view s') t' \<and> ids t' = ids t \<and> root_of t' = root_of t) \<and>
     (entries t' = ins_entry k v (entries t) \<and> map leaf_shape (leaves t') = map leaf_shape (leaves t))"

lemma replaced_after_read: "same_store s s1 \<Longrightarrow> replaced s1 s2 t t' k v n lo hi \<Longrightarrow> replaced s s2 t t' k v n lo hi"
  by (auto simp: same_store_def replaced_def)

lemma replaced_leaf:
  assumes "ok s" and "i \<in> live s" and wf: "btwf 0 lo hi (BLeaf i es nx)" and "length v = ValueSize"
    and pos: "pos < length es" "Key (es ! pos) = k" and k: "lo \<le> unat k" "unat k < hi"
  obtains p s' where "EncodeLeaf \<lparr>LeafPageID = i, Entries = es[pos := (es ! pos)\<lparr>Value := v\<rparr>], NextLeaf = nx\<rparr> = Inr p"
    and "WritePage ps p s = (Inr (), s')"
    and "replaced s s' (BLeaf i es nx) (BLeaf i (ins_entry k v es) nx) k v 0 lo hi"
proof -
  have asc: "ascending es" using wf by (simp add: spans_def)
  note e = ins_entry_found [OF asc pos, of v]
  let ?es = "ins_entry k v es"
  have "length ?es = length es" by (metis e length_list_update)
  then have es: "length ?es \<le> LeafOrder" "wf_entries ?es" "spans lo hi ?es"
    using wf assms(4) k by (auto simp: spans_ins_entry wf_entries_ins_entry)
  obtain p s' where "EncodeLeaf \<lparr>LeafPageID = i, Entries = ?es, NextLeaf = nx\<rparr> = Inr p"
      "WritePage ps p s = (Inr (), s')" "ok s'" "live s' = live s" "leaf_at (view s') i ?es nx"
      "\<forall>j\<in>live s - {i}. view s' j = view s j" "room s \<le> room s'"
    by (rule write_leaf [OF assms(1,2) es(1,2), where nx = nx])
  moreover have "es \<noteq> []" using pos by auto
  ultimately show ?thesis
    using that assms(2) es by (simp add: replaced_def holds_tree_BLeaf e)
qed

lemma replaced_child:
  assumes t: "t = BNode i ks (t1 @ u # t2)" and holds: "holds_tree (live s) (view s) t"
    and dist: "distinct (ids t)" and wf: "length t1 \<le> length ks" "length ks \<le> InternalOrder"
    and pre: "wf_pre (btwf n) lo (take (length t1) ks) t1"
    and suf: "wf_suf (btwf n) hi (drop (length t1) ks) t2"
    and lt: "\<forall>e\<in>set (forest_entries t1). Key e < k" "\<forall>e\<in>set (forest_entries t2). k < Key e"
    and g: "replaced s s' u u' k v n (last_bound lo (take (length t1) ks)) (next_bound hi (drop (length t1) ks))"
  shows "replaced s s' t (BNode i ks (t1 @ u' # t2)) k v (Suc n) lo hi"
proof -
  have iu: "i \<in> live s" "i \<notin> set (ids u)"
    and sub: "set (ids u) \<subseteq> set (ids t)" "set (ids t) \<subseteq> live s"
    using holds dist by (auto simp: t holds_tree_BNode holds_tree_def)
  have e: "ok s'" "live s' = live s" "\<forall>j\<in>live s - set (ids u). view s' j = view s j" "room s \<le> room s'"
      "holds_tree (live s') (view s') u'" "ids u' = ids u" "root_of u' = root_of u"
      "entries u' = ins_entry k v (entries u)" "map leaf_shape (leaves u') = map leaf_shape (leaves u)"
    using g by (auto simp: replaced_def)
  have l: "live s \<subseteq> live s'" using e(2) by simp
  note kept = siblings_kept [OF t holds dist l e(3)]
  have "node_at (view s') i ks (map root_of (t1 @ u' # t2))" using kept(2) e(7) by simp
  then have "holds_tree (live s') (view s') (BNode i ks (t1 @ u' # t2))"
    using kept(1) e(2,5) iu(1) by (auto simp: holds_tree_BNode)
  moreover have "wf_seq (btwf n) lo hi (take (length t1) ks @ [] @ drop (length t1) ks) (t1 @ [u'] @ t2)"
    using g by (intro wf_seq_plug pre suf) (simp add: replaced_def)
  moreover have "forest_entries (t1 @ u' # t2) = ins_entry k v (entries t)"
    using ins_entry_middle [OF lt] e(8) by (simp add: t)
  moreover have "\<forall>j\<in>live s - set (ids t). view s' j = view s j" using e(3) sub(1) by blast
  ultimately show ?thesis using e(1,2,4,6,9) wf(2) by (simp add: replaced_def t)
qed

lemma replaceNode_spec:
  assumes "btwf n lo hi t" and "ok s" and "holds_tree (live s) (view s) t" and "distinct (ids t)"
    and "lo \<le> unat k" and "unat k < hi" and "n < fuel" and "length v = ValueSize" and "entry_lookup (entries t) k \<noteq> None"
  shows "\<exists>s' t'. insertNode ps fuel (root_of t) k v s = (Inr None, s') \<and> replaced s s' t t' k v n lo hi"
  using assms
proof (induction n arbitrary: lo hi t s fuel)
  case 0
  then obtain i es nx where t: "t = BLeaf i es nx" "ascending es" by (cases t) (auto simp: spans_def)
  obtain f where f: "fuel = Suc f" using 0 by (cases fuel) auto
  obtain p s1 where p: "ReadPage ps i s = (Inr p, s1)" "PageNodeType p = NodeTypeLeaf"
      "DecodeLeaf p = Inr \<lparr>LeafPageID = i, Entries = es, NextLeaf = nx\<rparr>" "same_store s s1"
    using read_leaf 0(2,3) unfolding t by blast
  have s1: "ok s1" "i \<in> live s1"
    using p(4) 0(3) by (simp_all add: same_store_def t holds_tree_BLeaf)
  obtain j found where j: "LeafSearchKey es k = (j, found)" by fastforce
  note search = LeafSearchKey_cases [OF t(2) j]
  have found using search 0(9) by (cases found) (simp_all add: t)
  then have js: "j < length es" "Key (es ! j) = k" using search by auto
  obtain q s2 where "EncodeLeaf \<lparr>LeafPageID = i, Entries = es[j := (es ! j)\<lparr>Value := v\<rparr>], NextLeaf = nx\<rparr> = Inr q"
      "WritePage ps q s1 = (Inr (), s2)" "replaced s1 s2 (BLeaf i es nx) (BLeaf i (ins_entry k v es) nx) k v 0 lo hi"
    by (rule replaced_leaf [OF s1 0(1) [unfolded t] 0(8) js 0(5,6)])
  then show ?case
    using p j \<open>found\<close> replaced_after_read [OF p(4)] by (simp add: t f insertLeaf_def) blast
next
  case (Suc n)
  then obtain i ks ts where t: "t = BNode i ks ts" by (cases t) auto
  obtain f where f: "fuel = Suc f" "n < f" using Suc.prems(7) by (cases fuel) auto
  obtain p s1 t1 u t2 where d: "ReadPage ps i s = (Inr p, s1)" "PageNodeType p = NodeTypeInternal"
      "DecodeInternal p = Inr \<lparr>InternalPageID = i, Keys = ks, Children = map root_of ts\<rparr>"
      "same_store s s1" "holds_tree (live s1) (view s1) u"
      "ts = t1 @ u # t2" "length t1 = FindChildIndex ks k" "map root_of ts ! FindChildIndex ks k = root_of u"
      "btwf n (last_bound lo (take (length t1) ks)) (next_bound hi (drop (length t1) ks)) u"
      "last_bound lo (take (length t1) ks) \<le> unat k"
      "unat k < next_bound hi (drop (length t1) ks)"
      "\<forall>e\<in>set (forest_entries t1). Key e < k" "\<forall>e\<in>set (forest_entries t2). k < Key e"
      "wf_pre (btwf n) lo (take (length t1) ks) t1" "wf_suf (btwf n) hi (drop (length t1) ks) t2"
      "length t1 \<le> length ks"
    by (rule descend [OF Suc.prems(1,2,3,5,6) [unfolded t]])
  have s1: "ok s1" "holds_tree (live s1) (view s1) t" "distinct (ids u)" "length ks \<le> InternalOrder"
    using d(4) same_store_holds [OF d(4)] Suc.prems(1,3,4) by (auto simp: same_store_def t d(6))
  have "entry_lookup (entries t) k = entry_lookup (entries u) k"
    using entry_lookup_mid [OF d(12,13)] by (simp add: t d(6))
  then have lk: "entry_lookup (entries u) k \<noteq> None" using Suc.prems(9) by simp
  obtain s2 u' where g: "insertNode ps f (root_of u) k v s1 = (Inr None, s2)"
      "replaced s1 s2 u u' k v n (last_bound lo (take (length t1) ks)) (next_bound hi (drop (length t1) ks))"
    using Suc.IH [OF d(9) s1(1) d(5) s1(3) d(10,11) f(2) Suc.prems(8) lk] by blast
  have t': "t = BNode i ks (t1 @ u # t2)" by (simp add: t d(6))
  have "replaced s s2 t (BNode i ks (t1 @ u' # t2)) k v (Suc n) lo hi"
    using replaced_child [OF t' s1(2) Suc.prems(4) d(16) s1(4) d(14,15,12,13) g(2)]
    by (rule replaced_after_read [OF d(4)])
  then show ?case using d(1-3,8) g(1) by (simp add: t f(1) insertInternal_split_def) blast
qed

lemma btree_replace_spec:
  assumes ok: "ok s" and t: "btree_tree (live s) (view s) n t bt" and "n < fuel" and "length v = ValueSize"
    and "entry_lookup (entries t) k \<noteq> None"
  shows "\<exists>s' t'. btree_Insert ps fuel k v (bt, s) = (Inr (), (bt, s')) \<and> ok s' \<and> live s' = live s \<and>
     btree_tree (live s') (view s') n t' bt \<and> entries t' = ins_entry k v (entries t) \<and>
     map leaf_shape (leaves t') = map leaf_shape (leaves t) \<and> room s \<le> room s'"
proof -
  from t obtain a where w: "btwf n 0 (2 ^ 64) t" "holds_tree (live s) (view s) t" "distinct (ids t)"
      "root_of t = rootID bt" "path a (leaves t) 0"
      "headerPage bt \<in> live s" "headerPage bt \<notin> set (ids t)" "header_at (view s) bt"
    unfolding btree_rel_defs by blast
  obtain s' t' where d: "insertNode ps fuel (rootID bt) k v s = (Inr None, s')" "replaced s s' t t' k v n 0 (2 ^ 64)"
    using replaceNode_spec [OF w(1) ok w(2,3) unat_u64_bound [of k] assms(3,4,5)] w(4) by auto
  then have "view s' (headerPage bt) = view s (headerPage bt)" using w(6,7) by (auto simp: replaced_def)
  then have "btree_tree (live s') (view s') n t' bt"
    using d(2) w path_shape [of "leaves t'" "leaves t" a 0] unfolding btree_rel_defs replaced_def
    by (auto simp: header_at_def)
  then show ?thesis using d by (auto simp: btree_Insert_def replaced_def)
qed

end

end
