(* ===== verification/WorkArea.thy ===== *)
theory WorkArea
  imports Dml BufferFiles BTreeReplace
begin

text \<open>
  The work area of a writing statement as page stores: the transaction pager under each key
  satisfies the laws of \<open>page_store\<close>, and working on one leaves the others as they are. So
  every lemma on B+ trees over page stores holds for the trees of all tables and indexes that a
  transaction touches, though they share the buffer pool.

  \<open>G\<close> are the keys of the open files and \<open>bp\<close> gives their buffered pagers.
\<close>

definition wlive :: "(string \<Rightarrow> BufPager) \<Rightarrow> string \<Rightarrow> Work \<Rightarrow> u32 set" where
  "wlive bp k w = buf_live (bp k) (dbBuf (wDB w))"

definition wview :: "(string \<Rightarrow> BufPager) \<Rightarrow> string \<Rightarrow> Work \<Rightarrow> u32 \<Rightarrow> byte list" where
  "wview bp k w =
     (case wPagers w k of
        None \<Rightarrow> buf_view (bp k) (dbBuf (wDB w))
      | Some b \<Rightarrow> txp_view (buf_view (bp k)) (tx_view (dbBuf (wDB w)) b))"

definition wroom :: "(string \<Rightarrow> BufPager) \<Rightarrow> string \<Rightarrow> Work \<Rightarrow> nat" where
  "wroom bp k w = buf_room (bp k) (dbBuf (wDB w))"

text \<open>What a transaction begun on the pool state \<open>st0\<close> keeps: each transaction pager is in the frame of
  \<open>txp_frame\<close>, so the pages in use at the beginning are untouched in the file; a file without a
  transaction pager is as it was.\<close>

definition same_file :: "BufPager \<Rightarrow> BufState \<Rightarrow> BufState \<Rightarrow> bool" where
  "same_file bp st0 st \<longleftrightarrow> buf_live bp st = buf_live bp st0 \<and> (\<forall>j\<in>buf_live bp st0. buf_view bp st j = buf_view bp st0 j)"

definition tx_frame :: "BufPager \<Rightarrow> BufState \<Rightarrow> BufState \<Rightarrow> TxBuf \<Rightarrow> bool" where
  "tx_frame bp st0 st b \<longleftrightarrow> txp_frame (buf_ok bp) (buf_live bp) (buf_view bp) st0 (tx_view st b)"

definition work_inv :: "(string \<Rightarrow> BufPager) \<Rightarrow> string set \<Rightarrow> BufState \<Rightarrow> Work \<Rightarrow> bool" where
  "work_inv bp G st0 w \<longleftrightarrow> pool_files_ok bp G (dbBuf (wDB w)) \<and>
     (\<forall>k b. wPagers w k = Some b \<longrightarrow> k \<in> G \<and> tbPager b = bp k \<and> tx_frame (bp k) st0 (dbBuf (wDB w)) b) \<and>
     (\<forall>k\<in>G. wPagers w k = None \<longrightarrow> same_file (bp k) st0 (dbBuf (wDB w)))"

definition work_frame :: "(string \<Rightarrow> BufPager) \<Rightarrow> string \<Rightarrow> Work \<Rightarrow> Work \<Rightarrow> bool" where
  "work_frame bp f w0 w \<longleftrightarrow>
     wDB w = (wDB w0)\<lparr>dbBuf := dbBuf (wDB w)\<rparr> \<and> (\<forall>k. k \<noteq> f \<longrightarrow> wPagers w k = wPagers w0 k) \<and>
     (\<forall>a. a \<noteq> bpg (bp f) \<longrightarrow> pagers (dbBuf (wDB w)) a = pagers (dbBuf (wDB w0)) a)"

definition work_ok :: "(string \<Rightarrow> BufPager) \<Rightarrow> string set \<Rightarrow> BufState \<Rightarrow> string \<Rightarrow> Work \<Rightarrow> Work \<Rightarrow> bool" where
  "work_ok bp G st0 f w0 w \<longleftrightarrow> f \<in> G \<and> work_inv bp G st0 w \<and> wPagers w f \<noteq> None \<and> work_frame bp f w0 w"

lemma work_frame_refl [simp]: "work_frame bp f w w"
  by (simp add: work_frame_def)

lemma work_frame_trans: "work_frame bp f w0 w1 \<Longrightarrow> work_frame bp f w1 w2 \<Longrightarrow> work_frame bp f w0 w2"
  unfolding work_frame_def
  by (metis (no_types, lifting) DB.update_convs(3) DB.surjective DB.select_convs(3))

lemma work_inv_tx:
  assumes "work_inv bp G st0 w" and "wPagers w f = Some b"
  shows "f \<in> G \<and> tbPager b = bp f \<and> buf_ok (bp f) (dbBuf (wDB w)) \<and> tx_frame (bp f) st0 (dbBuf (wDB w)) b \<and>
    txp_inv (buf_ok (bp f)) (buf_live (bp f)) (tx_view (dbBuf (wDB w)) b)"
  using assms by (auto simp: work_inv_def pool_files_ok_def buf_ok_def tx_frame_def txp_frame_def)

text \<open>Other files are the same when their pagers are.\<close>

lemma pager_same:
  assumes "pagers st' (bpg (bp k)) = pagers st (bpg (bp k))"
  shows "buf_live (bp k) st' = buf_live (bp k) st" "buf_view (bp k) st' = buf_view (bp k) st"
    "buf_room (bp k) st' = buf_room (bp k) st"
  using assms by (simp_all add: buf_live_def buf_view_def buf_room_def)

lemma other_pager: "pool_files_ok bp G st \<Longrightarrow> f \<in> G \<Longrightarrow> k \<in> G \<Longrightarrow> k \<noteq> f \<Longrightarrow> bpg (bp k) \<noteq> bpg (bp f)"
  by (auto simp: pool_files_ok_def inj_on_def)

lemma pool_files_buf_ok: "pool_files_ok bp G st \<Longrightarrow> k \<in> G \<Longrightarrow> buf_ok (bp k) st"
  by (simp add: pool_files_ok_def buf_ok_def)

lemma tx_frame_same:
  assumes "tx_frame bp st0 st b" and "buf_ok bp st'" and "pagers st' (bpg bp) = pagers st (bpg bp)"
  shows "tx_frame bp st0 st' b"
  using assms(1,2) pager_same [of st' "\<lambda>_. bp" "()" st] assms(3)
  by (auto simp: tx_frame_def txp_frame_def txp_inv_def tx_view_def)

lemma same_file_same:
  assumes "same_file bp st0 st" and "pagers st' (bpg bp) = pagers st (bpg bp)"
  shows "same_file bp st0 st'"
  using assms pager_same [of st' "\<lambda>_. bp" "()" st] by (simp add: same_file_def)

text \<open>One step of a transaction pager.\<close>

lemma tx_run_step:
  assumes ok: "work_ok bp G st0 f w0 w" and b: "wPagers w f = Some b"
    and run: "run (bp f) (tx_view (dbBuf (wDB w)) b) = (r, tp)"
    and inv: "txp_frame (buf_ok (bp f)) (buf_live (bp f)) (buf_view (bp f)) st0 tp"
    and files: "files (pool (txbase tp)) = files (pool (dbBuf (wDB w)))"
    and others: "\<And>a. a \<noteq> bpg (bp f) \<Longrightarrow> pagers (txbase tp) a = pagers (dbBuf (wDB w)) a"
  shows "\<exists>w'. tx_run f run w = (r, w') \<and> work_ok bp G st0 f w0 w' \<and> wlive bp f w' = buf_live (bp f) (txbase tp) \<and>
    wview bp f w' = txp_view (buf_view (bp f)) tp \<and> wroom bp f w' = buf_room (bp f) (txbase tp)"
proof -
  let ?b = "b\<lparr>tbDirty := dirty tp, tbAlloc := allocated tp\<rparr>"
  let ?w = "w\<lparr>wDB := (wDB w)\<lparr>dbBuf := txbase tp\<rparr>, wPagers := (wPagers w)(f \<mapsto> ?b)\<rparr>"
  have winv: "work_inv bp G st0 w" and f: "f \<in> G" using ok by (simp_all add: work_ok_def)
  note t = work_inv_tx [OF winv b]
  have pf: "pool_files_ok bp G (dbBuf (wDB w))" using winv by (simp add: work_inv_def)
  have pf': "pool_files_ok bp G (txbase tp)"
    by (rule pool_files_ok_step [OF pf _ files, of f]) (use inv in \<open>simp add: txp_frame_def txp_inv_def\<close>)
  have same: "pagers (txbase tp) (bpg (bp k)) = pagers (dbBuf (wDB w)) (bpg (bp k))" if "k \<in> G" "k \<noteq> f" for k
    using others other_pager [OF pf f that] by blast
  have view: "tx_view (txbase tp) ?b = tp" by (simp add: tx_view_def)
  have "tx_frame (bp k) st0 (txbase tp) c" if c: "((wPagers w)(f \<mapsto> ?b)) k = Some c" for k c
  proof (cases "k = f")
    case True
    then show ?thesis using c inv view by (simp add: tx_frame_def)
  next
    case False
    then have "k \<in> G" "tx_frame (bp k) st0 (dbBuf (wDB w)) c" using winv c by (auto simp: work_inv_def)
    then show ?thesis using tx_frame_same pool_files_buf_ok [OF pf'] same False by blast
  qed
  moreover have "same_file (bp k) st0 (txbase tp)" if "k \<in> G" "((wPagers w)(f \<mapsto> ?b)) k = None" for k
    using that winv same [of k] same_file_same [of "bp k" st0 "dbBuf (wDB w)" "txbase tp"]
    by (auto simp: work_inv_def split: if_splits)
  ultimately have "work_inv bp G st0 ?w"
    using winv pf' t unfolding work_inv_def by (auto split: if_splits)
  moreover have "work_frame bp f w ?w" using others by (simp add: work_frame_def)
  then have "work_frame bp f w0 ?w" using ok by (auto simp: work_ok_def intro: work_frame_trans)
  ultimately have "work_ok bp G st0 f w0 ?w" using f by (simp add: work_ok_def)
  moreover have "tx_run f run w = (r, ?w)" using run b t by (simp add: tx_run_def)
  ultimately show ?thesis by (simp add: wlive_def wview_def wroom_def view)
qed

lemma txp_frame_read:
  assumes "txp_ReadPage (buf_store bp) i tp = (r, tp')" and "files (pool (txbase tp)) (fid bp) = Some (bpg bp)"
  shows "files (pool (txbase tp')) = files (pool (txbase tp)) \<and> (\<forall>a. a \<noteq> bpg bp \<longrightarrow> pagers (txbase tp') a = pagers (txbase tp) a)"
  using assms FetchPage_frame [OF _ assms(2)]
  by (fastforce simp: txp_ReadPage_def buf_ReadPage_def split: option.splits prod.splits)

lemma txp_frame_alloc:
  assumes "txp_AllocatePage (buf_store bp) tp = (r, tp')"
  shows "files (pool (txbase tp')) = files (pool (txbase tp)) \<and> (\<forall>a. a \<noteq> bpg bp \<longrightarrow> pagers (txbase tp') a = pagers (txbase tp) a)"
  using assms buf_AllocatePage_frame [of bp "txbase tp"]
  by (fastforce simp: txp_AllocatePage_def split: sum.splits prod.splits)

lemma work_store_simps [simp]:
  "ReadPage (work_store key) i = tx_run key (\<lambda>bp. txp_ReadPage (buf_store bp) i)"
  "WritePage (work_store key) p = tx_run key (\<lambda>bp. txp_WritePage p)"
  "AllocatePage (work_store key) = tx_run key (\<lambda>bp. txp_AllocatePage (buf_store bp))"
  by (simp_all add: work_store_def)

lemma work_okD:
  assumes "work_ok bp G st0 f w0 w"
  obtains b where "wPagers w f = Some b" and "txp_frame (buf_ok (bp f)) (buf_live (bp f)) (buf_view (bp f)) st0 (tx_view (dbBuf (wDB w)) b)"
    and "txp_inv (buf_ok (bp f)) (buf_live (bp f)) (tx_view (dbBuf (wDB w)) b)"
    and "wlive bp f w = buf_live (bp f) (txbase (tx_view (dbBuf (wDB w)) b))"
    and "wview bp f w = txp_view (buf_view (bp f)) (tx_view (dbBuf (wDB w)) b)"
    and "wroom bp f w = buf_room (bp f) (txbase (tx_view (dbBuf (wDB w)) b))"
    and "files (pool (txbase (tx_view (dbBuf (wDB w)) b))) (fid (bp f)) = Some (bpg (bp f))"
    and "txbase (tx_view (dbBuf (wDB w)) b) = dbBuf (wDB w)"
proof -
  obtain b where b: "wPagers w f = Some b" and inv: "work_inv bp G st0 w" using assms by (auto simp: work_ok_def)
  note t = work_inv_tx [OF inv b]
  show ?thesis
    by (rule that [OF b]) (use t b in \<open>auto simp: wlive_def wview_def wroom_def tx_view_def buf_ok_def tx_frame_def\<close>)
qed

interpretation work: page_store "work_store f" "work_ok bp G st0 f w0" "wlive bp f" "wview bp f" "wroom bp f" for bp G st0 f w0
proof
  fix w assume ok: "work_ok bp G st0 f w0 w"
  obtain b where b: "wPagers w f = Some b" and fr: "txp_frame (buf_ok (bp f)) (buf_live (bp f)) (buf_view (bp f)) st0 (tx_view (dbBuf (wDB w)) b)"
    and t: "txp_inv (buf_ok (bp f)) (buf_live (bp f)) (tx_view (dbBuf (wDB w)) b)"
    and l: "wlive bp f w = buf_live (bp f) (txbase (tx_view (dbBuf (wDB w)) b))"
    and v: "wview bp f w = txp_view (buf_view (bp f)) (tx_view (dbBuf (wDB w)) b)"
    and rm: "wroom bp f w = buf_room (bp f) (txbase (tx_view (dbBuf (wDB w)) b))"
    and fl: "files (pool (txbase (tx_view (dbBuf (wDB w)) b))) (fid (bp f)) = Some (bpg (bp f))"
    and base: "txbase (tx_view (dbBuf (wDB w)) b) = dbBuf (wDB w)"
    by (rule work_okD [OF ok])
  let ?t = "tx_view (dbBuf (wDB w)) b"
  show "0 \<notin> wlive bp f w" using buf.tx.live_nonzero [OF t] l by simp
  show "length (wview bp f w i) = DataSize" if "i \<in> wlive bp f w" for i
    using buf.tx.view_length [OF t] that l v by simp
  show "\<exists>p w'. ReadPage (work_store f) i w = (Inr p, w') \<and> page_id p = i \<and> Data p = wview bp f w i \<and>
      work_ok bp G st0 f w0 w' \<and> wlive bp f w' = wlive bp f w \<and> (\<forall>j\<in>wlive bp f w. wview bp f w' j = wview bp f w j) \<and>
      wroom bp f w \<le> wroom bp f w'" if i: "i \<in> wlive bp f w" for i
  proof -
    have i': "i \<in> buf_live (bp f) (txbase ?t)" using i l by simp
    obtain p tp where p: "txp_ReadPage (buf_store (bp f)) i ?t = (Inr p, tp)" "page_id p = i"
      "Data p = txp_view (buf_view (bp f)) ?t i" "txp_inv (buf_ok (bp f)) (buf_live (bp f)) tp"
      "buf_live (bp f) (txbase tp) = buf_live (bp f) (txbase ?t)"
      "\<forall>j\<in>buf_live (bp f) (txbase ?t). txp_view (buf_view (bp f)) tp j = txp_view (buf_view (bp f)) ?t j"
      "buf_room (bp f) (txbase ?t) \<le> buf_room (bp f) (txbase tp)"
      using buf.tx.read_live [OF t i'] by (simp only: tx_store_simps) blast
    note ot = txp_frame_read [OF p(1) fl]
    note fr' = buf.frame_read [OF fr i' p(1)]
    obtain w' where "tx_run f (\<lambda>bp. txp_ReadPage (buf_store bp) i) w = (Inr p, w')" "work_ok bp G st0 f w0 w'"
      "wlive bp f w' = buf_live (bp f) (txbase tp)" "wview bp f w' = txp_view (buf_view (bp f)) tp"
      "wroom bp f w' = buf_room (bp f) (txbase tp)"
      using tx_run_step [OF ok b, of "\<lambda>bp. txp_ReadPage (buf_store bp) i" "Inr p" tp] p fr' ot base by auto
    then show ?thesis using p l v rm by auto
  qed
  show "\<exists>w'. WritePage (work_store f) p w = (Inr (), w') \<and> work_ok bp G st0 f w0 w' \<and> wlive bp f w' = wlive bp f w \<and>
      (\<forall>j\<in>wlive bp f w. wview bp f w' j = (if j = page_id p then Data p else wview bp f w j)) \<and>
      wroom bp f w \<le> wroom bp f w'" if pp: "wf_page p" "page_id p \<in> wlive bp f w" for p
  proof -
    have p': "page_id p \<in> buf_live (bp f) (txbase ?t)" using pp l by simp
    obtain tp where p: "txp_WritePage p ?t = (Inr (), tp)" "txp_inv (buf_ok (bp f)) (buf_live (bp f)) tp"
      "buf_live (bp f) (txbase tp) = buf_live (bp f) (txbase ?t)"
      "\<forall>j\<in>buf_live (bp f) (txbase ?t). txp_view (buf_view (bp f)) tp j = (if j = page_id p then Data p else txp_view (buf_view (bp f)) ?t j)"
      "buf_room (bp f) (txbase ?t) \<le> buf_room (bp f) (txbase tp)"
      using buf.tx.write_live [OF t pp(1) p'] by (simp only: tx_store_simps) blast
    have "txp_step (buf_store (bp f)) (buf_live (bp f)) (buf_room (bp f)) ?t tp"
      by (rule txp_step.txp_write [where p = p and live = "buf_live (bp f)" and tp = ?t, OF pp(1) p' p(1)])
    then have fr': "txp_frame (buf_ok (bp f)) (buf_live (bp f)) (buf_view (bp f)) st0 tp" using fr by (rule buf.frame_step)
    have "txbase tp = txbase ?t" using p(1) by (auto simp: txp_WritePage_def)
    then obtain w' where "tx_run f (\<lambda>bp. txp_WritePage p) w = (Inr (), w')" "work_ok bp G st0 f w0 w'"
      "wlive bp f w' = buf_live (bp f) (txbase tp)" "wview bp f w' = txp_view (buf_view (bp f)) tp"
      "wroom bp f w' = buf_room (bp f) (txbase tp)"
      using tx_run_step [OF ok b, of "\<lambda>bp. txp_WritePage p" "Inr ()" tp] p fr' base by auto
    then show ?thesis using p l v rm by auto
  qed
  show "\<exists>i w'. AllocatePage (work_store f) w = (Inr i, w') \<and> i \<notin> wlive bp f w \<and> work_ok bp G st0 f w0 w' \<and>
      wlive bp f w' = insert i (wlive bp f w) \<and> (\<forall>j\<in>wlive bp f w. wview bp f w' j = wview bp f w j) \<and>
      wroom bp f w \<le> Suc (wroom bp f w')" if r: "0 < wroom bp f w"
  proof -
    have r': "0 < buf_room (bp f) (txbase ?t)" using r rm by simp
    obtain i tp where p: "txp_AllocatePage (buf_store (bp f)) ?t = (Inr i, tp)" "i \<notin> buf_live (bp f) (txbase ?t)"
      "txp_inv (buf_ok (bp f)) (buf_live (bp f)) tp" "buf_live (bp f) (txbase tp) = insert i (buf_live (bp f) (txbase ?t))"
      "\<forall>j\<in>buf_live (bp f) (txbase ?t). txp_view (buf_view (bp f)) tp j = txp_view (buf_view (bp f)) ?t j"
      "buf_room (bp f) (txbase ?t) \<le> Suc (buf_room (bp f) (txbase tp))"
      using buf.tx.alloc_room [OF t r'] by (simp only: tx_store_simps) blast
    note ot = txp_frame_alloc [OF p(1)]
    note fr' = buf.frame_alloc [OF fr r' p(1)]
    obtain w' where "tx_run f (\<lambda>bp. txp_AllocatePage (buf_store bp)) w = (Inr i, w')" "work_ok bp G st0 f w0 w'"
      "wlive bp f w' = buf_live (bp f) (txbase tp)" "wview bp f w' = txp_view (buf_view (bp f)) tp"
      "wroom bp f w' = buf_room (bp f) (txbase tp)"
      using tx_run_step [OF ok b, of "\<lambda>bp. txp_AllocatePage (buf_store bp)" "Inr i" tp] p fr' ot base by auto
    then show ?thesis using p l v rm by auto
  qed
qed

end
