(* ===== verification/WorkTrees.thy ===== *)
theory WorkTrees
  imports WorkArea BTreeReplace
begin

text \<open>
  The B+ trees of a work area. \<open>tree_at\<close> says what tree the transaction sees under a key;
  \<open>moved F\<close> is what every step of a statement keeps: the invariant of the work area, the rest of the
  database, and the trees under all keys outside \<open>F\<close>. The lemmas give the effect of each tree
  operation in these terms.
\<close>

definition tree_at :: "(string \<Rightarrow> BufPager) \<Rightarrow> string \<Rightarrow> Work \<Rightarrow> nat \<Rightarrow> bt \<Rightarrow> BTree \<Rightarrow> bool" where
  "tree_at bp k w n t bt \<longleftrightarrow> btree_tree (wlive bp k w) (wview bp k w) n t bt \<and> headerPage bt = 1"

definition kept :: "(string \<Rightarrow> BufPager) \<Rightarrow> string \<Rightarrow> Work \<Rightarrow> Work \<Rightarrow> bool" where
  "kept bp g w w' \<longleftrightarrow> wlive bp g w' = wlive bp g w \<and> (\<forall>j\<in>wlive bp g w. wview bp g w' j = wview bp g w j) \<and>
     wroom bp g w \<le> wroom bp g w'"

definition same_rest :: "Work \<Rightarrow> Work \<Rightarrow> bool" where
  "same_rest w w' \<longleftrightarrow> wDB w' = (wDB w)\<lparr>dbBuf := dbBuf (wDB w')\<rparr>"

definition moved :: "(string \<Rightarrow> BufPager) \<Rightarrow> string set \<Rightarrow> BufState \<Rightarrow> string set \<Rightarrow> Work \<Rightarrow> Work \<Rightarrow> bool" where
  "moved bp G st0 F w w' \<longleftrightarrow> work_inv bp G st0 w' \<and> same_rest w w' \<and>
     dom (wPagers w) \<subseteq> dom (wPagers w') \<and> (\<forall>g\<in>G - F. kept bp g w w')"

lemma kept_same [simp]: "kept bp g w w"
  by (simp add: kept_def)

lemma kept_step: "kept bp g w w' \<Longrightarrow> kept bp g w' w'' \<Longrightarrow> kept bp g w w''"
  by (auto simp: kept_def)

lemma same_rest_refl [simp]: "same_rest w w"
  by (simp add: same_rest_def)

lemma moved_refl: "work_inv bp G st0 w \<Longrightarrow> moved bp G st0 F w w"
  by (simp add: moved_def)

lemma moved_inv: "moved bp G st0 F w w' \<Longrightarrow> work_inv bp G st0 w'"
  by (simp add: moved_def)

lemma moved_mono: "moved bp G st0 F w w' \<Longrightarrow> F \<subseteq> F' \<Longrightarrow> moved bp G st0 F' w w'"
  by (auto simp: moved_def)

lemma same_rest_trans:
  assumes "same_rest w w'" and "same_rest w' w''"
  shows "same_rest w w''"
proof -
  have "wDB w'' = (wDB w')\<lparr>dbBuf := dbBuf (wDB w'')\<rparr>" using assms(2) by (simp only: same_rest_def)
  also have "\<dots> = ((wDB w)\<lparr>dbBuf := dbBuf (wDB w')\<rparr>)\<lparr>dbBuf := dbBuf (wDB w'')\<rparr>"
    using assms(1) by (simp only: same_rest_def)
  also have "\<dots> = (wDB w)\<lparr>dbBuf := dbBuf (wDB w'')\<rparr>" by simp
  finally show ?thesis by (simp only: same_rest_def)
qed

lemma moved_trans:
  assumes "moved bp G st0 F w w'" and "moved bp G st0 F' w' w''"
  shows "moved bp G st0 (F \<union> F') w w''"
  using assms unfolding moved_def by (blast intro: kept_step same_rest_trans)

lemma moved_trans_same: "moved bp G st0 F w w' \<Longrightarrow> moved bp G st0 F w' w'' \<Longrightarrow> moved bp G st0 F w w''"
  using moved_trans [of bp G st0 F w w' F w''] by simp

lemma btree_tree_kept:
  assumes "btree_tree L V n t bt" and "\<forall>j\<in>L. W j = V j"
  shows "btree_tree L W n t bt"
proof -
  have "holds_tree L V t" "set (ids t) \<subseteq> L" using assms(1) by (auto simp: btree_tree_def holds_tree_def)
  then have "holds_tree L W t" using holds_tree_mono [of L V t L W] assms(2) by blast
  then show ?thesis using assms by (auto simp: btree_tree_def header_at_def)
qed

lemma kept_tree: "kept bp g w w' \<Longrightarrow> tree_at bp g w n t bt \<Longrightarrow> tree_at bp g w' n t bt"
  using btree_tree_kept [of "wlive bp g w" "wview bp g w" n t bt "wview bp g w'"] by (simp add: tree_at_def kept_def)

lemma moved_kept: "moved bp G st0 F w w' \<Longrightarrow> g \<in> G \<Longrightarrow> g \<notin> F \<Longrightarrow> kept bp g w w'"
  by (simp add: moved_def)

lemmas moved_tree = kept_tree [OF moved_kept]

lemma tree_at_height: "tree_at bp k w n t bt \<Longrightarrow> n < 2 ^ 32"
proof -
  assume "tree_at bp k w n t bt"
  then have "btwf n 0 (2 ^ 64) t" "holds_tree (wlive bp k w) (wview bp k w) t" "distinct (ids t)"
    by (auto simp: tree_at_def btree_tree_def)
  then have "n < card (wlive bp k w)" using height_ids holds_tree_card less_le_trans by blast
  also have "\<dots> \<le> card (UNIV :: u32 set)" by (rule card_mono) simp_all
  finally show ?thesis by (simp add: card_word)
qed

section \<open>Single steps\<close>

lemma work_ok_moved:
  assumes "work_inv bp G st0 w" and "work_ok bp G st0 f w w'"
  shows "moved bp G st0 {f} w w'"
proof -
  have fr: "work_frame bp f w w'" "work_inv bp G st0 w'" "f \<in> G" using assms(2) by (simp_all add: work_ok_def)
  have pf: "pool_files_ok bp G (dbBuf (wDB w))" using assms(1) by (simp add: work_inv_def)
  have "kept bp g w w'" if "g \<in> G" "g \<noteq> f" for g
  proof -
    have "bpg (bp g) \<noteq> bpg (bp f)" using other_pager [OF pf fr(3) that] .
    then have p: "pagers (dbBuf (wDB w')) (bpg (bp g)) = pagers (dbBuf (wDB w)) (bpg (bp g))" "wPagers w' g = wPagers w g"
      using fr(1) that by (simp_all add: work_frame_def)
    show ?thesis
      using pager_same [of _ bp g, OF p(1)] p(2)
      by (simp add: kept_def wlive_def wroom_def wview_def txp_view_def tx_view_def split: option.split)
  qed
  moreover have "dom (wPagers w) \<subseteq> dom (wPagers w')"
  proof
    fix k assume "k \<in> dom (wPagers w)"
    then show "k \<in> dom (wPagers w')" using assms(2) fr(1) by (cases "k = f") (auto simp: work_ok_def work_frame_def)
  qed
  ultimately show ?thesis using fr by (simp add: moved_def work_frame_def same_rest_def [symmetric])
qed

lemma work_ok_self: "work_inv bp G st0 w \<Longrightarrow> wPagers w f \<noteq> None \<Longrightarrow> work_ok bp G st0 f w w"
  by (auto simp: work_ok_def work_inv_def)

lemma read_moved:
  assumes "work_inv bp G st0 w"
    and "page_store.same_store (work_ok bp G st0 f w) (wlive bp f) (wview bp f) (wroom bp f) w w'"
  shows "moved bp G st0 {} w w'"
proof -
  have s: "work_ok bp G st0 f w w'" "kept bp f w w'"
    using assms(2) unfolding work.same_store_def by (auto simp: kept_def)
  note m = work_ok_moved [OF assms(1) s(1)]
  then have "kept bp g w w'" if "g \<in> G" for g using s(2) that by (cases "g = f") (auto simp: moved_def)
  then show ?thesis using m by (simp add: moved_def)
qed

text \<open>A statement's transaction pager for an open file.\<close>

definition ready :: "(string \<Rightarrow> BufPager) \<Rightarrow> string set \<Rightarrow> (DB, BufPager) go \<Rightarrow> string \<Rightarrow> DB \<Rightarrow> bool" where
  "ready bp G getOrOpen key db \<longleftrightarrow> key \<in> G \<and> (\<forall>st. getOrOpen (db\<lparr>dbBuf := st\<rparr>) = (Inr (bp key), db\<lparr>dbBuf := st\<rparr>))"

lemma tx_pager_for_moved:
  assumes inv: "work_inv bp G st0 w" and "ready bp G getOrOpen key (wDB w)"
  shows "\<exists>w'. tx_pager_for key getOrOpen w = (Inr key, w') \<and> moved bp G st0 {} w w' \<and> wPagers w' key \<noteq> None"
proof (cases "wPagers w key")
  case None
  have key: "key \<in> G" and o: "getOrOpen (wDB w) = (Inr (bp key), wDB w)"
    using assms(2) by (auto simp: ready_def dest: spec [of _ "dbBuf (wDB w)"])
  let ?w = "w\<lparr>wPagers := (wPagers w)(key \<mapsto> newTxBuf (bp key))\<rparr>"
  have pf: "pool_files_ok bp G (dbBuf (wDB w))" using inv by (simp add: work_inv_def)
  have "same_file (bp key) st0 (dbBuf (wDB w))" using inv key None by (simp add: work_inv_def)
  then have "tx_frame (bp key) st0 (dbBuf (wDB w)) (newTxBuf (bp key))"
    using pool_files_buf_ok [OF pf key]
    by (simp add: tx_frame_def txp_frame_def txp_inv_def tx_view_def newTxBuf_def same_file_def)
  moreover have "tbPager (newTxBuf (bp key)) = bp key" by (simp add: newTxBuf_def)
  ultimately have "work_inv bp G st0 ?w" using inv key by (auto simp: work_inv_def)
  moreover have "kept bp g w ?w" for g
    using None by (simp add: kept_def wlive_def wroom_def wview_def txp_view_def tx_view_def newTxBuf_def split: option.split)
  ultimately have "moved bp G st0 {} w ?w" by (auto simp: moved_def same_rest_def)
  moreover have "w\<lparr>wDB := wDB w\<rparr> = w" by simp
  then have "tx_pager_for key getOrOpen w = (Inr key, ?w)" using None o by (simp add: tx_pager_for_def on_db_def)
  ultimately show ?thesis by auto
next
  case (Some b)
  then show ?thesis using inv by (auto simp: tx_pager_for_def intro: moved_refl)
qed

lemma tree_open:
  assumes inv: "work_inv bp G st0 w" and f: "wPagers w f \<noteq> None" and t: "tree_at bp f w n t bt"
  shows "\<exists>w'. btree_Open (work_store f) 1 w = (Inr bt, w') \<and> moved bp G st0 {} w w'"
proof -
  have "btree_rel (wlive bp f w) (wview bp f w) n (entries t) bt" "headerPage bt = 1"
    using t by (auto simp: tree_at_def btree_rel_def)
  from work.btree_Open_spec [OF work_ok_self [OF inv f] this(1)] this(2) read_moved [OF inv] show ?thesis by auto
qed

lemma tree_search:
  assumes inv: "work_inv bp G st0 w" and f: "wPagers w f \<noteq> None" and t: "tree_at bp f w n t bt" and fuel: "2 ^ 32 \<le> fuel"
  shows "\<exists>w'. btree_Search (work_store f) fuel bt key w =
      (Inr (case entry_lookup (entries t) key of None \<Rightarrow> (replicate ValueSize 0, False) | Some v \<Rightarrow> (v, True)), w') \<and>
    moved bp G st0 {} w w'"
proof -
  have r: "btree_rel (wlive bp f w) (wview bp f w) n (entries t) bt" using t by (auto simp: tree_at_def btree_rel_def)
  have "n < fuel" using tree_at_height [OF t] fuel by simp
  from work.btree_Search_spec [OF work_ok_self [OF inv f] r this] read_moved [OF inv] show ?thesis by blast
qed

lemma tree_insert_new:
  assumes inv: "work_inv bp G st0 w" and f: "wPagers w f \<noteq> None" and t: "tree_at bp f w n t bt" and fuel: "2 ^ 32 \<le> fuel"
    and v: "length v = ValueSize" and room: "n + 2 \<le> wroom bp f w"
  shows "\<exists>bt' w' n' t'. btree_Insert (work_store f) fuel k v (bt, w) = (Inr (), (bt', w')) \<and> moved bp G st0 {f} w w' \<and>
    tree_at bp f w' n' t' bt' \<and> entries t' = ins_entry k v (entries t) \<and> n' \<le> Suc n \<and> wroom bp f w \<le> wroom bp f w' + (n + 2)"
proof -
  have r: "btree_rel (wlive bp f w) (wview bp f w) n (entries t) bt" "headerPage bt = 1"
    using t by (auto simp: tree_at_def btree_rel_def)
  have "n < fuel" using tree_at_height [OF t] fuel by simp
  from work.btree_Insert_spec [OF work_ok_self [OF inv f] r(1) v this room] obtain bt' w' n' where
    "btree_Insert (work_store f) fuel k v (bt, w) = (Inr (), (bt', w'))" "work_ok bp G st0 f w w'"
    "btree_rel (wlive bp f w') (wview bp f w') n' (ins_entry k v (entries t)) bt'" "headerPage bt' = headerPage bt"
    "n' \<le> Suc n" "wroom bp f w \<le> wroom bp f w' + (n + 2)"
    by blast
  then show ?thesis using work_ok_moved [OF inv] r(2) by (fastforce simp: tree_at_def btree_rel_def)
qed

lemma tree_replace:
  assumes inv: "work_inv bp G st0 w" and f: "wPagers w f \<noteq> None" and t: "tree_at bp f w n t bt" and fuel: "2 ^ 32 \<le> fuel"
    and v: "length v = ValueSize" and k: "entry_lookup (entries t) k \<noteq> None"
  shows "\<exists>w' t'. btree_Insert (work_store f) fuel k v (bt, w) = (Inr (), (bt, w')) \<and> moved bp G st0 {f} w w' \<and>
    tree_at bp f w' n t' bt \<and> entries t' = ins_entry k v (entries t) \<and> map leaf_shape (leaves t') = map leaf_shape (leaves t)"
proof -
  have r: "btree_tree (wlive bp f w) (wview bp f w) n t bt" "headerPage bt = 1" using t by (auto simp: tree_at_def)
  have "n < fuel" using tree_at_height [OF t] fuel by simp
  from work.btree_replace_spec [OF work_ok_self [OF inv f] r(1) this v k] show ?thesis
    using work_ok_moved [OF inv] r(2) unfolding tree_at_def by blast
qed

lemma tree_delete:
  assumes inv: "work_inv bp G st0 w" and f: "wPagers w f \<noteq> None" and t: "tree_at bp f w n t bt" and fuel: "2 ^ 32 \<le> fuel"
  shows "\<exists>w' t'. btree_Delete (work_store f) fuel bt k w = (Inr (entry_lookup (entries t) k \<noteq> None), w') \<and>
    moved bp G st0 {f} w w' \<and> tree_at bp f w' n t' bt \<and> entries t' = filter (\<lambda>e. Key e \<noteq> k) (entries t) \<and> wroom bp f w \<le> wroom bp f w'"
proof -
  have r: "btree_rel (wlive bp f w) (wview bp f w) n (entries t) bt" "headerPage bt = 1"
    using t by (auto simp: tree_at_def btree_rel_def)
  have "n < fuel" using tree_at_height [OF t] fuel by simp
  from work.btree_Delete_spec [OF work_ok_self [OF inv f] r(1) this, of k] obtain w' where
    "btree_Delete (work_store f) fuel bt k w = (Inr (entry_lookup (entries t) k \<noteq> None), w')" "work_ok bp G st0 f w w'"
    "btree_rel (wlive bp f w') (wview bp f w') n (filter (\<lambda>e. Key e \<noteq> k) (entries t)) bt" "wroom bp f w \<le> wroom bp f w'"
    by blast
  then show ?thesis using work_ok_moved [OF inv] r(2) by (fastforce simp: tree_at_def btree_rel_def)
qed

end
