(* ===== verification/InsertRows.thy ===== *)
theory InsertRows
  imports WorkTrees
begin

text \<open>
  What the body of an INSERT does to the trees of a transaction: the row is filed under its
  primary key, and every index on the table gets an entry, unless one of them already has the
  value, in which case the statement fails.
\<close>

definition idxKey :: "IndexDef \<Rightarrow> string" where
  "idxKey d = indexKey (idxName d)"

definition has_tree :: "(string \<Rightarrow> BufPager) \<Rightarrow> string \<Rightarrow> Work \<Rightarrow> Entry list \<Rightarrow> bool" where
  "has_tree bp k w es \<longleftrightarrow> (\<exists>n t bt. tree_at bp k w n t bt \<and> entries t = es)"

text \<open>A tree with room for one more entry, however high it is.\<close>

definition roomy_tree :: "(string \<Rightarrow> BufPager) \<Rightarrow> string \<Rightarrow> Work \<Rightarrow> Entry list \<Rightarrow> bool" where
  "roomy_tree bp k w es \<longleftrightarrow> (\<exists>n t bt. tree_at bp k w n t bt \<and> entries t = es \<and> n + 2 \<le> wroom bp k w)"

lemma kept_has_tree: "kept bp k w w' \<Longrightarrow> has_tree bp k w es \<Longrightarrow> has_tree bp k w' es"
  by (auto simp: has_tree_def intro: kept_tree)

lemma kept_roomy_tree: "kept bp k w w' \<Longrightarrow> roomy_tree bp k w es \<Longrightarrow> roomy_tree bp k w' es"
  unfolding roomy_tree_def using kept_tree by (metis kept_def order_trans)

lemma roomy_has_tree: "roomy_tree bp k w es \<Longrightarrow> has_tree bp k w es"
  by (auto simp: roomy_tree_def has_tree_def)

lemma ready_same: "same_rest w w' \<Longrightarrow> ready bp G op key (wDB w) \<Longrightarrow> ready bp G op key (wDB w')"
  unfolding ready_def same_rest_def
  by (metis DB.update_convs(3) DB.surjective)

lemma moved_ready: "moved bp G st0 F w w' \<Longrightarrow> ready bp G op key (wDB w) \<Longrightarrow> ready bp G op key (wDB w')"
  by (auto simp: moved_def intro: ready_same)

lemma moved_pagers: "moved bp G st0 F w w' \<Longrightarrow> wPagers w k \<noteq> None \<Longrightarrow> wPagers w' k \<noteq> None"
  by (auto simp: moved_def)

lemma length_index_value [simp]: "length (index_value pk) = ValueSize"
  unfolding index_value_def by (subst length_put) (simp_all add: ValueSize_def)

section \<open>One index\<close>

lemma insert_index_spec:
  assumes inv: "work_inv bp G st0 w" and rd: "ready bp G (getOrOpenIndex name) (indexKey name) (wDB w)"
    and t: "roomy_tree bp (indexKey name) w es" and fuel: "2 ^ 32 \<le> fuel"
  shows "\<exists>w'. moved bp G st0 {indexKey name} w w' \<and>
    (if entry_lookup es k \<noteq> None then insert_index fuel name k pk w = (Inl (UniqueViolation name k), w')
     else insert_index fuel name k pk w = (Inr (), w') \<and> has_tree bp (indexKey name) w' (ins_entry k (index_value pk) es))"
proof -
  let ?f = "indexKey name"
  have G: "?f \<in> G" using rd by (simp add: ready_def)
  obtain w1 where w1: "txPagerForIndex name w = (Inr ?f, w1)" "moved bp G st0 {} w w1" "wPagers w1 ?f \<noteq> None"
    using tx_pager_for_moved [OF inv rd] by (auto simp: txPagerForIndex_def)
  obtain n u bt where u: "tree_at bp ?f w1 n u bt" "entries u = es" "n + 2 \<le> wroom bp ?f w1"
    using kept_roomy_tree [OF moved_kept [OF w1(2) G] t] by (auto simp: roomy_tree_def)
  obtain w2 where w2: "btree_Open (work_store ?f) 1 w1 = (Inr bt, w2)" "moved bp G st0 {} w1 w2"
    using tree_open [OF moved_inv [OF w1(2)] w1(3) u(1)] by blast
  note u2 = moved_tree [OF w2(2) G _ u(1)] and f2 = moved_pagers [OF w2(2) w1(3)]
  obtain w3 where w3: "btree_Search (work_store ?f) fuel bt k w2 =
      (Inr (case entry_lookup es k of None \<Rightarrow> (replicate ValueSize 0, False) | Some v \<Rightarrow> (v, True)), w3)"
    "moved bp G st0 {} w2 w3"
    using tree_search [OF moved_inv [OF w2(2)] f2 u2 fuel, of k] u(2) by auto
  have m3: "moved bp G st0 {} w w3" using moved_trans_same [OF moved_trans_same [OF w1(2) w2(2)] w3(2)] .
  show ?thesis
  proof (cases "entry_lookup es k")
    case (Some v)
    then have "insert_index fuel name k pk w = (Inl (UniqueViolation name k), w3)"
      using w1(1) w2(1) w3(1) by (simp add: insert_index_def bindG_def)
    then show ?thesis using Some moved_mono [OF m3] by auto
  next
    case None
    note u3 = moved_tree [OF w3(2) G _ u2] and f3 = moved_pagers [OF w3(2) f2]
    have "n + 2 \<le> wroom bp ?f w3"
      using u(3) moved_kept [OF w2(2) G] moved_kept [OF w3(2) G] by (simp add: kept_def)
    from tree_insert_new [OF moved_inv [OF w3(2)] f3 u3 fuel length_index_value this, of k pk]
    obtain bt' w4 n' t' where w4: "btree_Insert (work_store ?f) fuel k (index_value pk) (bt, w3) = (Inr (), (bt', w4))"
      "moved bp G st0 {?f} w3 w4" "tree_at bp ?f w4 n' t' bt'" "entries t' = ins_entry k (index_value pk) (entries u)"
      by auto
    then have "insert_index fuel name k pk w = (Inr (), w4)"
      using None w1(1) w2(1) w3(1) by (simp add: insert_index_def bindG_def)
    moreover have "moved bp G st0 {?f} w w4" using moved_trans [OF m3 w4(2)] by simp
    moreover have "has_tree bp ?f w4 (ins_entry k (index_value pk) es)" using w4(3,4) u(2) by (auto simp: has_tree_def)
    ultimately show ?thesis using None by auto
  qed
qed

section \<open>All indexes\<close>

text \<open>The first index that already has the row's value.\<close>

definition clash :: "Table \<Rightarrow> Value list \<Rightarrow> (IndexDef \<Rightarrow> Entry list) \<Rightarrow> IndexDef \<Rightarrow> bool" where
  "clash t values E d \<longleftrightarrow> (case index_key_of t values d of None \<Rightarrow> False | Some k \<Rightarrow> entry_lookup (E d) k \<noteq> None)"

definition index_after :: "Table \<Rightarrow> Value list \<Rightarrow> u64 \<Rightarrow> (IndexDef \<Rightarrow> Entry list) \<Rightarrow> IndexDef \<Rightarrow> Entry list" where
  "index_after t values pk E d =
     (case index_key_of t values d of None \<Rightarrow> E d | Some k \<Rightarrow> ins_entry k (index_value pk) (E d))"

lemma insertIntoIndexes_spec:
  assumes "work_inv bp G st0 w" and "\<forall>d\<in>set idxs. ready bp G (getOrOpenIndex (idxName d)) (idxKey d) (wDB w)"
    and "\<forall>d\<in>set idxs. roomy_tree bp (idxKey d) w (E d)" and "distinct (map idxKey idxs)" and fuel: "2 ^ 32 \<le> fuel"
  shows "\<exists>w'. moved bp G st0 (idxKey ` set idxs) w w' \<and>
    (case find (clash t values E) idxs of
       Some d \<Rightarrow> insertIntoIndexes fuel t values pk idxs w =
          (Inl (UniqueViolation (idxName d) (the (index_key_of t values d))), w')
     | None \<Rightarrow> insertIntoIndexes fuel t values pk idxs w = (Inr (), w') \<and>
          (\<forall>d\<in>set idxs. has_tree bp (idxKey d) w' (index_after t values pk E d)))"
  using assms(1-4)
proof (induction idxs arbitrary: w)
  case Nil
  then show ?case by (auto intro: moved_refl)
next
  case (Cons d ds)
  have G: "idxKey x \<in> G" if "x \<in> set (d # ds)" for x using Cons.prems(2) that by (auto simp: ready_def)
  show ?case
  proof (cases "index_key_of t values d")
    case None
    obtain w' where w': "moved bp G st0 (idxKey ` set ds) w w'"
      "case find (clash t values E) ds of
         Some d \<Rightarrow> insertIntoIndexes fuel t values pk ds w = (Inl (UniqueViolation (idxName d) (the (index_key_of t values d))), w')
       | None \<Rightarrow> insertIntoIndexes fuel t values pk ds w = (Inr (), w') \<and>
          (\<forall>d\<in>set ds. has_tree bp (idxKey d) w' (index_after t values pk E d))"
      using Cons.IH [of w] Cons.prems by auto
    have "idxKey d \<notin> idxKey ` set ds" using Cons.prems(4) by auto
    then have "has_tree bp (idxKey d) w' (index_after t values pk E d)"
      using kept_has_tree [OF moved_kept [OF w'(1) G]] Cons.prems(3) None roomy_has_tree by (simp add: index_after_def)
    moreover have "\<not> clash t values E d" using None by (simp add: clash_def)
    ultimately show ?thesis
      using w' None moved_mono [OF w'(1), of "idxKey ` set (d # ds)"] by (auto split: option.splits)
  next
    case (Some k)
    let ?f = "indexKey (idxName d)"
    obtain w1 where w1: "moved bp G st0 {?f} w w1"
      "if entry_lookup (E d) k \<noteq> None then insert_index fuel (idxName d) k pk w = (Inl (UniqueViolation (idxName d) k), w1)
       else insert_index fuel (idxName d) k pk w = (Inr (), w1) \<and> has_tree bp ?f w1 (ins_entry k (index_value pk) (E d))"
      using insert_index_spec [OF Cons.prems(1) _ _ fuel, of "idxName d" "E d" k pk] Cons.prems(2,3) by (auto simp: idxKey_def)
    show ?thesis
    proof (cases "entry_lookup (E d) k = None")
      case False
      then show ?thesis
        using w1 Some moved_mono [OF w1(1), of "idxKey ` set (d # ds)"]
        by (intro exI [of _ w1]) (simp add: clash_def bindG_def idxKey_def)
    next
      case True
      have "idxKey d \<notin> idxKey ` set ds" using Cons.prems(4) by simp
      then have other: "idxKey x \<noteq> ?f" if "x \<in> set ds" for x using that by (metis idxKey_def imageI)
      have p1: "work_inv bp G st0 w1" by (rule moved_inv [OF w1(1)])
      have p2: "\<forall>x\<in>set ds. ready bp G (getOrOpenIndex (idxName x)) (idxKey x) (wDB w1)"
        using Cons.prems(2) moved_ready [OF w1(1)] by auto
      have p3: "\<forall>x\<in>set ds. roomy_tree bp (idxKey x) w1 (E x)"
        using Cons.prems(3) kept_roomy_tree moved_kept [OF w1(1)] G other by (metis list.set_intros(2) singletonD)
      obtain w' where w': "moved bp G st0 (idxKey ` set ds) w1 w'"
        "case find (clash t values E) ds of
           Some d \<Rightarrow> insertIntoIndexes fuel t values pk ds w1 = (Inl (UniqueViolation (idxName d) (the (index_key_of t values d))), w')
         | None \<Rightarrow> insertIntoIndexes fuel t values pk ds w1 = (Inr (), w') \<and>
            (\<forall>d\<in>set ds. has_tree bp (idxKey d) w' (index_after t values pk E d))"
        using Cons.IH [OF p1 p2 p3] Cons.prems(4) by auto
      have "moved bp G st0 (idxKey ` set (d # ds)) w w'"
        using moved_trans [OF w1(1) w'(1)] by (simp add: idxKey_def)
      moreover have "?f \<notin> idxKey ` set ds" using other by (metis imageE)
      then have "has_tree bp (idxKey d) w' (index_after t values pk E d)"
        using kept_has_tree [OF moved_kept [OF w'(1) G [of d, unfolded idxKey_def]]] w1(2) True Some
        by (simp add: index_after_def idxKey_def)
      moreover have "\<not> clash t values E d" using Some True by (simp add: clash_def)
      moreover have "insertIntoIndexes fuel t values pk (d # ds) w = insertIntoIndexes fuel t values pk ds w1"
        using w1(2) True Some by (simp add: bindG_def)
      ultimately show ?thesis using w'(2) by (intro exI [of _ w']) (auto split: option.splits)
    qed
  qed
qed


section \<open>The row\<close>

definition trees_of :: "(string \<Rightarrow> BufPager) \<Rightarrow> Table \<Rightarrow> string \<Rightarrow> Work \<Rightarrow> Entry list \<Rightarrow> (IndexDef \<Rightarrow> Entry list) \<Rightarrow> bool" where
  "trees_of bp t name w es E \<longleftrightarrow> has_tree bp (tableKey name) w es \<and>
     (\<forall>d\<in>set (tblIndexes t). has_tree bp (idxKey d) w (E d))"

definition stmt_keys :: "Table \<Rightarrow> string \<Rightarrow> string list" where
  "stmt_keys t name = tableKey name # map idxKey (tblIndexes t)"

text \<open>The files of the table and its indexes are open, and hold trees with room.\<close>

definition stmt_ready :: "(string \<Rightarrow> BufPager) \<Rightarrow> string set \<Rightarrow> Table \<Rightarrow> string \<Rightarrow> DB \<Rightarrow> bool" where
  "stmt_ready bp G t name db \<longleftrightarrow> distinct (stmt_keys t name) \<and>
     ready bp G (getOrOpenTable name) (tableKey name) db \<and>
     (\<forall>d\<in>set (tblIndexes t). ready bp G (getOrOpenIndex (idxName d)) (idxKey d) db)"

lemma insert_row_spec:
  assumes inv: "work_inv bp G st0 w" and rd: "stmt_ready bp G t name (wDB w)"
    and table: "roomy_tree bp (tableKey name) w es" and idx: "\<forall>d\<in>set (tblIndexes t). roomy_tree bp (idxKey d) w (E d)"
    and raw: "encodeRow t values xid = Inr raw" "length raw = ValueSize" and fuel: "2 ^ 32 \<le> fuel"
  shows "\<exists>w'. moved bp G st0 (set (stmt_keys t name)) w w' \<and>
    (case find (clash t values E) (tblIndexes t) of
       Some d \<Rightarrow> insert_row fuel t name key values xid w =
          (Inl (UniqueViolation (idxName d) (the (index_key_of t values d))), w')
     | None \<Rightarrow> insert_row fuel t name key values xid w = (Inr (), w') \<and>
          trees_of bp t name w' (ins_entry key raw es) (index_after t values key E))"
proof -
  let ?f = "tableKey name"
  have G: "?f \<in> G" and dk: "distinct (map idxKey (tblIndexes t))" "?f \<notin> idxKey ` set (tblIndexes t)"
    and ri: "\<forall>d\<in>set (tblIndexes t). ready bp G (getOrOpenIndex (idxName d)) (idxKey d) (wDB w)"
    using rd by (auto simp: stmt_ready_def ready_def stmt_keys_def)
  have rt: "ready bp G (getOrOpenTable name) ?f (wDB w)" using rd by (simp add: stmt_ready_def)
  obtain w1 where w1: "txPagerForTable name w = (Inr ?f, w1)" "moved bp G st0 {} w w1" "wPagers w1 ?f \<noteq> None"
    using tx_pager_for_moved [OF inv rt] by (auto simp: txPagerForTable_def)
  obtain n u bt where u: "tree_at bp ?f w1 n u bt" "entries u = es" "n + 2 \<le> wroom bp ?f w1"
    using kept_roomy_tree [OF moved_kept [OF w1(2) G] table] by (auto simp: roomy_tree_def)
  obtain w2 where w2: "btree_Open (work_store ?f) 1 w1 = (Inr bt, w2)" "moved bp G st0 {} w1 w2"
    using tree_open [OF moved_inv [OF w1(2)] w1(3) u(1)] by blast
  note u2 = moved_tree [OF w2(2) G _ u(1)] and f2 = moved_pagers [OF w2(2) w1(3)]
  have "n + 2 \<le> wroom bp ?f w2" using u(3) moved_kept [OF w2(2) G] by (simp add: kept_def)
  from tree_insert_new [OF moved_inv [OF w2(2)] f2 u2 fuel raw(2) this, of key]
  obtain bt' w3 n' t' where w3: "btree_Insert (work_store ?f) fuel key raw (bt, w2) = (Inr (), (bt', w3))"
    "moved bp G st0 {?f} w2 w3" "tree_at bp ?f w3 n' t' bt'" "entries t' = ins_entry key raw (entries u)"
    by auto
  have m3: "moved bp G st0 {?f} w w3" using moved_trans [OF moved_trans [OF w1(2) w2(2)] w3(2)] by simp
  have t3: "has_tree bp ?f w3 (ins_entry key raw es)" using w3(3,4) u(2) by (auto simp: has_tree_def)
  have gi: "idxKey d \<in> G" "idxKey d \<notin> {?f}" if "d \<in> set (tblIndexes t)" for d
    using ri dk(2) that by (auto simp: ready_def) (metis imageI)
  have i3: "\<forall>d\<in>set (tblIndexes t). roomy_tree bp (idxKey d) w3 (E d)"
    using idx kept_roomy_tree [OF moved_kept [OF m3 gi]] by blast
  have r3: "\<forall>d\<in>set (tblIndexes t). ready bp G (getOrOpenIndex (idxName d)) (idxKey d) (wDB w3)"
    using ri moved_ready [OF m3] by blast
  obtain w4 where w4: "moved bp G st0 (idxKey ` set (tblIndexes t)) w3 w4"
    "case find (clash t values E) (tblIndexes t) of
       Some d \<Rightarrow> insertIntoIndexes fuel t values key (tblIndexes t) w3 =
          (Inl (UniqueViolation (idxName d) (the (index_key_of t values d))), w4)
     | None \<Rightarrow> insertIntoIndexes fuel t values key (tblIndexes t) w3 = (Inr (), w4) \<and>
          (\<forall>d\<in>set (tblIndexes t). has_tree bp (idxKey d) w4 (index_after t values key E d))"
    using insertIntoIndexes_spec [OF moved_inv [OF m3] r3 i3 dk(1) fuel, of t "values" key] by blast
  have run: "insert_row fuel t name key values xid w = insertIntoIndexes fuel t values key (tblIndexes t) w3"
    using w1(1) w2(1) w3(1) raw(1) by (simp add: insert_row_def bindG_def)
  have "moved bp G st0 (set (stmt_keys t name)) w w4" using moved_trans [OF m3 w4(1)] by (simp add: stmt_keys_def)
  moreover have "has_tree bp ?f w4 (ins_entry key raw es)"
    using kept_has_tree [OF moved_kept [OF w4(1) G dk(2)] t3] .
  ultimately show ?thesis
    using w4(2) unfolding run trees_of_def by (intro exI [of _ w4]) (simp split: option.splits)
qed

end
