(* ===== verification/CommitSpec.thy ===== *)
theory CommitSpec
  imports WorkTrees
begin

text \<open>
  The commit protocol without faults: the log gets the images of all dirty pages and the commit
  record, and then the page files read what the transaction saw. Rolling back leaves the page
  files as they were before the transaction.
\<close>

section \<open>Appending to the log\<close>

definition wal_ready :: "nat \<Rightarrow> WAL \<Rightarrow> bool" where
  "wal_ready k w \<longleftrightarrow> faults (wfile w) = [] \<and> unat (nextLSN w) + k < 2 ^ 64 - 1 \<and> unat (wrecords w) + k < 2 ^ 64 - 1"

lemma wal_ready_mono: "wal_ready k w \<Longrightarrow> j \<le> k \<Longrightarrow> wal_ready j w"
  by (simp add: wal_ready_def)

lemma unat_Suc_word: "unat x + 1 < 2 ^ 64 \<Longrightarrow> unat (x + 1) = unat x + 1" for x :: u64
  using unat_add_lem [of x 1, THEN iffD1] by simp

lemma append_ok:
  assumes log: "wal_log w rs" and rd: "wal_ready (Suc k) w" and r: "wf_record r" "RLSN r = nextLSN w" "RXID r < x" "nextXID w \<le> x"
  shows "\<exists>w'. appendLocked r (w\<lparr>nextLSN := nextLSN w + 1, nextXID := x\<rparr>) = (Inr (), w') \<and> wal_log w' (rs @ [r]) \<and>
    wal_ready k w' \<and> nextXID w' = x"
proof -
  have lsn: "nextLSN w < - 1"
    using rd by (simp add: wal_ready_def word_less_nat_alt unsigned_minus_1_eq_mask mask_eq_exp_minus_1)
  have "unat (wrecords w) = length rs" using log by (simp add: wal_log_def unat_u64_of_nat)
  then have len: "length rs + 1 < 2 ^ 64" using rd by (simp add: wal_ready_def)
  obtain res w' where run: "appendLocked r (w\<lparr>nextLSN := nextLSN w + 1, nextXID := x\<rparr>) = (res, w')" by fastforce
  have res: "res = Inr ()" "faults (wfile w') = []" "wrecords w' = wrecords w + 1" "nextLSN w' = nextLSN w + 1"
    using run rd by (auto simp: appendLocked_def WriteAt_def wal_ready_def)
  have "unat (nextLSN w + 1) = unat (nextLSN w) + 1" "unat (wrecords w + 1) = unat (wrecords w) + 1"
    using rd by (simp_all add: wal_ready_def unat_Suc_word)
  then have "wal_ready k w'" using res rd by (simp add: wal_ready_def)
  then show ?thesis using append_log [OF log r lsn len run] run res(1) by simp
qed


lemma mark_record_fields [simp]: "RLSN (mark_record l x ty) = l" "RXID (mark_record l x ty) = x" "RType (mark_record l x ty) = ty"
  by (simp_all add: mark_record_def)

lemma AllocXID_ok:
  assumes "wal_log w rs" and "wal_ready (Suc k) w" and "nextXID w < - 1"
  shows "\<exists>w'. AllocXID w = (Inr (nextXID w), w') \<and> wal_log w' (rs @ [mark_record (nextLSN w) (nextXID w) RecordBegin]) \<and>
    wal_ready k w' \<and> nextXID w' = nextXID w + 1"
proof -
  have x: "nextXID w < nextXID w + 1" "nextXID w \<le> nextXID w + 1" using word_less_plus_1 [OF assms(3)] by auto
  have r: "RLSN (mark_record (nextLSN w) (nextXID w) RecordBegin) = nextLSN w"
    "RXID (mark_record (nextLSN w) (nextXID w) RecordBegin) < nextXID w + 1"
    using x by (simp_all add: mark_record_def)
  obtain w' where "appendLocked (mark_record (nextLSN w) (nextXID w) RecordBegin)
      (w\<lparr>nextLSN := nextLSN w + 1, nextXID := nextXID w + 1\<rparr>) = (Inr (), w')"
    "wal_log w' (rs @ [mark_record (nextLSN w) (nextXID w) RecordBegin])" "wal_ready k w'" "nextXID w' = nextXID w + 1"
    using append_ok [OF assms(1,2) wf_mark_record r x(2)] by blast
  moreover have eq: "w\<lparr>nextXID := nextXID w + 1, nextLSN := nextLSN w + 1\<rparr> = w\<lparr>nextLSN := nextLSN w + 1, nextXID := nextXID w + 1\<rparr>"
    by simp
  ultimately show ?thesis by (simp add: AllocXID_def allocLSN_def bindG_def Let_def eq)
qed

lemma append_xid_ok:
  assumes "wal_log w rs" and "wal_ready (Suc k) w" and "wf_record r" and "RLSN r = nextLSN w" and "RXID r < nextXID w"
  shows "\<exists>w'. appendLocked r (w\<lparr>nextLSN := nextLSN w + 1\<rparr>) = (Inr (), w') \<and> wal_log w' (rs @ [r]) \<and>
    wal_ready k w' \<and> nextXID w' = nextXID w"
  using append_ok [OF assms(1-4), where x = "nextXID w"] assms(5) by simp

lemma AppendCommit_ok:
  assumes "wal_log w rs" and "wal_ready (Suc k) w" and "xid < nextXID w"
  shows "\<exists>w'. AppendCommit xid w = (Inr (), w') \<and> wal_log w' (rs @ [mark_record (nextLSN w) xid RecordCommit]) \<and>
    wal_ready k w' \<and> nextXID w' = nextXID w"
  using append_xid_ok [OF assms(1,2) wf_mark_record [of "nextLSN w" xid RecordCommit]] assms(3)
  by (simp add: AppendCommit_def allocLSN_def)

lemma AppendRollback_ok:
  assumes "wal_log w rs" and "wal_ready (Suc k) w" and "xid < nextXID w"
  shows "\<exists>w'. AppendRollback xid w = (Inr (), w') \<and> wal_log w' (rs @ [mark_record (nextLSN w) xid RecordRollback]) \<and>
    wal_ready k w' \<and> nextXID w' = nextXID w"
  using append_xid_ok [OF assms(1,2) wf_mark_record [of "nextLSN w" xid RecordRollback]] assms(3)
  by (simp add: AppendRollback_def allocLSN_def)

text \<open>The record of a page image, but for its LSN.\<close>

definition write_of :: "u32 \<Rightarrow> string \<Rightarrow> Page \<Rightarrow> WalRecord \<Rightarrow> bool" where
  "write_of xid fname p r \<longleftrightarrow> RXID r = xid \<and> RType r = RecordWrite \<and> TableName r = fname \<and> RPageID r = page_id p \<and>
     PageData r = Encode p"

definition good_name :: "string \<Rightarrow> bool" where
  "good_name fname \<longleftrightarrow> length fname \<le> tableNameSize \<and> (fname = [] \<or> last fname \<noteq> CHR 0x00)"

lemma log_pages_ok:
  assumes "wal_log w rs" and "wal_ready (length ps + k) w" and "xid < nextXID w" and "\<forall>p\<in>set ps. wf_page p" and name: "good_name fname"
  shows "\<exists>w' ws. log_pages xid fname ps w = (Inr (), w') \<and> wal_log w' (rs @ ws) \<and> wal_ready k w' \<and> nextXID w' = nextXID w \<and>
    list_all2 (write_of xid fname) ps ws"
  using assms(1-4)
proof (induction ps arbitrary: w rs)
  case Nil
  then show ?case by (auto simp: returnG_def)
next
  case (Cons p ps)
  let ?r = "\<lparr>RLSN = nextLSN w, RXID = xid, RType = RecordWrite, TableName = fname, RPageID = page_id p, PageData = Encode p\<rparr>"
  have wf: "wf_record ?r" using Cons.prems(4) name by (simp add: wf_record_def good_name_def)
  obtain w1 where w1: "appendLocked ?r (w\<lparr>nextLSN := nextLSN w + 1\<rparr>) = (Inr (), w1)" "wal_log w1 (rs @ [?r])"
    "wal_ready (length ps + k) w1" "nextXID w1 = nextXID w"
    using append_xid_ok [OF Cons.prems(1) _ wf, of "length ps + k"] Cons.prems(2,3) by auto
  obtain w' ws where w': "log_pages xid fname ps w1 = (Inr (), w')" "wal_log w' ((rs @ [?r]) @ ws)" "wal_ready k w'"
    "nextXID w' = nextXID w1" "list_all2 (write_of xid fname) ps ws"
    using Cons.IH [OF w1(2,3)] Cons.prems(3,4) w1(4) by auto
  have "log_pages xid fname (p # ps) w = (Inr (), w')"
    using w1(1) w'(1) by (simp add: AppendWrite_def allocLSN_def bindG_def)
  then show ?case using w' w1(4) by (intro exI [of _ w'] exI [of _ "?r # ws"]) (simp add: write_of_def [of _ _ p])
qed


text \<open>The images that a commit logs: those of the dirty pages of each transaction pager.\<close>

definition dirty_pages :: "(u32 \<rightharpoonup> Page) \<Rightarrow> u32 list \<Rightarrow> Page list" where
  "dirty_pages m is' = map (\<lambda>i. the (m i)) is'"

definition orders_ok :: "MapOrder \<Rightarrow> bool" where
  "orders_ok ord \<longleftrightarrow>
     (\<forall>m. finite (dom m) \<longrightarrow> distinct (keysLog ord m) \<and> set (keysLog ord m) = dom m) \<and>
     (\<forall>m. finite (dom m) \<longrightarrow> distinct (keysFlush ord m) \<and> set (keysFlush ord m) = dom m) \<and>
     (\<forall>m. finite (dom m) \<longrightarrow> distinct (keysUndo ord m) \<and> set (keysUndo ord m) = dom m) \<and>
     (\<forall>m. distinct (pagesLog ord m) \<and> set (pagesLog ord m) = dom m) \<and>
     (\<forall>m. distinct (pagesFlush ord m) \<and> set (pagesFlush ord m) = dom m)"

definition log_size :: "MapOrder \<Rightarrow> (string \<rightharpoonup> TxBuf) \<Rightarrow> string list \<Rightarrow> nat" where
  "log_size ord m ks = sum_list (map (\<lambda>k. length (pagesLog ord (tbDirty (the (m k))))) ks)"

text \<open>\<open>logs ord xid m ks ws\<close>: the records \<open>ws\<close> are the page images of the pagers \<open>ks\<close>.\<close>

fun logs :: "MapOrder \<Rightarrow> u32 \<Rightarrow> (string \<rightharpoonup> TxBuf) \<Rightarrow> string list \<Rightarrow> WalRecord list \<Rightarrow> bool" where
  "logs ord xid m [] ws \<longleftrightarrow> ws = []"
| "logs ord xid m (k # ks) ws \<longleftrightarrow>
     (\<exists>us vs. ws = us @ vs \<and> logs ord xid m ks vs \<and>
        list_all2 (write_of xid (key_file k)) (dirty_pages (tbDirty (the (m k))) (pagesLog ord (tbDirty (the (m k))))) us)"

lemma log_pagers_ok:
  assumes "wal_log w rs" and "wal_ready (log_size ord m ks + k) w" and "xid < nextXID w" and "set ks \<subseteq> dom m" and ord: "orders_ok ord"
    and "\<forall>key b i p. m key = Some b \<longrightarrow> tbDirty b i = Some p \<longrightarrow> wf_page p" and "\<forall>key\<in>set ks. good_name (key_file key)"
  shows "\<exists>w' ws. log_pagers ord xid m ks w = (Inr (), w') \<and> wal_log w' (rs @ ws) \<and> wal_ready k w' \<and> nextXID w' = nextXID w \<and>
    logs ord xid m ks ws"
  using assms(1-4,6,7)
proof (induction ks arbitrary: w rs)
  case Nil
  then show ?case by (auto simp: returnG_def log_size_def)
next
  case (Cons key ks)
  then obtain b where b: "m key = Some b" by auto
  let ?ps = "dirty_pages (tbDirty b) (pagesLog ord (tbDirty b))"
  have "i \<in> dom (tbDirty b)" if "i \<in> set (pagesLog ord (tbDirty b))" for i
    using that ord by (auto simp: orders_ok_def)
  then have wf: "\<forall>p\<in>set ?ps. wf_page p" using Cons.prems(5) b by (fastforce simp: dirty_pages_def)
  have size: "wal_ready (length ?ps + (log_size ord m ks + k)) w"
    using Cons.prems(2) b by (simp add: log_size_def dirty_pages_def add.assoc)
  have name: "good_name (key_file key)" using Cons.prems(6) by simp
  obtain w1 us where w1: "log_pages xid (key_file key) ?ps w = (Inr (), w1)" "wal_log w1 (rs @ us)"
    "wal_ready (log_size ord m ks + k) w1" "nextXID w1 = nextXID w" "list_all2 (write_of xid (key_file key)) ?ps us"
    using log_pages_ok [OF Cons.prems(1) size Cons.prems(3) wf name] by blast
  obtain w' vs where w': "log_pagers ord xid m ks w1 = (Inr (), w')" "wal_log w' ((rs @ us) @ vs)" "wal_ready k w'"
    "nextXID w' = nextXID w1" "logs ord xid m ks vs"
    using Cons.IH [OF w1(2,3)] Cons.prems(3-6) w1(4) by auto
  have "log_pagers ord xid m (key # ks) w = (Inr (), w')"
    using w1(1) w'(1) b by (simp add: bindG_def dirty_pages_def)
  then show ?case using w' w1(4,5) b by (intro exI [of _ w'] exI [of _ "us @ vs"]) auto
qed

section \<open>Flushing\<close>

definition flush_inv :: "(string \<Rightarrow> BufPager) \<Rightarrow> string set \<Rightarrow> Work \<Rightarrow> bool" where
  "flush_inv bp G w \<longleftrightarrow> pool_files_ok bp G (dbBuf (wDB w)) \<and>
     (\<forall>k b. wPagers w k = Some b \<longrightarrow> k \<in> G \<and> tbPager b = bp k \<and>
        txp_inv (buf_ok (bp k)) (buf_live (bp k)) (tx_view (dbBuf (wDB w)) b))"

lemma work_inv_flush:
  assumes "work_inv bp G st0 w"
  shows "flush_inv bp G w"
proof -
  have "pool_files_ok bp G (dbBuf (wDB w))" using assms by (simp add: work_inv_def)
  then show ?thesis using work_inv_tx [OF assms] unfolding flush_inv_def by blast
qed

lemma write_pages_frame:
  "write_pages (buf_store bp) ps st = (r, st') \<Longrightarrow>
   files (pool st') = files (pool st) \<and> (\<forall>a. a \<noteq> bpg bp \<longrightarrow> pagers st' a = pagers st a)"
proof (induction ps arbitrary: st)
  case (Cons p ps)
  obtain r1 st1 where w: "buf_WritePage bp p st = (r1, st1)" by fastforce
  note f = buf_WritePage_frame [OF w]
  show ?case
  proof (cases r1)
    case (Inl e)
    then show ?thesis using Cons.prems w f by (simp add: bindG_def)
  next
    case (Inr u)
    then show ?thesis using Cons.prems w f Cons.IH [of st1] by (simp add: bindG_def)
  qed
qed simp

lemma flush_step:
  assumes inv: "flush_inv bp G w" and b: "wPagers w f = Some b" and ord: "orders_ok ord"
  shows "\<exists>w' b'. tx_run f (\<lambda>bp tp. txp_Flush (buf_store bp) (pagesFlush ord (dirty tp)) tp) w = (Inr (), w') \<and>
    flush_inv bp G w' \<and> same_rest w w' \<and> (\<forall>g\<in>G. wlive bp g w' = wlive bp g w \<and> (\<forall>j\<in>wlive bp g w. wview bp g w' j = wview bp g w j)) \<and>
    wPagers w' = (wPagers w)(f \<mapsto> b') \<and> tbDirty b' = Map.empty"
proof -
  let ?st = "dbBuf (wDB w)" and ?t = "tx_view (dbBuf (wDB w)) b"
  have t: "f \<in> G" "tbPager b = bp f" "txp_inv (buf_ok (bp f)) (buf_live (bp f)) ?t" and pf: "pool_files_ok bp G ?st"
    using inv b by (auto simp: flush_inv_def)
  have "distinct (pagesFlush ord (dirty ?t))" "set (pagesFlush ord (dirty ?t)) = dom (dirty ?t)"
    using ord by (simp_all add: orders_ok_def)
  from buf.flush_view [OF t(3) this] obtain tp where tp:
    "txp_Flush (buf_store (bp f)) (pagesFlush ord (dirty ?t)) ?t = (Inr (), tp)" "buf_ok (bp f) (txbase tp)"
    "buf_live (bp f) (txbase tp) = buf_live (bp f) ?st" "dirty tp = Map.empty" "allocated tp = []"
    "\<forall>j\<in>buf_live (bp f) ?st. buf_view (bp f) (txbase tp) j = txp_view (buf_view (bp f)) ?t j"
    by (auto simp: tx_view_def)
  let ?b = "b\<lparr>tbDirty := Map.empty, tbAlloc := []\<rparr>"
  let ?w = "w\<lparr>wDB := (wDB w)\<lparr>dbBuf := txbase tp\<rparr>, wPagers := (wPagers w)(f \<mapsto> ?b)\<rparr>"
  have run: "tx_run f (\<lambda>bp tp. txp_Flush (buf_store bp) (pagesFlush ord (dirty tp)) tp) w = (Inr (), ?w)"
    using tp(1,4,5) b t(2) by (simp add: tx_run_def)
  obtain r0 st' where wp: "write_pages (buf_store (bp f)) (txp_DirtyPages (pagesFlush ord (dirty ?t)) ?t) ?st = (r0, st')" by fastforce
  then have "txbase tp = st'" using tp(1) by (auto simp: txp_Flush_def tx_view_def split: sum.splits)
  then have fr: "files (pool (txbase tp)) = files (pool ?st)" "\<And>a. a \<noteq> bpg (bp f) \<Longrightarrow> pagers (txbase tp) a = pagers ?st a"
    using write_pages_frame [OF wp] by auto
  have pf': "pool_files_ok bp G (txbase tp)" by (rule pool_files_ok_step [OF pf tp(2) fr(1)])
  have same: "pagers (txbase tp) (bpg (bp k)) = pagers ?st (bpg (bp k))" if "k \<in> G" "k \<noteq> f" for k
    using fr(2) other_pager [OF pf t(1) that] by blast
  have "txp_inv (buf_ok (bp k)) (buf_live (bp k)) (tx_view (txbase tp) c)" if c: "wPagers ?w k = Some c" for k c
  proof (cases "k = f")
    case True
    then show ?thesis using c tp(2) by (auto simp: txp_inv_def tx_view_def)
  next
    case False
    then have "k \<in> G" "txp_inv (buf_ok (bp k)) (buf_live (bp k)) (tx_view ?st c)" using inv c by (auto simp: flush_inv_def)
    then show ?thesis
      using pager_same(1) [of _ bp k, OF same [OF _ False]] pool_files_buf_ok [OF pf'] by (auto simp: txp_inv_def tx_view_def)
  qed
  then have "flush_inv bp G ?w" using inv pf' t by (auto simp: flush_inv_def split: if_splits)
  moreover have "wlive bp g ?w = wlive bp g w \<and> (\<forall>j\<in>wlive bp g w. wview bp g ?w j = wview bp g w j)" if g: "g \<in> G" for g
  proof (cases "g = f")
    case True
    then show ?thesis using tp(3,6) b by (simp add: wlive_def wview_def txp_view_def tx_view_def)
  next
    case False
    then show ?thesis using pager_same [of _ bp g, OF same [OF g False]]
      by (simp add: wlive_def wview_def txp_view_def tx_view_def split: option.split)
  qed
  ultimately show ?thesis
    using run by (intro exI [of _ ?w] exI [of _ ?b]) (simp add: same_rest_def)
qed

lemma flush_pagers_ok:
  assumes "flush_inv bp G w" and "set ks \<subseteq> dom (wPagers w)" and ord: "orders_ok ord"
  shows "\<exists>w'. flush_pagers ord ks w = (Inr (), w') \<and> flush_inv bp G w' \<and> same_rest w w' \<and> dom (wPagers w') = dom (wPagers w) \<and>
    (\<forall>g\<in>G. wlive bp g w' = wlive bp g w \<and> (\<forall>j\<in>wlive bp g w. wview bp g w' j = wview bp g w j)) \<and>
    (\<forall>k b. k \<in> set ks \<longrightarrow> wPagers w' k = Some b \<longrightarrow> tbDirty b = Map.empty)"
proof -
  have "\<exists>w'. flush_pagers ord ks w = (Inr (), w') \<and> flush_inv bp G w' \<and> same_rest w w' \<and> dom (wPagers w') = dom (wPagers w) \<and>
    (\<forall>g\<in>G. wlive bp g w' = wlive bp g w \<and> (\<forall>j\<in>wlive bp g w. wview bp g w' j = wview bp g w j)) \<and>
    (\<forall>k b. k \<in> set ks \<union> K \<longrightarrow> wPagers w' k = Some b \<longrightarrow> tbDirty b = Map.empty)"
    if "\<forall>k b. k \<in> K \<longrightarrow> wPagers w k = Some b \<longrightarrow> tbDirty b = Map.empty" for K
    using assms(1,2) that
  proof (induction ks arbitrary: w K)
    case Nil
    then show ?case by (auto simp: returnG_def)
  next
    case (Cons f ks)
    then obtain b where b: "wPagers w f = Some b" by auto
    obtain w1 b1 where w1: "tx_run f (\<lambda>bp tp. txp_Flush (buf_store bp) (pagesFlush ord (dirty tp)) tp) w = (Inr (), w1)"
      "flush_inv bp G w1" "same_rest w w1"
      "\<forall>g\<in>G. wlive bp g w1 = wlive bp g w \<and> (\<forall>j\<in>wlive bp g w. wview bp g w1 j = wview bp g w j)"
      "wPagers w1 = (wPagers w)(f \<mapsto> b1)" "tbDirty b1 = Map.empty"
      using flush_step [OF Cons.prems(1) b ord] by blast
    have d: "dom (wPagers w1) = dom (wPagers w)" "set ks \<subseteq> dom (wPagers w1)" using w1(5) b Cons.prems(2) by auto
    have K: "\<forall>k b. k \<in> insert f K \<longrightarrow> wPagers w1 k = Some b \<longrightarrow> tbDirty b = Map.empty"
      using Cons.prems(3) w1(5,6) by auto
    obtain w' where w': "flush_pagers ord ks w1 = (Inr (), w')" "flush_inv bp G w'" "same_rest w1 w'" "dom (wPagers w') = dom (wPagers w1)"
      "\<forall>g\<in>G. wlive bp g w' = wlive bp g w1 \<and> (\<forall>j\<in>wlive bp g w1. wview bp g w' j = wview bp g w1 j)"
      "\<forall>k b. k \<in> set ks \<union> insert f K \<longrightarrow> wPagers w' k = Some b \<longrightarrow> tbDirty b = Map.empty"
      using Cons.IH [OF w1(2) d(2) K] by blast
    have "flush_pagers ord (f # ks) w = (Inr (), w')" using w1(1) w'(1) by (simp add: bindG_def)
    then show ?case using w'(2,4,5,6) w1(4) d(1) same_rest_trans [OF w1(3) w'(3)] by (intro exI [of _ w']) auto
  qed
  from this [of "{}"] show ?thesis by simp
qed


section \<open>Committing\<close>

definition names_ok :: "string set \<Rightarrow> bool" where
  "names_ok G \<longleftrightarrow> (\<forall>k\<in>G. good_name (key_file k))"

lemma length_u32_list: "distinct xs \<Longrightarrow> length xs \<le> 2 ^ 32" for xs :: "u32 list"
  using distinct_card [of xs] card_mono [of "UNIV :: u32 set" "set xs"] by (simp add: card_word)

lemma log_size_bound:
  assumes "orders_ok ord" and "finite G" and "set ks \<subseteq> G" and "distinct ks"
  shows "log_size ord m ks \<le> card G * 2 ^ 32"
proof -
  have "log_size ord m ks \<le> sum_list (map (\<lambda>_. 2 ^ 32) ks)"
    unfolding log_size_def using assms(1) by (intro sum_list_mono length_u32_list) (simp add: orders_ok_def)
  also have "\<dots> = length ks * 2 ^ 32" by (simp add: sum_list_triv)
  also have "\<dots> \<le> card G * 2 ^ 32" using assms(2-4) card_mono [of G "set ks"] distinct_card [of ks] by simp
  finally show ?thesis .
qed

text \<open>What the page files hold.\<close>

definition file_is :: "(string \<Rightarrow> BufPager) \<Rightarrow> string set \<Rightarrow> Work \<Rightarrow> BufState \<Rightarrow> bool" where
  "file_is bp G w st \<longleftrightarrow> pool_files_ok bp G st \<and>
     (\<forall>g\<in>G. buf_live (bp g) st = wlive bp g w \<and> (\<forall>j\<in>wlive bp g w. buf_view (bp g) st j = wview bp g w j))"

lemma commitTx_ok:
  assumes inv: "work_inv bp G st0 w" and fin: "finite G" and ord: "orders_ok ord" and names: "names_ok G"
    and log: "wal_log (dbWal (wDB w)) rs" "wal_ready (card G * 2 ^ 32 + Suc k) (dbWal (wDB w))" "xid < nextXID (dbWal (wDB w))"
  shows "\<exists>w' ws lsn. commitTx ord xid w = (Inr (), w') \<and> file_is bp G w (dbBuf (wDB w')) \<and>
    wal_log (dbWal (wDB w')) (rs @ ws @ [mark_record lsn xid RecordCommit]) \<and>
    logs ord xid (wPagers w) (keysLog ord (wPagers w)) ws \<and> wal_ready k (dbWal (wDB w')) \<and>
    nextXID (dbWal (wDB w')) = nextXID (dbWal (wDB w)) \<and>
    wDB w' = (wDB w)\<lparr>dbBuf := dbBuf (wDB w'), dbWal := dbWal (wDB w')\<rparr>"
proof -
  let ?m = "wPagers w" and ?wal = "dbWal (wDB w)"
  have dom: "dom ?m \<subseteq> G" "finite (dom ?m)" using inv fin by (auto simp: work_inv_def dom_def intro: finite_subset)
  then have kl: "distinct (keysLog ord ?m)" "set (keysLog ord ?m) = dom ?m" and kf: "set (keysFlush ord ?m) = dom ?m"
    using ord by (simp_all add: orders_ok_def)
  have "log_size ord ?m (keysLog ord ?m) \<le> card G * 2 ^ 32" using log_size_bound [OF ord fin _ kl(1)] kl(2) dom(1) by blast
  then have rdy: "wal_ready (log_size ord ?m (keysLog ord ?m) + Suc k) ?wal" using log(2) by (rule_tac wal_ready_mono) auto
  have wf: "\<forall>key b i p. ?m key = Some b \<longrightarrow> tbDirty b i = Some p \<longrightarrow> wf_page p"
    using work_inv_tx [OF inv] by (fastforce simp: txp_inv_def tx_view_def)
  have gn: "\<forall>key\<in>set (keysLog ord ?m). good_name (key_file key)" using names kl(2) dom(1) by (auto simp: names_ok_def)
  obtain wal1 ws where l1: "log_pagers ord xid ?m (keysLog ord ?m) ?wal = (Inr (), wal1)" "wal_log wal1 (rs @ ws)"
    "wal_ready (Suc k) wal1" "nextXID wal1 = nextXID ?wal" "logs ord xid ?m (keysLog ord ?m) ws"
    using log_pagers_ok [OF log(1) rdy log(3) _ ord wf gn] kl(2) by auto
  obtain wal2 where l2: "AppendCommit xid wal1 = (Inr (), wal2)"
    "wal_log wal2 ((rs @ ws) @ [mark_record (nextLSN wal1) xid RecordCommit])" "wal_ready k wal2" "nextXID wal2 = nextXID wal1"
    using AppendCommit_ok [OF l1(2,3)] log(3) l1(4) by auto
  let ?w2 = "w\<lparr>wDB := (wDB w)\<lparr>dbWal := wal2\<rparr>\<rparr>"
  have inv2: "flush_inv bp G ?w2" using work_inv_flush [OF inv] by (simp add: flush_inv_def)
  have k2: "set (keysFlush ord ?m) \<subseteq> dom (wPagers ?w2)" using kf by simp
  obtain w' where w': "flush_pagers ord (keysFlush ord ?m) ?w2 = (Inr (), w')" "flush_inv bp G w'" "same_rest ?w2 w'"
    "dom (wPagers w') = dom (wPagers ?w2)"
    "\<forall>g\<in>G. wlive bp g w' = wlive bp g ?w2 \<and> (\<forall>j\<in>wlive bp g ?w2. wview bp g w' j = wview bp g ?w2 j)"
    "\<forall>k b. k \<in> set (keysFlush ord ?m) \<longrightarrow> wPagers w' k = Some b \<longrightarrow> tbDirty b = Map.empty"
    using flush_pagers_ok [OF inv2 k2 ord] by blast
  have same: "wlive bp g ?w2 = wlive bp g w" "wview bp g ?w2 = wview bp g w" for g
    by (simp_all add: wlive_def wview_def split: option.split)
  have "wview bp g w' = buf_view (bp g) (dbBuf (wDB w'))" for g
  proof (cases "wPagers w' g")
    case (Some b)
    then have "tbDirty b = Map.empty" using w'(4,6) kf by (metis domI Work.select_convs(2) Work.surjective Work.update_convs(1))
    then show ?thesis using Some by (simp add: wview_def txp_view_def tx_view_def fun_eq_iff)
  qed (simp add: wview_def)
  then have "file_is bp G w (dbBuf (wDB w'))"
    using w'(2,5) same by (simp add: file_is_def flush_inv_def wlive_def)
  moreover have eq: "wDB w' = (wDB w)\<lparr>dbWal := wal2, dbBuf := dbBuf (wDB w')\<rparr>" using w'(3) by (simp only: same_rest_def) simp
  then have "dbWal (wDB w') = wal2" by (metis DB.select_convs(2) DB.surjective DB.update_convs(2,3))
  moreover have "commitTx ord xid w = (Inr (), w')"
    using l1(1) l2(1) w'(1) by (simp add: commitTx_def bindG_def on_db_def on_wal_def)
  moreover have eq2: "(wDB w)\<lparr>dbBuf := dbBuf (wDB w'), dbWal := wal2\<rparr> = wDB w'" by (subst (2) eq) simp
  ultimately show ?thesis using l1 l2 by (intro exI [of _ w'] exI [of _ ws] exI [of _ "nextLSN wal1"]) (auto simp: eq2)
qed

end
