(* ===== verification/RollbackSpec.thy ===== *)
theory RollbackSpec
  imports CommitSpec
begin

text \<open>
  Rolling back: the pages in use before the transaction are in use again with their old data,
  in every file, whether or not the pages that the transaction had allocated could be freed.
\<close>

definition base_keeps :: "BufPager \<Rightarrow> BufState \<Rightarrow> BufState \<Rightarrow> bool" where
  "base_keeps bp st0 st \<longleftrightarrow> buf_live bp st0 \<subseteq> buf_live bp st \<and> (\<forall>j\<in>buf_live bp st0. buf_view bp st j = buf_view bp st0 j)"

definition files_keep :: "(string \<Rightarrow> BufPager) \<Rightarrow> string set \<Rightarrow> BufState \<Rightarrow> BufState \<Rightarrow> bool" where
  "files_keep bp G st0 st \<longleftrightarrow> pool_files_ok bp G st \<and> (\<forall>g\<in>G. base_keeps (bp g) st0 st)"

lemma same_file_keeps: "same_file bp st0 st \<Longrightarrow> base_keeps bp st0 st"
  by (simp add: same_file_def base_keeps_def)

lemma base_keeps_same: "base_keeps bp st0 st \<Longrightarrow> pagers st' (bpg bp) = pagers st (bpg bp) \<Longrightarrow> base_keeps bp st0 st'"
  using pager_same [of st' "\<lambda>_. bp" "()" st] by (simp add: base_keeps_def)

lemma buf_FreePage_frame:
  "buf_FreePage bp i st = (r, st') \<Longrightarrow> files (pool st') = files (pool st) \<and> (\<forall>a. a \<noteq> bpg bp \<longrightarrow> pagers st' a = pagers st a)"
  by (auto simp: buf_FreePage_def EvictPage_def split: prod.splits option.split)

lemma free_pages_others:
  "free_pages (buf_store bp) is' st = (r, st') \<Longrightarrow>
   files (pool st') = files (pool st) \<and> (\<forall>a. a \<noteq> bpg bp \<longrightarrow> pagers st' a = pagers st a)"
proof (induction is' arbitrary: st)
  case (Cons i is')
  obtain r1 st1 where f: "buf_FreePage bp i st = (r1, st1)" by fastforce
  show ?case
  proof (cases r1)
    case (Inl e)
    then show ?thesis using Cons.prems f buf_FreePage_frame [OF f] by (simp add: bindG_def)
  next
    case (Inr u)
    then show ?thesis using Cons.prems f buf_FreePage_frame [OF f] Cons.IH [of st1] by (simp add: bindG_def)
  qed
qed simp

text \<open>In the middle of the loop: the pagers of \<open>K\<close> are still to be rolled back.\<close>

definition undo_inv :: "(string \<Rightarrow> BufPager) \<Rightarrow> string set \<Rightarrow> BufState \<Rightarrow> string set \<Rightarrow> Work \<Rightarrow> bool" where
  "undo_inv bp G st0 K w \<longleftrightarrow> pool_files_ok bp G (dbBuf (wDB w)) \<and> K \<subseteq> G \<and>
     (\<forall>k\<in>K. \<exists>b. wPagers w k = Some b \<and> tbPager b = bp k \<and> tx_frame (bp k) st0 (dbBuf (wDB w)) b) \<and>
     (\<forall>k\<in>G - K. base_keeps (bp k) st0 (dbBuf (wDB w)))"

lemma undo_step:
  assumes inv: "undo_inv bp G st0 K w" and f: "f \<in> K"
  shows "undo_inv bp G st0 (K - {f}) (undo_pager f w) \<and> same_rest w (undo_pager f w)"
proof -
  let ?st = "dbBuf (wDB w)"
  obtain b where b: "wPagers w f = Some b" "tbPager b = bp f" "tx_frame (bp f) st0 ?st b" using inv f unfolding undo_inv_def by blast
  have G: "f \<in> G" and pf: "pool_files_ok bp G ?st" using inv f by (auto simp: undo_inv_def)
  obtain r tp where run: "txp_Rollback (buf_store (bp f)) (tx_view ?st b) = (r, tp)" by fastforce
  let ?b = "b\<lparr>tbDirty := dirty tp, tbAlloc := allocated tp\<rparr>"
  let ?w = "w\<lparr>wDB := (wDB w)\<lparr>dbBuf := txbase tp\<rparr>, wPagers := (wPagers w)(f \<mapsto> ?b)\<rparr>"
  have w: "undo_pager f w = ?w" using run b by (simp add: undo_pager_def tx_run_def)
  have rb: "buf_ok (bp f) (txbase tp)" "base_keeps (bp f) st0 (txbase tp)"
    using buf.rollback_frame [OF b(3) [unfolded tx_frame_def] run] by (simp_all add: base_keeps_def)
  obtain r1 st1 where fp: "free_pages (buf_store (bp f)) (tbAlloc b) ?st = (r1, st1)" by fastforce
  then have "txbase tp = st1" using run by (auto simp: txp_Rollback_def tx_view_def Let_def split: sum.splits)
  then have fr: "files (pool (txbase tp)) = files (pool ?st)" "\<And>a. a \<noteq> bpg (bp f) \<Longrightarrow> pagers (txbase tp) a = pagers ?st a"
    using free_pages_others [OF fp] by auto
  have pf': "pool_files_ok bp G (txbase tp)" by (rule pool_files_ok_step [OF pf rb(1) fr(1)])
  have same: "pagers (txbase tp) (bpg (bp k)) = pagers ?st (bpg (bp k))" if "k \<in> G" "k \<noteq> f" for k
    using fr(2) other_pager [OF pf G that] by blast
  have "\<exists>c. wPagers ?w k = Some c \<and> tbPager c = bp k \<and> tx_frame (bp k) st0 (txbase tp) c" if k: "k \<in> K - {f}" for k
  proof -
    have kG: "k \<in> G" "k \<noteq> f" using inv k by (auto simp: undo_inv_def)
    obtain c where c: "wPagers w k = Some c" "tbPager c = bp k" "tx_frame (bp k) st0 ?st c"
      using inv k unfolding undo_inv_def by blast
    then show ?thesis using tx_frame_same [OF c(3) pool_files_buf_ok [OF pf' kG(1)] same [OF kG]] kG(2) by auto
  qed
  moreover have "base_keeps (bp k) st0 (txbase tp)" if k: "k \<in> G - (K - {f})" for k
  proof (cases "k = f")
    case False
    then have "base_keeps (bp k) st0 ?st" using inv k unfolding undo_inv_def by blast
    then show ?thesis using base_keeps_same same k False by blast
  qed (simp add: rb(2))
  ultimately show ?thesis using inv pf' unfolding w by (auto simp: undo_inv_def same_rest_def)
qed

lemma undo_loop:
  "undo_inv bp G st0 (set ks) w \<Longrightarrow> distinct ks \<Longrightarrow>
   undo_inv bp G st0 {} (foldl (\<lambda>w key. undo_pager key w) w ks) \<and> same_rest w (foldl (\<lambda>w key. undo_pager key w) w ks)"
proof (induction ks arbitrary: w)
  case (Cons k ks)
  have s: "undo_inv bp G st0 (set ks) (undo_pager k w)" "same_rest w (undo_pager k w)"
    using undo_step [OF Cons.prems(1), of k] Cons.prems(2) by (simp_all add: insert_Diff_if)
  then show ?case using Cons.IH [OF s(1)] Cons.prems(2) same_rest_trans by auto
qed simp

lemma work_inv_undo:
  assumes "work_inv bp G st0 w"
  shows "undo_inv bp G st0 (dom (wPagers w)) w"
  using assms same_file_keeps unfolding work_inv_def undo_inv_def by (auto simp: dom_def)

lemma rollback_pagers_ok:
  assumes inv: "work_inv bp G st0 w" and fin: "finite G" and ord: "orders_ok ord"
  shows "files_keep bp G st0 (dbBuf (wDB (rollback_pagers ord w))) \<and> same_rest w (rollback_pagers ord w)"
proof -
  have "finite (dom (wPagers w))" using inv fin by (auto simp: work_inv_def dom_def intro: finite_subset)
  then have k: "distinct (keysUndo ord (wPagers w))" "set (keysUndo ord (wPagers w)) = dom (wPagers w)"
    using ord by (simp_all add: orders_ok_def)
  from undo_loop [OF work_inv_undo [OF inv, folded k(2)] k(1)] show ?thesis
    by (simp add: rollback_pagers_def files_keep_def undo_inv_def)
qed

lemma rollbackTx_ok:
  assumes inv: "work_inv bp G st0 w" and fin: "finite G" and ord: "orders_ok ord"
    and log: "wal_log (dbWal (wDB w)) rs" "wal_ready (Suc k) (dbWal (wDB w))" "xid < nextXID (dbWal (wDB w))"
  shows "\<exists>w'. rollbackTx ord xid w = (Inr (), w') \<and> files_keep bp G st0 (dbBuf (wDB w')) \<and>
    wal_log (dbWal (wDB w')) (rs @ [mark_record (nextLSN (dbWal (wDB w))) xid RecordRollback]) \<and> wal_ready k (dbWal (wDB w')) \<and>
    wDB w' = (wDB w)\<lparr>dbBuf := dbBuf (wDB w'), dbWal := dbWal (wDB w')\<rparr>"
proof -
  let ?w = "rollback_pagers ord w"
  have r: "files_keep bp G st0 (dbBuf (wDB ?w))" "same_rest w ?w" using rollback_pagers_ok [OF inv fin ord] by auto
  then have e: "wDB ?w = (wDB w)\<lparr>dbBuf := dbBuf (wDB ?w)\<rparr>" by (simp only: same_rest_def)
  have d: "dbWal (wDB ?w) = dbWal (wDB w)" by (subst e) simp
  obtain wal where a: "AppendRollback xid (dbWal (wDB w)) = (Inr (), wal)"
    "wal_log wal (rs @ [mark_record (nextLSN (dbWal (wDB w))) xid RecordRollback])" "wal_ready k wal"
    using AppendRollback_ok [OF log] by blast
  have "rollbackTx ord xid w = (Inr (), ?w\<lparr>wDB := (wDB ?w)\<lparr>dbWal := wal\<rparr>\<rparr>)"
    using a(1) d by (simp add: rollbackTx_def on_db_def on_wal_def)
  moreover have "(wDB ?w)\<lparr>dbWal := wal\<rparr> = (wDB w)\<lparr>dbBuf := dbBuf (wDB ?w), dbWal := wal\<rparr>" by (subst e) simp
  ultimately show ?thesis using r(1) a by simp
qed

end
