(* ===== verification/Statements.thy ===== *)
theory Statements
  imports InsertRows RollbackSpec
begin

text \<open>
  Auto-commit statements on the database: a body that succeeds makes its trees the contents of
  the page files and its transaction committed; a body that fails leaves the contents of all page
  files and the set of committed transactions.
\<close>

definition at_rest :: "DB \<Rightarrow> Work" where
  "at_rest db = \<lparr>wDB = db, wPagers = Map.empty\<rparr>"

lemma at_rest_simps [simp]: "wDB (at_rest db) = db" "wPagers (at_rest db) = Map.empty"
  by (simp_all add: at_rest_def)

text \<open>\<open>file_holds bp f db es\<close>: the file of the key \<open>f\<close> holds a B+ tree with the entries \<open>es\<close>.\<close>

definition file_holds :: "(string \<Rightarrow> BufPager) \<Rightarrow> string \<Rightarrow> DB \<Rightarrow> Entry list \<Rightarrow> bool" where
  "file_holds bp f db es \<longleftrightarrow> has_tree bp f (at_rest db) es"

definition files_hold :: "(string \<Rightarrow> BufPager) \<Rightarrow> Table \<Rightarrow> string \<Rightarrow> DB \<Rightarrow> Entry list \<Rightarrow> (IndexDef \<Rightarrow> Entry list) \<Rightarrow> bool" where
  "files_hold bp t name db es E \<longleftrightarrow> file_holds bp (tableKey name) db es \<and> (\<forall>d\<in>set (tblIndexes t). file_holds bp (idxKey d) db (E d))"

definition db_ok :: "(string \<Rightarrow> BufPager) \<Rightarrow> string set \<Rightarrow> DB \<Rightarrow> bool" where
  "db_ok bp G db \<longleftrightarrow> finite G \<and> names_ok G \<and> pool_files_ok bp G (dbBuf db)"

definition log_ready :: "string set \<Rightarrow> DB \<Rightarrow> WalRecord list \<Rightarrow> nat \<Rightarrow> bool" where
  "log_ready G db rs k \<longleftrightarrow> wal_log (dbWal db) rs \<and> wal_ready (card G * 2 ^ 32 + k) (dbWal db) \<and> nextXID (dbWal db) < - 1"

lemma rest_view: "wlive bp f (at_rest db) = buf_live (bp f) (dbBuf db)" "wview bp f (at_rest db) = buf_view (bp f) (dbBuf db)"
  "wroom bp f (at_rest db) = buf_room (bp f) (dbBuf db)"
  by (simp_all add: wlive_def wview_def wroom_def)

lemma rest_inv: "pool_files_ok bp G (dbBuf db) \<Longrightarrow> work_inv bp G (dbBuf db) (at_rest db)"
  by (simp add: work_inv_def same_file_def)

lemma rest_wal [simp]: "file_holds bp f (db\<lparr>dbWal := v\<rparr>) es = file_holds bp f db es"
  "file_holds bp f (db\<lparr>dbTxMgr := m\<rparr>) es = file_holds bp f db es"
  by (simp_all add: file_holds_def has_tree_def tree_at_def rest_view)

lemma file_holds_buf: "dbBuf db = dbBuf db' \<Longrightarrow> file_holds bp f db es = file_holds bp f db' es"
  by (simp add: file_holds_def has_tree_def tree_at_def rest_view)

lemma btree_tree_keeps:
  assumes "btree_tree L V n t bt" and "L \<subseteq> L'" and "\<forall>j\<in>L. W j = V j"
  shows "btree_tree L' W n t bt"
proof -
  have "holds_tree L V t" "set (ids t) \<subseteq> L" using assms(1) by (auto simp: btree_tree_def holds_tree_def)
  then have "holds_tree L' W t" using holds_tree_mono [of L V t L' W] assms(2,3) by blast
  then show ?thesis using assms by (auto simp: btree_tree_def header_at_def)
qed

lemma file_is_holds:
  assumes "file_is bp G w (dbBuf db)" and "f \<in> G" and "has_tree bp f w es"
  shows "file_holds bp f db es"
proof -
  have "buf_live (bp f) (dbBuf db) = wlive bp f w" "\<forall>j\<in>wlive bp f w. buf_view (bp f) (dbBuf db) j = wview bp f w j"
    using assms(1,2) by (simp_all add: file_is_def)
  then show ?thesis using assms(3) btree_tree_keeps unfolding file_holds_def has_tree_def tree_at_def rest_view by (metis order_refl)
qed

lemma files_keep_holds:
  assumes "files_keep bp G (dbBuf db) (dbBuf db')" and "f \<in> G" and "file_holds bp f db es"
  shows "file_holds bp f db' es"
proof -
  have "base_keeps (bp f) (dbBuf db) (dbBuf db')" using assms(1,2) by (simp add: files_keep_def)
  then show ?thesis using assms(3) btree_tree_keeps unfolding file_holds_def has_tree_def tree_at_def rest_view base_keeps_def by metis
qed

section \<open>The frame of an auto-commit statement\<close>

lemma auto_commit_ok:
  assumes ok: "db_ok bp G db" and ord: "orders_ok ord" and log: "log_ready G db rs (Suc (Suc k))"
    and body: "\<And>db1. dbBuf db1 = dbBuf db \<Longrightarrow> db1 = db\<lparr>dbWal := dbWal db1\<rparr> \<Longrightarrow>
      \<exists>w'. body (nextXID (dbWal db)) (at_rest db1) = (r, w') \<and> moved bp G (dbBuf db) F (at_rest db1) w' \<and> Q w'"
    and r: "r \<noteq> Inl Panic"
  shows "\<exists>db' rs' w'. auto_commit ord body db = (r, db') \<and> Q w' \<and> wal_log (dbWal db') (rs @ rs') \<and> wal_ready k (dbWal db') \<and>
    (\<forall>g\<in>G - F. wlive bp g w' = buf_live (bp g) (dbBuf db) \<and> (\<forall>j\<in>wlive bp g w'. wview bp g w' j = buf_view (bp g) (dbBuf db) j)) \<and>
    (case r of
       Inl e \<Rightarrow> files_keep bp G (dbBuf db) (dbBuf db') \<and> db' = db\<lparr>dbBuf := dbBuf db', dbWal := dbWal db'\<rparr>
     | Inr x \<Rightarrow> file_is bp G w' (dbBuf db') \<and>
         db' = db\<lparr>dbBuf := dbBuf db', dbWal := dbWal db', dbTxMgr := MarkCommitted (nextXID (dbWal db)) (dbTxMgr db)\<rparr>)"
proof -
  let ?x = "nextXID (dbWal db)"
  have G: "finite G" "names_ok G" "pool_files_ok bp G (dbBuf db)" using ok by (simp_all add: db_ok_def)
  have l: "wal_log (dbWal db) rs" "wal_ready (Suc (card G * 2 ^ 32 + Suc k)) (dbWal db)" "?x < - 1"
    using log by (simp_all add: log_ready_def)
  obtain wal1 where a: "AllocXID (dbWal db) = (Inr ?x, wal1)" "wal_log wal1 (rs @ [mark_record (nextLSN (dbWal db)) ?x RecordBegin])"
    "wal_ready (card G * 2 ^ 32 + Suc k) wal1" "nextXID wal1 = ?x + 1"
    using AllocXID_ok [OF l] by blast
  let ?db1 = "db\<lparr>dbWal := wal1\<rparr>"
  obtain w' where b: "body ?x (at_rest ?db1) = (r, w')" "moved bp G (dbBuf db) F (at_rest ?db1) w'" "Q w'"
    using body [of ?db1] by auto
  have sr: "same_rest (at_rest ?db1) w'" and inv: "work_inv bp G (dbBuf db) w'" using b(2) by (simp_all add: moved_def)
  have e: "wDB w' = db\<lparr>dbWal := wal1, dbBuf := dbBuf (wDB w')\<rparr>" using sr by (simp only: same_rest_def) simp
  have dw: "dbWal (wDB w') = wal1" by (subst e) simp
  have x: "?x < nextXID (dbWal (wDB w'))" using word_less_plus_1 [OF l(3)] a(4) dw by simp
  have others: "\<forall>g\<in>G - F. wlive bp g w' = buf_live (bp g) (dbBuf db) \<and> (\<forall>j\<in>wlive bp g w'. wview bp g w' j = buf_view (bp g) (dbBuf db) j)"
    using b(2) by (simp add: moved_def kept_def rest_view)
  show ?thesis
  proof (cases r)
    case (Inl er)
    have "wal_ready (Suc k) (dbWal (wDB w'))" using wal_ready_mono [OF a(3)] dw by simp
    from rollbackTx_ok [OF inv G(1) ord a(2) [folded dw] this x] obtain v where v: "rollbackTx ord ?x w' = (Inr (), v)"
      "files_keep bp G (dbBuf db) (dbBuf (wDB v))" "wal_ready k (dbWal (wDB v))" "wDB v = (wDB w')\<lparr>dbBuf := dbBuf (wDB v), dbWal := dbWal (wDB v)\<rparr>"
      "wal_log (dbWal (wDB v)) (rs @ [mark_record (nextLSN (dbWal db)) ?x RecordBegin, mark_record (nextLSN (dbWal (wDB w'))) ?x RecordRollback])"
      by auto
    have "auto_commit ord body db = (r, wDB v)" using Inl r a(1) b(1) v(1) by (simp add: auto_commit_def on_wal_def at_rest_def)
    moreover have "db\<lparr>dbBuf := dbBuf (wDB v), dbWal := dbWal (wDB v)\<rparr> = wDB v" by (subst (3) v(4), subst e) simp
    ultimately show ?thesis using v Inl b(3) others by (intro exI [of _ "wDB v"]) auto
  next
    case (Inr y)
    from commitTx_ok [OF inv G(1) ord G(2) a(2,3) [folded dw] x] obtain v ws lsn where v: "commitTx ord ?x w' = (Inr (), v)"
      "file_is bp G w' (dbBuf (wDB v))" "wal_ready k (dbWal (wDB v))"
      "wal_log (dbWal (wDB v)) ((rs @ [mark_record (nextLSN (dbWal db)) ?x RecordBegin]) @ ws @ [mark_record lsn ?x RecordCommit])"
      "wDB v = (wDB w')\<lparr>dbBuf := dbBuf (wDB v), dbWal := dbWal (wDB v)\<rparr>"
      by blast
    let ?db' = "mark_committed ?x (wDB v)"
    have d: "?db' = db\<lparr>dbBuf := dbBuf (wDB v), dbWal := dbWal (wDB v), dbTxMgr := MarkCommitted ?x (dbTxMgr db)\<rparr>"
      unfolding mark_committed_def by (subst (1 2) v(5), subst (1 2) e) simp
    then have "auto_commit ord body db = (r, ?db')" using Inr a(1) b(1) v(1) by (simp add: auto_commit_def on_wal_def at_rest_def)
    moreover have "dbBuf ?db' = dbBuf (wDB v)" "dbWal ?db' = dbWal (wDB v)" by (simp_all add: mark_committed_def)
    ultimately show ?thesis using v(2-4) Inr b(3) others d by (intro exI [of _ ?db']) auto
  qed
qed

end
