(* ===== verification/InsertStmt.thy ===== *)
theory InsertStmt
  imports Statements
begin

text \<open>
  INSERT as an operation on the contents of the database. \<open>rows_seen\<close> is what the next statement
  sees of a table: the map from primary keys to rows. A successful INSERT adds one row to it and
  one entry to each index; an INSERT that would give an index a second entry for a value changes
  nothing.
\<close>

definition row_visible :: "Snapshot \<Rightarrow> byte list \<Rightarrow> bool" where
  "row_visible snap raw \<longleftrightarrow> IsVisible snap (row_xmin raw) (row_xmax raw)"

definition row_values :: "Table \<Rightarrow> byte list \<Rightarrow> Value list" where
  "row_values t raw = projr (decodeRow t raw)"

definition rows_seen :: "Table \<Rightarrow> TxManager \<Rightarrow> Entry list \<Rightarrow> u64 \<rightharpoonup> Value list" where
  "rows_seen t m es k =
     (case entry_lookup es k of
        None \<Rightarrow> None
      | Some raw \<Rightarrow> if row_visible (TakeSnapshot XIDNone m) raw then Some (row_values t raw) else None)"

text \<open>No row was written or deleted by the transaction \<open>x\<close>.\<close>

definition unused :: "u32 \<Rightarrow> Entry list \<Rightarrow> bool" where
  "unused x es \<longleftrightarrow> x \<noteq> XIDNone \<and> (\<forall>e\<in>set es. row_xmin (Value e) \<noteq> x \<and> row_xmax (Value e) \<noteq> x)"

lemma visible_commit:
  "row_xmin raw \<noteq> x \<Longrightarrow> row_xmax raw \<noteq> x \<Longrightarrow> row_visible (TakeSnapshot XIDNone (MarkCommitted x m)) raw = row_visible (TakeSnapshot XIDNone m) raw"
  by (simp add: row_visible_def IsVisible_iff sees_def TakeSnapshot_def MarkCommitted_def)

lemma entry_lookup_set: "entry_lookup es k = Some raw \<Longrightarrow> \<exists>e\<in>set es. Key e = k \<and> Value e = raw"
  unfolding entry_lookup_def by (auto dest!: map_of_SomeD)

lemma rows_seen_commit: "unused x es \<Longrightarrow> rows_seen t (MarkCommitted x m) es = rows_seen t m es"
  by (rule ext) (auto simp: rows_seen_def unused_def visible_commit dest!: entry_lookup_set split: option.split)

lemma rows_seen_insert:
  assumes "ascending es" and "unused x es" and enc: "encodeRow t vals x = Inr raw" "validateSchema t = Inr ()" "length vals = length (tblColumns t)"
  shows "rows_seen t (MarkCommitted x m) (ins_entry key raw es) = (rows_seen t m es)(key \<mapsto> map2 stored (tblColumns t) vals)"
proof
  fix k
  note d = decodeRow_encoded [OF enc]
  have v: "row_visible (TakeSnapshot XIDNone (MarkCommitted x m)) raw" "row_values t raw = map2 stored (tblColumns t) vals"
    using d by (simp_all add: row_visible_def IsVisible_iff sees_def TakeSnapshot_def MarkCommitted_def row_values_def)
  have "entry_lookup (ins_entry key raw es) k = ((entry_lookup es)(key \<mapsto> raw)) k"
    using entry_lookup_ins [OF assms(1)] by simp
  moreover have "rows_seen t (MarkCommitted x m) es k = rows_seen t m es k" by (simp add: rows_seen_commit [OF assms(2)])
  ultimately show "rows_seen t (MarkCommitted x m) (ins_entry key raw es) k = ((rows_seen t m es)(key \<mapsto> map2 stored (tblColumns t) vals)) k"
    using v by (simp add: rows_seen_def)
qed

lemma has_tree_ascending: "has_tree bp k w es \<Longrightarrow> ascending es"
  using btwf_spans by (fastforce simp: has_tree_def tree_at_def btree_tree_def spans_def)

text \<open>The trees of the statement have room for another entry.\<close>

definition files_room :: "(string \<Rightarrow> BufPager) \<Rightarrow> Table \<Rightarrow> string \<Rightarrow> DB \<Rightarrow> Entry list \<Rightarrow> (IndexDef \<Rightarrow> Entry list) \<Rightarrow> bool" where
  "files_room bp t name db es E \<longleftrightarrow> roomy_tree bp (tableKey name) (at_rest db) es \<and>
     (\<forall>d\<in>set (tblIndexes t). roomy_tree bp (idxKey d) (at_rest db) (E d))"

text \<open>The trees of other files are not touched.\<close>

definition others_kept :: "(string \<Rightarrow> BufPager) \<Rightarrow> string set \<Rightarrow> DB \<Rightarrow> DB \<Rightarrow> bool" where
  "others_kept bp H db db' \<longleftrightarrow> (\<forall>g\<in>H. \<forall>es. file_holds bp g db es \<longrightarrow> file_holds bp g db' es)"

lemma at_rest_cong:
  assumes "dbBuf db1 = dbBuf db"
  shows "has_tree bp k (at_rest db1) es = has_tree bp k (at_rest db) es"
    "roomy_tree bp k (at_rest db1) es = roomy_tree bp k (at_rest db) es"
  using assms by (simp_all add: has_tree_def roomy_tree_def tree_at_def rest_view)

text \<open>The files of the table and of its indexes are open, and are different files.\<close>

definition stmt_open :: "(string \<Rightarrow> BufPager) \<Rightarrow> string set \<Rightarrow> Table \<Rightarrow> string \<Rightarrow> DB \<Rightarrow> bool" where
  "stmt_open bp G t name db \<longleftrightarrow> distinct (stmt_keys t name) \<and> set (stmt_keys t name) \<subseteq> G \<and>
     dbOpenTbls db (ToLower name) = Some (bp (tableKey name)) \<and>
     (\<forall>d\<in>set (tblIndexes t). dbOpenIdxs db (ToLower (idxName d)) = Some (bp (idxKey d)))"

lemma stmt_open_ready:
  assumes "db1 = db\<lparr>dbWal := v\<rparr>" and "stmt_open bp G t name db"
  shows "stmt_ready bp G t name db1"
  using assms by (auto simp: stmt_open_def stmt_ready_def stmt_keys_def ready_def getOrOpenTable_def getOrOpenIndex_def)

section \<open>The statement\<close>

lemma files_room_hold: "files_room bp t name db es E \<Longrightarrow> files_hold bp t name db es E"
  by (simp add: files_room_def files_hold_def file_holds_def roomy_has_tree)

lemma others_kept_moved:
  assumes fi: "file_is bp G w' (dbBuf db')" and H: "H \<subseteq> G"
    and same: "\<forall>g\<in>H. wlive bp g w' = buf_live (bp g) (dbBuf db) \<and> (\<forall>j\<in>wlive bp g w'. wview bp g w' j = buf_view (bp g) (dbBuf db) j)"
  shows "others_kept bp H db db'"
  unfolding others_kept_def
proof (intro ballI allI impI)
  fix g es assume g: "g \<in> H" and h: "file_holds bp g db es"
  have "has_tree bp g w' es"
    using h same g btree_tree_keeps unfolding file_holds_def has_tree_def tree_at_def rest_view by (metis order_refl)
  then show "file_holds bp g db' es" using file_is_holds [OF fi] g H by blast
qed

lemma autoCommitInsert_ok:
  assumes ok: "db_ok bp G db" "orders_ok ord" "log_ready G db rs (Suc (Suc k))" and op: "stmt_open bp G t name db"
    and room: "files_room bp t name db es E" and sch: "validateSchema t = Inr ()" "length vals = length (tblColumns t)"
    and un: "unused (nextXID (dbWal db)) es" and fuel: "2 ^ 32 \<le> fuel"
  shows "\<exists>db' rs'. wal_log (dbWal db') (rs @ rs') \<and> others_kept bp (G - set (stmt_keys t name)) db db' \<and>
    (case find (clash t vals E) (tblIndexes t) of
       Some d \<Rightarrow> autoCommitInsert ord fuel t name key vals db = (Inl (UniqueViolation (idxName d) (the (index_key_of t vals d))), db') \<and>
         files_hold bp t name db' es E \<and> db' = db\<lparr>dbBuf := dbBuf db', dbWal := dbWal db'\<rparr>
     | None \<Rightarrow> autoCommitInsert ord fuel t name key vals db = (Inr (), db') \<and>
         (\<exists>es'. files_hold bp t name db' es' (index_after t vals key E) \<and>
           rows_seen t (dbTxMgr db') es' = (rows_seen t (dbTxMgr db) es)(key \<mapsto> map2 stored (tblColumns t) vals)))"
proof -
  let ?x = "nextXID (dbWal db)" and ?F = "set (stmt_keys t name)"
  let ?c = "find (clash t vals E) (tblIndexes t)"
  obtain raw where raw: "encodeRow t vals ?x = Inr raw" "length raw = ValueSize"
    using encodeRow_eq [OF sch, of ?x] decodeRow_encoded(4) [OF _ sch] by metis
  define r :: "go_error + unit" where
    "r = (case ?c of Some d \<Rightarrow> Inl (UniqueViolation (idxName d) (the (index_key_of t vals d))) | None \<Rightarrow> Inr ())"
  define Q where "Q = (\<lambda>w. ?c = None \<longrightarrow> trees_of bp t name w (ins_entry key raw es) (index_after t vals key E))"
  have body: "\<exists>w'. insert_row fuel t name key vals ?x (at_rest db1) = (r, w') \<and> moved bp G (dbBuf db) ?F (at_rest db1) w' \<and> Q w'"
    if d1: "dbBuf db1 = dbBuf db" "db1 = db\<lparr>dbWal := dbWal db1\<rparr>" for db1
  proof -
    have inv: "work_inv bp G (dbBuf db) (at_rest db1)" using rest_inv [of bp G db1] ok(1) d1(1) by (simp add: db_ok_def)
    have rd: "stmt_ready bp G t name (wDB (at_rest db1))" using stmt_open_ready [OF d1(2) op] by simp
    have ti: "roomy_tree bp (tableKey name) (at_rest db1) es" "\<forall>d\<in>set (tblIndexes t). roomy_tree bp (idxKey d) (at_rest db1) (E d)"
      using room at_rest_cong(2) [OF d1(1)] by (simp_all add: files_room_def)
    show ?thesis using insert_row_spec [OF inv rd ti raw fuel, of key] by (auto simp: r_def Q_def split: option.splits)
  qed
  have rp: "r \<noteq> Inl Panic" by (simp add: r_def split: option.split)
  obtain db' rs' w' where res: "auto_commit ord (insert_row fuel t name key vals) db = (r, db')" "Q w'" "wal_log (dbWal db') (rs @ rs')"
    "\<forall>g\<in>G - ?F. wlive bp g w' = buf_live (bp g) (dbBuf db) \<and> (\<forall>j\<in>wlive bp g w'. wview bp g w' j = buf_view (bp g) (dbBuf db) j)"
    "case r of
       Inl e \<Rightarrow> files_keep bp G (dbBuf db) (dbBuf db') \<and> db' = db\<lparr>dbBuf := dbBuf db', dbWal := dbWal db'\<rparr>
     | Inr x \<Rightarrow> file_is bp G w' (dbBuf db') \<and>
         db' = db\<lparr>dbBuf := dbBuf db', dbWal := dbWal db', dbTxMgr := MarkCommitted ?x (dbTxMgr db)\<rparr>"
    using auto_commit_ok [where body = "insert_row fuel t name key vals" and r = r and F = ?F and Q = Q, OF ok body rp] by blast
  have FG: "?F \<subseteq> G" using op by (simp add: stmt_open_def)
  note hold = files_room_hold [OF room]
  show ?thesis
  proof (cases ?c)
    case (Some d)
    have k: "files_keep bp G (dbBuf db) (dbBuf db')" "db' = db\<lparr>dbBuf := dbBuf db', dbWal := dbWal db'\<rparr>"
      using res(5) Some by (simp_all add: r_def)
    have "files_hold bp t name db' es E"
      using hold files_keep_holds [OF k(1)] FG by (auto simp: files_hold_def stmt_keys_def)
    moreover have "others_kept bp (G - ?F) db db'" using files_keep_holds [OF k(1)] by (auto simp: others_kept_def)
    ultimately show ?thesis using Some k(2) res(1,3) by (auto simp: autoCommitInsert_def r_def)
  next
    case None
    have fi: "file_is bp G w' (dbBuf db')"
      and db': "db' = db\<lparr>dbBuf := dbBuf db', dbWal := dbWal db', dbTxMgr := MarkCommitted ?x (dbTxMgr db)\<rparr>"
      using res(5) None by (simp_all add: r_def)
    have m: "dbTxMgr db' = MarkCommitted ?x (dbTxMgr db)" by (subst db') simp
    have "files_hold bp t name db' (ins_entry key raw es) (index_after t vals key E)"
      using res(2) None file_is_holds [OF fi] FG by (auto simp: Q_def trees_of_def files_hold_def stmt_keys_def)
    moreover have "ascending es" using room has_tree_ascending roomy_has_tree unfolding files_room_def by blast
    then have "rows_seen t (dbTxMgr db') (ins_entry key raw es) = (rows_seen t (dbTxMgr db) es)(key \<mapsto> map2 stored (tblColumns t) vals)"
      using rows_seen_insert [OF _ un raw(1) sch] m by simp
    moreover have "others_kept bp (G - ?F) db db'" by (rule others_kept_moved [OF fi _ res(4)]) blast
    ultimately show ?thesis using None res(1,3) unfolding autoCommitInsert_def r_def by auto
  qed
qed

end
