(* ===== verification/ExampleDb.thy ===== *)
theory ExampleDb
  imports InsertStmt
begin

text \<open>A small database for the examples: the table \<open>t (id INT, n INT)\<close> with the index \<open>i\<close> on \<open>n\<close>, both
  files open and empty.\<close>

lemma orders_exist: "\<exists>ord. orders_ok ord"
proof -
  have "\<forall>m :: string \<rightharpoonup> TxBuf. \<exists>xs. finite (dom m) \<longrightarrow> distinct xs \<and> set xs = dom m"
  proof
    fix m :: "string \<rightharpoonup> TxBuf"
    show "\<exists>xs. finite (dom m) \<longrightarrow> distinct xs \<and> set xs = dom m"
      using finite_distinct_list [of "dom m"] by (cases "finite (dom m)") auto
  qed
  from choice [OF this] obtain f where f: "\<forall>m :: string \<rightharpoonup> TxBuf. finite (dom m) \<longrightarrow> distinct (f m) \<and> set (f m) = dom m" by blast
  have "\<forall>m :: u32 \<rightharpoonup> Page. \<exists>xs. distinct xs \<and> set xs = dom m"
  proof
    fix m :: "u32 \<rightharpoonup> Page"
    have "finite (dom m)" by (rule finite)
    from finite_distinct_list [OF this] show "\<exists>xs. distinct xs \<and> set xs = dom m" by blast
  qed
  from choice [OF this] obtain g where g: "\<forall>m :: u32 \<rightharpoonup> Page. distinct (g m) \<and> set (g m) = dom m" by blast
  have "orders_ok \<lparr>keysLog = f, keysFlush = f, keysUndo = f, pagesLog = g, pagesFlush = g\<rparr>"
    using f g by (simp add: orders_ok_def)
  then show ?thesis by blast
qed

definition ex_index :: IndexDef where
  "ex_index = \<lparr>idxName = ''i'', idxTable = ''t'', idxColumn = ''n''\<rparr>"

definition ex_table :: Table where
  "ex_table = \<lparr>tblName = ''t'', tblColumns = [\<lparr>colName = ''id'', colType = 0\<rparr>, \<lparr>colName = ''n'', colType = 0\<rparr>],
     tblIndexes = [ex_index]\<rparr>"

definition ex_catalog :: Catalog where
  "ex_catalog = \<lparr>cat_tables = [''t'' \<mapsto> \<lparr>tblName = ''t'', tblColumns = tblColumns ex_table, tblIndexes = \<lparr>arr = 0, len = 1\<rparr>\<rparr>],
     cat_indexes = [''i'' \<mapsto> (0, 0)], cat_arrays = [[ex_index]], cat_file = empty_file\<rparr>"

definition ex_pager :: Pager where
  "ex_pager = snd (btree_Create pager_store fresh_pager)"

definition ex_files :: "string \<Rightarrow> BufPager" where
  "ex_files k = (if k = ''t'' then \<lparr>bpg = 0, fid = 1\<rparr> else \<lparr>bpg = 1, fid = 2\<rparr>)"

definition ex_keys :: "string set" where
  "ex_keys = {''t'', ''idx:i''}"

definition ex_db :: DB where
  "ex_db = \<lparr>dbCatalog = ex_catalog, dbWal = wal_Open empty_file,
     dbBuf = \<lparr>pool = (pool_New 0)\<lparr>files := [1 \<mapsto> 0, 2 \<mapsto> 1]\<rparr>, pagers = (\<lambda>_. ex_pager)\<rparr>,
     dbNextPager = 2, dbTxMgr = TxManager_New,
     dbOpenTbls = [''t'' \<mapsto> ex_files ''t''], dbOpenIdxs = [''i'' \<mapsto> ex_files ''idx:i''],
     dbTxns = Map.empty, dbDir = Map.empty, dbStats = NewStatsDB empty_file\<rparr>"

lemma ex_pager_tree: "\<exists>bt. pager_inv ex_pager \<and> btree_rel (pager_live ex_pager) (pager_view ex_pager) 0 [] bt \<and>
    headerPage bt = 1 \<and> 2 ^ 32 - 4 \<le> pager_room ex_pager"
proof -
  obtain bt s where c: "btree_Create pager_store fresh_pager = (Inr bt, s)" "pager_inv s" "btree_rel (pager_live s) (pager_view s) 0 [] bt"
    "pager_room fresh_pager \<le> pager_room s + 2"
    using pager.btree_Create_spec [OF pager_inv_fresh] by auto
  have "headerPage bt = 1"
    using c(1) by (auto simp: btree_Create_def bindG_def returnG_def pager_AllocatePage_def liftG_def Let_def split: prod.splits sum.splits)
  then show ?thesis using c by (auto simp: ex_pager_def)
qed

lemma ex_names_lower [simp]: "ToLower ''t'' = ''t''" "ToLower ''i'' = ''i''" "ToLower ''id'' = ''id''" "ToLower ''n'' = ''n''"
  by code_simp+

lemma ex_keys_simps [simp]: "tableKey ''t'' = ''t''" "idxKey ex_index = ''idx:i''" "tblIndexes ex_table = [ex_index]"
  by (simp_all add: tableKey_def idxKey_def indexKey_def ex_index_def ex_table_def)

lemma ex_GetTable: "GetTable (dbCatalog ex_db) ''t'' = Some ex_table"
  by (simp add: GetTable_def ex_db_def ex_catalog_def table_view_def slice_list_def ex_table_def)

lemma ex_valid: "validateSchema ex_table = Inr ()" "PrimaryKeyIndex ex_table = Some 0"
  by (simp_all add: validateSchema_def ex_table_def PrimaryKeyIndex_def TypeInt_def TypeText_def userDataSize_def ValueSize_def
      mvccHeaderSize_def col_size_def IntColSize_def TextColSize_def)

lemma ex_db_ok: "db_ok ex_files ex_keys ex_db"
proof -
  obtain bt where "pager_inv ex_pager" using ex_pager_tree by blast
  then have "pool_inv (dbBuf ex_db)"
    by (auto simp: ex_db_def pool_inv_def pool_wf_def coherent_def pool_New_def DefaultCapacity_def split: if_splits)
  moreover have "names_ok ex_keys" by (simp add: names_ok_def ex_keys_def key_file_def good_name_def tableNameSize_def)
  ultimately show ?thesis
    by (auto simp: db_ok_def pool_files_ok_def ex_keys_def ex_files_def ex_db_def inj_on_def)
qed

lemma ex_log: "log_ready ex_keys ex_db [] 100"
proof -
  have "wal_log (wal_Open empty_file) []" by (rule wal_Open_empty) (simp add: empty_file_def)
  moreover have "wal_Open empty_file = \<lparr>wfile = empty_file, wrecords = 0, nextLSN = 1, nextXID = 1\<rparr>" by code_simp
  ultimately show ?thesis by (simp add: log_ready_def ex_db_def ex_keys_def wal_ready_def empty_file_def)
qed

lemma ex_open: "stmt_open ex_files ex_keys ex_table ''t'' ex_db"
  by (simp add: stmt_open_def stmt_keys_def ex_keys_def ex_db_def) (simp add: ex_index_def)

lemma ex_room: "files_room ex_files ex_table ''t'' ex_db [] (\<lambda>_. [])"
proof -
  obtain bt where bt: "btree_rel (pager_live ex_pager) (pager_view ex_pager) 0 [] bt" "headerPage bt = 1" "2 ^ 32 - 4 \<le> pager_room ex_pager"
    using ex_pager_tree by blast
  then obtain u where "btree_tree (pager_live ex_pager) (pager_view ex_pager) 0 u bt" "entries u = []" by (auto simp: btree_rel_def)
  then have "roomy_tree ex_files k (at_rest ex_db) []" for k
    using bt(2,3) unfolding roomy_tree_def tree_at_def rest_view buf_live_def buf_view_def buf_room_def
    by (intro exI [of _ 0] exI [of _ u] exI [of _ bt]) (simp add: ex_db_def)
  then show ?thesis by (simp add: files_room_def)
qed

end
