(* ===== verification/DmlScan.thy ===== *)
theory DmlScan
  imports InsertStmt
begin

text \<open>
  The scan phase of DELETE and UPDATE: \<open>scanVisible\<close> returns exactly the rows that the
  snapshot sees and the WHERE clause accepts, in the order of their keys.
\<close>

lemma wf_seq_all: "wf_seq P lo hi ks ts \<Longrightarrow> x \<in> set ts \<Longrightarrow> \<exists>a b. P a b x"
  by (induction P lo hi ks ts rule: wf_seq.induct) auto

lemma btwf_wf_entries: "btwf n lo hi t \<Longrightarrow> wf_entries (entries t)"
proof (induction n arbitrary: lo hi t)
  case 0
  then show ?case by (cases t) (auto simp: entries_def leaf_entries_def)
next
  case (Suc n)
  show ?case
  proof (cases t)
    case (BNode i ks ts)
    have "wf_entries (entries u)" if "u \<in> set ts" for u using wf_seq_all [OF _ that] Suc BNode by fastforce
    then show ?thesis by (auto simp: BNode forest_entries_def wf_entries_def)
  qed (use Suc.prems in simp)
qed

lemma has_tree_wf: "has_tree bp k w es \<Longrightarrow> wf_entries es"
  by (auto simp: has_tree_def tree_at_def btree_tree_def intro: btwf_wf_entries)

lemma ascending_length: "ascending es \<Longrightarrow> length es \<le> 2 ^ 64"
proof -
  assume "ascending es"
  then have "distinct (map Key es)" unfolding ascending_def by (simp add: strict_sorted_iff)
  from distinct_card [OF this] card_mono [of UNIV "set (map Key es)"] show ?thesis by (simp add: card_word)
qed

lemma u64_max: "x \<le> (0xFFFFFFFFFFFFFFFF :: u64)"
proof -
  have "(0xFFFFFFFFFFFFFFFF :: u64) = - 1" by simp
  then show ?thesis using word_n1_ge [of x] by metis
qed

section \<open>The rows that a statement changes\<close>

definition selects :: "Table \<Rightarrow> Snapshot \<Rightarrow> WhereClause option \<Rightarrow> byte list \<Rightarrow> bool" where
  "selects t snap wh raw \<longleftrightarrow> row_visible snap raw \<and> where_holds t (row_values t raw) wh"

definition row_of :: "Table \<Rightarrow> Entry \<Rightarrow> scannedRow" where
  "row_of t e = \<lparr>srPk = Key e, srValues = row_values t (Value e)\<rparr>"

definition scanned :: "Table \<Rightarrow> Snapshot \<Rightarrow> WhereClause option \<Rightarrow> Entry list \<Rightarrow> scannedRow list" where
  "scanned t snap wh es = map (row_of t) (filter (\<lambda>e. selects t snap wh (Value e)) es)"

text \<open>A stored value that decodes to a row of the table.\<close>

definition good_row :: "Table \<Rightarrow> byte list \<Rightarrow> bool" where
  "good_row t raw \<longleftrightarrow> decodeRow t raw = Inr (row_values t raw) \<and> length (row_values t raw) = length (tblColumns t)"

lemma good_rowI:
  assumes "validateSchema t = Inr ()" and "length raw = ValueSize"
  shows "good_row t raw"
proof -
  have "mvccHeaderSize + sum_list (map col_size (tblColumns t)) \<le> length raw"
    using validateSchema_size [OF assms(1)] assms(2) by (simp add: mvccHeaderSize_def ValueSize_def)
  from decode_columns_total [OF this] show ?thesis by (auto simp: good_row_def row_values_def decodeRow_def)
qed

lemma good_rows: "validateSchema t = Inr () \<Longrightarrow> wf_entries es \<Longrightarrow> \<forall>e\<in>set es. good_row t (Value e)"
  by (simp add: wf_entries_def good_rowI)

context page_store
begin

lemma scan_loop_spec:
  assumes "ok s" and "cursor_at (live s) (view s) c rest" and mx: "cmaxKey c = 0xFFFFFFFFFFFFFFFF" and "length rest < fuel"
    and "\<forall>e\<in>set rest. good_row t (Value e)"
  shows "\<exists>s'. scan_loop fuel ps t snap wh c acc s = (Inr (acc @ scanned t snap wh rest), s') \<and> same_store s s'"
  using assms
proof (induction rest arbitrary: s c acc fuel)
  case Nil
  then obtain m where "fuel = Suc m" by (cases fuel) auto
  then show ?case using cursor_Next_spec [OF Nil(1,2)] by (auto simp: scanned_def)
next
  case (Cons e rest)
  then obtain m where m: "fuel = Suc m" "length rest < m" by (cases fuel) auto
  have "\<not> cmaxKey c < Key e" using Cons.prems(3) u64_max [of "Key e"] by (simp add: not_less)
  then obtain c' s1 where c': "cursor_Next ps (c, s) = (Inr (Some e), (c', s1))" "same_store s s1" "cmaxKey c' = 0xFFFFFFFFFFFFFFFF"
    "cursor_at (live s1) (view s1) c' rest"
    using cursor_Next_spec [OF Cons.prems(1,2)] Cons.prems(3) by auto
  have ok1: "ok s1" using c'(2) by (simp add: same_store_def)
  have g: "decodeRow t (Value e) = Inr (row_values t (Value e))"
    "matchesWhere (row_values t (Value e)) t wh = Inr (where_holds t (row_values t (Value e)) wh)"
    using Cons.prems(5) by (auto simp: good_row_def intro: matchesWhere_holds)
  have IH: "\<exists>s'. scan_loop m ps t snap wh c' ac s1 = (Inr (ac @ scanned t snap wh rest), s') \<and> same_store s1 s'" for ac
    using Cons.IH [OF ok1 c'(4,3) m(2)] Cons.prems(5) by simp
  have step: "scan_loop fuel ps t snap wh c acc s =
      scan_loop m ps t snap wh c' (if selects t snap wh (Value e) then acc @ [row_of t e] else acc) s1"
    using c'(1) g m(1) by (auto simp: selects_def row_visible_def row_of_def)
  obtain s' where "scan_loop fuel ps t snap wh c acc s = (Inr (acc @ scanned t snap wh (e # rest)), s')" "same_store s1 s'"
    using IH [of "if selects t snap wh (Value e) then acc @ [row_of t e] else acc"] unfolding step by (auto simp: scanned_def)
  then show ?case using same_store_trans [OF c'(2)] by blast
qed

lemma scanVisible_spec:
  assumes ok: "ok s" and t: "btree_tree (live s) (view s) n u bt" and ne: "no_empty_leaf (tl (leaves u))"
    and "n < fuel" and "length (entries u) < fuel" and good: "\<forall>e\<in>set (entries u). good_row t (Value e)"
  shows "\<exists>s'. scanVisible fuel ps bt t snap wh s = (Inr (scanned t snap wh (entries u)), s') \<and> same_store s s'"
proof -
  have all: "filter (in_range 0 0xFFFFFFFFFFFFFFFF) es = es" for es
    by (rule filter_True) (use u64_max in \<open>auto simp: in_range_def\<close>)
  obtain c s1 rest where c: "NewCursor ps fuel bt 0 0xFFFFFFFFFFFFFFFF s = (Inr c, s1)" "same_store s s1" "cmaxKey c = 0xFFFFFFFFFFFFFFFF"
    "cursor_at (live s1) (view s1) c rest" "takeWhile (\<lambda>e. Key e \<le> 0xFFFFFFFFFFFFFFFF) rest = entries u" "length rest \<le> length (entries u)"
    using NewCursor_spec [OF ok t ne assms(4), where mn = 0 and mx = "0xFFFFFFFFFFFFFFFF"] unfolding all by auto
  have "takeWhile (\<lambda>e. Key e \<le> 0xFFFFFFFFFFFFFFFF) rest = rest" using u64_max by (subst takeWhile_eq_all_conv) blast
  then have "rest = entries u" using c(5) by simp
  moreover have "ok s1" using c(2) by (simp add: same_store_def)
  ultimately obtain s' where "scan_loop fuel ps t snap wh c [] s1 = (Inr (scanned t snap wh (entries u)), s')" "same_store s1 s'"
    using scan_loop_spec [OF _ c(4,3), where fuel = fuel and t = t and acc = "[]" and snap = snap and wh = wh] assms(5) good by auto
  then show ?thesis using c(1,2) same_store_trans by (fastforce simp: scanVisible_def bindG_def)
qed

end

end
