(* ===== verification/DmlTrees.thy ===== *)
theory DmlTrees
  imports DmlScan
begin

text \<open>
  The state of the second phase of DELETE and UPDATE (\<open>Dml\<close>): the table's tree has the entries
  \<open>es\<close>, the tree of each index \<open>x\<close> has the entries \<open>E x\<close>, and every handle in the cache is current.
\<close>

text \<open>A tree with room for \<open>j\<close> more entries: each may need one page per level and one for a new root.\<close>

definition room_for :: "(string \<Rightarrow> BufPager) \<Rightarrow> string \<Rightarrow> Work \<Rightarrow> nat \<Rightarrow> nat \<Rightarrow> bool" where
  "room_for bp k w j n \<longleftrightarrow> j * (n + j + 2) \<le> wroom bp k w"

definition handle_at :: "(string \<Rightarrow> BufPager) \<Rightarrow> string \<Rightarrow> Work \<Rightarrow> nat \<Rightarrow> Entry list \<Rightarrow> BTree \<Rightarrow> bool" where
  "handle_at bp k w j es bt \<longleftrightarrow> wPagers w k \<noteq> None \<and> (\<exists>n u. tree_at bp k w n u bt \<and> entries u = es \<and> room_for bp k w j n)"

definition room_tree :: "(string \<Rightarrow> BufPager) \<Rightarrow> string \<Rightarrow> Work \<Rightarrow> nat \<Rightarrow> Entry list \<Rightarrow> bool" where
  "room_tree bp k w j es \<longleftrightarrow> (\<exists>n u bt. tree_at bp k w n u bt \<and> entries u = es \<and> room_for bp k w j n)"

lemma room_for_0 [simp]: "room_for bp k w 0 n"
  by (simp add: room_for_def)

lemma room_for_mono: "room_for bp k w j n \<Longrightarrow> i \<le> j \<Longrightarrow> room_for bp k w i n"
  unfolding room_for_def using mult_le_mono [of i j "n + i + 2" "n + j + 2"] by simp

lemma room_tree_holds: "room_tree bp k w j es \<Longrightarrow> has_tree bp k w es"
  by (auto simp: room_tree_def has_tree_def)

lemma handle_at_room_tree: "handle_at bp k w j es bt \<Longrightarrow> room_tree bp k w j es"
  by (auto simp: room_tree_def handle_at_def)

lemma has_tree_room_0: "has_tree bp k w es \<Longrightarrow> room_tree bp k w 0 es"
  by (auto simp: room_tree_def has_tree_def)

definition table_at :: "(string \<Rightarrow> BufPager) \<Rightarrow> string \<Rightarrow> Work \<Rightarrow> Entry list \<Rightarrow> BTree \<Rightarrow> bool" where
  "table_at bp k w es bt \<longleftrightarrow> (\<exists>n u. tree_at bp k w n u bt \<and> entries u = es \<and> no_empty_leaf (tl (leaves u)))"

definition dml_ok :: "(string \<Rightarrow> BufPager) \<Rightarrow> string set \<Rightarrow> BufState \<Rightarrow> Table \<Rightarrow> string \<Rightarrow> (IndexDef \<Rightarrow> nat) \<Rightarrow> Dml \<Rightarrow> Entry list \<Rightarrow>
    (IndexDef \<Rightarrow> Entry list) \<Rightarrow> bool" where
  "dml_ok bp G st0 t name J d es E \<longleftrightarrow>
     work_inv bp G st0 (dWork d) \<and> stmt_ready bp G t name (wDB (dWork d)) \<and>
     wPagers (dWork d) (tableKey name) \<noteq> None \<and> table_at bp (tableKey name) (dWork d) es (dTree d) \<and>
     (\<forall>x\<in>set (tblIndexes t). room_tree bp (idxKey x) (dWork d) (J x) (E x) \<and>
        (\<forall>b. dCache d (ToLower (idxName x)) = Some b \<longrightarrow> handle_at bp (idxKey x) (dWork d) (J x) (E x) b))"

text \<open>A step of the second phase: nothing outside the statement's files changes.\<close>

definition dml_moved :: "(string \<Rightarrow> BufPager) \<Rightarrow> string set \<Rightarrow> BufState \<Rightarrow> Table \<Rightarrow> string \<Rightarrow> Dml \<Rightarrow> Dml \<Rightarrow> bool" where
  "dml_moved bp G st0 t name d d' \<longleftrightarrow> moved bp G st0 (set (stmt_keys t name)) (dWork d) (dWork d')"

lemma kept_room: "kept bp k w w' \<Longrightarrow> room_for bp k w j n \<Longrightarrow> room_for bp k w' j n"
  by (simp add: kept_def room_for_def)

lemma kept_handle: "moved bp G st0 F w w' \<Longrightarrow> k \<in> G \<Longrightarrow> k \<notin> F \<Longrightarrow> handle_at bp k w j es bt \<Longrightarrow> handle_at bp k w' j es bt"
  unfolding handle_at_def using moved_tree moved_pagers kept_room moved_kept by metis

lemma kept_room_tree: "kept bp k w w' \<Longrightarrow> room_tree bp k w j es \<Longrightarrow> room_tree bp k w' j es"
  unfolding room_tree_def using kept_tree kept_room by metis

lemma kept_table: "moved bp G st0 F w w' \<Longrightarrow> k \<in> G \<Longrightarrow> k \<notin> F \<Longrightarrow> table_at bp k w es bt \<Longrightarrow> table_at bp k w' es bt"
  unfolding table_at_def using moved_tree by metis

lemma stmt_ready_moved: "moved bp G st0 F w w' \<Longrightarrow> stmt_ready bp G t name (wDB w) \<Longrightarrow> stmt_ready bp G t name (wDB w')"
  unfolding stmt_ready_def using moved_ready by metis

lemma stmt_readyD:
  assumes "stmt_ready bp G t name db"
  shows "tableKey name \<in> G" "x \<in> set (tblIndexes t) \<Longrightarrow> idxKey x \<in> G" "x \<in> set (tblIndexes t) \<Longrightarrow> idxKey x \<noteq> tableKey name"
    "x \<in> set (tblIndexes t) \<Longrightarrow> y \<in> set (tblIndexes t) \<Longrightarrow> idxKey x = idxKey y \<longleftrightarrow> x = y"
    "x \<in> set (tblIndexes t) \<Longrightarrow> ready bp G (getOrOpenIndex (idxName x)) (idxKey x) db"
proof -
  have d: "distinct (map idxKey (tblIndexes t))" "tableKey name \<notin> idxKey ` set (tblIndexes t)"
    using assms by (auto simp: stmt_ready_def stmt_keys_def)
  then show "x \<in> set (tblIndexes t) \<Longrightarrow> y \<in> set (tblIndexes t) \<Longrightarrow> idxKey x = idxKey y \<longleftrightarrow> x = y"
    by (auto simp: distinct_map inj_on_def)
  show "x \<in> set (tblIndexes t) \<Longrightarrow> idxKey x \<noteq> tableKey name" using d(2) by (metis imageI)
qed (use assms in \<open>auto simp: stmt_ready_def ready_def\<close>)

lemma idxKey_lower: "idxKey x = idxKey y \<longleftrightarrow> ToLower (idxName x) = ToLower (idxName y)"
  by (simp add: idxKey_def indexKey_def)

section \<open>One tree changes\<close>

lemma dml_ok_read:
  assumes "dml_ok bp G st0 t name J d es E" and m: "moved bp G st0 {} (dWork d) w"
  shows "dml_ok bp G st0 t name J (d\<lparr>dWork := w\<rparr>) es E"
proof -
  have rd: "stmt_ready bp G t name (wDB (dWork d))" using assms(1) by (simp add: dml_ok_def)
  note r = stmt_readyD [OF rd]
  show ?thesis
    using assms(1) moved_inv [OF m] stmt_ready_moved [OF m rd] moved_pagers [OF m] kept_table [OF m r(1)] kept_handle [OF m r(2)]
      kept_room_tree [OF moved_kept [OF m r(2)]]
    by (simp add: dml_ok_def)
qed

lemma dml_ok_table:
  assumes "dml_ok bp G st0 t name J d es E" and m: "moved bp G st0 {tableKey name} (dWork d) w"
    and "table_at bp (tableKey name) w es' bt"
  shows "dml_ok bp G st0 t name J (d\<lparr>dTree := bt, dWork := w\<rparr>) es' E"
proof -
  have rd: "stmt_ready bp G t name (wDB (dWork d))" using assms(1) by (simp add: dml_ok_def)
  note r = stmt_readyD [OF rd]
  show ?thesis
    using assms(1,3) moved_inv [OF m] stmt_ready_moved [OF m rd] moved_pagers [OF m] kept_handle [OF m r(2)]
      kept_room_tree [OF moved_kept [OF m r(2)]] r(3)
    by (simp add: dml_ok_def)
qed

lemma dml_ok_index:
  assumes "dml_ok bp G st0 t name J d es E" and m: "moved bp G st0 {idxKey x} (dWork d) w" and x: "x \<in> set (tblIndexes t)"
    and h: "handle_at bp (idxKey x) w j fs b"
  shows "dml_ok bp G st0 t name (J(x := j)) (d\<lparr>dCache := (dCache d)(ToLower (idxName x) \<mapsto> b), dWork := w\<rparr>) es (E(x := fs))"
proof -
  have rd: "stmt_ready bp G t name (wDB (dWork d))" using assms(1) by (simp add: dml_ok_def)
  note r = stmt_readyD [OF rd]
  have "room_tree bp (idxKey y) w ((J(x := j)) y) ((E(x := fs)) y) \<and> (\<forall>b'. ((dCache d)(ToLower (idxName x) \<mapsto> b)) (ToLower (idxName y)) = Some b' \<longrightarrow>
      handle_at bp (idxKey y) w ((J(x := j)) y) ((E(x := fs)) y) b')" if y: "y \<in> set (tblIndexes t)" for y
  proof (cases "y = x")
    case True
    then show ?thesis using h handle_at_room_tree by auto
  next
    case False
    then have ne: "idxKey y \<notin> {idxKey x}" using r(4) [OF x y] by simp
    then have "ToLower (idxName y) \<noteq> ToLower (idxName x)" using idxKey_lower [of y x] by simp
    moreover have "room_tree bp (idxKey y) (dWork d) (J y) (E y)"
      "\<And>b'. dCache d (ToLower (idxName y)) = Some b' \<Longrightarrow> handle_at bp (idxKey y) (dWork d) (J y) (E y) b'"
      using assms(1) y by (auto simp: dml_ok_def)
    ultimately show ?thesis
      using kept_handle [OF m r(2) [OF y] ne] kept_room_tree [OF moved_kept [OF m r(2) [OF y] ne]] False by simp
  qed
  moreover have "table_at bp (tableKey name) w es (dTree d)"
    using assms(1) kept_table [OF m r(1)] r(3) [OF x] by (auto simp: dml_ok_def)
  ultimately show ?thesis
    using assms(1) moved_inv [OF m] stmt_ready_moved [OF m rd] moved_pagers [OF m] by (simp add: dml_ok_def)
qed

section \<open>The operations\<close>

lemma idx_get_spec:
  assumes ok: "dml_ok bp G st0 t name J d es E" and x: "x \<in> set (tblIndexes t)"
  shows "\<exists>b d'. idx_get (idxName x) d = (Inr b, d') \<and> dml_ok bp G st0 t name J d' es E \<and> handle_at bp (idxKey x) (dWork d') (J x) (E x) b \<and>
    moved bp G st0 {} (dWork d) (dWork d') \<and> dCache d' (ToLower (idxName x)) = Some b"
proof (cases "dCache d (ToLower (idxName x))")
  case (Some b)
  then show ?thesis using ok x by (auto simp: idx_get_def Let_def dml_ok_def intro: moved_refl)
next
  case None
  let ?f = "idxKey x"
  have inv: "work_inv bp G st0 (dWork d)" and rd: "stmt_ready bp G t name (wDB (dWork d))" and ht: "room_tree bp ?f (dWork d) (J x) (E x)"
    using ok x by (auto simp: dml_ok_def)
  note r = stmt_readyD [OF rd]
  have ri: "ready bp G (getOrOpenIndex (idxName x)) (indexKey (idxName x)) (wDB (dWork d))" using r(5) [OF x] by (simp add: idxKey_def)
  obtain w1 where w1: "txPagerForIndex (idxName x) (dWork d) = (Inr ?f, w1)" "moved bp G st0 {} (dWork d) w1" "wPagers w1 ?f \<noteq> None"
    using tx_pager_for_moved [OF inv ri] by (auto simp: txPagerForIndex_def idxKey_def)
  obtain n u b where u: "tree_at bp ?f w1 n u b" "entries u = E x" "room_for bp ?f w1 (J x) n"
    using kept_room_tree [OF moved_kept [OF w1(2) r(2) [OF x]] ht] by (auto simp: room_tree_def)
  obtain w2 where w2: "btree_Open (work_store ?f) 1 w1 = (Inr b, w2)" "moved bp G st0 {} w1 w2"
    using tree_open [OF moved_inv [OF w1(2)] w1(3) u(1)] by blast
  have m: "moved bp G st0 {} (dWork d) w2" using moved_trans_same [OF w1(2) w2(2)] .
  have "kept bp ?f w1 w2" using moved_kept [OF w2(2) r(2) [OF x]] by simp
  then have h: "handle_at bp ?f w2 (J x) (E x) b"
    using moved_tree [OF w2(2) r(2) [OF x] _ u(1)] u(2) kept_room [OF _ u(3)] moved_pagers [OF w2(2) w1(3)] by (auto simp: handle_at_def)
  let ?d = "d\<lparr>dCache := (dCache d)(ToLower (idxName x) \<mapsto> b), dWork := w2\<rparr>"
  have "dml_ok bp G st0 t name (J(x := J x)) ?d es (E(x := E x))" by (rule dml_ok_index [OF ok moved_mono [OF m] x h]) simp
  moreover have "idx_get (idxName x) d = (Inr b, ?d)"
    using None w1(1) w2(1) by (simp add: idx_get_def Let_def on_work_def bindG_def)
  ultimately show ?thesis using h m by simp
qed

lemma tree_scan:
  assumes inv: "work_inv bp G st0 w" and f: "wPagers w f \<noteq> None" and t: "table_at bp f w es bt"
    and fuel: "2 ^ 64 < fuel" and sch: "validateSchema t = Inr ()"
  shows "\<exists>w'. scanVisible fuel (work_store f) bt t snap wh w = (Inr (scanned t snap wh es), w') \<and> moved bp G st0 {} w w'"
proof -
  obtain n u where u: "tree_at bp f w n u bt" "entries u = es" "no_empty_leaf (tl (leaves u))" using t by (auto simp: table_at_def)
  have bt: "btree_tree (wlive bp f w) (wview bp f w) n u bt" using u(1) by (simp add: tree_at_def)
  have h: "has_tree bp f w es" using u by (auto simp: has_tree_def)
  have "n < fuel" using tree_at_height [OF u(1)] fuel by simp
  moreover have "length (entries u) < fuel" using ascending_length [OF has_tree_ascending [OF h]] fuel u(2) by simp
  moreover have "\<forall>e\<in>set (entries u). good_row t (Value e)" using good_rows [OF sch has_tree_wf [OF h]] u(2) by simp
  ultimately show ?thesis
    using work.scanVisible_spec [OF work_ok_self [OF inv f] bt u(3)] read_moved [OF inv] u(2) by blast
qed

end
