(* ===== verification/DeleteRows.thy ===== *)
theory DeleteRows
  imports DmlTrees
begin

text \<open>
  DELETE: every selected row gets the deleting transaction in its header, and its entries leave
  the indexes. The next statement sees exactly the rows that the WHERE clause does not accept.
\<close>

section \<open>The index entries of one row\<close>

definition drop_key :: "Table \<Rightarrow> Value list \<Rightarrow> (IndexDef \<Rightarrow> Entry list) \<Rightarrow> IndexDef \<Rightarrow> Entry list" where
  "drop_key t vals E x = filter (\<lambda>e. index_key_of t vals x \<noteq> Some (Key e)) (E x)"

lemma drop_key_None: "index_key_of t vals x = None \<Longrightarrow> drop_key t vals E x = E x"
  by (simp add: drop_key_def)

definition on_indexes :: "IndexDef set \<Rightarrow> (IndexDef \<Rightarrow> Entry list) \<Rightarrow> (IndexDef \<Rightarrow> Entry list) \<Rightarrow> IndexDef \<Rightarrow> Entry list" where
  "on_indexes X E' E x = (if x \<in> X then E' x else E x)"

lemma dml_ok_cong: "dml_ok bp G st0 t name J d es E \<Longrightarrow> (\<And>x. x \<in> set (tblIndexes t) \<Longrightarrow> E x = E' x) \<Longrightarrow> dml_ok bp G st0 t name J d es E'"
  by (simp add: dml_ok_def)

lemma index_delete_spec:
  assumes ok: "dml_ok bp G st0 t name J d es E" and x: "x \<in> set (tblIndexes t)" and fuel: "2 ^ 32 \<le> fuel"
  shows "\<exists>b d'. bindG (idx_get (idxName x)) (\<lambda>bt. on_work (btree_Delete (work_store (idxKey x)) fuel bt k)) d = (Inr b, d') \<and>
    dml_ok bp G st0 t name J d' es (E(x := filter (\<lambda>e. Key e \<noteq> k) (E x))) \<and> moved bp G st0 {idxKey x} (dWork d) (dWork d')"
proof -
  obtain b d1 where d1: "idx_get (idxName x) d = (Inr b, d1)" "dml_ok bp G st0 t name J d1 es E" "handle_at bp (idxKey x) (dWork d1) (J x) (E x) b"
    "moved bp G st0 {} (dWork d) (dWork d1)" "dCache d1 (ToLower (idxName x)) = Some b"
    using idx_get_spec [OF ok x] by blast
  obtain n u where u: "wPagers (dWork d1) (idxKey x) \<noteq> None" "tree_at bp (idxKey x) (dWork d1) n u b" "entries u = E x"
    "room_for bp (idxKey x) (dWork d1) (J x) n"
    using d1(3) by (auto simp: handle_at_def)
  obtain w u' where w: "btree_Delete (work_store (idxKey x)) fuel b k (dWork d1) = (Inr (entry_lookup (entries u) k \<noteq> None), w)"
    "moved bp G st0 {idxKey x} (dWork d1) w" "tree_at bp (idxKey x) w n u' b" "entries u' = filter (\<lambda>e. Key e \<noteq> k) (entries u)"
    "wroom bp (idxKey x) (dWork d1) \<le> wroom bp (idxKey x) w"
    using tree_delete [OF moved_inv [OF d1(4)] u(1,2) fuel, of k] by blast
  have room: "room_for bp (idxKey x) w (J x) n" using u(4) w(5) by (simp add: room_for_def)
  have h: "handle_at bp (idxKey x) w (J x) (filter (\<lambda>e. Key e \<noteq> k) (E x)) b"
    using w(3,4) u(3) room moved_pagers [OF w(2) u(1)] by (auto simp: handle_at_def)
  have same: "d1\<lparr>dCache := (dCache d1)(ToLower (idxName x) \<mapsto> b), dWork := w\<rparr> = d1\<lparr>dWork := w\<rparr>"
    using d1(5) by (simp add: fun_upd_idem)
  have "moved bp G st0 {idxKey x} (dWork d) w" using moved_trans [OF d1(4) w(2)] by simp
  moreover have "bindG (idx_get (idxName x)) (\<lambda>bt. on_work (btree_Delete (work_store (idxKey x)) fuel bt k)) d =
      (Inr (entry_lookup (entries u) k \<noteq> None), d1\<lparr>dWork := w\<rparr>)"
    using d1(1) w(1) by (simp add: bindG_def on_work_def)
  ultimately show ?thesis using dml_ok_index [OF d1(2) w(2) x h] unfolding same by (auto simp: fun_upd_triv)
qed

lemma delete_entries_spec:
  assumes "dml_ok bp G st0 t name J d es E" and "set idxs \<subseteq> set (tblIndexes t)" and "distinct idxs" and fuel: "2 ^ 32 \<le> fuel"
  shows "\<exists>d'. delete_entries fuel t vals idxs d = (Inr (), d') \<and>
    dml_ok bp G st0 t name J d' es (on_indexes (set idxs) (drop_key t vals E) E) \<and> moved bp G st0 (idxKey ` set idxs) (dWork d) (dWork d')"
  using assms(1-3)
proof (induction idxs arbitrary: d E)
  case Nil
  then show ?case using dml_ok_cong by (auto simp: returnG_def on_indexes_def dml_ok_def intro: moved_refl)
next
  case (Cons x xs)
  show ?case
  proof (cases "index_key_of t vals x")
    case None
    obtain d' where d': "delete_entries fuel t vals xs d = (Inr (), d')"
      "dml_ok bp G st0 t name J d' es (on_indexes (set xs) (drop_key t vals E) E)" "moved bp G st0 (idxKey ` set xs) (dWork d) (dWork d')"
      using Cons.IH [OF Cons.prems(1)] Cons.prems by auto
    have "dml_ok bp G st0 t name J d' es (on_indexes (set (x # xs)) (drop_key t vals E) E)"
      by (rule dml_ok_cong [OF d'(2)]) (use None drop_key_None in \<open>auto simp: on_indexes_def\<close>)
    then show ?thesis using d'(1) None moved_mono [OF d'(3)] by auto
  next
    case (Some k)
    let ?E = "E(x := filter (\<lambda>e. Key e \<noteq> k) (E x))"
    obtain b d1 where d1: "bindG (idx_get (idxName x)) (\<lambda>bt. on_work (btree_Delete (work_store (idxKey x)) fuel bt k)) d = (Inr b, d1)"
      "dml_ok bp G st0 t name J d1 es ?E" "moved bp G st0 {idxKey x} (dWork d) (dWork d1)"
      using index_delete_spec [OF Cons.prems(1) _ fuel, of x k] Cons.prems(2) by auto
    obtain d' where d': "delete_entries fuel t vals xs d1 = (Inr (), d')"
      "dml_ok bp G st0 t name J d' es (on_indexes (set xs) (drop_key t vals ?E) ?E)" "moved bp G st0 (idxKey ` set xs) (dWork d1) (dWork d')"
      using Cons.IH [OF d1(2) _ _] Cons.prems(2,3) by (meson distinct.simps(2) set_subset_Cons subset_trans)
    have "dml_ok bp G st0 t name J d' es (on_indexes (set (x # xs)) (drop_key t vals E) E)"
      by (rule dml_ok_cong [OF d'(2)]) (use Cons.prems(3) Some in \<open>auto simp: on_indexes_def drop_key_def intro: filter_cong\<close>)
    moreover have "delete_entries fuel t vals (x # xs) d = (Inr (), d')"
      using d1(1) d'(1) Some by (auto simp: bindG_def idxKey_def split: prod.splits sum.splits)
    ultimately show ?thesis using moved_trans [OF d1(3) d'(3)] by auto
  qed
qed

section \<open>The rows\<close>

lemma length_set_xmax [simp]: "length raw = ValueSize \<Longrightarrow> length (set_xmax x raw) = ValueSize"
  unfolding set_xmax_def by (subst length_put) (simp_all add: ValueSize_def)

lemma dml_moved_I: "moved bp G st0 F (dWork d) (dWork d') \<Longrightarrow> F \<subseteq> set (stmt_keys t name) \<Longrightarrow> dml_moved bp G st0 t name d d'"
  unfolding dml_moved_def by (rule moved_mono)

lemma dml_moved_trans: "dml_moved bp G st0 t name d d' \<Longrightarrow> dml_moved bp G st0 t name d' d'' \<Longrightarrow> dml_moved bp G st0 t name d d''"
  unfolding dml_moved_def by (rule moved_trans_same)

text \<open>The table's tree gets a new value for a key that it has.\<close>

lemma tree_insert_replaces:
  assumes ok: "dml_ok bp G st0 t name J d es E" and k: "entry_lookup es k \<noteq> None" and v: "length v = ValueSize" and fuel: "2 ^ 32 \<le> fuel"
  shows "\<exists>d'. tree_insert fuel (tableKey name) k v d = (Inr (), d') \<and> dml_ok bp G st0 t name J d' (ins_entry k v es) E \<and>
    dml_moved bp G st0 t name d d'"
proof -
  let ?f = "tableKey name"
  obtain n u where u: "work_inv bp G st0 (dWork d)" "wPagers (dWork d) ?f \<noteq> None" "tree_at bp ?f (dWork d) n u (dTree d)"
    "entries u = es" "no_empty_leaf (tl (leaves u))"
    using ok by (auto simp: dml_ok_def table_at_def)
  obtain w u' where w: "btree_Insert (work_store ?f) fuel k v (dTree d, dWork d) = (Inr (), (dTree d, w))" "moved bp G st0 {?f} (dWork d) w"
    "tree_at bp ?f w n u' (dTree d)" "entries u' = ins_entry k v es" "map leaf_shape (leaves u') = map leaf_shape (leaves u)"
    using tree_replace [OF u(1-3) fuel v k [folded u(4)]] u(4) by blast
  have "no_empty_leaf (tl (leaves u'))" using no_empty_leaf_shape [OF w(5) u(5)] .
  then have "table_at bp ?f w (ins_entry k v es) (dTree d)" using w(3,4) by (auto simp: table_at_def)
  from dml_ok_table [OF ok w(2) this] have "dml_ok bp G st0 t name J (d\<lparr>dTree := dTree d, dWork := w\<rparr>) (ins_entry k v es) E" .
  moreover have "dml_moved bp G st0 t name d (d\<lparr>dTree := dTree d, dWork := w\<rparr>)"
    by (rule dml_moved_I [of _ _ _ "{?f}"]) (use w(2) in \<open>simp_all add: stmt_keys_def\<close>)
  ultimately show ?thesis using w(1) by (simp add: tree_insert_def)
qed

lemma tree_search_dml:
  assumes ok: "dml_ok bp G st0 t name J d es E" and k: "entry_lookup es k = Some raw" and fuel: "2 ^ 32 \<le> fuel"
  shows "\<exists>d'. on_work (btree_Search (work_store (tableKey name)) fuel (dTree d) k) d = (Inr (raw, True), d') \<and>
    dml_ok bp G st0 t name J d' es E \<and> dml_moved bp G st0 t name d d'"
proof -
  obtain n u where u: "work_inv bp G st0 (dWork d)" "wPagers (dWork d) (tableKey name) \<noteq> None"
    "tree_at bp (tableKey name) (dWork d) n u (dTree d)" "entries u = es"
    using ok by (auto simp: dml_ok_def table_at_def)
  obtain w where w: "btree_Search (work_store (tableKey name)) fuel (dTree d) k (dWork d) = (Inr (raw, True), w)" "moved bp G st0 {} (dWork d) w"
    using tree_search [OF u(1-3) fuel, of k] k u(4) by auto
  then show ?thesis using dml_ok_read [OF ok w(2)] dml_moved_I [of _ _ _ "{}" d "d\<lparr>dWork := w\<rparr>"] by (simp add: on_work_def)
qed

definition drop_keys :: "Table \<Rightarrow> scannedRow list \<Rightarrow> (IndexDef \<Rightarrow> Entry list) \<Rightarrow> IndexDef \<Rightarrow> Entry list" where
  "drop_keys t rs E x = filter (\<lambda>e. \<forall>r\<in>set rs. index_key_of t (srValues r) x \<noteq> Some (Key e)) (E x)"

lemma drop_keys_Cons: "drop_keys t rs (drop_key t (srValues r) E) x = drop_keys t (r # rs) E x"
  by (simp add: drop_keys_def drop_key_def conj_commute)

lemma dml_ok_has_tree: "dml_ok bp G st0 t name J d es E \<Longrightarrow> has_tree bp (tableKey name) (dWork d) es"
  by (auto simp: dml_ok_def table_at_def has_tree_def)

lemma entry_length: "wf_entries es \<Longrightarrow> entry_lookup es k = Some raw \<Longrightarrow> length raw = ValueSize"
  by (auto simp: wf_entries_def dest!: entry_lookup_set)

lemma applyDelete_spec:
  assumes "dml_ok bp G st0 t name J d es E" and "distinct (map srPk rs)" and "\<forall>r\<in>set rs. entry_lookup es (srPk r) \<noteq> None"
    and fuel: "2 ^ 32 \<le> fuel" and dx: "distinct (tblIndexes t)"
  shows "\<exists>d' es'. applyDelete fuel (tableKey name) t xid rs d = (Inr (), d') \<and> dml_ok bp G st0 t name J d' es' (drop_keys t rs E) \<and>
    dml_moved bp G st0 t name d d' \<and>
    entry_lookup es' = (\<lambda>k. if k \<in> srPk ` set rs then map_option (set_xmax xid) (entry_lookup es k) else entry_lookup es k)"
  using assms(1-3)
proof (induction rs arbitrary: d es E)
  case Nil
  have "dml_moved bp G st0 t name d d" using Nil(1) by (auto simp: dml_moved_def dml_ok_def intro: moved_refl)
  then show ?case using Nil(1) by (auto simp: returnG_def drop_keys_def)
next
  case (Cons r rs)
  obtain raw where raw: "entry_lookup es (srPk r) = Some raw" using Cons.prems(3) by auto
  have h: "has_tree bp (tableKey name) (dWork d) es" by (rule dml_ok_has_tree [OF Cons.prems(1)])
  have lr: "length (set_xmax xid raw) = ValueSize" using entry_length [OF has_tree_wf [OF h] raw] by simp
  let ?es = "ins_entry (srPk r) (set_xmax xid raw) es"
  obtain d1 where d1: "on_work (btree_Search (work_store (tableKey name)) fuel (dTree d) (srPk r)) d = (Inr (raw, True), d1)"
    "dml_ok bp G st0 t name J d1 es E" "dml_moved bp G st0 t name d d1"
    using tree_search_dml [OF Cons.prems(1) raw fuel] by blast
  obtain d2 where d2: "tree_insert fuel (tableKey name) (srPk r) (set_xmax xid raw) d1 = (Inr (), d2)" "dml_ok bp G st0 t name J d2 ?es E"
    "dml_moved bp G st0 t name d1 d2"
    using tree_insert_replaces [OF d1(2) _ lr fuel] raw by (metis option.distinct(1))
  obtain d3 where d3: "delete_entries fuel t (srValues r) (tblIndexes t) d2 = (Inr (), d3)"
    "dml_ok bp G st0 t name J d3 ?es (on_indexes (set (tblIndexes t)) (drop_key t (srValues r) E) E)"
    "moved bp G st0 (idxKey ` set (tblIndexes t)) (dWork d2) (dWork d3)"
    using delete_entries_spec [OF d2(2) subset_refl dx fuel] by blast
  have ok3: "dml_ok bp G st0 t name J d3 ?es (drop_key t (srValues r) E)"
    by (rule dml_ok_cong [OF d3(2)]) (simp add: on_indexes_def)
  have l: "entry_lookup ?es = (entry_lookup es)(srPk r \<mapsto> set_xmax xid raw)" by (rule entry_lookup_ins [OF has_tree_ascending [OF h]])
  have ds: "distinct (map srPk rs)" and pk: "\<forall>r\<in>set rs. entry_lookup ?es (srPk r) \<noteq> None" using Cons.prems(2,3) l by auto
  obtain d' es' where d': "applyDelete fuel (tableKey name) t xid rs d3 = (Inr (), d')"
    "dml_ok bp G st0 t name J d' es' (drop_keys t rs (drop_key t (srValues r) E))" "dml_moved bp G st0 t name d3 d'"
    "entry_lookup es' = (\<lambda>k. if k \<in> srPk ` set rs then map_option (set_xmax xid) (entry_lookup ?es k) else entry_lookup ?es k)"
    using Cons.IH [OF ok3 ds pk] by blast
  have "applyDelete fuel (tableKey name) t xid (r # rs) d = (Inr (), d')"
    using d1(1) d2(1) d3(1) d'(1) by (simp add: bindG_def)
  moreover have "dml_ok bp G st0 t name J d' es' (drop_keys t (r # rs) E)" by (rule dml_ok_cong [OF d'(2)]) (rule drop_keys_Cons)
  moreover have "dml_moved bp G st0 t name d2 d3" by (rule dml_moved_I [OF d3(3)]) (auto simp: stmt_keys_def)
  then have "dml_moved bp G st0 t name d d'" using d1(3) d2(3) d'(3) dml_moved_trans by blast
  moreover have "srPk r \<notin> srPk ` set rs" using Cons.prems(2) by simp
  then have "entry_lookup es' = (\<lambda>k. if k \<in> srPk ` set (r # rs) then map_option (set_xmax xid) (entry_lookup es k) else entry_lookup es k)"
    unfolding d'(4) l using raw by auto
  ultimately show ?case by blast
qed

end
