(* ===== verification/DeleteStmt.thy ===== *)
theory DeleteStmt
  imports DeleteRows
begin

text \<open>DELETE as a statement: its frame is that of UPDATE, too.\<close>

section \<open>Scan and modify\<close>

lemma modify_rows_spec:
  assumes inv: "work_inv bp G st0 w" and rd: "stmt_ready bp G t name (wDB w)" and tab: "table_at bp (tableKey name) w es bt"
    and idx: "\<forall>x\<in>set (tblIndexes t). room_tree bp (idxKey x) w (J x) (E x)" and fuel: "2 ^ 64 < fuel" and sch: "validateSchema t = Inr ()"
    and step: "\<And>d. dml_ok bp G st0 t name J d es E \<Longrightarrow>
       \<exists>d'. apply_rows (tableKey name) (scanned t snap wh es) d = (Inr (), d') \<and> dml_moved bp G st0 t name d d' \<and> P d'"
  shows "\<exists>d'. modify_rows fuel t name snap wh apply_rows w = (Inr (length (scanned t snap wh es)), dWork d') \<and>
    moved bp G st0 (set (stmt_keys t name)) w (dWork d') \<and> P d'"
proof -
  let ?f = "tableKey name"
  note r = stmt_readyD [OF rd]
  have rt: "ready bp G (getOrOpenTable name) ?f (wDB w)" using rd by (simp add: stmt_ready_def)
  obtain w1 where w1: "txPagerForTable name w = (Inr ?f, w1)" "moved bp G st0 {} w w1" "wPagers w1 ?f \<noteq> None"
    using tx_pager_for_moved [OF inv rt] by (auto simp: txPagerForTable_def)
  have t1: "table_at bp ?f w1 es bt" using kept_table [OF w1(2) r(1) _ tab] by simp
  then obtain n u where u: "tree_at bp ?f w1 n u bt" by (auto simp: table_at_def)
  obtain w2 where w2: "btree_Open (work_store ?f) 1 w1 = (Inr bt, w2)" "moved bp G st0 {} w1 w2"
    using tree_open [OF moved_inv [OF w1(2)] w1(3) u] by blast
  note m2 = moved_trans_same [OF w1(2) w2(2)]
  have t2: "table_at bp ?f w2 es bt" using kept_table [OF w2(2) r(1) _ t1] by simp
  obtain w3 where w3: "scanVisible fuel (work_store ?f) bt t snap wh w2 = (Inr (scanned t snap wh es), w3)" "moved bp G st0 {} w2 w3"
    using tree_scan [OF moved_inv [OF w2(2)] moved_pagers [OF w2(2) w1(3)] t2 fuel sch] by blast
  note m3 = moved_trans_same [OF m2 w3(2)]
  let ?d = "\<lparr>dWork = w3, dTree = bt, dCache = Map.empty\<rparr>"
  have "wPagers w3 ?f \<noteq> None" using moved_pagers [OF w3(2)] moved_pagers [OF w2(2) w1(3)] by blast
  then have ok: "dml_ok bp G st0 t name J ?d es E"
    using moved_inv [OF m3] stmt_ready_moved [OF m3 rd] kept_table [OF m3 r(1) _ tab] idx kept_room_tree [OF moved_kept [OF m3 r(2)]]
    by (simp add: dml_ok_def)
  obtain d' where d': "apply_rows ?f (scanned t snap wh es) ?d = (Inr (), d')" "dml_moved bp G st0 t name ?d d'" "P d'"
    using step [OF ok] by blast
  have "modify_rows fuel t name snap wh apply_rows w = (Inr (length (scanned t snap wh es)), dWork d')"
    using w1(1) w2(1) w3(1) d'(1) by (simp add: modify_rows_def bindG_def)
  moreover have "moved bp G st0 (set (stmt_keys t name)) w (dWork d')"
    using moved_trans [OF m3, of "set (stmt_keys t name)" "dWork d'"] d'(2) by (simp add: dml_moved_def)
  ultimately show ?thesis using d'(3) by blast
qed

section \<open>Committing\<close>

definition file_scans :: "(string \<Rightarrow> BufPager) \<Rightarrow> string \<Rightarrow> DB \<Rightarrow> Entry list \<Rightarrow> bool" where
  "file_scans bp f db es \<longleftrightarrow> (\<exists>bt. table_at bp f (at_rest db) es bt)"

definition files_scan :: "(string \<Rightarrow> BufPager) \<Rightarrow> Table \<Rightarrow> string \<Rightarrow> (IndexDef \<Rightarrow> nat) \<Rightarrow> DB \<Rightarrow> Entry list \<Rightarrow> (IndexDef \<Rightarrow> Entry list) \<Rightarrow> bool" where
  "files_scan bp t name J db es E \<longleftrightarrow> file_scans bp (tableKey name) db es \<and>
     (\<forall>d\<in>set (tblIndexes t). room_tree bp (idxKey d) (at_rest db) (J d) (E d))"

lemma files_scan_hold: "files_scan bp t name J db es E \<Longrightarrow> files_hold bp t name db es E"
  using room_tree_holds by (fastforce simp: files_scan_def files_hold_def file_scans_def file_holds_def table_at_def has_tree_def)

lemma file_is_scans:
  assumes "file_is bp G w (dbBuf db)" and "f \<in> G" and "table_at bp f w es bt"
  shows "file_scans bp f db es"
proof -
  have "buf_live (bp f) (dbBuf db) = wlive bp f w" "\<forall>j\<in>wlive bp f w. buf_view (bp f) (dbBuf db) j = wview bp f w j"
    using assms(1,2) by (simp_all add: file_is_def)
  then show ?thesis using assms(3) btree_tree_keeps unfolding file_scans_def table_at_def tree_at_def rest_view by (metis order_refl)
qed

text \<open>What an auto-commit statement with the modify phase does when no step of it fails.\<close>

lemma auto_modify_ok:
  assumes ok: "db_ok bp G db" "orders_ok ord" "log_ready G db rs (Suc (Suc k))" and op: "stmt_open bp G t name db"
    and tab: "files_scan bp t name J db es E" and sch: "validateSchema t = Inr ()" and fuel: "2 ^ 64 < fuel"
    and step: "\<And>d. dml_ok bp G (dbBuf db) t name J d es E \<Longrightarrow>
       \<exists>d' es' E' J'. apply_rows (nextXID (dbWal db)) (tableKey name) (scanned t (TakeSnapshot XIDNone (dbTxMgr db)) wh es) d = (Inr (), d') \<and>
         dml_moved bp G (dbBuf db) t name d d' \<and> dml_ok bp G (dbBuf db) t name J' d' es' E' \<and> R es' E'"
  shows "\<exists>db' rs' es' E'. auto_commit ord (\<lambda>xid. fresh_snapshot (\<lambda>snap. modify_rows fuel t name snap wh (apply_rows xid))) db =
      (Inr (length (scanned t (TakeSnapshot XIDNone (dbTxMgr db)) wh es)), db') \<and>
    wal_log (dbWal db') (rs @ rs') \<and> others_kept bp (G - set (stmt_keys t name)) db db' \<and> files_scan bp t name (\<lambda>_. 0) db' es' E' \<and> R es' E' \<and>
    dbTxMgr db' = MarkCommitted (nextXID (dbWal db)) (dbTxMgr db)"
proof -
  let ?x = "nextXID (dbWal db)" and ?F = "set (stmt_keys t name)" and ?snap = "TakeSnapshot XIDNone (dbTxMgr db)"
  let ?n = "length (scanned t ?snap wh es)"
  let ?body = "\<lambda>xid. fresh_snapshot (\<lambda>snap. modify_rows fuel t name snap wh (apply_rows xid))"
  define Q where "Q = (\<lambda>w. \<exists>d' es' E' J'. dWork d' = w \<and> dml_ok bp G (dbBuf db) t name J' d' es' E' \<and> R es' E')"
  obtain bt where bt: "table_at bp (tableKey name) (at_rest db) es bt" and ix: "\<forall>x\<in>set (tblIndexes t). room_tree bp (idxKey x) (at_rest db) (J x) (E x)"
    using tab by (auto simp: files_scan_def file_scans_def)
  have body: "\<exists>w'. ?body ?x (at_rest db1) = (Inr ?n, w') \<and> moved bp G (dbBuf db) ?F (at_rest db1) w' \<and> Q w'"
    if d1: "dbBuf db1 = dbBuf db" "db1 = db\<lparr>dbWal := dbWal db1\<rparr>" for db1
  proof -
    have inv: "work_inv bp G (dbBuf db) (at_rest db1)" using rest_inv [of bp G db1] ok(1) d1(1) by (simp add: db_ok_def)
    have rd: "stmt_ready bp G t name (wDB (at_rest db1))" using stmt_open_ready [OF d1(2) op] by simp
    have t1: "table_at bp (tableKey name) (at_rest db1) es bt" using bt d1(1) by (simp add: table_at_def tree_at_def rest_view)
    have i1: "\<forall>x\<in>set (tblIndexes t). room_tree bp (idxKey x) (at_rest db1) (J x) (E x)"
      using ix d1(1) by (simp add: room_tree_def room_for_def tree_at_def rest_view)
    have m1: "dbTxMgr db1 = dbTxMgr db" by (subst d1(2)) simp
    have "\<exists>d' :: Dml. modify_rows fuel t name ?snap wh (apply_rows ?x) (at_rest db1) = (Inr ?n, dWork d') \<and> moved bp G (dbBuf db) ?F (at_rest db1) (dWork d') \<and> Q (dWork d')"
    proof (rule modify_rows_spec [OF inv rd t1 i1 fuel sch, where P = "\<lambda>d'. Q (dWork d')"])
      fix d assume d: "dml_ok bp G (dbBuf db) t name J d es E"
      show "\<exists>d'. apply_rows ?x (tableKey name) (scanned t ?snap wh es) d = (Inr (), d') \<and> dml_moved bp G (dbBuf db) t name d d' \<and> Q (dWork d')"
        using step [OF d] unfolding Q_def by blast
    qed
    then show ?thesis using m1 by (auto simp: fresh_snapshot_def)
  qed
  obtain db' rs' w' where res: "auto_commit ord ?body db = (Inr ?n, db')" "Q w'" "wal_log (dbWal db') (rs @ rs')"
    "\<forall>g\<in>G - ?F. wlive bp g w' = buf_live (bp g) (dbBuf db) \<and> (\<forall>j\<in>wlive bp g w'. wview bp g w' j = buf_view (bp g) (dbBuf db) j)"
    "file_is bp G w' (dbBuf db')" "db' = db\<lparr>dbBuf := dbBuf db', dbWal := dbWal db', dbTxMgr := MarkCommitted ?x (dbTxMgr db)\<rparr>"
    using auto_commit_ok [where body = ?body and r = "Inr ?n" and F = ?F and Q = Q, OF ok body] by auto
  have FG: "?F \<subseteq> G" using op by (simp add: stmt_open_def)
  obtain d' es' E' J' where d': "dWork d' = w'" "dml_ok bp G (dbBuf db) t name J' d' es' E'" "R es' E'" using res(2) by (auto simp: Q_def)
  then have tt: "table_at bp (tableKey name) w' es' (dTree d')" "\<forall>x\<in>set (tblIndexes t). has_tree bp (idxKey x) w' (E' x)"
    using room_tree_holds by (fastforce simp: dml_ok_def)+
  have "files_scan bp t name (\<lambda>_. 0) db' es' E'"
    using file_is_scans [OF res(5) _ tt(1)] tt(2) file_is_holds [OF res(5)] FG has_tree_room_0
    by (auto simp: files_scan_def stmt_keys_def file_holds_def)
  moreover have "others_kept bp (G - ?F) db db'" by (rule others_kept_moved [OF res(5) _ res(4)]) blast
  moreover have "dbTxMgr db' = MarkCommitted ?x (dbTxMgr db)" by (subst res(6)) simp
  ultimately show ?thesis using res(1,3) d'(3) by blast
qed

end
