(* ===== verification/DeleteOk.thy ===== *)
theory DeleteOk
  imports DeleteStmt
begin

text \<open>
  What DELETE means for the rows that the next statement sees.
\<close>

lemma entry_lookup_iff:
  assumes "ascending es"
  shows "entry_lookup es k = Some raw \<longleftrightarrow> (\<exists>e\<in>set es. Key e = k \<and> Value e = raw)"
proof -
  have "distinct (map fst (map (\<lambda>e. (Key e, Value e)) es))"
    using assms unfolding ascending_def by (simp add: strict_sorted_iff comp_def)
  from map_of_eq_Some_iff [OF this] show ?thesis unfolding entry_lookup_def by auto
qed

lemma set_xmax_header:
  assumes "length raw = ValueSize"
  shows "row_xmin (set_xmax x raw) = row_xmin raw" "row_xmax (set_xmax x raw) = x"
proof -
  have "seg 0 4 (set_xmax x raw) = seg 0 4 raw"
    using assms unfolding set_xmax_def by (intro seg_put_before) (simp_all add: ValueSize_def)
  then show "row_xmin (set_xmax x raw) = row_xmin raw" by (simp add: row_xmin_def)
  have "seg 4 4 (set_xmax x raw) = le32 x"
    using assms unfolding set_xmax_def by (intro seg_put_same) (simp_all add: ValueSize_def)
  then show "row_xmax (set_xmax x raw) = x" by (simp add: row_xmax_def)
qed

definition delete_rows :: "Table \<Rightarrow> WhereClause option \<Rightarrow> (u64 \<rightharpoonup> Value list) \<Rightarrow> u64 \<rightharpoonup> Value list" where
  "delete_rows t wh m k = (case m k of None \<Rightarrow> None | Some vs \<Rightarrow> if where_holds t vs wh then None else Some vs)"

lemma scanned_pks:
  assumes "ascending es"
  shows "distinct (map srPk (scanned t snap wh es))"
    "k \<in> srPk ` set (scanned t snap wh es) \<longleftrightarrow> (\<exists>raw. entry_lookup es k = Some raw \<and> selects t snap wh raw)"
proof -
  have d: "distinct (map Key es)" using assms unfolding ascending_def by (simp add: strict_sorted_iff)
  have "map srPk (scanned t snap wh es) = map Key (filter (\<lambda>e. selects t snap wh (Value e)) es)"
    by (simp add: scanned_def row_of_def)
  then show "distinct (map srPk (scanned t snap wh es))" using d by (simp add: distinct_map_filter)
  have "srPk ` set (scanned t snap wh es) = Key ` {e \<in> set es. selects t snap wh (Value e)}"
    by (simp add: scanned_def row_of_def image_image)
  then show "k \<in> srPk ` set (scanned t snap wh es) \<longleftrightarrow> (\<exists>raw. entry_lookup es k = Some raw \<and> selects t snap wh raw)"
    unfolding entry_lookup_iff [OF assms] by (simp only:) blast
qed

lemma rows_seen_delete:
  assumes asc: "ascending es" and wf: "wf_entries es" and un: "unused x es"
    and l: "entry_lookup es' = (\<lambda>k. if k \<in> srPk ` set (scanned t (TakeSnapshot XIDNone m) wh es)
       then map_option (set_xmax x) (entry_lookup es k) else entry_lookup es k)"
  shows "rows_seen t (MarkCommitted x m) es' = delete_rows t wh (rows_seen t m es)"
proof
  fix k
  let ?s = "TakeSnapshot XIDNone m" and ?s' = "TakeSnapshot XIDNone (MarkCommitted x m)"
  show "rows_seen t (MarkCommitted x m) es' k = delete_rows t wh (rows_seen t m es) k"
  proof (cases "entry_lookup es k")
    case None
    then show ?thesis by (simp add: rows_seen_def delete_rows_def l)
  next
    case (Some raw)
    have len: "length raw = ValueSize" by (rule entry_length [OF wf Some])
    have x: "x \<noteq> XIDNone" "row_xmin raw \<noteq> x" "row_xmax raw \<noteq> x" using un entry_lookup_set [OF Some] by (auto simp: unused_def)
    have sel: "k \<in> srPk ` set (scanned t ?s wh es) \<longleftrightarrow> selects t ?s wh raw" using scanned_pks(2) [OF asc] Some by auto
    have gone: "\<not> row_visible ?s' (set_xmax x raw)"
      using set_xmax_header [OF len] x(1) by (simp add: row_visible_def IsVisible_iff sees_def TakeSnapshot_def MarkCommitted_def)
    show ?thesis
    proof (cases "selects t ?s wh raw")
      case True
      then have "entry_lookup es' k = Some (set_xmax x raw)" using l sel Some by simp
      then show ?thesis using True gone Some by (simp add: rows_seen_def delete_rows_def selects_def)
    next
      case False
      then have "entry_lookup es' k = Some raw" using l sel Some by simp
      then show ?thesis using False Some visible_commit [OF x(2,3), of m] by (simp add: rows_seen_def delete_rows_def selects_def)
    qed
  qed
qed

lemma stmt_open_distinct: "stmt_open bp G t name db \<Longrightarrow> distinct (tblIndexes t)"
  by (auto simp: stmt_open_def stmt_keys_def distinct_map)

text \<open>The number of rows that a statement reports.\<close>

definition rows_hit :: "Table \<Rightarrow> TxManager \<Rightarrow> WhereClause option \<Rightarrow> Entry list \<Rightarrow> u64 set" where
  "rows_hit t m wh es = {k. \<exists>vs. rows_seen t m es k = Some vs \<and> where_holds t vs wh}"

lemma rows_hit_scanned: "ascending es \<Longrightarrow> srPk ` set (scanned t (TakeSnapshot XIDNone m) wh es) = rows_hit t m wh es"
  by (rule set_eqI) (simp only: scanned_pks(2), auto simp: rows_hit_def rows_seen_def selects_def split: option.splits if_splits)

lemma rows_hit_length: "ascending es \<Longrightarrow> length (scanned t (TakeSnapshot XIDNone m) wh es) = card (rows_hit t m wh es)"
  using rows_hit_scanned [of es t m wh] scanned_pks(1) [of es t "TakeSnapshot XIDNone m" wh] distinct_card
  by (metis length_map list.set_map)

text \<open>An index keeps the entries whose key no deleted row had.\<close>

definition index_without :: "Table \<Rightarrow> TxManager \<Rightarrow> WhereClause option \<Rightarrow> Entry list \<Rightarrow> (IndexDef \<Rightarrow> Entry list) \<Rightarrow> IndexDef \<Rightarrow> Entry list" where
  "index_without t m wh es E x =
     filter (\<lambda>e. \<forall>k vs. rows_seen t m es k = Some vs \<longrightarrow> where_holds t vs wh \<longrightarrow> index_key_of t vs x \<noteq> Some (Key e)) (E x)"

lemma drop_keys_without:
  assumes "ascending es"
  shows "drop_keys t (scanned t (TakeSnapshot XIDNone m) wh es) E = index_without t m wh es E"
proof (rule ext)
  fix x
  let ?s = "TakeSnapshot XIDNone m"
  note l = entry_lookup_iff [OF assms]
  have "(\<exists>r\<in>set (scanned t ?s wh es). index_key_of t (srValues r) x = Some key) \<longleftrightarrow>
      (\<exists>k vs. rows_seen t m es k = Some vs \<and> where_holds t vs wh \<and> index_key_of t vs x = Some key)" (is "?A \<longleftrightarrow> ?B") for key
  proof
    assume ?A
    then obtain e where e: "e \<in> set es" "selects t ?s wh (Value e)" "index_key_of t (row_values t (Value e)) x = Some key"
      by (auto simp: scanned_def row_of_def)
    moreover have "entry_lookup es (Key e) = Some (Value e)" using l e(1) by blast
    ultimately have "rows_seen t m es (Key e) = Some (row_values t (Value e))" by (simp add: rows_seen_def selects_def)
    then show ?B using e by (auto simp: selects_def)
  next
    assume ?B
    then obtain k vs raw where "entry_lookup es k = Some raw" "row_visible ?s raw" "vs = row_values t raw" "where_holds t vs wh"
      "index_key_of t vs x = Some key"
      by (auto simp: rows_seen_def split: option.splits if_splits)
    then show ?A using l by (force simp: scanned_def row_of_def selects_def)
  qed
  then show "drop_keys t (scanned t ?s wh es) E x = index_without t m wh es E x"
    unfolding drop_keys_def index_without_def by (intro filter_cong refl) blast
qed

lemma autoCommitDelete_ok:
  assumes ok: "db_ok bp G db" "orders_ok ord" "log_ready G db rs (Suc (Suc k))" and op: "stmt_open bp G t name db"
    and tab: "files_scan bp t name J db es E" and sch: "validateSchema t = Inr ()"
    and un: "unused (nextXID (dbWal db)) es" and fuel: "2 ^ 64 < fuel"
  shows "\<exists>db' rs' es'. autoCommitDelete ord fuel t name wh db = (Inr (card (rows_hit t (dbTxMgr db) wh es)), db') \<and>
    wal_log (dbWal db') (rs @ rs') \<and> others_kept bp (G - set (stmt_keys t name)) db db' \<and>
    files_scan bp t name (\<lambda>_. 0) db' es' (index_without t (dbTxMgr db) wh es E) \<and>
    rows_seen t (dbTxMgr db') es' = delete_rows t wh (rows_seen t (dbTxMgr db) es)"
proof -
  let ?x = "nextXID (dbWal db)" and ?m = "dbTxMgr db"
  let ?rows = "scanned t (TakeSnapshot XIDNone ?m) wh es"
  have h: "has_tree bp (tableKey name) (at_rest db) es" using files_scan_hold [OF tab] by (simp add: files_hold_def file_holds_def)
  note asc = has_tree_ascending [OF h] and wf = has_tree_wf [OF h]
  have f32: "2 ^ 32 \<le> fuel" using fuel by simp
  define R where "R = (\<lambda>es' E'. E' = drop_keys t ?rows E \<and>
    entry_lookup es' = (\<lambda>k. if k \<in> srPk ` set ?rows then map_option (set_xmax ?x) (entry_lookup es k) else entry_lookup es k))"
  have pk: "\<forall>r\<in>set ?rows. entry_lookup es (srPk r) \<noteq> None" using scanned_pks(2) [OF asc, of _ t "TakeSnapshot XIDNone ?m" wh] by blast
  obtain db' rs' es' E' where res: "auto_commit ord (\<lambda>xid. fresh_snapshot (\<lambda>snap. modify_rows fuel t name snap wh (\<lambda>key. applyDelete fuel key t xid))) db =
      (Inr (length ?rows), db')" "wal_log (dbWal db') (rs @ rs')" "others_kept bp (G - set (stmt_keys t name)) db db'"
    "files_scan bp t name (\<lambda>_. 0) db' es' E'" "R es' E'" "dbTxMgr db' = MarkCommitted ?x ?m"
    using auto_modify_ok [OF ok op tab sch fuel, where apply_rows = "\<lambda>xid key. applyDelete fuel key t xid" and R = R and wh = wh]
      applyDelete_spec [OF _ scanned_pks(1) [OF asc] pk f32 stmt_open_distinct [OF op]]
    unfolding R_def by blast
  have "rows_seen t (dbTxMgr db') es' = delete_rows t wh (rows_seen t ?m es)"
    using rows_seen_delete [OF asc wf un] res(5,6) by (simp add: R_def)
  moreover have "E' = index_without t ?m wh es E" using res(5) drop_keys_without [OF asc] by (simp add: R_def)
  ultimately show ?thesis
    using res(1-4) rows_hit_length [OF asc] by (auto simp: autoCommitDelete_def delete_body_def)
qed

end
