(* ===== verification/UpdateRows.thy ===== *)
theory UpdateRows
  imports DeleteOk
begin

text \<open>
  UPDATE: every selected row is replaced by the row with the new values, and each index whose
  column changed gets the new key instead of the old one. The key that an index gets is not
  checked for uniqueness: it takes over an entry that another row has.
\<close>

section \<open>The index entries of one row\<close>

definition upd_index :: "Table \<Rightarrow> u64 \<Rightarrow> Value list \<Rightarrow> Value list \<Rightarrow> (IndexDef \<Rightarrow> Entry list) \<Rightarrow> IndexDef \<Rightarrow> Entry list" where
  "upd_index t pk vals newVals E x =
     (case index_key_of t vals x of
        None \<Rightarrow> E x
      | Some old \<Rightarrow>
          (let new = IntVal (newVals ! the (ColIndex t (idxColumn x))) in
           if old = new then E x else ins_entry new (index_value pk) (filter (\<lambda>e. Key e \<noteq> old) (E x))))"

lemma room_after_insert:
  assumes "room_for bp k w (Suc j) n" and "wroom bp k w \<le> wroom bp k w' + (n + 2)" and "n' \<le> Suc n"
  shows "room_for bp k w' j n'"
proof -
  have "j * (n' + j + 2) \<le> j * (Suc n + j + 2)" by (rule mult_le_mono2) (use assms(3) in simp)
  also have "\<dots> + (n + 2) \<le> Suc j * (n + Suc j + 2)" by simp
  finally show ?thesis using assms(1,2) by (simp add: room_for_def)
qed

lemma room_for_now: "room_for bp k w (Suc j) n \<Longrightarrow> n + 2 \<le> wroom bp k w"
  by (simp add: room_for_def)

lemma dml_ok_mono:
  assumes "dml_ok bp G st0 t name J d es E" and "\<And>x. x \<in> set (tblIndexes t) \<Longrightarrow> J' x \<le> J x"
  shows "dml_ok bp G st0 t name J' d es E"
proof -
  have "room_tree bp k w i fs" if "room_tree bp k w j fs" "i \<le> j" for k w i j fs
    using that room_for_mono unfolding room_tree_def by blast
  moreover have "handle_at bp k w i fs b" if "handle_at bp k w j fs b" "i \<le> j" for k w i j fs b
    using that room_for_mono unfolding handle_at_def by blast
  ultimately show ?thesis using assms unfolding dml_ok_def by blast
qed

lemma index_insert_spec:
  assumes ok: "dml_ok bp G st0 t name J d es E" and x: "x \<in> set (tblIndexes t)" and c: "dCache d (ToLower (idxName x)) = Some b"
    and J: "J x = Suc j" and fuel: "2 ^ 32 \<le> fuel"
  shows "\<exists>d'. idx_insert fuel (idxName x) b k (index_value pk) d = (Inr (), d') \<and>
    dml_ok bp G st0 t name (J(x := j)) d' es (E(x := ins_entry k (index_value pk) (E x))) \<and> moved bp G st0 {idxKey x} (dWork d) (dWork d')"
proof -
  have inv: "work_inv bp G st0 (dWork d)" using ok by (simp add: dml_ok_def)
  have h: "handle_at bp (idxKey x) (dWork d) (J x) (E x) b" using ok x c unfolding dml_ok_def by blast
  obtain n u where u: "wPagers (dWork d) (idxKey x) \<noteq> None" "tree_at bp (idxKey x) (dWork d) n u b" "entries u = E x"
    "room_for bp (idxKey x) (dWork d) (Suc j) n"
    using h J by (auto simp: handle_at_def)
  obtain b' w n' u' where w: "btree_Insert (work_store (idxKey x)) fuel k (index_value pk) (b, dWork d) = (Inr (), (b', w))"
    "moved bp G st0 {idxKey x} (dWork d) w" "tree_at bp (idxKey x) w n' u' b'" "entries u' = ins_entry k (index_value pk) (entries u)"
    "n' \<le> Suc n" "wroom bp (idxKey x) (dWork d) \<le> wroom bp (idxKey x) w + (n + 2)"
    using tree_insert_new [OF inv u(1,2) fuel length_index_value room_for_now [OF u(4)], of k pk] by blast
  have "handle_at bp (idxKey x) w j (ins_entry k (index_value pk) (E x)) b'"
    using w(3,4) u(3) moved_pagers [OF w(2) u(1)] room_after_insert [OF u(4) w(6,5)] by (auto simp: handle_at_def)
  from dml_ok_index [OF ok w(2) x this] w(1,2) show ?thesis by (simp add: idx_insert_def idxKey_def)
qed

text \<open>Deleting leaves the handle in the cache.\<close>

lemma index_delete_cached:
  assumes ok: "dml_ok bp G st0 t name J d es E" and x: "x \<in> set (tblIndexes t)" and fuel: "2 ^ 32 \<le> fuel"
  shows "\<exists>b r d1 d'. idx_get (idxName x) d = (Inr b, d1) \<and> on_work (btree_Delete (work_store (idxKey x)) fuel b k) d1 = (Inr r, d') \<and>
    dml_ok bp G st0 t name J d' es (E(x := filter (\<lambda>e. Key e \<noteq> k) (E x))) \<and> moved bp G st0 {idxKey x} (dWork d) (dWork d') \<and>
    dCache d' (ToLower (idxName x)) = Some b"
proof -
  obtain b d1 where d1: "idx_get (idxName x) d = (Inr b, d1)" "dCache d1 (ToLower (idxName x)) = Some b"
    using idx_get_spec [OF ok x] by blast
  obtain r d' where d': "bindG (idx_get (idxName x)) (\<lambda>bt. on_work (btree_Delete (work_store (idxKey x)) fuel bt k)) d = (Inr r, d')"
    "dml_ok bp G st0 t name J d' es (E(x := filter (\<lambda>e. Key e \<noteq> k) (E x)))" "moved bp G st0 {idxKey x} (dWork d) (dWork d')"
    using index_delete_spec [OF ok x fuel] by blast
  then have run: "on_work (btree_Delete (work_store (idxKey x)) fuel b k) d1 = (Inr r, d')" using d1(1) by (simp add: bindG_def)
  then have "dCache d' = dCache d1" by (auto simp: on_work_def split: prod.splits)
  then show ?thesis using d1 d'(2,3) run by metis
qed

lemma index_update_spec:
  assumes ok: "dml_ok bp G st0 t name J d es E" and x: "x \<in> set (tblIndexes t)" and J: "J x = Suc j" and fuel: "2 ^ 32 \<le> fuel"
  shows "\<exists>d'. bindG (idx_get (idxName x)) (\<lambda>bt. bindG (on_work (btree_Delete (work_store (idxKey x)) fuel bt old)) (\<lambda>_.
      idx_insert fuel (idxName x) bt new (index_value pk))) d = (Inr (), d') \<and>
    dml_ok bp G st0 t name (J(x := j)) d' es (E(x := ins_entry new (index_value pk) (filter (\<lambda>e. Key e \<noteq> old) (E x)))) \<and>
    moved bp G st0 {idxKey x} (dWork d) (dWork d')"
proof -
  let ?E = "E(x := filter (\<lambda>e. Key e \<noteq> old) (E x))"
  obtain b r d1 d2 where d2: "idx_get (idxName x) d = (Inr b, d1)" "on_work (btree_Delete (work_store (idxKey x)) fuel b old) d1 = (Inr r, d2)"
    "dml_ok bp G st0 t name J d2 es ?E" "moved bp G st0 {idxKey x} (dWork d) (dWork d2)" "dCache d2 (ToLower (idxName x)) = Some b"
    using index_delete_cached [OF ok x fuel] by blast
  obtain d' where d': "idx_insert fuel (idxName x) b new (index_value pk) d2 = (Inr (), d')"
    "dml_ok bp G st0 t name (J(x := j)) d' es (?E(x := ins_entry new (index_value pk) (?E x)))" "moved bp G st0 {idxKey x} (dWork d2) (dWork d')"
    using index_insert_spec [OF d2(3) x d2(5) J fuel] by blast
  then show ?thesis using d2(1,2) moved_trans_same [OF d2(4) d'(3)] by (simp add: bindG_def)
qed

lemma update_entries_spec:
  assumes "dml_ok bp G st0 t name J d es E" and "set idxs \<subseteq> set (tblIndexes t)" and "distinct idxs" and fuel: "2 ^ 32 \<le> fuel"
    and "\<And>x. x \<in> set idxs \<Longrightarrow> J x = Suc (J' x)" and "\<And>x. x \<notin> set idxs \<Longrightarrow> J x = J' x"
  shows "\<exists>d'. update_entries fuel t pk vals newVals idxs d = (Inr (), d') \<and>
    dml_ok bp G st0 t name J' d' es (on_indexes (set idxs) (upd_index t pk vals newVals E) E) \<and> moved bp G st0 (idxKey ` set idxs) (dWork d) (dWork d')"
  using assms(1-3,5,6)
proof (induction idxs arbitrary: d E J)
  case Nil
  have "J = J'" using Nil(5) by auto
  then show ?case using Nil(1) dml_ok_cong by (auto simp: returnG_def on_indexes_def dml_ok_def intro: moved_refl)
next
  case (Cons x xs)
  have x: "x \<in> set (tblIndexes t)" "x \<notin> set xs" "set xs \<subseteq> set (tblIndexes t)" "distinct xs" and Jx: "J x = Suc (J' x)"
    using Cons.prems by auto
  let ?J = "J(x := J' x)"
  have J1: "?J y = Suc (J' y)" if "y \<in> set xs" for y using Cons.prems(4) [of y] that x(2) by auto
  have J2: "?J y = J' y" if "y \<notin> set xs" for y using Cons.prems(5) [of y] that by auto
  let ?new = "\<lambda>y. IntVal (newVals ! the (ColIndex t (idxColumn y)))"
  show ?case
  proof (cases "\<exists>old. index_key_of t vals x = Some old \<and> old \<noteq> ?new x")
    case False
    then have same: "upd_index t pk vals newVals E x = E x"
      "update_entries fuel t pk vals newVals (x # xs) d = update_entries fuel t pk vals newVals xs d"
      by (auto simp: upd_index_def Let_def split: option.split)
    have "dml_ok bp G st0 t name ?J d es E" by (rule dml_ok_mono [OF Cons.prems(1)]) (use Jx in simp)
    then obtain d' where d': "update_entries fuel t pk vals newVals xs d = (Inr (), d')"
      "dml_ok bp G st0 t name J' d' es (on_indexes (set xs) (upd_index t pk vals newVals E) E)" "moved bp G st0 (idxKey ` set xs) (dWork d) (dWork d')"
      using Cons.IH [OF _ x(3,4) J1 J2] by blast
    have "dml_ok bp G st0 t name J' d' es (on_indexes (set (x # xs)) (upd_index t pk vals newVals E) E)"
      by (rule dml_ok_cong [OF d'(2)]) (use same(1) in \<open>auto simp: on_indexes_def\<close>)
    then show ?thesis using d'(1) same(2) moved_mono [OF d'(3)] by auto
  next
    case True
    then obtain old where old: "index_key_of t vals x = Some old" "old \<noteq> ?new x" by blast
    let ?E = "E(x := ins_entry (?new x) (index_value pk) (filter (\<lambda>e. Key e \<noteq> old) (E x)))"
    obtain d1 where d1: "bindG (idx_get (idxName x)) (\<lambda>bt. bindG (on_work (btree_Delete (work_store (idxKey x)) fuel bt old)) (\<lambda>_.
        idx_insert fuel (idxName x) bt (?new x) (index_value pk))) d = (Inr (), d1)"
      "dml_ok bp G st0 t name ?J d1 es ?E" "moved bp G st0 {idxKey x} (dWork d) (dWork d1)"
      using index_update_spec [OF Cons.prems(1) x(1) Jx fuel] by blast
    obtain d' where d': "update_entries fuel t pk vals newVals xs d1 = (Inr (), d')"
      "dml_ok bp G st0 t name J' d' es (on_indexes (set xs) (upd_index t pk vals newVals ?E) ?E)" "moved bp G st0 (idxKey ` set xs) (dWork d1) (dWork d')"
      using Cons.IH [OF d1(2) x(3,4) J1 J2] by blast
    have "upd_index t pk vals newVals ?E y = upd_index t pk vals newVals E y" if "y \<in> set xs" for y
    proof -
      have "y \<noteq> x" using that x(2) by blast
      then show ?thesis by (cases "index_key_of t vals y") (simp_all add: upd_index_def Let_def)
    qed
    moreover have "upd_index t pk vals newVals E x = ?E x" using old by (simp add: upd_index_def)
    ultimately have "dml_ok bp G st0 t name J' d' es (on_indexes (set (x # xs)) (upd_index t pk vals newVals E) E)"
      by (intro dml_ok_cong [OF d'(2)]) (use x(2) in \<open>auto simp: on_indexes_def\<close>)
    moreover have "update_entries fuel t pk vals newVals (x # xs) d = (Inr (), d')"
      using d1(1) d'(1) old by (auto simp: bindG_def idxKey_def Let_def split: prod.splits sum.splits)
    ultimately show ?thesis using moved_trans [OF d1(3) d'(3)] by auto
  qed
qed

section \<open>The rows\<close>

definition new_raw :: "Table \<Rightarrow> updatePlan list \<Rightarrow> u32 \<Rightarrow> Value list \<Rightarrow> byte list" where
  "new_raw t plans xid vals = projr (encodeRow t (new_values plans vals) xid)"

definition upd_indexes :: "Table \<Rightarrow> updatePlan list \<Rightarrow> scannedRow list \<Rightarrow> (IndexDef \<Rightarrow> Entry list) \<Rightarrow> IndexDef \<Rightarrow> Entry list" where
  "upd_indexes t plans rs E = foldl (\<lambda>E r. upd_index t (srPk r) (srValues r) (new_values plans (srValues r)) E) E rs"

lemma length_new_values [simp]: "length (new_values plans vals) = length vals"
  unfolding new_values_def by (induction plans arbitrary: vals) auto

lemma new_raw_encode:
  assumes "validateSchema t = Inr ()" and "length vals = length (tblColumns t)"
  shows "encodeRow t (new_values plans vals) xid = Inr (new_raw t plans xid vals)" "length (new_raw t plans xid vals) = ValueSize"
proof -
  have l: "length (new_values plans vals) = length (tblColumns t)" using assms(2) by simp
  then show e: "encodeRow t (new_values plans vals) xid = Inr (new_raw t plans xid vals)"
    using encodeRow_eq [OF assms(1) l, of xid] by (simp add: new_raw_def)
  show "length (new_raw t plans xid vals) = ValueSize" by (rule decodeRow_encoded(4) [OF e assms(1) l])
qed

lemma applyUpdate_spec:
  assumes "dml_ok bp G st0 t name (\<lambda>_. length rs) d es E" and "distinct (map srPk rs)"
    and "\<forall>r\<in>set rs. entry_lookup es (srPk r) \<noteq> None \<and> length (srValues r) = length (tblColumns t)"
    and fuel: "2 ^ 32 \<le> fuel" and dx: "distinct (tblIndexes t)" and sch: "validateSchema t = Inr ()"
  shows "\<exists>d' es'. applyUpdate fuel (tableKey name) t xid plans rs d = (Inr (), d') \<and>
    dml_ok bp G st0 t name (\<lambda>_. 0) d' es' (upd_indexes t plans rs E) \<and> dml_moved bp G st0 t name d d' \<and>
    entry_lookup es' = (\<lambda>k. case find (\<lambda>r. srPk r = k) rs of Some r \<Rightarrow> Some (new_raw t plans xid (srValues r)) | None \<Rightarrow> entry_lookup es k)"
  using assms(1-3)
proof (induction rs arbitrary: d es E)
  case Nil
  have "dml_moved bp G st0 t name d d" using Nil(1) by (auto simp: dml_moved_def dml_ok_def intro: moved_refl)
  then show ?case using Nil(1) by (auto simp: returnG_def upd_indexes_def)
next
  case (Cons r rs)
  let ?nv = "new_values plans (srValues r)" and ?raw = "new_raw t plans xid (srValues r)"
  have lv: "length (srValues r) = length (tblColumns t)" and pkr: "entry_lookup es (srPk r) \<noteq> None" using Cons.prems(3) by auto
  note enc = new_raw_encode [OF sch lv, of plans xid]
  have h: "has_tree bp (tableKey name) (dWork d) es" by (rule dml_ok_has_tree [OF Cons.prems(1)])
  let ?es = "ins_entry (srPk r) ?raw es"
  obtain d1 where d1: "tree_insert fuel (tableKey name) (srPk r) ?raw d = (Inr (), d1)"
    "dml_ok bp G st0 t name (\<lambda>_. length (r # rs)) d1 ?es E" "dml_moved bp G st0 t name d d1"
    using tree_insert_replaces [OF Cons.prems(1) pkr enc(2) fuel] by blast
  have ok1: "dml_ok bp G st0 t name (\<lambda>x. if x \<in> set (tblIndexes t) then Suc (length rs) else length rs) d1 ?es E"
    by (rule dml_ok_mono [OF d1(2)]) simp
  obtain d2 where d2: "update_entries fuel t (srPk r) (srValues r) ?nv (tblIndexes t) d1 = (Inr (), d2)"
    "dml_ok bp G st0 t name (\<lambda>_. length rs) d2 ?es (on_indexes (set (tblIndexes t)) (upd_index t (srPk r) (srValues r) ?nv E) E)"
    "moved bp G st0 (idxKey ` set (tblIndexes t)) (dWork d1) (dWork d2)"
    using update_entries_spec [OF ok1 subset_refl dx fuel, where J' = "\<lambda>_. length rs" and pk = "srPk r" and vals = "srValues r" and newVals = ?nv] by auto
  have ok2: "dml_ok bp G st0 t name (\<lambda>_. length rs) d2 ?es (upd_index t (srPk r) (srValues r) ?nv E)"
    by (rule dml_ok_cong [OF d2(2)]) (simp add: on_indexes_def)
  have l: "entry_lookup ?es = (entry_lookup es)(srPk r \<mapsto> ?raw)" by (rule entry_lookup_ins [OF has_tree_ascending [OF h]])
  have ds: "distinct (map srPk rs)"
    and pk: "\<forall>r\<in>set rs. entry_lookup ?es (srPk r) \<noteq> None \<and> length (srValues r) = length (tblColumns t)"
    using Cons.prems(2,3) l by auto
  obtain d' es' where d': "applyUpdate fuel (tableKey name) t xid plans rs d2 = (Inr (), d')"
    "dml_ok bp G st0 t name (\<lambda>_. 0) d' es' (upd_indexes t plans rs (upd_index t (srPk r) (srValues r) ?nv E))" "dml_moved bp G st0 t name d2 d'"
    "entry_lookup es' = (\<lambda>k. case find (\<lambda>r. srPk r = k) rs of Some r \<Rightarrow> Some (new_raw t plans xid (srValues r)) | None \<Rightarrow> entry_lookup ?es k)"
    using Cons.IH [OF ok2 ds pk] by blast
  have "applyUpdate fuel (tableKey name) t xid plans (r # rs) d = (Inr (), d')"
    using d1(1) d2(1) d'(1) enc(1) by (simp add: bindG_def Let_def)
  moreover have "dml_moved bp G st0 t name d1 d2" by (rule dml_moved_I [OF d2(3)]) (auto simp: stmt_keys_def)
  then have "dml_moved bp G st0 t name d d'" using d1(3) d'(3) dml_moved_trans by blast
  moreover have "find (\<lambda>q. srPk q = srPk r) rs = None" using Cons.prems(2) by (simp add: find_None_iff) (metis image_eqI)
  then have "entry_lookup es' = (\<lambda>k. case find (\<lambda>r. srPk r = k) (r # rs) of
      Some r \<Rightarrow> Some (new_raw t plans xid (srValues r)) | None \<Rightarrow> entry_lookup es k)"
    unfolding d'(4) l by (auto simp: fun_eq_iff split: option.split)
  ultimately show ?case using d'(2) by (auto simp: upd_indexes_def)
qed

end
