(* ===== verification/UpdateOk.thy ===== *)
theory UpdateOk
  imports UpdateRows
begin

text \<open>What UPDATE means for the rows that the next statement sees.\<close>

definition update_rows :: "Table \<Rightarrow> updatePlan list \<Rightarrow> WhereClause option \<Rightarrow> (u64 \<rightharpoonup> Value list) \<Rightarrow> u64 \<rightharpoonup> Value list" where
  "update_rows t plans wh m k =
     (case m k of
        None \<Rightarrow> None
      | Some vs \<Rightarrow> Some (if where_holds t vs wh then map2 stored (tblColumns t) (new_values plans vs) else vs))"

lemma find_scanned:
  assumes "ascending es"
  shows "find (\<lambda>r. srPk r = k) (scanned t snap wh es) =
    (case entry_lookup es k of
       None \<Rightarrow> None
     | Some raw \<Rightarrow> if selects t snap wh raw then Some \<lparr>srPk = k, srValues = row_values t raw\<rparr> else None)"
proof (cases "find (\<lambda>r. srPk r = k) (scanned t snap wh es)")
  case None
  then have "k \<notin> srPk ` set (scanned t snap wh es)" by (auto simp: find_None_iff)
  then show ?thesis using None scanned_pks(2) [OF assms] by (auto split: option.splits)
next
  case (Some r)
  then have "r \<in> set (scanned t snap wh es)" "srPk r = k" by (auto simp: find_Some_iff)
  then obtain e where e: "e \<in> set es" "selects t snap wh (Value e)" "r = row_of t e" "Key e = k"
    by (auto simp: scanned_def row_of_def)
  then have "entry_lookup es k = Some (Value e)" using entry_lookup_iff [OF assms] by blast
  then show ?thesis using Some e by (auto simp: row_of_def)
qed

lemma rows_seen_update:
  assumes asc: "ascending es" and wf: "wf_entries es" and un: "unused x es" and sch: "validateSchema t = Inr ()"
    and l: "entry_lookup es' = (\<lambda>k. case find (\<lambda>r. srPk r = k) (scanned t (TakeSnapshot XIDNone m) wh es) of
       Some r \<Rightarrow> Some (new_raw t plans x (srValues r)) | None \<Rightarrow> entry_lookup es k)"
  shows "rows_seen t (MarkCommitted x m) es' = update_rows t plans wh (rows_seen t m es)"
proof
  fix k
  let ?s = "TakeSnapshot XIDNone m" and ?s' = "TakeSnapshot XIDNone (MarkCommitted x m)"
  show "rows_seen t (MarkCommitted x m) es' k = update_rows t plans wh (rows_seen t m es) k"
  proof (cases "entry_lookup es k")
    case None
    then show ?thesis by (simp add: rows_seen_def update_rows_def l find_scanned [OF asc])
  next
    case (Some raw)
    let ?nv = "new_values plans (row_values t raw)" and ?new = "new_raw t plans x (row_values t raw)"
    have lv: "length (row_values t raw) = length (tblColumns t)" "length ?nv = length (tblColumns t)"
      using good_rowI [OF sch entry_length [OF wf Some]] by (simp_all add: good_row_def)
    have x: "row_xmin raw \<noteq> x" "row_xmax raw \<noteq> x" using un entry_lookup_set [OF Some] by (auto simp: unused_def)
    note d = decodeRow_encoded [OF new_raw_encode(1) [OF sch lv(1)] sch lv(2)]
    have new: "row_visible ?s' ?new" "row_values t ?new = map2 stored (tblColumns t) ?nv"
      using d by (simp_all add: row_visible_def IsVisible_iff sees_def TakeSnapshot_def MarkCommitted_def row_values_def)
    show ?thesis
    proof (cases "selects t ?s wh raw")
      case True
      then have "entry_lookup es' k = Some ?new" using l Some by (simp add: find_scanned [OF asc])
      then show ?thesis using True new Some by (simp add: rows_seen_def update_rows_def selects_def)
    next
      case False
      then have "entry_lookup es' k = Some raw" using l Some by (simp add: find_scanned [OF asc])
      then show ?thesis using False Some visible_commit [OF x, of m] by (simp add: rows_seen_def update_rows_def selects_def)
    qed
  qed
qed

lemma autoCommitUpdate_ok:
  assumes ok: "db_ok bp G db" "orders_ok ord" "log_ready G db rs (Suc (Suc k))" and op: "stmt_open bp G t name db"
    and tab: "files_scan bp t name (\<lambda>_. card (rows_hit t (dbTxMgr db) wh es)) db es E" and sch: "validateSchema t = Inr ()"
    and un: "unused (nextXID (dbWal db)) es" and fuel: "2 ^ 64 < fuel"
  shows "\<exists>db' rs' es'. autoCommitUpdate ord fuel t name wh plans db = (Inr (card (rows_hit t (dbTxMgr db) wh es)), db') \<and>
    wal_log (dbWal db') (rs @ rs') \<and> others_kept bp (G - set (stmt_keys t name)) db db' \<and>
    files_scan bp t name (\<lambda>_. 0) db' es' (upd_indexes t plans (scanned t (TakeSnapshot XIDNone (dbTxMgr db)) wh es) E) \<and>
    rows_seen t (dbTxMgr db') es' = update_rows t plans wh (rows_seen t (dbTxMgr db) es)"
proof -
  let ?x = "nextXID (dbWal db)" and ?m = "dbTxMgr db"
  let ?rows = "scanned t (TakeSnapshot XIDNone ?m) wh es"
  have h: "has_tree bp (tableKey name) (at_rest db) es" using files_scan_hold [OF tab] by (simp add: files_hold_def file_holds_def)
  note asc = has_tree_ascending [OF h] and wf = has_tree_wf [OF h]
  have f32: "2 ^ 32 \<le> fuel" using fuel by simp
  note n = rows_hit_length [OF asc, of t ?m wh]
  define R where "R = (\<lambda>es' E'. E' = upd_indexes t plans ?rows E \<and>
    entry_lookup es' = (\<lambda>k. case find (\<lambda>r. srPk r = k) ?rows of Some r \<Rightarrow> Some (new_raw t plans ?x (srValues r)) | None \<Rightarrow> entry_lookup es k))"
  have pk: "\<forall>r\<in>set ?rows. entry_lookup es (srPk r) \<noteq> None \<and> length (srValues r) = length (tblColumns t)"
  proof
    fix r assume r: "r \<in> set ?rows"
    then obtain e where "e \<in> set es" "r = row_of t e" by (auto simp: scanned_def)
    then have "length (srValues r) = length (tblColumns t)" using good_rows [OF sch wf] by (auto simp: good_row_def row_of_def)
    moreover have "entry_lookup es (srPk r) \<noteq> None" using scanned_pks(2) [OF asc, of "srPk r"] r by blast
    ultimately show "entry_lookup es (srPk r) \<noteq> None \<and> length (srValues r) = length (tblColumns t)" by simp
  qed
  obtain db' rs' es' E' where res: "auto_commit ord (\<lambda>xid. fresh_snapshot (\<lambda>snap. modify_rows fuel t name snap wh (\<lambda>key. applyUpdate fuel key t xid plans))) db =
      (Inr (length ?rows), db')" "wal_log (dbWal db') (rs @ rs')" "others_kept bp (G - set (stmt_keys t name)) db db'"
    "files_scan bp t name (\<lambda>_. 0) db' es' E'" "R es' E'" "dbTxMgr db' = MarkCommitted ?x ?m"
    using auto_modify_ok [OF ok op tab [folded n] sch fuel, where apply_rows = "\<lambda>xid key. applyUpdate fuel key t xid plans" and R = R and wh = wh]
      applyUpdate_spec [OF _ scanned_pks(1) [OF asc] pk f32 stmt_open_distinct [OF op] sch]
    unfolding R_def by blast
  have "rows_seen t (dbTxMgr db') es' = update_rows t plans wh (rows_seen t ?m es)"
    using rows_seen_update [OF asc wf un sch] res(5,6) by (simp add: R_def)
  then show ?thesis using res n by (auto simp: autoCommitUpdate_def update_body_def R_def)
qed

end
