(* ===== verification/DmlCorrect.thy ===== *)
theory DmlCorrect
  imports ExampleDb UpdateOk
begin

text \<open>The properties of the writing statements outside explicit transactions.\<close>

section \<open>INSERT\<close>

lemma execInsert_auto: "execInsert ord fuel gid name vals db = autoCommitInsert ord fuel t name (IntVal (vals ! pk)) vals db"
  if "GetTable (dbCatalog db) name = Some t" "length vals = length (tblColumns t)" "check_types (tblColumns t) vals = Inr ()"
    "PrimaryKeyIndex t = Some pk" "goroutineTx gid db = None"
  using that by (simp add: execInsert_def)

lemma ex_xid: "nextXID (dbWal ex_db) = 1" "dbTxMgr ex_db = TxManager_New" "goroutineTx g ex_db = None"
proof -
  have "nextXID (wal_Open empty_file) = 1" by code_simp
  then show "nextXID (dbWal ex_db) = 1" by (simp add: ex_db_def)
qed (simp_all add: ex_db_def goroutineTx_def)

text \<open>C4: INSERT outside a transaction refines the update of a map: on a consistent database whose files for
  the table and its indexes are open, a row with the right number and types of values is added to the rows that
  the next statement sees, under its primary key, each index gets the entry for the row, and trees in other files
  are untouched. If an index already has the row's value, the statement fails, and every tree and the set of
  committed transactions are as before, although the row had already been put into the table's tree.\<close>

theorem execInsert_refines:
  assumes "db_ok bp G db" and "orders_ok ord" and "log_ready G db rs (Suc (Suc k))" and "stmt_open bp G t name db"
    and "GetTable (dbCatalog db) name = Some t" and "validateSchema t = Inr ()" and "length vals = length (tblColumns t)"
    and "check_types (tblColumns t) vals = Inr ()" and "PrimaryKeyIndex t = Some pk" and "goroutineTx gid db = None"
    and "files_room bp t name db es E" and "unused (nextXID (dbWal db)) es" and "2 ^ 32 \<le> fuel"
  shows "\<exists>db' rs'. wal_log (dbWal db') (rs @ rs') \<and> others_kept bp (G - set (stmt_keys t name)) db db' \<and>
    (case find (clash t vals E) (tblIndexes t) of
       Some d \<Rightarrow> execInsert ord fuel gid name vals db = (Inl (UniqueViolation (idxName d) (the (index_key_of t vals d))), db') \<and>
         files_hold bp t name db' es E \<and> db' = db\<lparr>dbBuf := dbBuf db', dbWal := dbWal db'\<rparr>
     | None \<Rightarrow> execInsert ord fuel gid name vals db = (Inr (), db') \<and>
         (\<exists>es'. files_hold bp t name db' es' (index_after t vals (IntVal (vals ! pk)) E) \<and>
           rows_seen t (dbTxMgr db') es' =
             (rows_seen t (dbTxMgr db) es)(IntVal (vals ! pk) \<mapsto> map2 stored (tblColumns t) vals)))"
  unfolding execInsert_auto [OF assms(5,7-10)] by (rule autoCommitInsert_ok [OF assms(1-4,11,6,7,12,13)])

lemma ex_unused: "unused 1 []"
  by (simp add: unused_def XIDNone_def)

text \<open>The first INSERT into the example table.\<close>

theorem execInsert_refines_witness:
  "\<exists>ord db' es'. execInsert ord (2 ^ 32) 7 ''t'' [intValue 3, intValue 40] ex_db = (Inr (), db') \<and>
     file_holds ex_files ''t'' db' es' \<and> file_holds ex_files ''idx:i'' db' [\<lparr>Key = 40, Value = index_value 3\<rparr>] \<and>
     rows_seen ex_table (dbTxMgr db') es' = [3 \<mapsto> [intValue 3, intValue 40]]"
proof -
  let ?vs = "[intValue 3, intValue 40]"
  obtain ord where ord: "orders_ok ord" using orders_exist by blast
  have log: "log_ready ex_keys ex_db [] (Suc (Suc 98))" using ex_log by simp
  have un: "unused (nextXID (dbWal ex_db)) []" using ex_unused ex_xid(1) by simp
  have len: "length ?vs = length (tblColumns ex_table)" "check_types (tblColumns ex_table) ?vs = Inr ()"
    by (simp_all add: ex_table_def intValue_def TypeInt_def)
  have key: "index_key_of ex_table ?vs ex_index = Some 40"
    by (simp add: index_key_of_def ColIndex_def ex_table_def ex_index_def intValue_def)
  have none: "find (clash ex_table ?vs (\<lambda>_. [])) (tblIndexes ex_table) = None"
    by (simp add: clash_def key entry_lookup_def)
  have st: "map2 stored (tblColumns ex_table) ?vs = ?vs"
    by (simp add: ex_table_def stored_def intValue_def TypeInt_def)
  have rows: "rows_seen ex_table (dbTxMgr ex_db) [] = Map.empty" by (simp add: rows_seen_def fun_eq_iff entry_lookup_def)
  have idx: "index_after ex_table ?vs 3 (\<lambda>_. []) ex_index = [\<lparr>Key = 40, Value = index_value 3\<rparr>]"
    by (simp add: index_after_def key)
  have pk: "IntVal (?vs ! 0) = 3" by (simp add: intValue_def)
  show ?thesis
    using execInsert_refines [OF ex_db_ok ord log ex_open ex_GetTable ex_valid(1) len ex_valid(2) ex_xid(3) [of 7] ex_room un order_refl]
    unfolding none option.simps st rows pk files_hold_def by (simp add: idx) blast
qed

section \<open>An example with one row\<close>

text \<open>A page file whose tree is one leaf.\<close>

lemma leaf_pager:
  assumes "length es \<le> LeafOrder" and "wf_entries es" and "ascending es"
  shows "\<exists>pg u bt. pager_inv pg \<and> btree_tree (pager_live pg) (pager_view pg) 0 u bt \<and> headerPage bt = 1 \<and> entries u = es \<and>
    no_empty_leaf (tl (leaves u)) \<and> 2 ^ 32 - 4 \<le> pager_room pg"
proof -
  obtain bt u where t: "pager_inv ex_pager" "btree_tree (pager_live ex_pager) (pager_view ex_pager) 0 u bt" "headerPage bt = 1"
    "2 ^ 32 - 4 \<le> pager_room ex_pager"
    using ex_pager_tree by (auto simp: btree_rel_def)
  obtain i fs nx where u: "u = BLeaf i fs nx" using t(2) by (cases u) (auto simp: btree_tree_def)
  have i: "i \<in> pager_live ex_pager" "nx = 0" "headerPage bt \<in> pager_live ex_pager" "headerPage bt \<noteq> i" "rootID bt = i" "header_at (pager_view ex_pager) bt"
    using t(2) u by (auto simp: btree_tree_def holds_tree_def)
  obtain p s where s: "pager_inv s" "pager_live s = pager_live ex_pager" "leaf_at (pager_view s) i es 0"
    "\<forall>j\<in>pager_live ex_pager - {i}. pager_view s j = pager_view ex_pager j" "pager_room ex_pager \<le> pager_room s"
    by (rule pager.write_leaf [OF t(1) i(1) assms(1,2), where nx = 0]) blast
  have sp: "spans 0 (2 ^ 64) es" using assms(3) unat_u64_bound unfolding spans_def by simp
  have "header_at (pager_view s) bt" using i s(4) by (simp add: header_at_def)
  then have "btree_tree (pager_live s) (pager_view s) 0 (BLeaf i es 0) bt"
    using sp assms(1,2) i s(2,3) by (auto simp: btree_tree_def holds_tree_def)
  then show ?thesis using s t(3,4) by (intro exI [of _ s] exI [of _ "BLeaf i es 0"] exI [of _ bt]) (auto simp: entries_def leaf_entries_def no_empty_leaf_def)
qed

text \<open>The example database after one committed INSERT of the row \<open>(3, 40)\<close>.\<close>

lemma ex_db_row:
  "\<exists>db es rs. db_ok ex_files ex_keys db \<and> log_ready ex_keys db rs (Suc (Suc 90)) \<and> stmt_open ex_files ex_keys ex_table ''t'' db \<and>
     GetTable (dbCatalog db) ''t'' = Some ex_table \<and> goroutineTx 7 db = None \<and> unused (nextXID (dbWal db)) es \<and>
     files_scan ex_files ex_table ''t'' (\<lambda>_. 100) db es (\<lambda>_. [\<lparr>Key = 40, Value = index_value 3\<rparr>]) \<and>
     rows_seen ex_table (dbTxMgr db) es = [3 \<mapsto> [intValue 3, intValue 40]] \<and>
     length es = 1 \<and> dbStats db = dbStats ex_db \<and> dbCatalog db = dbCatalog ex_db"
proof -
  let ?vs = "[intValue 3, intValue 40]"
  have len: "length ?vs = length (tblColumns ex_table)" by (simp add: ex_table_def)
  obtain raw where raw: "encodeRow ex_table ?vs 1 = Inr raw" using encodeRow_eq [OF ex_valid(1) len] by blast
  note dec = decodeRow_encoded [OF raw ex_valid(1) len]
  let ?es = "[\<lparr>Key = 3, Value = raw\<rparr>]" and ?is = "[\<lparr>Key = 40, Value = index_value 3\<rparr>]"
  obtain pg u bt where p: "pager_inv pg" "btree_tree (pager_live pg) (pager_view pg) 0 u bt" "headerPage bt = 1" "entries u = ?es"
    "no_empty_leaf (tl (leaves u))"
    using leaf_pager [of ?es] dec(4) by (auto simp: LeafOrder_val wf_entries_def)
  obtain qg v ct where q: "pager_inv qg" "btree_tree (pager_live qg) (pager_view qg) 0 v ct" "headerPage ct = 1" "entries v = ?is"
    "2 ^ 32 - 4 \<le> pager_room qg"
    using leaf_pager [of ?is] by (auto simp: LeafOrder_val wf_entries_def)
  let ?st = "\<lparr>pool = (pool_New 0)\<lparr>files := [1 \<mapsto> 0, 2 \<mapsto> 1]\<rparr>, pagers = (\<lambda>a. if a = 0 then pg else qg)\<rparr>"
  have log: "wal_log (dbWal ex_db) []" "wal_ready (Suc (card ex_keys * 2 ^ 32 + 92)) (dbWal ex_db)" "nextXID (dbWal ex_db) < - 1"
    using ex_log wal_ready_mono [of _ "dbWal ex_db" "Suc (card ex_keys * 2 ^ 32 + 92)"] by (auto simp: log_ready_def)
  obtain w where w: "wal_log w [mark_record (nextLSN (dbWal ex_db)) (nextXID (dbWal ex_db)) RecordBegin]"
    "wal_ready (card ex_keys * 2 ^ 32 + 92) w" "nextXID w = 2"
    using AllocXID_ok [OF log] ex_xid(1) by auto
  let ?db = "ex_db\<lparr>dbBuf := ?st, dbWal := w, dbTxMgr := MarkCommitted 1 TxManager_New\<rparr>"
  have "pool_inv ?st" using p(1) q(1) by (auto simp: pool_inv_def pool_wf_def coherent_def pool_New_def DefaultCapacity_def split: if_splits)
  then have "db_ok ex_files ex_keys ?db"
    using ex_db_ok by (auto simp: db_ok_def pool_files_ok_def ex_keys_def ex_files_def ex_db_def inj_on_def)
  moreover have "log_ready ex_keys ?db [mark_record (nextLSN (dbWal ex_db)) (nextXID (dbWal ex_db)) RecordBegin] (Suc (Suc 90))"
    using w by (simp add: log_ready_def)
  moreover have "stmt_open ex_files ex_keys ex_table ''t'' ?db" using ex_open by (simp add: stmt_open_def)
  moreover have "unused (nextXID (dbWal ?db)) ?es" using w(3) dec(2,3) by (simp add: unused_def XIDNone_def)
  moreover have "table_at ex_files ''t'' (at_rest ?db) ?es bt"
    using p unfolding table_at_def tree_at_def rest_view by (auto simp: buf_live_def buf_view_def ex_files_def)
  moreover have "room_tree ex_files ''idx:i'' (at_rest ?db) 100 ?is"
    using q unfolding room_tree_def tree_at_def room_for_def rest_view
    by (intro exI [of _ 0] exI [of _ v] exI [of _ ct]) (simp add: buf_live_def buf_view_def buf_room_def ex_files_def)
  moreover have "rows_seen ex_table (dbTxMgr ?db) ?es = [3 \<mapsto> ?vs]"
  proof -
    have "map2 stored (tblColumns ex_table) ?vs = ?vs" by (simp add: ex_table_def stored_def intValue_def TypeInt_def)
    then show ?thesis
      using dec(1-3) by (simp add: rows_seen_def fun_eq_iff entry_lookup_def row_visible_def row_values_def IsVisible_iff sees_def TakeSnapshot_def MarkCommitted_def)
  qed
  ultimately show ?thesis
    using ex_GetTable ex_xid(3) [of 7]
    by (intro exI [of _ ?db] exI [of _ ?es] exI [of _ "[mark_record (nextLSN (dbWal ex_db)) (nextXID (dbWal ex_db)) RecordBegin]"])
      (auto simp: files_scan_def file_scans_def goroutineTx_def)
qed

section \<open>DELETE\<close>



section \<open>UPDATE\<close>



end
