(* ===== verification/CommitAtomic.thy ===== *)
theory CommitAtomic
  imports DmlCorrect
begin

text \<open>
  Commit is atomic: redo recovery applies the images that \<open>last_image\<close> finds in the log, and however much of a
  transaction's images has reached the log, they count for nothing until the commit record is there, and all together
  once it is.
\<close>

section \<open>The images of a transaction\<close>

definition tx_writes :: "u32 \<Rightarrow> WalRecord list \<Rightarrow> bool" where
  "tx_writes xid ws \<longleftrightarrow> (\<forall>r\<in>set ws. RXID r = xid \<and> RType r = RecordWrite)"

lemma logs_writes: "logs ord xid m ks ws \<Longrightarrow> tx_writes xid ws"
proof (induction ks arbitrary: ws)
  case (Cons k ks)
  then obtain us vs where w: "ws = us @ vs" "logs ord xid m ks vs"
    "list_all2 (write_of xid (key_file k)) (dirty_pages (tbDirty (the (m k))) (pagesLog ord (tbDirty (the (m k))))) us" by auto
  have "tx_writes xid us" using w(3) by (auto simp: tx_writes_def write_of_def list_all2_conv_all_nth in_set_conv_nth)
  then show ?case using Cons.IH [OF w(2)] w(1) by (auto simp: tx_writes_def)
qed (simp add: tx_writes_def)

lemma key_file_inject: "key_file k = key_file l \<longleftrightarrow> k = l"
proof -
  have split: "k = ''idx:'' @ drop 4 k" if "take 4 k = ''idx:''" for k :: string using append_take_drop_id [of 4 k] that by simp
  have "drop 4 a @ ''.idx'' \<noteq> b @ ''.db''" for a b :: string
  proof
    assume "drop 4 a @ ''.idx'' = b @ ''.db''"
    then have "last (drop 4 a @ ''.idx'') = last (b @ ''.db'')" by (rule arg_cong)
    then show False by simp
  qed
  then show ?thesis using split [of k] split [of l] by (auto simp: key_file_def split: if_splits)
qed

text \<open>The records of page \<open>i\<close> of file \<open>t\<close>.\<close>

definition writes_to :: "string \<Rightarrow> u32 \<Rightarrow> WalRecord \<Rightarrow> bool" where
  "writes_to t i r \<longleftrightarrow> TableName r = t \<and> RPageID r = i"

lemma pager_writes:
  assumes "list_all2 (write_of xid fname) (dirty_pages m is') us" and "distinct is'" and "\<forall>j\<in>set is'. \<exists>p. m j = Some p \<and> page_id p = j"
  shows "map PageData (filter (writes_to t i) us) = (if t = fname \<and> i \<in> set is' then [Encode (the (m i))] else [])"
  using assms
proof (induction is' arbitrary: us)
  case (Cons j is')
  then obtain u us' where u: "us = u # us'" "write_of xid fname (the (m j)) u" "list_all2 (write_of xid fname) (dirty_pages m is') us'"
    by (auto simp: dirty_pages_def list_all2_Cons1)
  have "writes_to t i u \<longleftrightarrow> t = fname \<and> i = j" "PageData u = Encode (the (m j))"
    using u(2) Cons.prems(3) by (auto simp: write_of_def writes_to_def)
  then show ?case using Cons.IH [OF u(3)] Cons.prems(2,3) u(1) by auto
qed (simp add: dirty_pages_def)

definition paged :: "(string \<rightharpoonup> TxBuf) \<Rightarrow> bool" where
  "paged m \<longleftrightarrow> (\<forall>k b i p. m k = Some b \<longrightarrow> tbDirty b i = Some p \<longrightarrow> page_id p = i)"

lemma logs_images:
  assumes "logs ord xid m ks ws" and "distinct ks" and "set ks \<subseteq> dom m" and ord: "orders_ok ord" and "paged m"
  shows "map PageData (filter (writes_to (key_file k) i) ws) =
    (if k \<in> set ks then (case tbDirty (the (m k)) i of None \<Rightarrow> [] | Some p \<Rightarrow> [Encode p]) else [])"
  using assms(1-3)
proof (induction ks arbitrary: ws)
  case (Cons l ks)
  let ?d = "tbDirty (the (m l))"
  obtain us vs where w: "ws = us @ vs" "logs ord xid m ks vs" "list_all2 (write_of xid (key_file l)) (dirty_pages ?d (pagesLog ord ?d)) us"
    using Cons.prems(1) by auto
  obtain b where b: "m l = Some b" using Cons.prems(3) by auto
  have pg: "distinct (pagesLog ord ?d)" "set (pagesLog ord ?d) = dom ?d" using ord by (simp_all add: orders_ok_def)
  then have "\<forall>j\<in>set (pagesLog ord ?d). \<exists>p. ?d j = Some p \<and> page_id p = j" using b assms(5) by (auto simp: paged_def)
  from pager_writes [OF w(3) pg(1) this, of "key_file k" i]
  have "map PageData (filter (writes_to (key_file k) i) us) = (if k = l then (case ?d i of None \<Rightarrow> [] | Some p \<Rightarrow> [Encode p]) else [])"
    using pg(2) by (auto simp: key_file_inject split: option.split)
  then show ?case using Cons.IH [OF w(2)] Cons.prems(2,3) w(1) by auto
qed simp

lemma logs_other_file:
  "logs ord xid m ks ws \<Longrightarrow> t \<notin> key_file ` set ks \<Longrightarrow> filter (writes_to t i) ws = []"
proof (induction ks arbitrary: ws)
  case (Cons l ks)
  then obtain us vs where w: "ws = us @ vs" "logs ord xid m ks vs"
    "list_all2 (write_of xid (key_file l)) (dirty_pages (tbDirty (the (m l))) (pagesLog ord (tbDirty (the (m l))))) us" by auto
  have "\<forall>u\<in>set us. TableName u = key_file l" using w(3) by (auto simp: write_of_def list_all2_conv_all_nth in_set_conv_nth)
  then have "filter (writes_to t i) us = []" using Cons.prems(2) by (auto simp: writes_to_def filter_empty_conv)
  then show ?case using Cons.IH [OF w(2)] Cons.prems(2) w(1) by simp
qed simp

section \<open>What recovery finds\<close>

text \<open>Of the transaction there is at most its begin record.\<close>

definition only_begun :: "u32 \<Rightarrow> WalRecord list \<Rightarrow> bool" where
  "only_begun xid rs \<longleftrightarrow> (\<forall>r\<in>set rs. RXID r = xid \<longrightarrow> RType r = RecordBegin)"

lemma record_types: "RecordBegin \<noteq> RecordWrite" "RecordBegin \<noteq> RecordCommit" "RecordWrite \<noteq> RecordCommit"
  by (simp_all add: RecordBegin_def RecordWrite_def RecordCommit_def)

lemma commits_none: "tx_writes xid ws \<Longrightarrow> filter (\<lambda>r. RType r = RecordCommit) ws = []"
  using record_types(3) by (simp add: filter_empty_conv tx_writes_def)

lemma begun_uncommitted: "only_begun xid rs \<Longrightarrow> xid \<notin> committed_xids rs"
  using record_types(2) by (fastforce simp: committed_xids_def only_begun_def)

lemma case_nonempty: "xs \<noteq> [] \<Longrightarrow> (case xs of [] \<Rightarrow> a | y # ys \<Rightarrow> f (y # ys)) = f xs"
  by (cases xs) simp_all

lemma last_image_uncommitted:
  assumes "only_begun xid rs" and "tx_writes xid ws"
  shows "last_image (rs @ ws) t i = last_image rs t i"
proof -
  have c: "committed_xids (rs @ ws) = committed_xids rs" "xid \<notin> committed_xids rs"
    using commits_none [OF assms(2)] begun_uncommitted [OF assms(1)] by (simp_all add: committed_xids_def)
  then have "filter (is_committed_write (rs @ ws) t i) ws = []"
    using assms(2) by (auto simp: filter_empty_conv is_committed_write_def tx_writes_def)
  moreover have "is_committed_write (rs @ ws) t i = is_committed_write rs t i" using c by (simp add: is_committed_write_def fun_eq_iff)
  ultimately show ?thesis by (simp add: last_image_def)
qed

lemma last_image_committed:
  assumes "only_begun xid rs" and "tx_writes xid ws"
  shows "last_image (rs @ ws @ [mark_record lsn xid RecordCommit]) t i =
    (case map PageData (filter (writes_to t i) ws) of [] \<Rightarrow> last_image rs t i | ds \<Rightarrow> Some (last ds))"
proof -
  let ?c = "mark_record lsn xid RecordCommit"
  have c: "committed_xids (rs @ ws @ [?c]) = insert xid (committed_xids rs)"
    using commits_none [OF assms(2)] by (simp add: committed_xids_def)
  have "filter (is_committed_write (rs @ ws @ [?c]) t i) rs = filter (is_committed_write rs t i) rs"
    using assms(1) c record_types by (intro filter_cong refl) (auto simp: is_committed_write_def only_begun_def)
  moreover have "filter (is_committed_write (rs @ ws @ [?c]) t i) ws = filter (writes_to t i) ws"
    using assms(2) c by (intro filter_cong refl) (auto simp: is_committed_write_def writes_to_def tx_writes_def)
  moreover have "\<not> is_committed_write (rs @ ws @ [?c]) t i ?c" using record_types by (simp add: is_committed_write_def)
  ultimately have f: "filter (is_committed_write (rs @ ws @ [?c]) t i) (rs @ ws @ [?c]) =
      filter (is_committed_write rs t i) rs @ filter (writes_to t i) ws" by simp
  show ?thesis
  proof (cases "filter (writes_to t i) ws = []")
    case True
    then show ?thesis unfolding last_image_def f by simp
  next
    case False
    let ?A = "filter (is_committed_write rs t i) rs" and ?B = "filter (writes_to t i) ws"
    have "?A @ ?B \<noteq> []" "map PageData ?B \<noteq> []" using False by simp_all
    then show ?thesis
      using case_nonempty [of "?A @ ?B" None "\<lambda>ws. Some (PageData (last ws))"]
        case_nonempty [of "map PageData ?B" "last_image rs t i" "\<lambda>ds. Some (last ds)"] False
      by (simp only: last_image_def [of "rs @ ws @ [?c]"] f last_map last_append if_False not_False_eq_True True_implies_equals)
  qed
qed

lemma tx_writes_take: "tx_writes xid ws \<Longrightarrow> tx_writes xid (take n ws)"
  by (auto simp: tx_writes_def dest: in_set_takeD)

text \<open>C3: A commit is atomic for recovery. \<open>commitTx\<close> appends the images of the dirty pages and the commit record.
  If the process stops after any number of the images, recovery finds for every page the image it would have found
  without the transaction; once the commit record is in the log, it finds for each dirty page of each file the image of
  the transaction, and for every other page the old one.\<close>

theorem commit_atomic:
  assumes "work_inv bp G st0 w" and "finite G" and "orders_ok ord" and "names_ok G"
    and "wal_log (dbWal (wDB w)) rs" and "wal_ready (card G * 2 ^ 32 + Suc k) (dbWal (wDB w))" and "xid < nextXID (dbWal (wDB w))"
    and "only_begun xid rs"
  shows "\<exists>w' ws lsn. commitTx ord xid w = (Inr (), w') \<and>
    wal_log (dbWal (wDB w')) (rs @ ws @ [mark_record lsn xid RecordCommit]) \<and>
    (\<forall>n t i. last_image (rs @ take n ws) t i = last_image rs t i) \<and>
    (\<forall>key b i p. wPagers w key = Some b \<longrightarrow> tbDirty b i = Some p \<longrightarrow>
       last_image (rs @ ws @ [mark_record lsn xid RecordCommit]) (key_file key) i = Some (Encode p)) \<and>
    (\<forall>t i. (\<forall>key b. wPagers w key = Some b \<longrightarrow> key_file key = t \<longrightarrow> tbDirty b i = None) \<longrightarrow>
       last_image (rs @ ws @ [mark_record lsn xid RecordCommit]) t i = last_image rs t i)"
proof -
  let ?m = "wPagers w" and ?ks = "keysLog ord (wPagers w)"
  obtain w' ws lsn where c: "commitTx ord xid w = (Inr (), w')" "wal_log (dbWal (wDB w')) (rs @ ws @ [mark_record lsn xid RecordCommit])"
    "logs ord xid ?m ?ks ws"
    using commitTx_ok [OF assms(1-7)] by blast
  have dom: "finite (dom ?m)" using assms(1,2) by (auto simp: work_inv_def dom_def intro: finite_subset)
  then have ks: "distinct ?ks" "set ?ks = dom ?m" using assms(3) by (simp_all add: orders_ok_def)
  have pg: "paged ?m" using work_inv_tx [OF assms(1)] by (fastforce simp: paged_def txp_inv_def tx_view_def)
  note tw = logs_writes [OF c(3)]
  note img = last_image_committed [OF assms(8) tw, of lsn]
  have "last_image (rs @ take n ws) t i = last_image rs t i" for n t i
    by (rule last_image_uncommitted [OF assms(8) tx_writes_take [OF tw]])
  moreover have "last_image (rs @ ws @ [mark_record lsn xid RecordCommit]) (key_file key) i = Some (Encode p)"
    if "?m key = Some b" "tbDirty b i = Some p" for key b i p
    using that img [of "key_file key" i] logs_images [OF c(3) ks(1) _ assms(3) pg, of key i] ks(2) by auto
  moreover have "last_image (rs @ ws @ [mark_record lsn xid RecordCommit]) t i = last_image rs t i"
    if none: "\<forall>key b. ?m key = Some b \<longrightarrow> key_file key = t \<longrightarrow> tbDirty b i = None" for t i
  proof (cases "t \<in> key_file ` set ?ks")
    case True
    then obtain key b where k: "t = key_file key" "key \<in> set ?ks" "?m key = Some b" using ks(2) by auto
    then show ?thesis using img [of t i] logs_images [OF c(3) ks(1) _ assms(3) pg, of key i] ks(2) none by auto
  next
    case False
    then show ?thesis using img [of t i] logs_other_file [OF c(3)] by simp
  qed
  ultimately show ?thesis using c(1,2) by blast
qed

text \<open>A transaction of the example database that has changed page 1 of the table's file.\<close>

definition ex_work :: "WAL \<Rightarrow> Page \<Rightarrow> Work" where
  "ex_work v p = \<lparr>wDB = ex_db\<lparr>dbWal := v\<rparr>, wPagers = [''t'' \<mapsto> \<lparr>tbPager = ex_files ''t'', tbDirty = [1 \<mapsto> p], tbAlloc = []\<rparr>]\<rparr>"

theorem commit_atomic_witness:
  "\<exists>ord v p w' rs' lsn. commitTx ord 1 (ex_work v p) = (Inr (), w') \<and> wal_log (dbWal (wDB w')) (rs' @ [mark_record lsn 1 RecordCommit]) \<and>
     last_image rs' ''t.db'' 1 = None \<and> last_image (rs' @ [mark_record lsn 1 RecordCommit]) ''t.db'' 1 = Some (Encode p)"
proof -
  obtain ord where ord: "orders_ok ord" using orders_exist by blast
  obtain bt where bt: "pager_inv ex_pager" "btree_rel (pager_live ex_pager) (pager_view ex_pager) 0 [] bt" "headerPage bt = 1"
    using ex_pager_tree by blast
  then have live: "1 \<in> pager_live ex_pager" by (auto simp: btree_rel_defs)
  let ?p = "NewPage 1 PageTypeData"
  have log: "wal_log (dbWal ex_db) []" "wal_ready (Suc (card ex_keys * 2 ^ 32 + 92)) (dbWal ex_db)" "nextXID (dbWal ex_db) < - 1"
    using ex_log wal_ready_mono [of _ "dbWal ex_db" "Suc (card ex_keys * 2 ^ 32 + 92)"] by (auto simp: log_ready_def)
  obtain v where v: "wal_log v [mark_record (nextLSN (dbWal ex_db)) 1 RecordBegin]" "wal_ready (card ex_keys * 2 ^ 32 + Suc 91) v" "1 < nextXID v"
    using AllocXID_ok [OF log] ex_xid(1) by auto
  have ok: "pool_files_ok ex_files ex_keys (dbBuf ex_db)" "finite ex_keys" "names_ok ex_keys" using ex_db_ok by (simp_all add: db_ok_def)
  then have inv: "work_inv ex_files ex_keys (dbBuf ex_db) (ex_work v ?p)"
    using live by (auto simp: work_inv_def ex_work_def ex_keys_def tx_frame_def txp_frame_def txp_inv_def tx_view_def same_file_def
        buf_ok_def pool_files_ok_def buf_live_def ex_db_def wf_page_def)
  have b: "only_begun 1 [mark_record (nextLSN (dbWal ex_db)) 1 RecordBegin]" by (simp add: only_begun_def)
  obtain w' ws lsn where c: "commitTx ord 1 (ex_work v ?p) = (Inr (), w')"
    "wal_log (dbWal (wDB w')) ([mark_record (nextLSN (dbWal ex_db)) 1 RecordBegin] @ ws @ [mark_record lsn 1 RecordCommit])"
    "\<forall>n t i. last_image ([mark_record (nextLSN (dbWal ex_db)) 1 RecordBegin] @ take n ws) t i = last_image [mark_record (nextLSN (dbWal ex_db)) 1 RecordBegin] t i"
    "\<forall>key b i p. wPagers (ex_work v ?p) key = Some b \<longrightarrow> tbDirty b i = Some p \<longrightarrow>
       last_image ([mark_record (nextLSN (dbWal ex_db)) 1 RecordBegin] @ ws @ [mark_record lsn 1 RecordCommit]) (key_file key) i = Some (Encode p)"
    using commit_atomic [OF inv ok(2) ord ok(3), of "[mark_record (nextLSN (dbWal ex_db)) 1 RecordBegin]" 91 1] v b by (auto simp: ex_work_def)
  let ?rs = "[mark_record (nextLSN (dbWal ex_db)) 1 RecordBegin] @ ws"
  have "last_image ?rs ''t.db'' 1 = None"
    using c(3) [rule_format, of "length ws" "''t.db''" 1] record_types by (simp add: last_image_def is_committed_write_def)
  moreover have "last_image (?rs @ [mark_record lsn 1 RecordCommit]) ''t.db'' 1 = Some (Encode ?p)"
    using c(4) [rule_format, of "''t''" "\<lparr>tbPager = ex_files ''t'', tbDirty = [1 \<mapsto> ?p], tbAlloc = []\<rparr>" 1 ?p]
    by (simp add: ex_work_def key_file_def)
  ultimately show ?thesis using c(1,2) by (intro exI [of _ ord] exI [of _ v] exI [of _ ?p] exI [of _ w'] exI [of _ ?rs] exI [of _ lsn]) simp
qed

end
