(* ===== verification/TxStmt.thy ===== *)
theory TxStmt
  imports DmlCorrect
begin

text \<open>
  INSERT inside an explicit transaction: what the transaction has written is in its pagers, the page files hold for
  everybody else what they held at BEGIN, and COMMIT makes the transaction's view the contents of the files.
\<close>

definition tx_work :: "activeTx \<Rightarrow> DB \<Rightarrow> Work" where
  "tx_work tx db = \<lparr>wDB = db, wPagers = txPagers tx\<rparr>"

lemma tx_work_simps [simp]: "wDB (tx_work tx db) = db" "wPagers (tx_work tx db) = txPagers tx"
  by (simp_all add: tx_work_def)

text \<open>The invariant and the trees of a work area depend only on the pool and on the pagers.\<close>

lemma work_cong:
  assumes "dbBuf (wDB w) = dbBuf (wDB v)" and "wPagers w = wPagers v"
  shows "work_inv bp G st0 w \<longleftrightarrow> work_inv bp G st0 v" "has_tree bp k w es \<longleftrightarrow> has_tree bp k v es"
proof -
  have "wlive bp k w = wlive bp k v" "wview bp k w = wview bp k v" for k using assms by (simp_all add: wlive_def wview_def split: option.split)
  then show "has_tree bp k w es \<longleftrightarrow> has_tree bp k v es" by (simp add: has_tree_def tree_at_def)
  show "work_inv bp G st0 w \<longleftrightarrow> work_inv bp G st0 v" using assms by (simp add: work_inv_def)
qed

text \<open>No steal: the files hold what they held when the transaction began.\<close>

lemma work_isolated:
  assumes inv: "work_inv bp G (dbBuf db0) w" and g: "g \<in> G" and h: "file_holds bp g db0 es"
  shows "file_holds bp g (wDB w) es"
proof -
  have L: "buf_live (bp g) (dbBuf db0) \<subseteq> buf_live (bp g) (dbBuf (wDB w))"
    and V: "\<forall>j\<in>buf_live (bp g) (dbBuf db0). buf_view (bp g) (dbBuf (wDB w)) j = buf_view (bp g) (dbBuf db0) j"
    using inv g by (cases "wPagers w g"; auto simp: work_inv_def same_file_def tx_frame_def txp_frame_def tx_view_def)+
  obtain n u bt where "btree_tree (buf_live (bp g) (dbBuf db0)) (buf_view (bp g) (dbBuf db0)) n u bt" "headerPage bt = 1" "entries u = es"
    using h unfolding file_holds_def has_tree_def tree_at_def rest_view by blast
  then show ?thesis
    using btree_tree_keeps [OF _ L V] unfolding file_holds_def has_tree_def tree_at_def rest_view by blast
qed

lemma rows_seen_put:
  assumes "ascending es" and enc: "encodeRow t vals x = Inr raw" "validateSchema t = Inr ()" "length vals = length (tblColumns t)"
  shows "rows_seen t (MarkCommitted x m) (ins_entry key raw es) = (rows_seen t (MarkCommitted x m) es)(key \<mapsto> map2 stored (tblColumns t) vals)"
proof
  fix k
  note d = decodeRow_encoded [OF enc]
  have v: "row_visible (TakeSnapshot XIDNone (MarkCommitted x m)) raw" "row_values t raw = map2 stored (tblColumns t) vals"
    using d by (simp_all add: row_visible_def IsVisible_iff sees_def TakeSnapshot_def MarkCommitted_def row_values_def)
  have "entry_lookup (ins_entry key raw es) k = ((entry_lookup es)(key \<mapsto> raw)) k" using entry_lookup_ins [OF assms(1)] by simp
  then show "rows_seen t (MarkCommitted x m) (ins_entry key raw es) k =
      ((rows_seen t (MarkCommitted x m) es)(key \<mapsto> map2 stored (tblColumns t) vals)) k"
    using v by (simp add: rows_seen_def)
qed

lemma execInsert_in_tx:
  assumes "GetTable (dbCatalog db) name = Some t" and "length vals = length (tblColumns t)" and "check_types (tblColumns t) vals = Inr ()"
    and "PrimaryKeyIndex t = Some pk" and "goroutineTx gid db = Some tx"
  shows "execInsert ord fuel gid name vals db = in_tx gid tx (insert_row fuel t name (IntVal (vals ! pk)) vals (txXid tx)) db"
  using assms by (simp add: execInsert_def)

text \<open>C7: INSERT in an explicit transaction is isolated until COMMIT and durable after it. On a database in which the
  goroutine has a transaction, begun when the files were those of \<open>db0\<close>, an INSERT without a clash in an index
  succeeds, stays inside the transaction, appends nothing to the log and leaves the tree of every file as it was at
  BEGIN; the following COMMIT succeeds, appends to the log, and then the files hold the transaction's trees with the
  row and its index entries, and the next statement sees the row together with everything the transaction wrote
  before.\<close>

theorem transaction_insert_commit:
  assumes "goroutineTx gid db = Some tx" and "work_inv bp G (dbBuf db0) (tx_work tx db)" and "finite G" and "names_ok G" and "orders_ok ord"
    and "stmt_open bp G t name db" and "GetTable (dbCatalog db) name = Some t" and "validateSchema t = Inr ()"
    and "length vals = length (tblColumns t)" and "check_types (tblColumns t) vals = Inr ()" and "PrimaryKeyIndex t = Some pk"
    and "roomy_tree bp (tableKey name) (tx_work tx db) es" and "\<forall>d\<in>set (tblIndexes t). roomy_tree bp (idxKey d) (tx_work tx db) (E d)"
    and "find (clash t vals E) (tblIndexes t) = None" and "2 ^ 32 \<le> fuel"
    and "wal_log (dbWal db) rs" and "wal_ready (card G * 2 ^ 32 + Suc k) (dbWal db)" and "txXid tx < nextXID (dbWal db)"
  shows "\<exists>db1 db2 rs' es'. execInsert ord fuel gid name vals db = (Inr (), db1) \<and> InTransaction gid db1 \<and>
      dbTxMgr db1 = dbTxMgr db \<and> dbWal db1 = dbWal db \<and> others_kept bp G db0 db1 \<and>
    execCommit ord gid db1 = (Inr (), db2) \<and> \<not> InTransaction gid db2 \<and> wal_log (dbWal db2) (rs @ rs') \<and>
    files_hold bp t name db2 es' (index_after t vals (IntVal (vals ! pk)) E) \<and>
    rows_seen t (dbTxMgr db2) es' =
      (rows_seen t (MarkCommitted (txXid tx) (dbTxMgr db)) es)(IntVal (vals ! pk) \<mapsto> map2 stored (tblColumns t) vals)"
proof -
  let ?x = "txXid tx" and ?key = "IntVal (vals ! pk)" and ?w = "tx_work tx db"
  obtain raw where raw: "encodeRow t vals ?x = Inr raw" "length raw = ValueSize"
    using encodeRow_eq [OF assms(8,9), of ?x] decodeRow_encoded(4) [OF _ assms(8,9)] by metis
  have rd: "stmt_ready bp G t name (wDB ?w)" using stmt_open_ready [OF _ assms(6), of db "dbWal db"] by simp
  obtain w' where w': "moved bp G (dbBuf db0) (set (stmt_keys t name)) ?w w'"
    "insert_row fuel t name ?key vals ?x ?w = (Inr (), w')" "trees_of bp t name w' (ins_entry ?key raw es) (index_after t vals ?key E)"
    using insert_row_spec [OF assms(2) rd assms(12,13) raw assms(15), of ?key] assms(14) by auto
  have rest: "wDB w' = db\<lparr>dbBuf := dbBuf (wDB w')\<rparr>" using w'(1) by (simp only: moved_def same_rest_def) simp
  let ?tx = "tx\<lparr>txPagers := wPagers w'\<rparr>"
  let ?db1 = "setGoroutineTx gid ?tx (wDB w')"
  have ins: "execInsert ord fuel gid name vals db = (Inr (), ?db1)"
    using execInsert_in_tx [OF assms(7,9-11,1)] w'(2) by (simp add: in_tx_def tx_work_def)
  have f1: "dbTxMgr ?db1 = dbTxMgr db" "dbWal ?db1 = dbWal db" "goroutineTx gid ?db1 = Some ?tx" "dbBuf ?db1 = dbBuf (wDB w')"
    by (subst rest, simp add: setGoroutineTx_def goroutineTx_def)+
  have iso: "others_kept bp G db0 ?db1"
    using work_isolated [of bp G db0 w'] w'(1) unfolding others_kept_def moved_def file_holds_def has_tree_def tree_at_def rest_view f1(4) by blast
  let ?cw = "\<lparr>wDB = clearGoroutineTx gid ?db1, wPagers = wPagers w'\<rparr>"
  have cb: "dbBuf (wDB ?cw) = dbBuf (wDB w')" "wPagers ?cw = wPagers w'" "dbWal (wDB ?cw) = dbWal db" "dbTxMgr (wDB ?cw) = dbTxMgr db"
    using f1 by (simp_all add: clearGoroutineTx_def)
  have inv: "work_inv bp G (dbBuf db0) ?cw" using w'(1) work_cong(1) [OF cb(1,2)] by (simp add: moved_def)
  obtain w2 ws lsn where c: "commitTx ord ?x ?cw = (Inr (), w2)" "file_is bp G ?cw (dbBuf (wDB w2))"
    "wal_log (dbWal (wDB w2)) (rs @ ws @ [mark_record lsn ?x RecordCommit])"
    "wDB w2 = (wDB ?cw)\<lparr>dbBuf := dbBuf (wDB w2), dbWal := dbWal (wDB w2)\<rparr>"
    using commitTx_ok [OF inv assms(3,5,4), of rs k ?x] assms(16-18) unfolding cb(3) by blast
  let ?db2 = "mark_committed ?x (wDB w2)"
  have com: "execCommit ord gid ?db1 = (Inr (), ?db2)" using c(1) f1(3) by (simp add: execCommit_def)
  have f2: "dbTxMgr ?db2 = MarkCommitted ?x (dbTxMgr db)" "goroutineTx gid ?db2 = None" "dbWal ?db2 = dbWal (wDB w2)" "dbBuf ?db2 = dbBuf (wDB w2)"
    using cb(4) by (subst c(4), simp add: mark_committed_def goroutineTx_def clearGoroutineTx_def)+
  have fi: "file_is bp G ?cw (dbBuf ?db2)" using c(2) f2(4) by simp
  have FG: "set (stmt_keys t name) \<subseteq> G" using assms(6) by (simp add: stmt_open_def)
  have "files_hold bp t name ?db2 (ins_entry ?key raw es) (index_after t vals ?key E)"
    using w'(3) work_cong(2) [OF cb(1,2)] file_is_holds [OF fi] FG by (auto simp: trees_of_def files_hold_def stmt_keys_def)
  moreover have "ascending es" using has_tree_ascending roomy_has_tree [OF assms(12)] by blast
  then have "rows_seen t (dbTxMgr ?db2) (ins_entry ?key raw es) =
      (rows_seen t (MarkCommitted ?x (dbTxMgr db)) es)(?key \<mapsto> map2 stored (tblColumns t) vals)"
    using rows_seen_put [OF _ raw(1) assms(8,9)] f2(1) by simp
  ultimately show ?thesis using ins f1 iso com f2 c(3) by (intro exI [of _ ?db1] exI [of _ ?db2]) (auto simp: InTransaction_def)
qed

text \<open>BEGIN opens a transaction without pagers, whose view is that of the files.\<close>

lemma execBegin_opens:
  assumes "goroutineTx gid db = None" and "db_ok bp G db" and "log_ready G db rs (Suc k)"
  shows "\<exists>tx v. execBegin gid db = (Inr (), setGoroutineTx gid tx (db\<lparr>dbWal := v\<rparr>)) \<and> txXid tx = nextXID (dbWal db) \<and>
    txPagers tx = Map.empty \<and> txXid tx < nextXID v \<and> wal_ready (card G * 2 ^ 32 + k) v \<and>
    wal_log v (rs @ [mark_record (nextLSN (dbWal db)) (nextXID (dbWal db)) RecordBegin])"
proof -
  have log: "wal_log (dbWal db) rs" "wal_ready (Suc (card G * 2 ^ 32 + k)) (dbWal db)" "nextXID (dbWal db) < - 1"
    using assms(3) by (simp_all add: log_ready_def)
  obtain v where v: "AllocXID (dbWal db) = (Inr (nextXID (dbWal db)), v)" "nextXID v = nextXID (dbWal db) + 1" "wal_ready (card G * 2 ^ 32 + k) v"
    "wal_log v (rs @ [mark_record (nextLSN (dbWal db)) (nextXID (dbWal db)) RecordBegin])"
    using AllocXID_ok [OF log] by blast
  have "nextXID (dbWal db) < nextXID v" using word_less_plus_1 [OF log(3)] unfolding v(2) by simp
  then show ?thesis using assms(1) v
    by (intro exI [of _ "\<lparr>txXid = nextXID (dbWal db), txSnap = TakeSnapshot (nextXID (dbWal db)) (dbTxMgr db), txPagers = Map.empty\<rparr>"] exI [of _ v])
      (simp add: execBegin_def on_wal_def)
qed

lemma begun_work:
  assumes "txPagers tx = Map.empty"
  shows "pool_files_ok bp G (dbBuf db) \<Longrightarrow> work_inv bp G (dbBuf db) (tx_work tx (setGoroutineTx gid tx (db\<lparr>dbWal := v\<rparr>)))"
    "roomy_tree bp k (tx_work tx (setGoroutineTx gid tx (db\<lparr>dbWal := v\<rparr>))) es = roomy_tree bp k (at_rest db) es"
proof -
  have w: "tx_work tx (setGoroutineTx gid tx (db\<lparr>dbWal := v\<rparr>)) = at_rest (setGoroutineTx gid tx (db\<lparr>dbWal := v\<rparr>))"
    using assms by (simp add: tx_work_def at_rest_def)
  show "roomy_tree bp k (tx_work tx (setGoroutineTx gid tx (db\<lparr>dbWal := v\<rparr>))) es = roomy_tree bp k (at_rest db) es"
    unfolding w by (rule at_rest_cong) (simp add: setGoroutineTx_def)
  show "work_inv bp G (dbBuf db) (tx_work tx (setGoroutineTx gid tx (db\<lparr>dbWal := v\<rparr>)))" if "pool_files_ok bp G (dbBuf db)"
    using rest_inv [of bp G "setGoroutineTx gid tx (db\<lparr>dbWal := v\<rparr>)"] that unfolding w by (simp add: setGoroutineTx_def)
qed

text \<open>BEGIN, INSERT and COMMIT on the example database.\<close>

theorem transaction_insert_commit_witness:
  "\<exists>ord db0 db1 db2 es'. execBegin 7 ex_db = (Inr (), db0) \<and>
     execInsert ord (2 ^ 32) 7 ''t'' [intValue 3, intValue 40] db0 = (Inr (), db1) \<and> file_holds ex_files ''t'' db1 [] \<and>
     execCommit ord 7 db1 = (Inr (), db2) \<and> file_holds ex_files ''t'' db2 es' \<and>
     rows_seen ex_table (dbTxMgr db2) es' = [3 \<mapsto> [intValue 3, intValue 40]]"
proof -
  let ?vs = "[intValue 3, intValue 40]"
  obtain ord where ord: "orders_ok ord" using orders_exist by blast
  have log: "log_ready ex_keys ex_db [] (Suc (Suc 98))" using ex_log by simp
  obtain tx v where b: "execBegin 7 ex_db = (Inr (), setGoroutineTx 7 tx (ex_db\<lparr>dbWal := v\<rparr>))" "txPagers tx = Map.empty"
    "txXid tx < nextXID v" "wal_ready (card ex_keys * 2 ^ 32 + Suc 98) v" "\<exists>rs. wal_log v rs"
    using execBegin_opens [OF ex_xid(3) ex_db_ok log] by blast
  let ?db = "setGoroutineTx 7 tx (ex_db\<lparr>dbWal := v\<rparr>)"
  obtain rs where rs: "wal_log v rs" using b(5) by blast
  have ok: "pool_files_ok ex_files ex_keys (dbBuf ex_db)" "finite ex_keys" "names_ok ex_keys" using ex_db_ok by (simp_all add: db_ok_def)
  have f: "goroutineTx 7 ?db = Some tx" "GetTable (dbCatalog ?db) ''t'' = Some ex_table" "stmt_open ex_files ex_keys ex_table ''t'' ?db" "dbWal ?db = v"
    using ex_GetTable ex_open by (simp_all add: setGoroutineTx_def goroutineTx_def stmt_open_def)
  have len: "length ?vs = length (tblColumns ex_table)" "check_types (tblColumns ex_table) ?vs = Inr ()"
    by (simp_all add: ex_table_def intValue_def TypeInt_def)
  have none: "find (clash ex_table ?vs (\<lambda>_. [])) (tblIndexes ex_table) = None"
    by (simp add: clash_def index_key_of_def ColIndex_def ex_table_def ex_index_def intValue_def entry_lookup_def)
  have room: "roomy_tree ex_files (tableKey ''t'') (tx_work tx ?db) []" "\<forall>d\<in>set (tblIndexes ex_table). roomy_tree ex_files (idxKey d) (tx_work tx ?db) []"
    using ex_room begun_work(2) [OF b(2)] by (simp_all add: files_room_def)
  have st: "map2 stored (tblColumns ex_table) ?vs = ?vs" "IntVal (?vs ! 0) = 3"
    by (simp_all add: ex_table_def stored_def intValue_def TypeInt_def)
  have rows: "rows_seen ex_table m [] = Map.empty" for m by (simp add: rows_seen_def fun_eq_iff entry_lookup_def)
  obtain db1 db2 es' where r: "execInsert ord (2 ^ 32) 7 ''t'' ?vs ?db = (Inr (), db1)" "others_kept ex_files ex_keys ex_db db1"
    "execCommit ord 7 db1 = (Inr (), db2)" "files_hold ex_files ex_table ''t'' db2 es' (index_after ex_table ?vs 3 (\<lambda>_. []))"
    "rows_seen ex_table (dbTxMgr db2) es' = [3 \<mapsto> ?vs]"
    using transaction_insert_commit [OF f(1) begun_work(1) [OF b(2) ok(1)] ok(2,3) ord f(3,2) ex_valid(1) len ex_valid(2) room none order_refl, of rs 98]
      rs b(3,4) f(4) unfolding st rows by auto
  have "file_holds ex_files ''t'' ex_db []" using files_room_hold [OF ex_room] by (simp add: files_hold_def)
  then have "file_holds ex_files ''t'' db1 []" using r(2) by (simp add: others_kept_def ex_keys_def)
  then show ?thesis using b(1) r by (auto simp: files_hold_def)
qed

end
