(* ===== verification/PlannerCorrect.thy ===== *)
theory PlannerCorrect
  imports BufferFiles "HOL-Library.Multiset"
begin

text \<open>
  The plans of the planner return what the WHERE clause asks for. A reference answer
  to a SELECT over one table is \<open>select_rows\<close>: the visible rows for which the clause
  holds. The plan of every AND group, whichever access path is chosen, returns these
  rows for its group; the union of the groups drops the rows found twice.

  What the access paths rely on is named: the rows of the table file are filed under
  their primary key (\<open>keyed\<close>), and an index leads to the visible rows under the value
  of its column (\<open>indexed\<close>).
\<close>

definition visible_rows :: "contents_of \<Rightarrow> Snapshot \<Rightarrow> Table \<Rightarrow> Value list list" where
  "visible_rows C snap t = map (row_of t) (filter (row_visible snap) (tblEntries C (tblName t)))"

definition select_rows :: "contents_of \<Rightarrow> Snapshot \<Rightarrow> Table \<Rightarrow> WhereClause option \<Rightarrow> Value list list" where
  "select_rows C snap t wh = filter (\<lambda>r. where_holds t r wh) (visible_rows C snap t)"

definition index_pk :: "Entry \<Rightarrow> u64" where
  "index_pk e = from_le (seg 0 8 (Value e))"

definition keyed :: "contents_of \<Rightarrow> Table \<Rightarrow> bool" where
  "keyed C t \<longleftrightarrow> ascending (tblEntries C (tblName t)) \<and> rows_decode t (tblEntries C (tblName t)) \<and>
     (case PrimaryKeyIndex t of
        None \<Rightarrow> False
      | Some p \<Rightarrow> ColIndex t (colName (tblColumns t ! p)) = Some p \<and>
          (\<forall>e\<in>set (tblEntries C (tblName t)). row_of t e ! p = intValue (Key e)))"

definition indexed :: "contents_of \<Rightarrow> Snapshot \<Rightarrow> Table \<Rightarrow> IndexDef \<Rightarrow> bool" where
  "indexed C snap t d \<longleftrightarrow> ascending (idxEntries C (idxName d)) \<and>
     (case ColIndex t (idxColumn d) of
        None \<Rightarrow> False
      | Some i \<Rightarrow>
         (\<forall>e\<in>set (tblEntries C (tblName t)). row_visible snap e \<longrightarrow>
            (\<exists>x\<in>set (idxEntries C (idxName d)). index_pk x = Key e)) \<and>
         (\<forall>x\<in>set (idxEntries C (idxName d)). \<forall>e\<in>set (tblEntries C (tblName t)).
            row_visible snap e \<and> index_pk x = Key e \<longrightarrow> row_of t e ! i = intValue (Key x)))"

section \<open>Key ranges\<close>

lemma succ_le: "v < MaxUint64 \<Longrightarrow> v + 1 \<le> x \<longleftrightarrow> v < x" for v x :: u64
  unfolding MaxUint64_def by uint_arith auto

lemma le_pred: "0 < v \<Longrightarrow> x \<le> v - 1 \<longleftrightarrow> x < v" for v x :: u64
  by uint_arith

lemma le_Max [simp]: "x \<le> MaxUint64" for x :: u64
proof -
  have "uint x \<le> 18446744073709551615" using uint_bounded [of x] by simp
  then show ?thesis by (simp add: MaxUint64_def word_le_def)
qed

lemma max64_le: "max64 a b \<le> x \<longleftrightarrow> a \<le> x \<and> b \<le> x"
  by (auto simp: max64_def)

lemma le_min64: "x \<le> min64 a b \<longleftrightarrow> x \<le> a \<and> x \<le> b"
  by (auto simp: min64_def)

lemma none_in_1_0: "\<not> (1 \<le> x \<and> x \<le> 0)" for x :: u64
  by (cases "x = 0") simp_all

lemma Max_less [simp]: "\<not> MaxUint64 < x"
  by (simp add: not_less)

lemma Max_le [simp]: "MaxUint64 \<le> x \<longleftrightarrow> x = MaxUint64"
  using le_Max [of x] by (auto intro: order_antisym)

lemmas range_simps = succ_le le_pred max64_le le_min64

lemma condToRange_in:
  "condToRange c = (mn, mx) \<Longrightarrow> mn \<le> x \<and> x \<le> mx \<longleftrightarrow> compare_with (Op c) x (IntVal (Val c))"
  by (cases "Op c") (auto simp: condToRange_def Let_def range_simps not_less split: if_splits)

text \<open>The loop of \<open>classifyGroup\<close> keeps the meaning of the group, for the key \<open>x\<close> of a row and the
  truth \<open>P\<close> of the conditions on it.\<close>

lemma classify_loop_correct:
  assumes "classify_loop pk cs mn mx post = (mn', mx', post')"
    and "\<And>c. c \<in> set cs \<Longrightarrow> isSimpleCond c \<Longrightarrow> ToLower (Column c) = pk \<Longrightarrow> valType (Val c) = TypeInt \<Longrightarrow>
      P c \<longleftrightarrow> compare_with (Op c) x (IntVal (Val c))"
  shows "(mn' \<le> x \<and> x \<le> mx' \<and> (\<forall>c\<in>set post'. P c)) \<longleftrightarrow>
    (mn \<le> x \<and> x \<le> mx \<and> (\<forall>c\<in>set post. P c) \<and> (\<forall>c\<in>set cs. P c))"
  using assms
proof (induction cs arbitrary: mn mx post)
  case (Cons c cs)
  have IH: "(mn' \<le> x \<and> x \<le> mx' \<and> (\<forall>c\<in>set post'. P c)) \<longleftrightarrow>
      (a \<le> x \<and> x \<le> b \<and> (\<forall>c\<in>set q. P c) \<and> (\<forall>c\<in>set cs. P c))"
    if "classify_loop pk cs a b q = (mn', mx', post')" for a b q
    using Cons.IH [OF that] Cons.prems(2) by simp
  show ?case
  proof (cases "\<not> isSimpleCond c \<or> ToLower (Column c) \<noteq> pk \<or> valType (Val c) \<noteq> TypeInt")
    case True
    then have "classify_loop pk cs mn mx (post @ [c]) = (mn', mx', post')" using Cons.prems(1) by auto
    from IH [OF this] show ?thesis by auto
  next
    case False
    then have p: "P c \<longleftrightarrow> compare_with (Op c) x (IntVal (Val c))" using Cons.prems(2) [of c] by simp
    have none: "\<not> (mn' \<le> x \<and> x \<le> mx' \<and> (\<forall>c\<in>set post'. P c))"
      if "classify_loop pk cs 1 0 post = (mn', mx', post')"
      using IH [OF that] none_in_1_0 [of x] by blast
    let ?v = "IntVal (Val c)"
    show ?thesis
    proof (cases "Op c")
      case OpGt
      then show ?thesis
        using Cons.prems(1) False p IH [of "max64 mn (?v + 1)" mx post] none le_Max [of x]
        by (cases "?v = MaxUint64") (auto simp: Let_def range_simps less_le [of ?v])
    next
      case OpLt
      then show ?thesis
        using Cons.prems(1) False p IH [of mn "min64 mx (?v - 1)" post] none
        by (cases "?v = 0") (auto simp: Let_def range_simps word_neq_0_conv)
    qed (use Cons.prems(1) False p IH [of "max64 mn ?v" mx post] IH [of mn "min64 mx ?v" post]
        IH [of "max64 mn ?v" "min64 mx ?v" post] in \<open>auto simp: Let_def range_simps\<close>)
  qed
qed simp

section \<open>Access paths\<close>

lemma keyedD:
  assumes "keyed C t"
  obtains p where "PrimaryKeyIndex t = Some p" "p < length (tblColumns t)"
    "ColIndex t (colName (tblColumns t ! p)) = Some p" "ascending (tblEntries C (tblName t))"
    "rows_decode t (tblEntries C (tblName t))"
    "\<And>e. e \<in> set (tblEntries C (tblName t)) \<Longrightarrow> row_of t e ! p = intValue (Key e)"
  using assms by (auto simp: keyed_def PrimaryKeyIndex_def dest: find_index_length split: option.splits)

lemma ColIndex_cong: "ToLower m = ToLower n \<Longrightarrow> ColIndex t m = ColIndex t n"
  by (simp add: ColIndex_def)

lemma cond_holds_simple:
  assumes "isSimpleCond c" "\<not> IsJoinCond c" "ColIndex t (Column c) = Some i" "row ! i = intValue x"
    "valType (Val c) = TypeInt"
  shows "cond_holds t row c \<longleftrightarrow> compare_with (Op c) x (IntVal (Val c))"
  using assms by (simp add: cond_holds_def isSimpleCond_def compareVals_int)

lemma with_filter_rows:
  assumes "baseTable b = Some t" and "\<forall>r\<in>set (plan_rows C snap b). length r = length (tblColumns t)"
  shows "plan_rows C snap (with_filter b g) = filter (\<lambda>r. \<forall>c\<in>set g. cond_holds t r c) (plan_rows C snap b)"
proof -
  have "evalPreds r (Some t) g = Inr True \<longleftrightarrow> (\<forall>c\<in>set g. cond_holds t r c)" if "r \<in> set (plan_rows C snap b)" for r
    using evalPreds_holds [of r t g] assms(2) that by simp
  then show ?thesis using assms(1) by (simp add: with_filter_def cong: filter_cong)
qed

lemma range_branch_rows:
  assumes k: "keyed C t" and g: "\<forall>c\<in>set g. \<not> IsJoinCond c"
  shows "plan_rows C snap (range_branch t g) = filter (\<lambda>r. \<forall>c\<in>set g. cond_holds t r c) (visible_rows C snap t)"
proof -
  let ?es = "tblEntries C (tblName t)"
  from k obtain p where p: "PrimaryKeyIndex t = Some p" "p < length (tblColumns t)"
    "ColIndex t (colName (tblColumns t ! p)) = Some p" "ascending ?es" "rows_decode t ?es"
    and pk: "\<And>e. e \<in> set ?es \<Longrightarrow> row_of t e ! p = intValue (Key e)"
    by (rule keyedD) (rule that)
  obtain mn mx post where c: "classifyGroup t g = (mn, mx, post)" by (cases "classifyGroup t g")
  have sound: "in_range mn mx e \<and> (\<forall>c\<in>set post. cond_holds t (row_of t e) c) \<longleftrightarrow> (\<forall>c\<in>set g. cond_holds t (row_of t e) c)"
    if e: "e \<in> set ?es" for e
  proof -
    have "cond_holds t (row_of t e) c \<longleftrightarrow> compare_with (Op c) (Key e) (IntVal (Val c))"
      if "c \<in> set g" "isSimpleCond c" "ToLower (Column c) = ToLower (colName (tblColumns t ! p))" "valType (Val c) = TypeInt" for c
      by (rule cond_holds_simple [OF that(2) _ trans [OF ColIndex_cong [OF that(3)] p(3)] pk [OF e] that(4)])
        (use g that(1) in blast)
    moreover have "classify_loop (ToLower (colName (tblColumns t ! p))) g 0 MaxUint64 [] = (mn, mx, post)"
      using c p(1) by (simp add: classifyGroup_def)
    ultimately have "(mn \<le> Key e \<and> Key e \<le> mx \<and> (\<forall>c\<in>set post. cond_holds t (row_of t e) c)) \<longleftrightarrow>
        (0 \<le> Key e \<and> Key e \<le> MaxUint64 \<and> (\<forall>c\<in>set []. cond_holds t (row_of t e) c) \<and> (\<forall>c\<in>set g. cond_holds t (row_of t e) c))"
      by (intro classify_loop_correct)
    then show ?thesis by (simp add: in_range_def)
  qed
  have "\<forall>r\<in>set (plan_rows C snap (IndexScan t mn mx)). length r = length (tblColumns t)"
    using row_of_length [OF p(5)] by auto
  from with_filter_rows [of "IndexScan t mn mx" t, OF _ this]
  have "plan_rows C snap (range_branch t g) = map (row_of t) (filter (\<lambda>e. (\<forall>c\<in>set post. cond_holds t (row_of t e) c) \<and>
      row_visible snap e \<and> in_range mn mx e) ?es)"
    by (simp add: range_branch_def c filter_map comp_def conj_ac)
  also have "\<dots> = map (row_of t) (filter (\<lambda>e. (\<forall>c\<in>set g. cond_holds t (row_of t e) c) \<and> row_visible snap e) ?es)"
    by (intro arg_cong [of _ _ "map (row_of t)"] filter_cong) (use sound in auto)
  finally show ?thesis by (simp add: visible_rows_def filter_map comp_def conj_commute)
qed

text \<open>A list of rows without repetition that holds exactly the visible rows with a property.\<close>

definition answers :: "contents_of \<Rightarrow> Snapshot \<Rightarrow> Table \<Rightarrow> (Value list \<Rightarrow> bool) \<Rightarrow> Value list list \<Rightarrow> bool" where
  "answers C snap t Q rows \<longleftrightarrow> distinct rows \<and> set rows = {r \<in> set (visible_rows C snap t). Q r}"

lemma ascending_key_inj: "ascending es \<Longrightarrow> inj_on Key (set es)"
proof (induction es)
  case (Cons e es)
  then show ?case by auto
qed simp

lemma ascending_distinct: "ascending es \<Longrightarrow> distinct es"
  by (induction es) auto

lemma entry_lookup_in:
  assumes "ascending es" and "e \<in> set es"
  shows "entry_lookup es (Key e) = Some (Value e)"
  using assms by (induction es) (auto simp: entry_lookup_def)

lemma row_of_inj:
  assumes "keyed C t"
  shows "inj_on (row_of t) (set (tblEntries C (tblName t)))"
proof -
  let ?es = "tblEntries C (tblName t)"
  from assms obtain p where p: "PrimaryKeyIndex t = Some p" "p < length (tblColumns t)"
    "ColIndex t (colName (tblColumns t ! p)) = Some p" "ascending ?es" "rows_decode t ?es"
    and pk: "\<And>e. e \<in> set ?es \<Longrightarrow> row_of t e ! p = intValue (Key e)"
    by (rule keyedD) (rule that)
  show ?thesis
  proof (rule inj_onI)
    fix x y assume xy: "x \<in> set ?es" "y \<in> set ?es" "row_of t x = row_of t y"
    then have "Key x = Key y" using pk [OF xy(1)] pk [OF xy(2)] by (simp add: intValue_def)
    then show "x = y" using inj_onD [OF ascending_key_inj [OF p(4)]] xy by blast
  qed
qed

lemma distinct_visible_rows: "keyed C t \<Longrightarrow> distinct (visible_rows C snap t)"
  unfolding visible_rows_def distinct_map
  by (auto simp: keyed_def ascending_distinct intro: inj_on_subset [OF row_of_inj])

lemma lookup_row_Some:
  assumes "ascending es"
  shows "lookup_row t snap es x = Some r \<longleftrightarrow>
    (\<exists>e\<in>set es. Key e = index_pk x \<and> row_visible snap e \<and> r = row_of t e)"
proof
  assume "lookup_row t snap es x = Some r"
  then obtain v where v: "entry_lookup es (index_pk x) = Some v" "IsVisible snap (row_xmin v) (row_xmax v)"
    "r = projr (decodeRow t v)"
    by (auto simp: lookup_row_def index_pk_def split: option.splits if_splits)
  then show "\<exists>e\<in>set es. Key e = index_pk x \<and> row_visible snap e \<and> r = row_of t e"
    using entry_lookup_mem [OF v(1)] by (auto simp: row_visible_def row_of_def)
next
  assume "\<exists>e\<in>set es. Key e = index_pk x \<and> row_visible snap e \<and> r = row_of t e"
  then obtain e where e: "e \<in> set es" "Key e = index_pk x" "row_visible snap e" "r = row_of t e" by blast
  show "lookup_row t snap es x = Some r"
    using entry_lookup_in [OF assms e(1)] e(2-4) by (simp add: lookup_row_def index_pk_def row_visible_def row_of_def)
qed

lemma distinct_map_filter:
  assumes "distinct xs" and "\<And>x y r. x \<in> set xs \<Longrightarrow> y \<in> set xs \<Longrightarrow> f x = Some r \<Longrightarrow> f y = Some r \<Longrightarrow> x = y"
  shows "distinct (List.map_filter f xs)"
  using assms
proof (induction xs)
  case (Cons x xs)
  have "r \<notin> set (List.map_filter f xs)" if r: "f x = Some r" for r
  proof
    assume "r \<in> set (List.map_filter f xs)"
    then obtain y where y: "y \<in> set xs" "f y = Some r" using map_filter_in by fast
    then have "x = y" using Cons.prems(2) [of x y r] r by simp
    then show False using y(1) Cons.prems(1) by simp
  qed
  moreover have "distinct (List.map_filter f xs)" using Cons by simp
  ultimately show ?case by (simp add: map_filter_simps split: option.split)
qed (simp add: map_filter_simps)

lemma set_map_filter: "set (List.map_filter f xs) = {r. \<exists>x\<in>set xs. f x = Some r}"
  by (force simp: List.map_filter_def)

lemma lookup_rows:
  assumes k: "keyed C t" and x: "indexed C snap t d" and i: "ColIndex t (idxColumn d) = Some i"
  shows "answers C snap t (\<lambda>r. \<exists>v. r ! i = intValue v \<and> mn \<le> v \<and> v \<le> mx) (plan_rows C snap (IndexLookup t d mn mx))"
proof -
  let ?es = "tblEntries C (tblName t)" and ?xs = "idxEntries C (idxName d)"
  have asc: "ascending ?es" "ascending ?xs" using k x by (auto simp: keyed_def indexed_def)
  have sound: "row_of t e ! i = intValue (Key y)"
    if "y \<in> set ?xs" "e \<in> set ?es" "row_visible snap e" "index_pk y = Key e" for y e
    using x i that by (auto simp: indexed_def)
  have complete: "\<exists>y\<in>set ?xs. index_pk y = Key e" if "e \<in> set ?es" "row_visible snap e" for e
    using x i that by (auto simp: indexed_def)
  have "distinct (List.map_filter (lookup_row t snap ?es) (filter (in_range mn mx) ?xs))"
  proof (rule distinct_map_filter)
    fix y z r assume yz: "y \<in> set (filter (in_range mn mx) ?xs)" "z \<in> set (filter (in_range mn mx) ?xs)"
      "lookup_row t snap ?es y = Some r" "lookup_row t snap ?es z = Some r"
    from yz(3,4) obtain e e' where e: "e \<in> set ?es" "Key e = index_pk y" "row_visible snap e" "r = row_of t e"
      "e' \<in> set ?es" "Key e' = index_pk z" "row_visible snap e'" "r = row_of t e'"
      unfolding lookup_row_Some [OF asc(1)] by blast
    have "intValue (Key y) = intValue (Key z)"
      using sound [of y e] sound [of z e'] e yz(1,2) by simp
    then show "y = z" using inj_onD [OF ascending_key_inj [OF asc(2)]] yz(1,2) by (simp add: intValue_def)
  qed (simp add: ascending_distinct asc)
  moreover have "r \<in> set (List.map_filter (lookup_row t snap ?es) (filter (in_range mn mx) ?xs)) \<longleftrightarrow>
      r \<in> set (visible_rows C snap t) \<and> (\<exists>v. r ! i = intValue v \<and> mn \<le> v \<and> v \<le> mx)" for r
  proof
    assume "r \<in> set (List.map_filter (lookup_row t snap ?es) (filter (in_range mn mx) ?xs))"
    then obtain y e where y: "y \<in> set ?xs" "mn \<le> Key y" "Key y \<le> mx"
      and e: "e \<in> set ?es" "Key e = index_pk y" "row_visible snap e" "r = row_of t e"
      unfolding set_map_filter lookup_row_Some [OF asc(1)] by (auto simp: in_range_def)
    then show "r \<in> set (visible_rows C snap t) \<and> (\<exists>v. r ! i = intValue v \<and> mn \<le> v \<and> v \<le> mx)"
      using sound [of y e] by (auto simp: visible_rows_def)
  next
    assume "r \<in> set (visible_rows C snap t) \<and> (\<exists>v. r ! i = intValue v \<and> mn \<le> v \<and> v \<le> mx)"
    then obtain e v where e: "e \<in> set ?es" "row_visible snap e" "r = row_of t e" "r ! i = intValue v" "mn \<le> v" "v \<le> mx"
      by (auto simp: visible_rows_def)
    obtain y where y: "y \<in> set ?xs" "index_pk y = Key e" using complete e by blast
    have "Key y = v" using sound [OF y(1) e(1,2) y(2)] e(3,4) by (simp add: intValue_def)
    then have "y \<in> set (filter (in_range mn mx) ?xs)" using y(1) e(5,6) by (simp add: in_range_def)
    moreover have "lookup_row t snap ?es y = Some r" using lookup_row_Some [OF asc(1)] e(1-3) y(2) by auto
    ultimately show "r \<in> set (List.map_filter (lookup_row t snap ?es) (filter (in_range mn mx) ?xs))"
      unfolding set_map_filter by blast
  qed
  ultimately show ?thesis by (auto simp: answers_def)
qed

lemma answers_filter:
  assumes "answers C snap t Q (plan_rows C snap b)" and "baseTable b = Some t" and "keyed C t"
  shows "answers C snap t (\<lambda>r. Q r \<and> (\<forall>c\<in>set g. cond_holds t r c)) (plan_rows C snap (with_filter b g))"
proof -
  have "\<forall>r\<in>set (plan_rows C snap b). length r = length (tblColumns t)"
    using assms(1,3) row_of_length by (fastforce simp: answers_def visible_rows_def keyed_def)
  then show ?thesis using assms(1) with_filter_rows [OF assms(2), of C snap g] by (auto simp: answers_def)
qed

lemma answers_cong:
  "(\<And>r. r \<in> set (visible_rows C snap t) \<Longrightarrow> Q r \<longleftrightarrow> Q' r) \<Longrightarrow> answers C snap t Q rows \<longleftrightarrow> answers C snap t Q' rows"
  by (auto simp: answers_def)

lemma index_for_condD:
  assumes "index_for_cond t c = Some d"
  shows "isSimpleCond c" "\<not> IsJoinCond c" "valType (Val c) = TypeInt" "IndexForColumn t (Column c) = Some d"
    "d \<in> set (tblIndexes t)" "ToLower (Column c) = ToLower (idxColumn d)"
  using assms
  by (auto simp: index_for_cond_def IndexForColumn_def find_Some_iff split: if_splits option.splits)

lemma withoutIdx_all:
  assumes "i < length g"
  shows "(\<forall>c\<in>set g. P c) \<longleftrightarrow> P (g ! i) \<and> (\<forall>c\<in>set (withoutIdx g i). P c)"
proof (cases "length g = 1")
  case True
  then show ?thesis using assms by (auto simp: withoutIdx_def length_Suc_conv)
next
  case False
  have "set g = set (take i g @ g ! i # drop (Suc i) g)" using id_take_nth_drop [OF assms] by metis
  then show ?thesis using False by (auto simp: withoutIdx_def)
qed

lemma index_branch_answers:
  assumes k: "keyed C t" and c: "index_for_cond t (g ! i) = Some d" and i: "i < length g" and x: "indexed C snap t d"
  shows "answers C snap t (\<lambda>r. \<forall>c\<in>set g. cond_holds t r c) (plan_rows C snap (index_branch t g i d))"
proof -
  note d = index_for_condD [OF c]
  obtain mn mx where r: "condToRange (g ! i) = (mn, mx)" by (cases "condToRange (g ! i)")
  obtain j where j: "ColIndex t (idxColumn d) = Some j" using x by (auto simp: indexed_def split: option.splits)
  then have j': "ColIndex t (Column (g ! i)) = Some j" using ColIndex_cong [OF d(6)] by metis
  have "(\<exists>v. r ! j = intValue v \<and> mn \<le> v \<and> v \<le> mx) \<longleftrightarrow> cond_holds t r (g ! i)"
    if "r \<in> set (visible_rows C snap t)" for r
  proof -
    have "\<exists>v. r ! j = intValue v" using that x j by (fastforce simp: visible_rows_def indexed_def)
    then obtain v where v: "r ! j = intValue v" by blast
    show ?thesis
      using cond_holds_simple [OF d(1,2) j' v d(3)] condToRange_in [OF r, of v] v by (auto simp: intValue_def)
  qed
  then have "answers C snap t (\<lambda>r. cond_holds t r (g ! i)) (plan_rows C snap (IndexLookup t d mn mx))"
    by (rule iffD1 [OF answers_cong lookup_rows [OF k x j]])
  from answers_filter [OF this _ k, of "withoutIdx g i"] show ?thesis
    by (simp add: index_branch_def r withoutIdx_all [OF i, of "cond_holds t _"])
qed

lemma best_index_Some:
  "best_index cm t cs i bc bi = Some j \<Longrightarrow> bi = Some j \<or>
   (i \<le> j \<and> j < i + length cs \<and> (\<exists>d. index_for_cond t (cs ! (j - i)) = Some d))"
proof (induction cs arbitrary: i bc bi)
  case (Cons c cs)
  have "Suc i \<le> j \<Longrightarrow> (c # cs) ! (j - i) = cs ! (j - Suc i)" by (simp add: nth_Cons')
  then show ?case using Cons by (fastforce split: if_splits)
qed simp

lemma planGroup_answers:
  assumes k: "keyed C t" and g: "\<forall>c\<in>set g. \<not> IsJoinCond c" and x: "\<And>d. d \<in> set (tblIndexes t) \<Longrightarrow> indexed C snap t d"
  shows "answers C snap t (\<lambda>r. \<forall>c\<in>set g. cond_holds t r c) (plan_rows C snap (planGroup t g ts))"
proof -
  have range: "answers C snap t (\<lambda>r. \<forall>c\<in>set g. cond_holds t r c) (plan_rows C snap (range_branch t g))"
    using range_branch_rows [OF k g] distinct_visible_rows [OF k] by (simp add: answers_def)
  have idx: "answers C snap t (\<lambda>r. \<forall>c\<in>set g. cond_holds t r c) (plan_rows C snap (index_branch t g i d))"
    if "index_for_cond t (g ! i) = Some d" "i < length g" for i d
    using index_branch_answers [OF k that x] index_for_condD(5) [OF that(1)] by blast
  show ?thesis
  proof (cases ts)
    case None
    then show ?thesis
      using range idx by (auto simp: planGroup_def ruleBasedPlanGroup_def split: option.split dest!: find_index_SomeD)
  next
    case (Some cm)
    show ?thesis
    proof (cases "best_index cm t g 0 (fullScanCost cm) None")
      case None
      then show ?thesis using Some range by (simp add: planGroup_def costBasedPlanGroup_def)
    next
      case (Some i)
      then obtain d where d: "i < length g" "index_for_cond t (g ! i) = Some d" using best_index_Some by fastforce
      then show ?thesis
        using \<open>ts = Some cm\<close> Some idx [OF d(2,1)] index_for_condD(4) [OF d(2)]
        by (simp add: planGroup_def costBasedPlanGroup_def)
    qed
  qed
qed

section \<open>The union of the groups\<close>

lemma dedup_spec:
  assumes "\<And>r r'. r \<in> set rows \<Longrightarrow> r' \<in> set rows \<Longrightarrow> IntVal (r ! p) = IntVal (r' ! p) \<Longrightarrow> r = r'"
  shows "distinct (dedup p seen rows) \<and> set (dedup p seen rows) = {r \<in> set rows. IntVal (r ! p) \<notin> seen}"
  using assms
proof (induction p seen rows rule: dedup.induct)
  case (2 p seen r rs)
  have inj: "r' = r" if "r' \<in> set rs" "IntVal (r' ! p) = IntVal (r ! p)" for r' using "2.prems" that by simp
  show ?case
  proof (cases "IntVal (r ! p) \<in> seen")
    case True
    then show ?thesis using "2.IH"(1) "2.prems" by auto
  next
    case False
    then show ?thesis using "2.IH"(2) "2.prems" inj by auto
  qed
qed simp

lemma union_answers:
  assumes k: "keyed C t" and p: "PrimaryKeyIndex t = Some p"
    and a: "\<And>g. g \<in> set gs \<Longrightarrow> answers C snap t (Q g) (plan_rows C snap (f g))"
  shows "answers C snap t (\<lambda>r. \<exists>g\<in>set gs. Q g r) (plan_rows C snap (UnionNode (map f gs) p))"
proof -
  let ?rows = "concat (map (\<lambda>g. plan_rows C snap (f g)) gs)"
  have set_rows: "set ?rows = {r \<in> set (visible_rows C snap t). \<exists>g\<in>set gs. Q g r}"
    using a by (auto simp: answers_def)
  have "r = r'" if rr: "r \<in> set ?rows" "r' \<in> set ?rows" "IntVal (r ! p) = IntVal (r' ! p)" for r r'
  proof -
    obtain e e' where e: "e \<in> set (tblEntries C (tblName t))" "r = row_of t e"
      "e' \<in> set (tblEntries C (tblName t))" "r' = row_of t e'"
      using rr(1,2) unfolding set_rows by (auto simp: visible_rows_def)
    have "Key e = Key e'" using rr(3) k p e by (auto simp: keyed_def intValue_def)
    moreover have "ascending (tblEntries C (tblName t))" using k by (simp add: keyed_def)
    ultimately show ?thesis using inj_onD [OF ascending_key_inj] e by metis
  qed
  then have "distinct (dedup p {} ?rows) \<and> set (dedup p {} ?rows) = {r \<in> set ?rows. IntVal (r ! p) \<notin> {}}"
    by (rule dedup_spec)
  then have "distinct (dedup p {} ?rows) \<and> set (dedup p {} ?rows) = set ?rows" by (simp only: empty_iff simp_thms Collect_mem_eq)
  moreover have "plan_rows C snap (UnionNode (map f gs) p) = dedup p {} ?rows" by (simp add: comp_def)
  ultimately show ?thesis unfolding answers_def by (simp only: set_rows simp_thms)
qed

lemma answers_mset:
  assumes "keyed C t" and "answers C snap t Q rows"
  shows "mset rows = mset (filter Q (visible_rows C snap t))"
proof -
  have "set rows = set (filter Q (visible_rows C snap t))" "distinct rows"
    using assms(2) by (auto simp: answers_def)
  then show ?thesis
    using set_eq_iff_mset_eq_distinct [of rows] distinct_filter [OF distinct_visible_rows [OF assms(1)]] by blast
qed

section \<open>Plans are well formed\<close>

text \<open>A plan over one table whose operators may use the given indexes.\<close>

definition single_plan :: "Table \<Rightarrow> PhysicalNode \<Rightarrow> bool" where
  "single_plan t b \<longleftrightarrow> plan_ok b \<and> plan_width b = length (tblColumns t) \<and> baseTable b = Some t \<and>
     plan_tables b = {t} \<and> plan_indexes b \<subseteq> set (tblIndexes t)"

lemma planGroup_single: "single_plan t (planGroup t g ts)"
proof -
  have range: "single_plan t (range_branch t g)"
    unfolding range_branch_def by (cases "classifyGroup t g") (simp add: single_plan_def with_filter_def)
  have idx: "single_plan t (index_branch t g i d)" if "d \<in> set (tblIndexes t)" for i d
    unfolding index_branch_def using that by (cases "condToRange (g ! i)") (simp add: single_plan_def with_filter_def)
  show ?thesis
  proof (cases ts)
    case None
    then show ?thesis
      using range idx index_for_condD(5)
      by (fastforce simp: planGroup_def ruleBasedPlanGroup_def split: option.split dest!: find_index_SomeD)
  next
    case (Some cm)
    then show ?thesis
      using range idx index_for_condD(4,5)
      by (fastforce simp: planGroup_def costBasedPlanGroup_def split: option.split dest!: best_index_Some)
  qed
qed

lemma single_plan_union:
  assumes "gs \<noteq> []" and "\<And>b. b \<in> set gs \<Longrightarrow> single_plan t b" and "p < length (tblColumns t)"
  shows "single_plan t (UnionNode gs p)"
proof -
  obtain b bs where gs: "gs = b # bs" using assms(1) by (cases gs) auto
  have "hd gs \<in> set gs" using assms(1) by simp
  then show ?thesis using assms unfolding single_plan_def by (auto simp: gs)
qed

lemma resolveColumnsSingle_bound:
  assumes "resolveColumnsSingle t cs = Inr (cols, idxs)"
  shows "\<forall>i\<in>set idxs. i < length (tblColumns t)"
proof (cases "cs = [''*'']")
  case False
  then have "mapE (\<lambda>col. case ColIndex t col of None \<Rightarrow> Inl (ColumnMissing col) | Some i \<Rightarrow> Inr i) cs = Inr idxs"
    using assms by (auto simp: resolveColumnsSingle_def elim!: bindE_InrE)
  from mapE_Inr_in [OF this] show ?thesis by (fastforce dest: ColIndex_less split: option.splits)
qed (use assms in \<open>auto simp: resolveColumnsSingle_def\<close>)

section \<open>SELECT over one table\<close>

text \<open>WHERE clauses as the parser and the subquery flattener leave them for a query over one table: at
  least one group, and no comparison of two columns.\<close>

definition single_where :: "WhereClause option \<Rightarrow> bool" where
  "single_where wh \<longleftrightarrow>
     (case wh of None \<Rightarrow> True | Some w \<Rightarrow> Groups w \<noteq> [] \<and> (\<forall>g\<in>set (Groups w). \<forall>c\<in>set g. \<not> IsJoinCond c))"

lemma planSingleTable_answers:
  assumes k: "keyed C t" and w: "single_where (Where s)" and x: "\<And>d. d \<in> set (tblIndexes t) \<Longrightarrow> indexed C snap t d"
    and r: "resolveColumnsSingle t (exprCols (Columns s)) = Inr (cols, idxs)"
  shows "\<exists>root. planSingleTable s t ts = Inr (ProjectNode (with_limit (Limit s) root) cols idxs) \<and>
    single_plan t root \<and> answers C snap t (\<lambda>r. where_holds t r (Where s)) (plan_rows C snap root)"
proof -
  obtain p where p: "PrimaryKeyIndex t = Some p" "p < length (tblColumns t)"
    using k by (auto simp: keyed_def PrimaryKeyIndex_def dest: find_index_length split: option.splits)
  show ?thesis
  proof (cases "Where s")
    case None
    have "in_range 0 MaxUint64 = (\<lambda>_. True)" by (simp add: in_range_def fun_eq_iff)
    then have "answers C snap t (\<lambda>r. where_holds t r (Where s)) (plan_rows C snap (IndexScan t 0 MaxUint64))"
      using None distinct_visible_rows [OF k, of snap] by (simp add: answers_def where_holds_def visible_rows_def)
    moreover have "single_plan t (IndexScan t 0 MaxUint64)" by (simp add: single_plan_def)
    ultimately show ?thesis using None r by (auto simp: planSingleTable_def)
  next
    case (Some wh)
    have g: "Groups wh \<noteq> []" "\<And>g. g \<in> set (Groups wh) \<Longrightarrow> \<forall>c\<in>set g. \<not> IsJoinCond c"
      using w Some by (auto simp: single_where_def)
    have a: "answers C snap t (\<lambda>r. \<forall>c\<in>set g. cond_holds t r c) (plan_rows C snap (planGroup t g ts))"
      if "g \<in> set (Groups wh)" for g
      by (rule planGroup_answers [OF k g(2) [OF that] x])
    have holds: "(\<lambda>r. where_holds t r (Where s)) = (\<lambda>r. \<exists>g\<in>set (Groups wh). \<forall>c\<in>set g. cond_holds t r c)"
      using Some by (simp add: where_holds_def)
    show ?thesis
    proof (cases "length (Groups wh) = 1")
      case True
      then obtain g0 where g0: "Groups wh = [g0]" by (auto simp: length_Suc_conv)
      then show ?thesis using a [of g0] holds Some r planGroup_single [of t g0 ts] by (auto simp: planSingleTable_def)
    next
      case False
      let ?u = "UnionNode (map (\<lambda>g. planGroup t g ts) (Groups wh)) p"
      have "single_plan t ?u" by (rule single_plan_union) (use g(1) p(2) planGroup_single in auto)
      moreover have "answers C snap t (\<lambda>r. where_holds t r (Where s)) (plan_rows C snap ?u)"
        unfolding holds by (rule union_answers [OF k p(1) a])
      moreover have "planSingleTable s t ts = Inr (ProjectNode (with_limit (Limit s) ?u) cols idxs)"
        using False g(1) Some r p(1) by (cases "Groups wh" rule: remdups_adj.cases) (auto simp: planSingleTable_def)
      ultimately show ?thesis by blast
    qed
  qed
qed

lemma plan_rows_limit:
  "plan_rows C snap (ProjectNode (with_limit n root) cols idxs) =
   map (\<lambda>r. map ((!) r) idxs) (if n > 0 then take (nat n) (plan_rows C snap root) else plan_rows C snap root)"
  by (simp add: with_limit_def)

lemma single_plan_project:
  assumes "single_plan t root" and "\<forall>i\<in>set idxs. i < length (tblColumns t)"
  shows "plan_ok (ProjectNode (with_limit n root) cols idxs)"
    "plan_tables (ProjectNode (with_limit n root) cols idxs) = {t}"
    "plan_indexes (ProjectNode (with_limit n root) cols idxs) \<subseteq> set (tblIndexes t)"
  using assms by (auto simp: single_plan_def with_limit_def)

text \<open>The page files of a database and, outside of a transaction, the page stores they are read through:
  the \<open>BufPager\<close>s that \<open>getOrOpenTable\<close> and \<open>getOrOpenIndex\<close> return for the lower-case names.\<close>

datatype DbFile = TableFile string | IndexFile string

definition pool_env :: "(DbFile \<Rightarrow> BufPager) \<Rightarrow> BufState ExecEnv" where
  "pool_env bp =
     \<lparr>tblStore = (\<lambda>n. Inr (pool_store bp (TableFile (ToLower n)))),
      idxStore = (\<lambda>n. Inr (pool_store bp (IndexFile (ToLower n))))\<rparr>"

text \<open>File \<open>f\<close> holds a B+ tree with the given entries, rooted at header page 1, no leaf of whose chain
  is empty but the first (deletions leave empty leaves, on which a cursor panics).\<close>

definition pool_tree :: "('f \<Rightarrow> BufPager) \<Rightarrow> 'f set \<Rightarrow> BufState \<Rightarrow> 'f \<Rightarrow> Entry list \<Rightarrow> bool" where
  "pool_tree bp F st f es \<longleftrightarrow> f \<in> F \<and>
     (\<exists>n t bt. headerPage bt = 1 \<and> btree_tree (buf_live (bp f) st) (buf_view (bp f) st) n t bt \<and>
        entries t = es \<and> no_empty_leaf (tl (leaves t)))"

lemma pool_tree_file: "pool_tree bp F st f es \<longleftrightarrow>
    (\<exists>n bt. db_files.table_file F (\<lambda>f. buf_live (bp f)) (\<lambda>f. buf_view (bp f)) f st es n bt)"
  unfolding pool_tree_def pf.table_file_def by blast

text \<open>C8: a SELECT over one table (no joins, no aggregates) is planned and executed correctly, through
  planner, operators, cursors, B+ trees and buffer pool: if the selected columns exist, the plan is built;
  running it ends without an error (any fuel above some bound gives the same answer) and returns the
  selected columns of exactly the visible rows for which the WHERE clause holds, each once, or the
  first \<open>LIMIT\<close> of them. This holds whatever the statistics make the planner choose: primary-key ranges,
  secondary indexes or the union of several of them.\<close>

theorem select_correct:
  assumes "keyed C t" and "single_where (Where s)" and "\<forall>d\<in>set (tblIndexes t). indexed C snap t d"
    and "length (From s) = 1" and "Joins s = []"
    and "resolveColumnsSingle t (exprCols (Columns s)) = Inr (cols, idxs)"
    and "pool_files_ok bp F st"
    and "pool_tree bp F st (TableFile (ToLower (tblName t))) (tblEntries C (tblName t))"
    and "\<forall>d\<in>set (tblIndexes t). pool_tree bp F st (IndexFile (ToLower (idxName d))) (idxEntries C (idxName d))"
  shows "\<exists>plan rows N st'. Plan s [t] statsMap = Inr plan \<and>
    (\<forall>fuel\<ge>N. execute fuel (pool_env bp) snap plan st =
       (Inr (map (\<lambda>r. map ((!) r) idxs) (if Limit s > 0 then take (nat (Limit s)) rows else rows)), st')) \<and>
    mset rows = mset (select_rows C snap t (Where s))"
proof -
  let ?tf = "\<lambda>n. TableFile (ToLower n)" and ?xf = "\<lambda>n. IndexFile (ToLower n)"
  obtain root where root: "Plan s [t] statsMap = Inr (ProjectNode (with_limit (Limit s) root) cols idxs)"
      "single_plan t root" "answers C snap t (\<lambda>r. where_holds t r (Where s)) (plan_rows C snap root)"
    using planSingleTable_answers [OF assms(1,2) _ assms(6), of snap "statsMap (ToLower (refName (hd (From s))))"]
      assms(3,4,5) by (auto simp: Plan_def)
  let ?plan = "ProjectNode (with_limit (Limit s) root) cols idxs"
  note ok = single_plan_project [OF root(2) resolveColumnsSingle_bound [OF assms(6)], of "Limit s" cols]
  have "rows_decode t (tblEntries C (tblName t))" using assms(1) by (simp add: keyed_def)
  then have "db_files.table_open (pool_store bp) F (\<lambda>f. buf_live (bp f)) (\<lambda>f. buf_view (bp f)) (pool_env bp) ?tf C st t'"
    if "t' \<in> plan_tables ?plan" for t'
    using that ok(2) assms(8) unfolding pf.table_open_def pool_tree_file by (auto simp: pool_env_def)
  moreover have "db_files.index_open (pool_store bp) F (\<lambda>f. buf_live (bp f)) (\<lambda>f. buf_view (bp f)) (pool_env bp) ?xf C st d"
    if "d \<in> plan_indexes ?plan" for d
    using that ok(3) assms(9) unfolding pf.index_open_def pool_tree_file by (auto simp: pool_env_def)
  ultimately obtain N st' where
    "\<forall>fuel\<ge>N. execute fuel (pool_env bp) snap ?plan st = (Inr (plan_rows C snap ?plan), st')"
    using pf.execute_plan [OF ok(1) _ _ assms(7)] by blast
  then show ?thesis
    using root(1) answers_mset [OF assms(1) root(3)] unfolding plan_rows_limit select_rows_def by blast
qed

section \<open>Witnesses\<close>

text \<open>A database with one open page file, new.\<close>

definition new_pool :: BufState where
  "new_pool = \<lparr>pool = snd (pool_Register 0 (pool_New 4)), pagers = (\<lambda>_. fresh_pager)\<rparr>"

lemma new_pool_ok: "pool_files_ok (\<lambda>_. NewBufPager 0 0) {f} new_pool"
  by (auto simp: pool_files_ok_def new_pool_def pool_inv_def pool_Register_def pool_New_def pool_wf_def coherent_def
      Let_def NewBufPager_def split: if_splits)

lemma pool_tree_example:
  fixes f :: 'f
  assumes "ascending es" and "wf_entries es" and "length es \<le> LeafOrder"
  shows "\<exists>st. pool_files_ok (\<lambda>_. NewBufPager 0 0) {f} st \<and> pool_tree (\<lambda>_. NewBufPager 0 0) {f} st f es"
proof -
  let ?bp = "\<lambda>_ :: 'f. NewBufPager 0 0"
  have ps: "page_store (pool_store ?bp f) (pool_files_ok ?bp {f}) (buf_live (?bp f)) (buf_view (?bp f)) (buf_room (?bp f))"
    by (rule pool_page_store) simp
  have "2 \<le> buf_room (?bp f) new_pool" by (simp add: buf_room_def new_pool_def)
  from page_store.btree_Create_spec [OF ps new_pool_ok this] obtain bt s1 where
    c: "btree_Create (pool_store ?bp f) new_pool = (Inr bt, s1)" "pool_files_ok ?bp {f} s1"
      "btree_rel (buf_live (?bp f) s1) (buf_view (?bp f) s1) 0 [] bt" by blast
  have "fst (AllocatePage (pool_store ?bp f) new_pool) = Inr 1"
    by (simp add: pool_store_def buf_AllocatePage_def new_pool_def AllocatePage_grow)
  then have h: "headerPage bt = 1"
    using c(1) by (auto simp: btree_Create_def Let_def elim!: bindG_InrE)
  from c(3) obtain u where u: "btree_tree (buf_live (?bp f) s1) (buf_view (?bp f) s1) 0 u bt" "entries u = []"
    unfolding btree_rel_def by blast
  then obtain i nx where "u = BLeaf i [] nx" by (cases u) (auto simp: btree_tree_def)
  then have t: "btree_tree (buf_live (?bp f) s1) (buf_view (?bp f) s1) 0 (BLeaf (rootID bt) [] nx) bt"
    using u(1) by (auto simp: btree_tree_def)
  obtain a where r: "rootID bt \<in> buf_live (?bp f) s1" "path a [(rootID bt, [], nx)] 0" "headerPage bt \<noteq> rootID bt"
    "headerPage bt \<in> buf_live (?bp f) s1" "header_at (buf_view (?bp f) s1) bt"
    using t by (auto simp: btree_tree_def holds_tree_BLeaf)
  obtain p s2 where
    w: "EncodeLeaf \<lparr>LeafPageID = rootID bt, Entries = es, NextLeaf = 0\<rparr> = Inr p"
      "WritePage (pool_store ?bp f) p s1 = (Inr (), s2)" "pool_files_ok ?bp {f} s2" "buf_live (?bp f) s2 = buf_live (?bp f) s1"
      "leaf_at (buf_view (?bp f) s2) (rootID bt) es 0"
      "\<forall>j\<in>buf_live (?bp f) s1 - {rootID bt}. buf_view (?bp f) s2 j = buf_view (?bp f) s1 j"
      "buf_room (?bp f) s1 \<le> buf_room (?bp f) s2"
    by (rule page_store.write_leaf [OF ps c(2) r(1) assms(3,2)])
  have "btree_tree (buf_live (?bp f) s2) (buf_view (?bp f) s2) 0 (BLeaf (rootID bt) es 0) bt"
    using r w assms unat_u64_bound
    by (auto simp: btree_tree_def holds_tree_BLeaf spans_def header_at_def)
  then have "pool_tree ?bp {f} s2 f es"
    unfolding pool_tree_def using h by (fastforce simp: no_empty_leaf_def)
  then show ?thesis using w(3) by blast
qed

definition ex_select :: SelectStmt where
  "ex_select = SelectStmt [\<lparr>exprCol = ''name'', exprAgg = None, exprAlias = []\<rparr>] [\<lparr>refName = ''t'', refAlias = []\<rparr>] []
     (Some (WhereClause [[simpleCond ''id'' OpGt (intValue 3)], [simpleCond ''name'' OpEq (textValue ''bob'')]])) [] None [] 5"

theorem select_correct_witness:
  "\<exists>bp st plan N st'. Plan ex_select [ex_schema] (\<lambda>_. None :: unit CostModel option) = Inr plan \<and>
     execute N (pool_env bp) (TakeSnapshot 3 TxManager_New) plan st = (Inr [[textValue ''ann'']], st')"
proof -
  let ?vs = "[intValue 7, textValue ''ann'']" and ?snap = "TakeSnapshot 3 TxManager_New"
  have l: "length ?vs = length (tblColumns ex_schema)" by (simp add: ex_schema_def)
  obtain buf where b: "encodeRow ex_schema ?vs 3 = Inr buf" using encodeRow_eq [OF ex_schema_valid l] by blast
  have d: "decodeRow ex_schema buf = Inr ?vs" "row_xmin buf = 3" "row_xmax buf = XIDNone" "length buf = ValueSize"
    using decodeRow_encoded [OF b ex_schema_valid l]
    by (simp_all add: ex_schema_def stored_fits fits_def TypeInt_def TypeText_def intValue_def textValue_def TextColSize_def)
  let ?C = "\<lparr>tblEntries = (\<lambda>_. [\<lparr>Key = 7, Value = buf\<rparr>]), idxEntries = (\<lambda>_. [])\<rparr>"
  have low: "ToLower ''t'' = ''t''" "ToLower ''id'' = ''id''" "ToLower ''name'' = ''name''" by code_simp+
  have row: "row_of ex_schema \<lparr>Key = 7, Value = buf\<rparr> = ?vs" using d(1) by (simp add: row_of_def)
  have k: "keyed ?C ex_schema"
    using d(1) row
    by (simp add: keyed_def rows_decode_def ex_schema_def PrimaryKeyIndex_def ColIndex_def TypeInt_def low)
  have "select_rows ?C ?snap ex_schema (Where ex_select) = [?vs]"
    using d(2,3) row
    by (simp add: select_rows_def visible_rows_def row_visible_def IsVisible_def TakeSnapshot_def where_holds_def ex_select_def
        cond_holds_def IsJoinCond_def ColIndex_def ex_schema_def low compareVals_def intValue_def)
  moreover obtain st where "pool_files_ok (\<lambda>_. NewBufPager 0 0) {TableFile ''t''} st"
      "pool_tree (\<lambda>_. NewBufPager 0 0) {TableFile ''t''} st (TableFile ''t'') [\<lparr>Key = 7, Value = buf\<rparr>]"
    using pool_tree_example [of "[\<lparr>Key = 7, Value = buf\<rparr>]" "TableFile ''t''"] d(4) by (auto simp: wf_entries_def LeafOrder_val)
  moreover have "resolveColumnsSingle ex_schema (exprCols (Columns ex_select)) = Inr ([''name''], [1])"
    by (simp add: ex_select_def exprCols_def resolveColumnsSingle_def ColIndex_def ex_schema_def low)
  moreover have "tblIndexes ex_schema = []" "tblName ex_schema = ''t''" "Limit ex_select = 5" "Joins ex_select = []" "length (From ex_select) = 1"
      "single_where (Where ex_select)"
    by (simp_all add: ex_schema_def ex_select_def single_where_def IsJoinCond_def)
  ultimately obtain plan rows N st' where
    "Plan ex_select [ex_schema] (\<lambda>_. None :: unit CostModel option) = Inr plan"
    "\<forall>fuel\<ge>N. execute fuel (pool_env (\<lambda>_. NewBufPager 0 0)) ?snap plan st = (Inr (map (\<lambda>r. map ((!) r) [1]) (take (nat 5) rows)), st')"
    "mset rows = mset [?vs]"
    using select_correct [of ?C ex_schema ex_select ?snap "[''name'']" "[1]" "\<lambda>_. NewBufPager 0 0" "{TableFile ''t''}" st "\<lambda>_. None :: unit CostModel option"]
      k low(1) by auto
  moreover from this(3) have "rows = [?vs]" by simp
  ultimately show ?thesis by (intro exI) auto
qed

end
