(* ===== verification/PlanWellFormed.thy ===== *)
theory PlanWellFormed
  imports PlannerCorrect
begin

text \<open>
  Every plan the planner builds, for one table or for a join, is well formed: its column
  numbers lie inside the rows below it, and the schemas of a join have the widths of
  its inputs. So it runs: over open files that hold trees, the operators end without
  an error or a panic, whatever fuel above some bound they are given.
\<close>

definition plan_uses :: "Table list \<Rightarrow> PhysicalNode \<Rightarrow> bool" where
  "plan_uses tables b \<longleftrightarrow> plan_tables b \<subseteq> set tables \<and> plan_indexes b \<subseteq> (\<Union>t\<in>set tables. set (tblIndexes t))"

lemma single_plan_uses: "single_plan t b \<Longrightarrow> t \<in> set tables \<Longrightarrow> plan_uses tables b"
  by (auto simp: single_plan_def plan_uses_def)

lemma findInSchema_bound: "findInSchema n schema = Inr i \<Longrightarrow> i < length schema"
proof -
  assume f: "findInSchema n schema = Inr i"
  let ?hits = "filter (\<lambda>i. case split_last_dot (schema ! i) of Some (_, b) \<Rightarrow> EqualFold b n | None \<Rightarrow> False) [0..<length schema]"
  show ?thesis
  proof (cases "find_index (\<lambda>s. EqualFold s n) schema")
    case (Some j)
    then show ?thesis using f find_index_length by (fastforce simp: findInSchema_def)
  next
    case None
    then have "?hits = [i]" using f by (auto simp: findInSchema_def split: list.splits)
    then have "i \<in> set ?hits" by simp
    then show ?thesis by simp
  qed
qed

lemma resolve_item_bound:
  assumes "resolve_item schema col = Inr xs"
  shows "\<forall>x\<in>set xs. snd x < length schema"
  using assms
  by (auto simp: resolve_item_def Let_def findInSchema_bound split: if_splits elim!: bindE_InrE)

lemma resolveColumnsMulti_bound:
  assumes "resolveColumnsMulti cols schema = Inr (names, idxs)"
  shows "\<forall>i\<in>set idxs. i < length schema"
proof (cases "cols = [''*'']")
  case False
  then obtain xs where xs: "mapE (resolve_item schema) cols = Inr xs" "idxs = map snd (concat xs)"
    using assms by (auto simp: resolveColumnsMulti_def elim!: bindE_InrE)
  have "\<forall>x\<in>set ys. snd x < length schema" if ys: "ys \<in> set xs" for ys
  proof -
    obtain col where "resolve_item schema col = Inr ys" using mapE_Inr_in [OF xs(1) ys] by blast
    then show ?thesis by (rule resolve_item_bound)
  qed
  then show ?thesis using xs(2) by auto
qed (use assms in \<open>auto simp: resolveColumnsMulti_def\<close>)

lemma join_tree_ok:
  assumes "join_tree root ls rem rest = (root', schema)"
    and "plan_ok root" "length ls = plan_width root" "plan_uses tables root"
    and "\<And>leaf rs. (leaf, rs) \<in> set rest \<Longrightarrow> plan_ok leaf \<and> length rs = plan_width leaf \<and> plan_uses tables leaf"
  shows "plan_ok root' \<and> length schema = plan_width root' \<and> plan_uses tables root'"
  using assms
proof (induction root ls rem rest rule: join_tree.induct)
  case (2 root ls rem leaf rs rest)
  let ?on = "filter (\<lambda>c. condConnects c ls rs) rem" and ?rem = "filter (\<lambda>c. \<not> condConnects c ls rs) rem"
  let ?join = "NestedLoopJoin root leaf ?on ls rs"
  have leaf: "plan_ok leaf" "length rs = plan_width leaf" "plan_uses tables leaf"
    using "2.prems"(5) [of leaf rs] by simp_all
  show ?case
  proof (rule "2.IH" [OF refl refl])
    show "join_tree ?join (ls @ rs) ?rem rest = (root', schema)" using "2.prems"(1) by (simp add: Let_def)
    show "plan_ok ?join" "length (ls @ rs) = plan_width ?join" "plan_uses tables ?join"
      using "2.prems"(2-4) leaf by (auto simp: plan_uses_def)
    show "\<And>leaf rs. (leaf, rs) \<in> set rest \<Longrightarrow> plan_ok leaf \<and> length rs = plan_width leaf \<and> plan_uses tables leaf"
      by (rule "2.prems"(5)) simp
  qed
qed simp

lemma length_split_conds: "split_conds refs tables cs js fs = Inr (js', fs') \<Longrightarrow> length fs' = length fs"
  by (induction refs tables cs js fs rule: split_conds.induct) (auto simp: Let_def split: if_splits)

lemma planMultiTable_ok:
  assumes "planMultiTable s tables statsMap = Inr plan"
  shows "plan_ok plan \<and> plan_uses tables plan"
proof -
  let ?refs = "allTableRefs s" and ?none = "replicate (length tables) []"
  let ?schemas = "map2 (\<lambda>t r. qualifySchema t (Qualifier r)) tables ?refs"
  let ?leafs = "\<lambda>fs. map2 (\<lambda>t f. if f \<noteq> [] then planGroup t f (statsMap (ToLower (tblName t)))
      else IndexScan t 0 MaxUint64) tables fs"
  have len: "length ?refs = length tables" using assms by (auto simp: planMultiTable_def Let_def split: if_splits)
  obtain js fs where c: "(case Where s of None \<Rightarrow> Inr ([], ?none)
         | Some w \<Rightarrow> if length (Groups w) > 1 then Inl OrInMultiTable
             else case Groups w of [] \<Rightarrow> Inl Panic | g # _ \<Rightarrow> split_conds ?refs tables g [] ?none) = Inr (js, fs)"
    and k: "(case zip (?leafs fs) ?schemas of [] \<Rightarrow> Inl Panic
         | (leaf, schema) # rest \<Rightarrow>
             (let (root, combined) = join_tree leaf schema (js @ map On (Joins s)) rest
              in bindE (resolveColumnsMulti (exprCols (Columns s)) combined) (\<lambda>(cols, idxs).
                   Inr (ProjectNode (with_limit (Limit s) root) cols idxs)))) = Inr plan"
    using assms len unfolding planMultiTable_def Let_def by (fastforce elim!: bindE_InrE)
  have fs: "length fs = length tables"
    using c by (auto split: option.splits if_splits list.splits dest: length_split_conds)
  obtain leaf schema rest root combined cols idxs where p: "zip (?leafs fs) ?schemas = (leaf, schema) # rest"
      "join_tree leaf schema (js @ map On (Joins s)) rest = (root, combined)"
      "resolveColumnsMulti (exprCols (Columns s)) combined = Inr (cols, idxs)"
      "plan = ProjectNode (with_limit (Limit s) root) cols idxs"
    using k by (auto elim!: bindE_InrE split: list.splits prod.splits)
  have leafs: "plan_ok b \<and> length sc = plan_width b \<and> plan_uses tables b" if bz: "(b, sc) \<in> set (zip (?leafs fs) ?schemas)" for b sc
  proof -
    obtain i where i: "i < length tables" "b = ?leafs fs ! i" "sc = ?schemas ! i"
      using bz fs len by (auto simp: in_set_zip)
    have "single_plan (tables ! i) b"
      using i fs planGroup_single by (auto simp: single_plan_def [of _ "IndexScan _ _ _"])
    moreover have "length sc = length (tblColumns (tables ! i))" using i len by (simp add: qualifySchema_def)
    ultimately show ?thesis using single_plan_uses [of "tables ! i" b tables] i(1) by (auto simp: single_plan_def)
  qed
  have "plan_ok root \<and> length combined = plan_width root \<and> plan_uses tables root"
    by (rule join_tree_ok [OF p(2)]) (use leafs p(1) in auto)
  then show ?thesis
    using p(4) resolveColumnsMulti_bound [OF p(3)] by (auto simp: with_limit_def plan_uses_def)
qed

lemma planSingleTable_ok:
  assumes "planSingleTable s t ts = Inr plan" and "\<And>w. Where s = Some w \<Longrightarrow> Groups w \<noteq> []"
  shows "plan_ok plan \<and> plan_uses [t] plan"
proof -
  let ?branches = "case Where s of None \<Rightarrow> [IndexScan t 0 MaxUint64] | Some w \<Rightarrow> map (\<lambda>g. planGroup t g ts) (Groups w)"
  obtain cols idxs root where p: "resolveColumnsSingle t (exprCols (Columns s)) = Inr (cols, idxs)"
      "(case ?branches of [b] \<Rightarrow> Inr b
        | _ \<Rightarrow> (case PrimaryKeyIndex t of None \<Rightarrow> Inl OrNeedsPrimaryKey | Some p \<Rightarrow> Inr (UnionNode ?branches p))) = Inr root"
      "plan = ProjectNode (with_limit (Limit s) root) cols idxs"
    using assms(1) unfolding planSingleTable_def Let_def by (auto elim!: bindE_InrE)
  have b: "?branches \<noteq> []" "\<And>b. b \<in> set ?branches \<Longrightarrow> single_plan t b"
    using assms(2) planGroup_single by (auto simp: single_plan_def [of _ "IndexScan _ _ _"] split: option.splits)
  have "single_plan t root"
  proof (cases "\<exists>x. ?branches = [x]")
    case True
    then show ?thesis using p(2) b(2) by auto
  next
    case False
    then obtain k where "PrimaryKeyIndex t = Some k" "root = UnionNode ?branches k"
      using p(2) by (auto split: list.splits option.splits)
    moreover have "k < length (tblColumns t)" using calculation(1) by (simp add: PrimaryKeyIndex_def find_index_length)
    ultimately show ?thesis using single_plan_union [OF b] by simp
  qed
  then show ?thesis
    using single_plan_project [OF _ resolveColumnsSingle_bound [OF p(1)], of root "Limit s" cols] p(3)
    by (auto simp: plan_uses_def)
qed

lemma Plan_ok:
  assumes "Plan s tables statsMap = Inr plan" and "\<forall>w. Where s = Some w \<longrightarrow> Groups w \<noteq> []"
  shows "plan_ok plan \<and> plan_uses tables plan"
proof (cases "length (From s) = 1 \<and> Joins s = []")
  case True
  then obtain t ts where t: "tables = t # ts"
      "planSingleTable s t (statsMap (ToLower (refName (hd (From s))))) = Inr plan"
    using assms(1) by (auto simp: Plan_def split: list.splits)
  then have "plan_ok plan" "plan_uses [t] plan" using planSingleTable_ok assms(2) by blast+
  then show ?thesis using t(1) by (auto simp: plan_uses_def)
next
  case False
  then have "planMultiTable s tables statsMap = Inr plan" using assms(1) by (simp only: Plan_def if_False)
  from planMultiTable_ok [OF this] show ?thesis .
qed

text \<open>C11: plans are well formed: a plan that \<open>Plan\<close> returns, for one table or a join of several, only reads
  the given tables and their indexes, every column number of a projection or a union lies inside the rows
  of the operator below, filters are given rows of the table they resolve names in, and the two schemas of
  a join have the widths of its inputs.\<close>

theorem Plan_well_formed:
  assumes "Plan s tables statsMap = Inr plan" and "\<forall>w. Where s = Some w \<longrightarrow> Groups w \<noteq> []"
  shows "plan_ok plan \<and> plan_tables plan \<subseteq> set tables \<and>
    plan_indexes plan \<subseteq> (\<Union>t\<in>set tables. set (tblIndexes t))"
  using Plan_ok [OF assms] by (simp add: plan_uses_def)

theorem Plan_well_formed_witness:
  "\<exists>plan. Plan ex_select [ex_schema] (\<lambda>_. None :: unit CostModel option) = Inr plan \<and> plan_ok plan"
proof -
  have low: "ToLower ''name'' = ''name''" "ToLower ''id'' = ''id''" by code_simp+
  obtain plan where "Plan ex_select [ex_schema] (\<lambda>_. None :: unit CostModel option) = Inr plan"
    by (auto simp: Plan_def ex_select_def planSingleTable_def resolveColumnsSingle_def exprCols_def ColIndex_def
        ex_schema_def low PrimaryKeyIndex_def TypeInt_def)
  moreover from Plan_well_formed [OF this] have "plan_ok plan" by (simp add: ex_select_def)
  ultimately show ?thesis by blast
qed


definition ex_join :: SelectStmt where
  "ex_join = SelectStmt [\<lparr>exprCol = ''b.name'', exprAgg = None, exprAlias = []\<rparr>]
     [\<lparr>refName = ''t'', refAlias = ''a''\<rparr>] [JoinClause \<lparr>refName = ''t'', refAlias = ''b''\<rparr> (joinCond ''a.id'' OpEq ''b.id'')]
     None [] None [] 0"


text \<open>The planner mistakes a comparison of the primary key with another column of the same table
  (\<open>WHERE id = age\<close>) for a comparison with the literal 0: it plans a scan of key 0 without a filter, so
  that the answer holds the visible row with key 0 and no other row, whatever the other column holds.\<close>

lemma pk_column_comparison_scans_zero:
  assumes "keyed C t" and "PrimaryKeyIndex t = Some p"
    and "ToLower col = ToLower (colName (tblColumns t ! p))" and "rhs \<noteq> []"
  shows "planGroup t [joinCond col OpEq rhs] (None :: 'c CostModel option) = IndexScan t 0 0 \<and>
    plan_rows C snap (IndexScan t 0 0) = filter (\<lambda>r. r ! p = intValue 0) (visible_rows C snap t)"
proof
  have "classifyGroup t [joinCond col OpEq rhs] = (0, 0, [])"
    using assms(2,3)
    by (simp add: classifyGroup_def joinCond_def isSimpleCond_def zeroValue_def TypeInt_def Let_def max64_def min64_def MaxUint64_def)
  then show "planGroup t [joinCond col OpEq rhs] (None :: 'c CostModel option) = IndexScan t 0 0"
    using assms(4) by (simp add: planGroup_def ruleBasedPlanGroup_def index_for_cond_def IsJoinCond_def joinCond_def
        range_branch_def with_filter_def)
  have "row_of t e ! p = intValue (Key e)" if "e \<in> set (tblEntries C (tblName t))" for e
    using assms(1,2) that by (simp add: keyed_def)
  then show "plan_rows C snap (IndexScan t 0 0) = filter (\<lambda>r. r ! p = intValue 0) (visible_rows C snap t)"
    by (auto simp: visible_rows_def filter_map comp_def in_range_def intValue_def conj_commute
        intro!: arg_cong [of _ _ "map (row_of t)"] filter_cong)
qed

end
