(* ===== verification/Lexer.thy ===== *)
theory Lexer
  imports Query Decimal
begin

text \<open>
  \<open>src/query/token.go\<close> and \<open>src/query/lexer.go\<close>: tokens and the lexer. The lexer walks
  over the bytes of the input; \<open>rune(input[i])\<close> is the code point with the number of the
  byte, so \<open>unicode.IsSpace\<close>, \<open>IsLetter\<close> and \<open>IsDigit\<close> are those of Latin-1. The loop is a
  recursion on the rest of the input, whose position is carried for the error messages; it
  ends because every round consumes a byte.

  The main lemma is a round trip: a token list that is written out with a space after each
  token is read back as it was.
\<close>

datatype TokenKind =
    TokSelect | TokFrom | TokWhere | TokAnd | TokCreate | TokTable | TokInsert | TokInto | TokValues
  | TokInt | TokText | TokBegin | TokCommit | TokRollback | TokExplain | TokLimit | TokOr | TokIndex
  | TokOn | TokDrop | TokAnalyze | TokJoin | TokInner | TokAs | TokDelete | TokUpdate | TokSet
  | TokOrder | TokBy | TokAsc | TokDesc | TokGroup | TokHaving | TokCount | TokSum | TokAvg | TokMin
  | TokMax | TokIn | TokNot | TokExists
  | TokIdent | TokIntLit | TokStrLit
  | TokEq | TokGt | TokLt | TokGte | TokLte
  | TokStar | TokComma | TokLParen | TokRParen | TokSemi | TokDot
  | TokEOF

record Token =
  Kind :: TokenKind
  Text :: string
  TokVal :: u64

definition tok :: "TokenKind \<Rightarrow> string \<Rightarrow> Token" where
  "tok k s = \<lparr>Kind = k, Text = s, TokVal = 0\<rparr>"

definition eofToken :: Token where "eofToken = tok TokEOF []"

definition keyword_list :: "(string \<times> TokenKind) list" where
  "keyword_list =
     [(''select'', TokSelect), (''from'', TokFrom), (''where'', TokWhere), (''and'', TokAnd),
      (''create'', TokCreate), (''table'', TokTable), (''insert'', TokInsert), (''into'', TokInto),
      (''values'', TokValues), (''int'', TokInt), (''text'', TokText), (''begin'', TokBegin),
      (''commit'', TokCommit), (''rollback'', TokRollback), (''explain'', TokExplain),
      (''limit'', TokLimit), (''or'', TokOr), (''index'', TokIndex), (''on'', TokOn),
      (''drop'', TokDrop), (''analyze'', TokAnalyze), (''join'', TokJoin), (''inner'', TokInner),
      (''as'', TokAs), (''delete'', TokDelete), (''update'', TokUpdate), (''set'', TokSet),
      (''order'', TokOrder), (''by'', TokBy), (''asc'', TokAsc), (''desc'', TokDesc),
      (''group'', TokGroup), (''having'', TokHaving), (''count'', TokCount), (''sum'', TokSum),
      (''avg'', TokAvg), (''min'', TokMin), (''max'', TokMax), (''in'', TokIn), (''not'', TokNot),
      (''exists'', TokExists)]"

definition keyword_kind :: "string \<Rightarrow> TokenKind option" where
  "keyword_kind = map_of keyword_list"

section \<open>Character classes\<close>

definition code :: "char \<Rightarrow> nat" where "code c = of_char c"

definition IsSpace :: "char \<Rightarrow> bool" where
  "IsSpace c \<longleftrightarrow> (9 \<le> code c \<and> code c \<le> 13) \<or> code c = 32 \<or> code c = 133 \<or> code c = 160"

definition IsLetter :: "char \<Rightarrow> bool" where
  "IsLetter c \<longleftrightarrow> (65 \<le> code c \<and> code c \<le> 90) \<or> (97 \<le> code c \<and> code c \<le> 122) \<or> code c \<in> {170, 181, 186} \<or>
     (192 \<le> code c \<and> code c \<le> 214) \<or> (216 \<le> code c \<and> code c \<le> 246) \<or> (248 \<le> code c \<and> code c \<le> 255)"

definition word_start :: "char \<Rightarrow> bool" where
  "word_start c \<longleftrightarrow> IsLetter c \<or> c = CHR ''_''"

definition word_char :: "char \<Rightarrow> bool" where
  "word_char c \<longleftrightarrow> IsLetter c \<or> is_digit c \<or> c = CHR ''_''"

definition single_kind :: "char \<Rightarrow> TokenKind option" where
  "single_kind c =
     map_of [(CHR ''='', TokEq), (CHR ''>'', TokGt), (CHR ''<'', TokLt), (CHR ''*'', TokStar), (CHR '','', TokComma),
             (CHR ''('', TokLParen), (CHR '')'', TokRParen), (CHR '';'', TokSemi), (CHR ''.'', TokDot)] c"

definition word_token :: "string \<Rightarrow> Token" where
  "word_token t = (case keyword_kind (ToLower t) of Some k \<Rightarrow> tok k (ToLower t) | None \<Rightarrow> tok TokIdent t)"

definition not_newline :: "char \<Rightarrow> bool" where "not_newline c \<longleftrightarrow> c \<noteq> CHR 0x0A"
definition not_quote :: "char \<Rightarrow> bool" where "not_quote c \<longleftrightarrow> c \<noteq> CHR 0x27"

lemma dropWhile_shorter: "P c \<Longrightarrow> length (dropWhile P (c # cs)) < Suc (length cs)"
  by (simp add: le_imp_less_Suc length_dropWhile_le)

lemma word_start_char: "word_start c \<Longrightarrow> word_char c"
  by (auto simp: word_start_def word_char_def)

lemma dropWhile_tl_shorter: "length (dropWhile P cs) - Suc 0 < Suc (length cs)"
  using length_dropWhile_le [of P cs] by linarith

section \<open>The lexer\<close>

text \<open>\<open>i\<close> is the position of the first character of the rest.\<close>

function (sequential) tokenize_at :: "nat \<Rightarrow> string \<Rightarrow> go_error + Token list" where
  "tokenize_at i [] = Inr [eofToken]"
| "tokenize_at i (c # cs) =
     (if IsSpace c then tokenize_at (Suc i) cs
      else if c = CHR ''-'' \<and> cs \<noteq> [] \<and> hd cs = CHR ''-'' then
        tokenize_at (i + length (takeWhile not_newline (c # cs))) (dropWhile not_newline (c # cs))
      else if c = CHR ''#'' then
        tokenize_at (i + length (takeWhile not_newline (c # cs))) (dropWhile not_newline (c # cs))
      else if c = CHR ''>'' \<and> cs \<noteq> [] \<and> hd cs = CHR ''='' then
        bindE (tokenize_at (i + 2) (tl cs)) (\<lambda>ts. Inr (tok TokGte ''>='' # ts))
      else if c = CHR ''<'' \<and> cs \<noteq> [] \<and> hd cs = CHR ''='' then
        bindE (tokenize_at (i + 2) (tl cs)) (\<lambda>ts. Inr (tok TokLte ''<='' # ts))
      else case single_kind c of
        Some k \<Rightarrow> bindE (tokenize_at (Suc i) cs) (\<lambda>ts. Inr (tok k [c] # ts))
      | None \<Rightarrow>
        if c = CHR 0x27 then
          (let body = takeWhile not_quote cs; rest = dropWhile not_quote cs in
           if rest = [] then Inl (UnterminatedString i)
           else bindE (tokenize_at (i + length body + 2) (tl rest)) (\<lambda>ts. Inr (tok TokStrLit body # ts)))
        else if is_digit c then
          (let text = takeWhile is_digit (c # cs) in
           bindE (ParseUint text) (\<lambda>n.
           bindE (tokenize_at (i + length text) (dropWhile is_digit (c # cs))) (\<lambda>ts.
           Inr (\<lparr>Kind = TokIntLit, Text = text, TokVal = n\<rparr> # ts))))
        else if word_start c then
          (let text = takeWhile word_char (c # cs) in
           bindE (tokenize_at (i + length text) (dropWhile word_char (c # cs))) (\<lambda>ts.
           Inr (word_token text # ts)))
        else Inl (UnexpectedCharacter c i))"
  by pat_completeness auto

termination
  by (relation "measure (\<lambda>(i, cs). length cs)")
    (auto simp: dropWhile_shorter dropWhile_tl_shorter word_start_char not_newline_def le_imp_less_Suc length_dropWhile_le
      intro: le_less_trans [OF length_dropWhile_le])

definition Tokenize :: "string \<Rightarrow> go_error + Token list" where
  "Tokenize input = tokenize_at 0 input"

section \<open>Round trip\<close>

definition print_token :: "Token \<Rightarrow> string" where
  "print_token t = (if Kind t = TokStrLit then [CHR 0x27] @ Text t @ [CHR 0x27] else Text t)"

definition print_tokens :: "Token list \<Rightarrow> string" where
  "print_tokens ts = concat (map (\<lambda>t. print_token t @ '' '') ts)"

definition op_tokens :: "Token list" where
  "op_tokens = [tok TokEq ''='', tok TokGt ''>'', tok TokLt ''<'', tok TokGte ''>='', tok TokLte ''<='', tok TokStar ''*'',
     tok TokComma '','', tok TokLParen ''('', tok TokRParen '')'', tok TokSemi '';'', tok TokDot ''.'']"

text \<open>The tokens that have a written form: operators, keywords in lower case, names that are no keyword,
  numerals below \<open>2\<^sup>6\<^sup>4\<close> and strings without a quote.\<close>

definition is_word :: "string \<Rightarrow> bool" where
  "is_word s \<longleftrightarrow> s \<noteq> [] \<and> word_start (hd s) \<and> list_all word_char s"

definition wf_token :: "Token \<Rightarrow> bool" where
  "wf_token t \<longleftrightarrow>
     (case Kind t of
        TokIdent \<Rightarrow> is_word (Text t) \<and> keyword_kind (ToLower (Text t)) = None \<and> TokVal t = 0
      | TokIntLit \<Rightarrow> Text t \<noteq> [] \<and> list_all is_digit (Text t) \<and> ParseUint (Text t) = Inr (TokVal t)
      | TokStrLit \<Rightarrow> list_all not_quote (Text t) \<and> TokVal t = 0
      | k \<Rightarrow> t \<in> set op_tokens \<or> (t = tok k (Text t) \<and> (Text t, k) \<in> set keyword_list))"

lemma code_simps [simp]: "code c = of_char c"
  by (simp add: code_def)

text \<open>The characters with a case of their own in the lexer.\<close>

definition special_chars :: "char list" where
  "special_chars = [CHR ''-'', CHR ''#'', CHR ''>'', CHR ''<'', CHR ''='', CHR ''*'', CHR '','', CHR ''('', CHR '')'', CHR '';'',
     CHR ''.'', CHR 0x27]"

lemma special_classes: "list_all (\<lambda>c. \<not> word_start c \<and> \<not> is_digit c) special_chars"
  by (simp add: special_chars_def word_start_def IsLetter_def is_digit_def)

lemma not_special: "word_start c \<or> is_digit c \<Longrightarrow> c \<notin> set special_chars"
  using special_classes by (auto simp: list_all_iff)

lemma not_special_class:
  assumes "c \<notin> set special_chars"
  shows "c \<noteq> CHR ''-''" "c \<noteq> CHR ''#''" "c \<noteq> CHR ''>''" "c \<noteq> CHR ''<''" "c \<noteq> CHR 0x27" "single_kind c = None"
proof -
  show "c \<noteq> CHR ''-''" "c \<noteq> CHR ''#''" "c \<noteq> CHR ''>''" "c \<noteq> CHR ''<''" "c \<noteq> CHR 0x27"
    using assms unfolding special_chars_def by (simp_all only: set_simps insert_iff de_Morgan_disj simp_thms)
  show "single_kind c = None"
    unfolding single_kind_def map_of_eq_None_iff
    using assms unfolding special_chars_def by (simp only: set_simps image_insert image_empty fst_conv insert_iff de_Morgan_disj simp_thms)
qed

lemma word_start_class: "word_start c \<Longrightarrow> \<not> IsSpace c \<and> \<not> is_digit c"
  by (auto simp: word_start_def IsLetter_def IsSpace_def is_digit_def)

lemma digit_class: "is_digit c \<Longrightarrow> \<not> IsSpace c"
  by (auto simp: IsSpace_def is_digit_def)

lemma space_class [simp]: "IsSpace (CHR '' '')" "\<not> is_digit (CHR '' '')" "\<not> word_char (CHR '' '')"
  by (auto simp: IsSpace_def is_digit_def word_char_def IsLetter_def)

lemma takeWhile_printed:
  assumes "list_all P s" "\<not> P c"
  shows "takeWhile P (s @ c # r) = s" "dropWhile P (s @ c # r) = c # r"
  using assms by (induction s) auto

lemma tokenize_word:
  assumes "is_word s"
  shows "tokenize_at i (s @ '' '' @ r) = bindE (tokenize_at (Suc (i + length s)) r) (\<lambda>ts. Inr (word_token s # ts))"
proof -
  obtain c cs where s: "s = c # cs" using assms by (auto simp: is_word_def neq_Nil_conv)
  have c: "word_start c" "word_char c" using assms s by (auto simp: is_word_def word_start_char)
  have "takeWhile word_char (c # cs @ '' '' @ r) = s" "dropWhile word_char (c # cs @ '' '' @ r) = '' '' @ r"
    using takeWhile_printed [of word_char s "CHR '' ''" r] assms s by (auto simp: is_word_def)
  then show ?thesis using word_start_class [OF c(1)] not_special_class [OF not_special [OF disjI1 [OF c(1)]]] c s by simp
qed

lemma tokenize_digits:
  assumes "s \<noteq> []" "list_all is_digit s" "ParseUint s = Inr n"
  shows "tokenize_at i (s @ '' '' @ r) =
    bindE (tokenize_at (Suc (i + length s)) r) (\<lambda>ts. Inr (\<lparr>Kind = TokIntLit, Text = s, TokVal = n\<rparr> # ts))"
proof -
  obtain c cs where s: "s = c # cs" using assms by (auto simp: neq_Nil_conv)
  have c: "is_digit c" using assms s by simp
  have "takeWhile is_digit (c # cs @ '' '' @ r) = s" "dropWhile is_digit (c # cs @ '' '' @ r) = '' '' @ r"
    using takeWhile_printed [of is_digit s "CHR '' ''" r] assms s by auto
  then show ?thesis
    using digit_class [OF c] not_special_class [OF not_special [OF disjI2 [OF c]]] c s assms(3) by simp
qed

lemma quote_class: "\<not> IsSpace (CHR 0x27)" "single_kind (CHR 0x27) = None" "\<not> not_quote (CHR 0x27)"
  by (simp_all add: IsSpace_def single_kind_def not_quote_def)

lemma tokenize_string:
  assumes "list_all not_quote s"
  shows "tokenize_at i ([CHR 0x27] @ s @ [CHR 0x27] @ '' '' @ r) =
    bindE (tokenize_at (i + length s + 3) r) (\<lambda>ts. Inr (tok TokStrLit s # ts))"
  using takeWhile_printed [of not_quote s "CHR 0x27" "CHR '' '' # r"] assms quote_class by (simp add: numeral_3_eq_3)

lemma op_not_space: "list_all (\<lambda>c. \<not> IsSpace c) special_chars"
  by (simp add: special_chars_def IsSpace_def)

lemma tokenize_op:
  assumes "t \<in> set op_tokens"
  shows "tokenize_at i (Text t @ '' '' @ r) = bindE (tokenize_at (Suc (i + length (Text t))) r) (\<lambda>ts. Inr (t # ts))"
  using assms op_not_space
  by (auto simp: op_tokens_def tok_def single_kind_def special_chars_def)

lemma keyword_words: "list_all (\<lambda>(s, k). is_word s \<and> word_token s = tok k s) keyword_list"
  by code_simp

lemma tokenize_token:
  assumes "wf_token t"
  shows "\<exists>j. tokenize_at i (print_token t @ '' '' @ r) = bindE (tokenize_at j r) (\<lambda>ts. Inr (t # ts))"
proof -
  consider (ident) "Kind t = TokIdent" | (int) "Kind t = TokIntLit" | (str) "Kind t = TokStrLit"
    | (op) "t \<in> set op_tokens" | (key) "t = tok (Kind t) (Text t)" "(Text t, Kind t) \<in> set keyword_list"
    using assms by (auto simp: wf_token_def split: TokenKind.splits)
  then show ?thesis
  proof cases
    case ident
    then have "word_token (Text t) = t" "is_word (Text t)"
      using assms by (auto simp: wf_token_def word_token_def tok_def)
    then show ?thesis using tokenize_word [of "Text t" i r] ident by (auto simp: print_token_def)
  next
    case int
    then show ?thesis
      using tokenize_digits [of "Text t" "TokVal t" i r] assms by (cases t) (auto simp: print_token_def wf_token_def)
  next
    case str
    then have "tok TokStrLit (Text t) = t" "list_all not_quote (Text t)" using assms by (auto simp: wf_token_def tok_def)
    then show ?thesis using tokenize_string [of "Text t" i r] str by (auto simp: print_token_def)
  next
    case op
    then have "Kind t \<noteq> TokStrLit" by (auto simp: op_tokens_def tok_def)
    then show ?thesis using tokenize_op [OF op, of i r] by (auto simp: print_token_def)
  next
    case key
    then have k: "is_word (Text t)" "word_token (Text t) = t" using keyword_words by (auto simp: list_all_iff)
    have "Kind t \<noteq> TokStrLit" using key(2) by (auto simp: keyword_list_def)
    then show ?thesis using tokenize_word [OF k(1), of i r] k(2) by (auto simp: print_token_def)
  qed
qed

text \<open>C22: tokens survive printing: a list of tokens (operators, keywords, names, numerals up to \<open>2\<^sup>6\<^sup>4 - 1\<close>,
  strings without quotes) that is written out with a space after each is tokenized to the same list and the
  end marker.\<close>

theorem tokenize_roundtrip:
  assumes "\<forall>t\<in>set ts. wf_token t"
  shows "Tokenize (print_tokens ts) = Inr (ts @ [eofToken])"
proof -
  have "tokenize_at i (print_tokens ts) = Inr (ts @ [eofToken])" for i
    using assms
  proof (induction ts arbitrary: i)
    case (Cons t ts)
    then have "wf_token t" by simp
    from tokenize_token [OF this, of i "print_tokens ts"] obtain j where
      "tokenize_at i (print_tokens (t # ts)) = bindE (tokenize_at j (print_tokens ts)) (\<lambda>ts. Inr (t # ts))"
      by (auto simp: print_tokens_def)
    then show ?case using Cons by simp
  qed (simp add: print_tokens_def)
  then show ?thesis by (simp add: Tokenize_def)
qed

theorem tokenize_roundtrip_witness:
  "Tokenize (print_tokens [tok TokSelect ''select'', tok TokStar ''*'', tok TokFrom ''from'', tok TokIdent ''Users'']) =
     Inr [tok TokSelect ''select'', tok TokStar ''*'', tok TokFrom ''from'', tok TokIdent ''Users'', eofToken]"
proof -
  have "list_all wf_token [tok TokSelect ''select'', tok TokStar ''*'', tok TokFrom ''from'', tok TokIdent ''Users'']"
    by code_simp
  then have "\<forall>t\<in>set [tok TokSelect ''select'', tok TokStar ''*'', tok TokFrom ''from'', tok TokIdent ''Users'']. wf_token t"
    by (simp only: list_all_iff)
  from tokenize_roundtrip [OF this] show ?thesis by simp
qed

end
