(* ===== verification/Parser.thy ===== *)
theory Parser
  imports Lexer
begin

text \<open>
  \<open>src/query/parser.go\<close>: the recursive descent parser. The parser state, a token slice
  with a position, is the list of tokens from that position on; past the end \<open>peek\<close>
  gives the end marker and \<open>consume\<close> stays. A parser is a function of this state that
  returns a value or an error; the texts of error messages are not modelled.

  The only recursion through the grammar is that of subqueries: the parsers of conditions
  take the parser of an inner SELECT as an argument, and \<open>parseSelect\<close> bounds the depth of
  nesting by fuel. Every level of nesting consumes tokens, so the number of tokens
  is enough (theory \<open>ParserTotal\<close>), and \<open>Parse\<close> uses it; the same holds for the loops.
\<close>

type_synonym 'a parser = "(Token list, 'a) go"

definition peek :: "Token list \<Rightarrow> Token" where
  "peek ts = (case ts of [] \<Rightarrow> eofToken | t # _ \<Rightarrow> t)"

definition peek_kind :: "Token list \<Rightarrow> TokenKind" where
  "peek_kind ts = Kind (peek ts)"

text \<open>The kind of \<open>p.tokens[p.pos+1]\<close>, when there is such a token.\<close>

definition next_kind :: "Token list \<Rightarrow> TokenKind option" where
  "next_kind ts = (case ts of _ # t # _ \<Rightarrow> Some (Kind t) | _ \<Rightarrow> None)"

definition consume :: "Token parser" where
  "consume ts = (Inr (peek ts), tl ts)"

definition expect :: "TokenKind \<Rightarrow> Token parser" where
  "expect k = bindG consume (\<lambda>t. if Kind t \<noteq> k then failG (SyntaxError (Text t)) else returnG t)"

definition syntax_error :: "'a parser" where
  "syntax_error ts = (Inl (SyntaxError (Text (peek ts))), ts)"

definition if_peek :: "(TokenKind \<Rightarrow> bool) \<Rightarrow> 'a parser \<Rightarrow> 'a parser \<Rightarrow> 'a parser" where
  "if_peek P p q ts = (if P (peek_kind ts) then p ts else q ts)"

text \<open>\<open>for p.peek().Kind == sep { p.consume(); x, err := ... }\<close>\<close>

fun sep_loop :: "nat \<Rightarrow> TokenKind \<Rightarrow> 'a parser \<Rightarrow> 'a list parser" where
  "sep_loop 0 sep p ts = (Inl OutOfFuel, ts)"
| "sep_loop (Suc n) sep p ts =
     (if peek_kind ts = sep then
        bindG consume (\<lambda>_. bindG p (\<lambda>x. bindG (sep_loop n sep p) (\<lambda>xs. returnG (x # xs)))) ts
      else (Inr [], ts))"

definition sep_by :: "TokenKind \<Rightarrow> 'a parser \<Rightarrow> 'a list parser" where
  "sep_by sep p = bindG p (\<lambda>x. bindG (\<lambda>ts. sep_loop (Suc (length ts)) sep p ts) (\<lambda>xs. returnG (x # xs)))"

text \<open>\<open>for p.peek().Kind != TokRParen && p.peek().Kind != TokEOF { ...; if comma { p.consume() } }\<close>\<close>

fun items_loop :: "nat \<Rightarrow> 'a parser \<Rightarrow> 'a list parser" where
  "items_loop 0 p ts = (Inl OutOfFuel, ts)"
| "items_loop (Suc n) p ts =
     (if peek_kind ts = TokRParen \<or> peek_kind ts = TokEOF then (Inr [], ts)
      else bindG p (\<lambda>x.
           bindG (if_peek (\<lambda>k. k = TokComma) (bindG consume (\<lambda>_. returnG ())) (returnG ())) (\<lambda>_.
           bindG (items_loop n p) (\<lambda>xs. returnG (x # xs)))) ts)"

definition items :: "'a parser \<Rightarrow> 'a list parser" where
  "items p ts = items_loop (Suc (length ts)) p ts"

section \<open>Names, values and column lists\<close>

definition is_keyword_kind :: "TokenKind \<Rightarrow> bool" where
  "is_keyword_kind k \<longleftrightarrow> k \<in> set (map snd keyword_list)"

definition parseIdent :: "Token parser" where
  "parseIdent = if_peek (\<lambda>k. is_keyword_kind k \<or> k = TokIdent) consume syntax_error"

definition parseColRef :: "string parser" where
  "parseColRef =
     bindG parseIdent (\<lambda>name.
     if_peek (\<lambda>k. k \<noteq> TokDot) (returnG (Text name))
       (bindG consume (\<lambda>_.
        if_peek (\<lambda>k. k = TokStar) (bindG consume (\<lambda>_. returnG (Text name @ ''.*'')))
          (bindG parseIdent (\<lambda>col. returnG (Text name @ ''.'' @ Text col))))))"

definition parseValue :: "Value parser" where
  "parseValue =
     if_peek (\<lambda>k. k = TokIntLit) (bindG consume (\<lambda>t. returnG (intValue (TokVal t))))
    (if_peek (\<lambda>k. k = TokStrLit) (bindG consume (\<lambda>t. returnG (textValue (Text t))))
       syntax_error)"

definition agg_kind :: "TokenKind \<Rightarrow> AggFunc option" where
  "agg_kind k =
     (case k of TokCount \<Rightarrow> Some AggCount | TokSum \<Rightarrow> Some AggSum | TokAvg \<Rightarrow> Some AggAvg
      | TokMin \<Rightarrow> Some AggMin | TokMax \<Rightarrow> Some AggMax | _ \<Rightarrow> None)"

definition parseAggCall :: "Token \<Rightarrow> AggCall parser" where
  "parseAggCall fn =
     (let f = (case agg_kind (Kind fn) of Some f \<Rightarrow> f | None \<Rightarrow> AggCount) in
      bindG (expect TokLParen) (\<lambda>_.
      bindG (if_peek (\<lambda>k. k = TokStar) (bindG consume (\<lambda>_. returnG ''*''))
               (bindG (expect TokIdent) (\<lambda>c. returnG (Text c)))) (\<lambda>col.
      bindG (expect TokRParen) (\<lambda>_. returnG \<lparr>aggFunc = f, aggCol = col\<rparr>))))"

definition parse_alias :: "string parser" where
  "parse_alias =
     if_peek (\<lambda>k. k = TokAs)
       (bindG consume (\<lambda>_. bindG parseIdent (\<lambda>alias. returnG (Text alias)))) (returnG [])"

definition parseSelectExpr :: "SelectExpr parser" where
  "parseSelectExpr =
     bindG
       (if_peek (\<lambda>k. agg_kind k \<noteq> None)
          (bindG consume (\<lambda>fn. bindG (parseAggCall fn) (\<lambda>agg. returnG ([], Some agg))))
       (if_peek (\<lambda>k. k = TokIntLit) (bindG consume (\<lambda>t. returnG (Text t, None)))
       (if_peek (\<lambda>k. k = TokStrLit) (bindG consume (\<lambda>t. returnG ([CHR 0x27] @ Text t @ [CHR 0x27], None)))
          (bindG parseColRef (\<lambda>col. returnG (col, None))))))
       (\<lambda>(col, agg). bindG parse_alias (\<lambda>alias.
          returnG \<lparr>exprCol = col, exprAgg = agg, exprAlias = alias\<rparr>))"

definition parseOrderByExpr :: "OrderByExpr parser" where
  "parseOrderByExpr =
     bindG parseIdent (\<lambda>col.
     if_peek (\<lambda>k. k = TokDesc) (bindG consume (\<lambda>_. returnG \<lparr>obCol = Text col, obDesc = True\<rparr>))
    (if_peek (\<lambda>k. k = TokAsc) (bindG consume (\<lambda>_. returnG \<lparr>obCol = Text col, obDesc = False\<rparr>))
       (returnG \<lparr>obCol = Text col, obDesc = False\<rparr>)))"

definition op_of_kind :: "TokenKind \<Rightarrow> CompareOp option" where
  "op_of_kind k =
     (case k of TokEq \<Rightarrow> Some OpEq | TokGt \<Rightarrow> Some OpGt | TokLt \<Rightarrow> Some OpLt | TokGte \<Rightarrow> Some OpGte
      | TokLte \<Rightarrow> Some OpLte | _ \<Rightarrow> None)"

definition parse_op :: "CompareOp parser" where
  "parse_op =
     bindG consume (\<lambda>t. case op_of_kind (Kind t) of
       Some op \<Rightarrow> returnG op | None \<Rightarrow> failG (SyntaxError (Text t)))"

section \<open>FROM\<close>

definition parseTableRef :: "TableRef parser" where
  "parseTableRef =
     bindG (expect TokIdent) (\<lambda>name.
     if_peek (\<lambda>k. k = TokAs)
       (bindG consume (\<lambda>_. bindG (expect TokIdent) (\<lambda>alias.
          returnG \<lparr>refName = Text name, refAlias = Text alias\<rparr>)))
    (if_peek (\<lambda>k. k = TokIdent)
       (bindG consume (\<lambda>t. returnG \<lparr>refName = Text name, refAlias = Text t\<rparr>))
       (returnG \<lparr>refName = Text name, refAlias = []\<rparr>)))"

definition parseJoinCond :: "Condition parser" where
  "parseJoinCond =
     bindG parseColRef (\<lambda>lhs.
     bindG parse_op (\<lambda>op.
     bindG parseColRef (\<lambda>rhs. returnG (joinCond lhs op rhs))))"

definition parse_join :: "JoinClause parser" where
  "parse_join =
     bindG (if_peek (\<lambda>k. k = TokInner) (bindG consume (\<lambda>_. returnG ())) (returnG ())) (\<lambda>_.
     bindG (expect TokJoin) (\<lambda>_.
     bindG parseTableRef (\<lambda>ref.
     if_peek (\<lambda>k. k \<noteq> TokOn) syntax_error
       (bindG consume (\<lambda>_. bindG parseJoinCond (\<lambda>cond. returnG (JoinClause ref cond)))))))"

fun joins_loop :: "nat \<Rightarrow> JoinClause list parser" where
  "joins_loop 0 ts = (Inl OutOfFuel, ts)"
| "joins_loop (Suc n) ts =
     (if peek_kind ts = TokJoin \<or> peek_kind ts = TokInner then
        bindG parse_join (\<lambda>j. bindG (joins_loop n) (\<lambda>js. returnG (j # js))) ts
      else (Inr [], ts))"

definition parseFromClause :: "(TableRef list \<times> JoinClause list) parser" where
  "parseFromClause =
     bindG (sep_by TokComma parseTableRef) (\<lambda>from.
     bindG (\<lambda>ts. joins_loop (Suc (length ts)) ts) (\<lambda>joins. returnG (from, joins)))"

section \<open>Conditions\<close>

text \<open>\<open>sel\<close> is the parser of an inner SELECT.\<close>

definition parseConditionLHS :: "string parser" where
  "parseConditionLHS ts =
     (if agg_kind (peek_kind ts) \<noteq> None \<and> next_kind ts = Some TokLParen then
        bindG consume (\<lambda>fn. bindG (parseAggCall fn) (\<lambda>agg.
          returnG (OutputName \<lparr>exprCol = [], exprAgg = Some agg, exprAlias = []\<rparr>))) ts
      else parseColRef ts)"

definition parseExistsCond :: "SelectStmt parser \<Rightarrow> bool \<Rightarrow> Condition parser" where
  "parseExistsCond sel negated =
     bindG consume (\<lambda>_.
     bindG (expect TokLParen) (\<lambda>_.
     bindG sel (\<lambda>sq.
     bindG (expect TokRParen) (\<lambda>_.
     returnG (Condition [] OpEq zeroValue [] None None (Some sq) None negated False)))))"

definition parseInCond :: "SelectStmt parser \<Rightarrow> string \<Rightarrow> bool \<Rightarrow> Condition parser" where
  "parseInCond sel col negated =
     bindG (expect TokLParen) (\<lambda>_.
     if_peek (\<lambda>k. k = TokSelect)
       (bindG sel (\<lambda>sq.
        bindG (expect TokRParen) (\<lambda>_.
        returnG (Condition col OpEq zeroValue [] None (Some sq) None None negated False))))
       (bindG (sep_by TokComma parseValue) (\<lambda>vals.
        bindG (expect TokRParen) (\<lambda>_.
        returnG (Condition col OpEq zeroValue [] (Some vals) None None None negated False)))))"

definition parse_comparison :: "SelectStmt parser \<Rightarrow> string \<Rightarrow> Condition parser" where
  "parse_comparison sel lhs =
     bindG parse_op (\<lambda>op ts.
       if peek_kind ts = TokLParen \<and> next_kind ts = Some TokSelect then
         bindG consume (\<lambda>_.
         bindG sel (\<lambda>sq.
         bindG (expect TokRParen) (\<lambda>_.
         returnG (Condition lhs op zeroValue [] None None None (Some sq) False False)))) ts
       else if peek_kind ts = TokIdent then
         bindG parseColRef (\<lambda>rhs. returnG (joinCond lhs op rhs)) ts
       else bindG parseValue (\<lambda>val. returnG (simpleCond lhs op val)) ts)"

definition parseCondition :: "SelectStmt parser \<Rightarrow> Condition parser" where
  "parseCondition sel ts =
     (if peek_kind ts = TokExists then parseExistsCond sel False ts
      else if peek_kind ts = TokNot \<and> next_kind ts = Some TokExists then
        bindG consume (\<lambda>_. parseExistsCond sel True) ts
      else
        bindG parseConditionLHS (\<lambda>lhs ts.
          if peek_kind ts = TokIn then bindG consume (\<lambda>_. parseInCond sel lhs False) ts
          else if peek_kind ts = TokNot \<and> next_kind ts = Some TokIn then
            bindG consume (\<lambda>_. bindG consume (\<lambda>_. parseInCond sel lhs True)) ts
          else parse_comparison sel lhs ts) ts)"

definition parseAndGroup :: "SelectStmt parser \<Rightarrow> Condition list parser" where
  "parseAndGroup sel = sep_by TokAnd (parseCondition sel)"

definition parseWhere :: "SelectStmt parser \<Rightarrow> WhereClause parser" where
  "parseWhere sel = bindG (sep_by TokOr (parseAndGroup sel)) (\<lambda>groups. returnG (WhereClause groups))"

definition opt_where :: "TokenKind \<Rightarrow> SelectStmt parser \<Rightarrow> WhereClause option parser" where
  "opt_where k sel =
     if_peek (\<lambda>k'. k' = k) (bindG consume (\<lambda>_. bindG (parseWhere sel) (\<lambda>w. returnG (Some w)))) (returnG None)"

section \<open>SELECT\<close>

definition parse_columns :: "SelectExpr list parser" where
  "parse_columns =
     if_peek (\<lambda>k. k = TokStar)
       (bindG consume (\<lambda>_. returnG [\<lparr>exprCol = ''*'', exprAgg = None, exprAlias = []\<rparr>]))
       (sep_by TokComma parseSelectExpr)"

definition parse_by :: "TokenKind \<Rightarrow> 'a parser \<Rightarrow> 'a list parser" where
  "parse_by k p =
     if_peek (\<lambda>k'. k' = k)
       (bindG consume (\<lambda>_. bindG (expect TokBy) (\<lambda>_. sep_by TokComma p))) (returnG [])"

definition parse_limit :: "int parser" where
  "parse_limit =
     if_peek (\<lambda>k. k = TokLimit)
       (bindG consume (\<lambda>_. bindG (expect TokIntLit) (\<lambda>n.
          if TokVal n = 0 then failG (SyntaxError (Text n)) else returnG (sint (TokVal n)))))
       (returnG 0)"

definition select_body :: "SelectStmt parser \<Rightarrow> SelectStmt parser" where
  "select_body sel =
     bindG consume (\<lambda>_.
     bindG parse_columns (\<lambda>exprs.
     bindG (expect TokFrom) (\<lambda>_.
     bindG parseFromClause (\<lambda>(from, joins).
     bindG (opt_where TokWhere sel) (\<lambda>wh.
     bindG (parse_by TokGroup (bindG parseIdent (\<lambda>t. returnG (Text t)))) (\<lambda>gb.
     bindG (opt_where TokHaving sel) (\<lambda>hv.
     bindG (parse_by TokOrder parseOrderByExpr) (\<lambda>ob.
     bindG parse_limit (\<lambda>n.
     returnG (SelectStmt exprs from joins wh gb hv ob n))))))))))"

primrec parseSelect :: "nat \<Rightarrow> SelectStmt parser" where
  "parseSelect 0 = failG OutOfFuel"
| "parseSelect (Suc n) = select_body (parseSelect n)"

definition parse_select :: "SelectStmt parser" where
  "parse_select ts = parseSelect (Suc (length ts)) ts"

section \<open>The other statements\<close>

definition ident_text :: "string parser" where
  "ident_text = bindG (expect TokIdent) (\<lambda>t. returnG (Text t))"

definition parseAnalyze :: "Statement parser" where
  "parseAnalyze = bindG consume (\<lambda>_. bindG ident_text (\<lambda>n. returnG (AnalyzeStmt n)))"

definition parseCreateIndex :: "Statement parser" where
  "parseCreateIndex =
     bindG consume (\<lambda>_.
     bindG ident_text (\<lambda>name.
     if_peek (\<lambda>k. k \<noteq> TokOn) syntax_error
       (bindG consume (\<lambda>_.
        bindG ident_text (\<lambda>table.
        bindG (expect TokLParen) (\<lambda>_.
        bindG ident_text (\<lambda>col.
        bindG (expect TokRParen) (\<lambda>_. returnG (CreateIndexStmt name table col)))))))))"

definition parse_coldef :: "ColumnDef parser" where
  "parse_coldef =
     bindG ident_text (\<lambda>name.
     if_peek (\<lambda>k. k = TokInt) (bindG consume (\<lambda>_. returnG \<lparr>colName = name, colType = TypeInt\<rparr>))
    (if_peek (\<lambda>k. k = TokText) (bindG consume (\<lambda>_. returnG \<lparr>colName = name, colType = TypeText\<rparr>))
       syntax_error))"

definition parseCreateTable :: "Statement parser" where
  "parseCreateTable =
     bindG (expect TokTable) (\<lambda>_.
     bindG ident_text (\<lambda>name.
     bindG (expect TokLParen) (\<lambda>_.
     bindG (items parse_coldef) (\<lambda>cols.
     bindG (expect TokRParen) (\<lambda>_.
     if cols = [] then syntax_error else returnG (CreateTableStmt name cols))))))"

definition parseCreate :: "Statement parser" where
  "parseCreate =
     bindG consume (\<lambda>_.
     if_peek (\<lambda>k. k = TokTable) parseCreateTable
    (if_peek (\<lambda>k. k = TokIndex) parseCreateIndex syntax_error))"

definition parseDrop :: "Statement parser" where
  "parseDrop =
     bindG consume (\<lambda>_.
     if_peek (\<lambda>k. k \<noteq> TokIndex) syntax_error
       (bindG consume (\<lambda>_. bindG ident_text (\<lambda>n. returnG (DropIndexStmt n)))))"

definition parseInsert :: "Statement parser" where
  "parseInsert =
     bindG consume (\<lambda>_.
     bindG (expect TokInto) (\<lambda>_.
     bindG ident_text (\<lambda>name.
     bindG (expect TokValues) (\<lambda>_.
     bindG (expect TokLParen) (\<lambda>_.
     bindG (items parseValue) (\<lambda>vals.
     bindG (expect TokRParen) (\<lambda>_. returnG (InsertStmt name vals))))))))"

definition parseExplain :: "Statement parser" where
  "parseExplain =
     bindG consume (\<lambda>_.
     if_peek (\<lambda>k. k \<noteq> TokSelect) syntax_error
       (bindG parse_select (\<lambda>q. returnG (ExplainStmt q))))"

definition parseDelete :: "Statement parser" where
  "parseDelete =
     bindG consume (\<lambda>_.
     bindG (expect TokFrom) (\<lambda>_.
     bindG ident_text (\<lambda>tbl.
     bindG (opt_where TokWhere parse_select) (\<lambda>wh. returnG (DeleteStmt tbl wh)))))"

definition parse_assignment :: "Assignment parser" where
  "parse_assignment =
     bindG ident_text (\<lambda>col.
     bindG (expect TokEq) (\<lambda>_.
     bindG parseValue (\<lambda>val. returnG \<lparr>asgColumn = col, asgValue = val\<rparr>)))"

definition parseUpdate :: "Statement parser" where
  "parseUpdate =
     bindG consume (\<lambda>_.
     bindG ident_text (\<lambda>tbl.
     bindG (expect TokSet) (\<lambda>_.
     bindG (sep_by TokComma parse_assignment) (\<lambda>asgs.
     bindG (opt_where TokWhere parse_select) (\<lambda>wh. returnG (UpdateStmt tbl asgs wh))))))"

definition parseStatement :: "Statement parser" where
  "parseStatement ts =
     (case peek_kind ts of
        TokCreate \<Rightarrow> parseCreate ts
      | TokDrop \<Rightarrow> parseDrop ts
      | TokInsert \<Rightarrow> parseInsert ts
      | TokSelect \<Rightarrow> bindG parse_select (\<lambda>q. returnG (SelectStatement q)) ts
      | TokExplain \<Rightarrow> parseExplain ts
      | TokAnalyze \<Rightarrow> parseAnalyze ts
      | TokDelete \<Rightarrow> parseDelete ts
      | TokUpdate \<Rightarrow> parseUpdate ts
      | TokBegin \<Rightarrow> bindG consume (\<lambda>_. returnG BeginStmt) ts
      | TokCommit \<Rightarrow> bindG consume (\<lambda>_. returnG CommitStmt) ts
      | TokRollback \<Rightarrow> bindG consume (\<lambda>_. returnG RollbackStmt) ts
      | _ \<Rightarrow> syntax_error ts)"

definition parse_all :: "Statement parser" where
  "parse_all =
     bindG parseStatement (\<lambda>stmt.
     bindG (if_peek (\<lambda>k. k = TokSemi) (bindG consume (\<lambda>_. returnG ())) (returnG ())) (\<lambda>_.
     if_peek (\<lambda>k. k \<noteq> TokEOF) syntax_error (returnG stmt)))"

definition Parse :: "string \<Rightarrow> go_error + Statement" where
  "Parse input = bindE (Tokenize input) (\<lambda>tokens. fst (parse_all tokens))"

end
