(* ===== verification/ParserTotal.thy ===== *)
theory ParserTotal
  imports Parser
begin

text \<open>
  The parser always answers: \<open>Parse\<close> never runs out of fuel. \<open>safe n p\<close> says that \<open>p\<close>, on
  at most \<open>n\<close> tokens, does not run out of fuel and leaves no more tokens than it was given;
  the lemmas in the collection \<open>safe\<close> follow the grammar. A parser of inner SELECTs is only
  called after a token was consumed (\<open>safe_below\<close>).
\<close>

named_theorems safe_intros

definition safe :: "nat \<Rightarrow> 'a parser \<Rightarrow> bool" where
  "safe n p \<longleftrightarrow> (\<forall>ts. length ts \<le> n \<longrightarrow> fst (p ts) \<noteq> Inl OutOfFuel \<and> length (snd (p ts)) \<le> length ts)"

definition safe_below :: "nat \<Rightarrow> 'a parser \<Rightarrow> bool" where
  "safe_below n p \<longleftrightarrow> (\<forall>m<n. safe m p)"

lemma safe_mono: "safe n p \<Longrightarrow> m \<le> n \<Longrightarrow> safe m p"
  by (simp add: safe_def)

lemma safe_below_mono: "safe_below n p \<Longrightarrow> m \<le> n \<Longrightarrow> safe_below m p"
  by (simp add: safe_below_def)

lemma safeD: "safe n p \<Longrightarrow> length ts \<le> n \<Longrightarrow> p ts = (r, ts') \<Longrightarrow> r \<noteq> Inl OutOfFuel \<and> length ts' \<le> length ts"
  by (metis safe_def fst_conv snd_conv)

lemma safe_belowD:
  "safe_below n p \<Longrightarrow> m < n \<Longrightarrow> length ts \<le> m \<Longrightarrow> fst (p ts) \<noteq> Inl OutOfFuel \<and> length (snd (p ts)) \<le> length ts"
  unfolding safe_below_def safe_def by blast

lemma safe_return [safe_intros]: "safe n (returnG x)"
  by (simp add: safe_def)

lemma safe_error [safe_intros]: "safe n syntax_error" "safe n (failG (SyntaxError s))"
  by (simp_all add: safe_def syntax_error_def)

lemma safe_consume [safe_intros]: "safe n consume"
  by (simp add: safe_def consume_def)

lemma safe_bind [safe_intros]:
  assumes "safe n p" and "\<And>x. safe n (f x)"
  shows "safe n (bindG p f)"
  unfolding safe_def
proof (intro allI impI)
  fix ts :: "Token list" assume ts: "length ts \<le> n"
  obtain r u where p: "p ts = (r, u)" by fastforce
  note s = safeD [OF assms(1) ts p]
  show "fst (bindG p f ts) \<noteq> Inl OutOfFuel \<and> length (snd (bindG p f ts)) \<le> length ts"
  proof (cases r)
    case (Inl e)
    then show ?thesis using s p by (simp add: bindG_def)
  next
    case (Inr x)
    have "length u \<le> n" using s ts by simp
    then have "fst (f x u) \<noteq> Inl OutOfFuel \<and> length (snd (f x u)) \<le> length u"
      using assms(2) [of x] by (simp add: safe_def)
    then show ?thesis using s p Inr by (simp add: bindG_def)
  qed
qed

lemma safe_if [safe_intros]: "safe n p \<Longrightarrow> safe n q \<Longrightarrow> safe n (if_peek P p q)"
  by (simp add: safe_def if_peek_def)

lemma safe_cond [safe_intros]: "safe n p \<Longrightarrow> safe n q \<Longrightarrow> safe n (\<lambda>ts. if P ts then p ts else q ts)"
  by (simp add: safe_def)

lemma safe_expect [safe_intros]: "safe n (expect k)"
  unfolding expect_def by (intro safe_bind safe_consume) (simp add: safe_def)

text \<open>After a token that is not the end marker there is one token less.\<close>

lemma peek_nonempty: "peek_kind ts \<noteq> TokEOF \<Longrightarrow> ts \<noteq> []"
  by (auto simp: peek_kind_def peek_def eofToken_def tok_def)

lemma shorter_tl: "ts \<noteq> [] \<Longrightarrow> length ts \<le> n \<Longrightarrow> \<exists>m<n. length (tl ts) \<le> m"
  by (rule exI [of _ "length (tl ts)"]) (cases ts; simp)

lemma safe_expect_below:
  assumes "\<And>x. safe_below n (f x)" and "k \<noteq> TokEOF"
  shows "safe n (bindG (expect k) f)"
  unfolding safe_def
proof (intro allI impI)
  fix ts :: "Token list" assume ts: "length ts \<le> n"
  show "fst (bindG (expect k) f ts) \<noteq> Inl OutOfFuel \<and> length (snd (bindG (expect k) f ts)) \<le> length ts"
  proof (cases "Kind (peek ts) = k")
    case True
    then have "ts \<noteq> []" using assms(2) peek_nonempty [of ts] by (simp add: peek_kind_def)
    from shorter_tl [OF this ts] obtain m where m: "m < n" "length (tl ts) \<le> m" by blast
    have "fst (f (peek ts) (tl ts)) \<noteq> Inl OutOfFuel \<and> length (snd (f (peek ts) (tl ts))) \<le> length (tl ts)"
      by (rule safe_belowD [OF assms(1) m])
    then show ?thesis using True by (auto simp: expect_def bindG_def consume_def)
  qed (simp add: expect_def bindG_def consume_def)
qed

lemma safe_consume_below:
  assumes "\<And>x. safe_below n (f x)" and "safe n q" and "\<And>ts. P ts \<Longrightarrow> peek_kind ts \<noteq> TokEOF"
  shows "safe n (\<lambda>ts. if P ts then bindG consume f ts else q ts)"
  unfolding safe_def
proof (intro allI impI)
  fix ts :: "Token list" assume ts: "length ts \<le> n"
  let ?p = "\<lambda>ts. if P ts then bindG consume f ts else q ts"
  show "fst (?p ts) \<noteq> Inl OutOfFuel \<and> length (snd (?p ts)) \<le> length ts"
  proof (cases "P ts")
    case True
    from shorter_tl [OF peek_nonempty [OF assms(3) [OF this]] ts] obtain m where m: "m < n" "length (tl ts) \<le> m" by blast
    have "fst (f (peek ts) (tl ts)) \<noteq> Inl OutOfFuel \<and> length (snd (f (peek ts) (tl ts))) \<le> length (tl ts)"
      by (rule safe_belowD [OF assms(1) m])
    then show ?thesis using True by (auto simp: bindG_def consume_def)
  next
    case False
    then show ?thesis using assms(2) ts by (simp add: safe_def)
  qed
qed

lemma safe_below_intro: "(\<And>m. m < n \<Longrightarrow> safe m p) \<Longrightarrow> safe_below n p"
  by (simp add: safe_below_def)

section \<open>Loops\<close>

lemma safe_sep_loop:
  assumes "safe n p" and "sep \<noteq> TokEOF"
  shows "length ts < fuel \<Longrightarrow> length ts \<le> n \<Longrightarrow>
    fst (sep_loop fuel sep p ts) \<noteq> Inl OutOfFuel \<and> length (snd (sep_loop fuel sep p ts)) \<le> length ts"
proof (induction fuel arbitrary: ts)
  case (Suc fuel)
  show ?case
  proof (cases "peek_kind ts = sep")
    case True
    then obtain t ts' where ts: "ts = t # ts'" using peek_nonempty [of ts] assms(2) by (cases ts) auto
    obtain r u where p: "p ts' = (r, u)" by fastforce
    have s: "r \<noteq> Inl OutOfFuel \<and> length u \<le> length ts'" using safeD [OF assms(1) _ p] Suc.prems ts by simp
    have "fst (sep_loop fuel sep p u) \<noteq> Inl OutOfFuel \<and> length (snd (sep_loop fuel sep p u)) \<le> length u"
      by (rule Suc.IH) (use s ts Suc.prems in auto)
    then show ?thesis
      using True s p ts by (auto simp: bindG_def consume_def split: sum.splits prod.splits)
  qed simp
qed simp

lemma safe_sep_by [safe_intros]:
  assumes "safe n p" and "sep \<noteq> TokEOF"
  shows "safe n (sep_by sep p)"
proof -
  have "safe n (\<lambda>ts. sep_loop (Suc (length ts)) sep p ts)"
    unfolding safe_def using safe_sep_loop [OF assms, OF lessI] by blast
  then show ?thesis unfolding sep_by_def by (intro safe_bind assms(1) safe_return)
qed

text \<open>A list of items, each of which takes at least one token.\<close>

definition takes :: "'a parser \<Rightarrow> bool" where
  "takes p \<longleftrightarrow> (\<forall>ts x ts'. p ts = (Inr x, ts') \<longrightarrow> length ts' < length ts)"

lemma safe_items_loop:
  assumes "safe n p" and "takes p"
  shows "length ts < fuel \<Longrightarrow> length ts \<le> n \<Longrightarrow>
    fst (items_loop fuel p ts) \<noteq> Inl OutOfFuel \<and> length (snd (items_loop fuel p ts)) \<le> length ts"
proof (induction fuel arbitrary: ts)
  case (Suc fuel)
  obtain r u where p: "p ts = (r, u)" by fastforce
  have s: "r \<noteq> Inl OutOfFuel \<and> length u \<le> length ts" using safeD [OF assms(1) _ p] Suc.prems by simp
  let ?u = "if peek_kind u = TokComma then tl u else u"
  show ?case
  proof (cases r)
    case (Inr x)
    then have "length u < length ts" using assms(2) p by (auto simp: takes_def)
    then have "length ?u < length ts" by (simp add: less_imp_diff_less)
    then have "fst (items_loop fuel p ?u) \<noteq> Inl OutOfFuel \<and> length (snd (items_loop fuel p ?u)) \<le> length ?u"
      by (intro Suc.IH) (use Suc.prems in auto)
    then show ?thesis
      using s p Inr \<open>length ?u < length ts\<close> by (auto simp: bindG_def consume_def if_peek_def split: sum.splits prod.splits)
  qed (use s p in \<open>auto simp: bindG_def\<close>)
qed simp

lemma safe_items [safe_intros]: "safe n p \<Longrightarrow> takes p \<Longrightarrow> safe n (items p)"
  unfolding safe_def items_def using safe_items_loop [OF _ _ lessI, unfolded safe_def] by blast


section \<open>The grammar\<close>

lemma safe_option [safe_intros]:
  "safe n q \<Longrightarrow> (\<And>x. safe n (f x)) \<Longrightarrow> safe n (case v of None \<Rightarrow> q | Some x \<Rightarrow> f x)"
  by (cases v) simp_all

lemma safe_pair [safe_intros]: "(\<And>x y. safe n (f x y)) \<Longrightarrow> safe n (case v of (x, y) \<Rightarrow> f x y)"
  by (cases v) simp

lemma safe_ifte [safe_intros]: "safe n p \<Longrightarrow> safe n q \<Longrightarrow> safe n (if b then p else q)"
  by simp

lemma safe_names [safe_intros]:
  "safe n parseIdent" "safe n parseColRef" "safe n parseValue" "safe n parse_alias" "safe n parseOrderByExpr"
  "safe n parse_op" "safe n parseTableRef" "safe n ident_text" "safe n (parseAggCall fn)"
  unfolding parseIdent_def parseColRef_def parseValue_def parse_alias_def parseOrderByExpr_def parse_op_def
    parseTableRef_def ident_text_def parseAggCall_def Let_def
  by (intro safe_intros)+

lemma safe_exprs [safe_intros]:
  "safe n parseSelectExpr" "safe n parseJoinCond" "safe n parse_assignment" "safe n parse_coldef" "safe n parse_limit"
  "safe n parseConditionLHS"
  unfolding parseSelectExpr_def parseJoinCond_def parse_assignment_def parse_coldef_def parse_limit_def
    parseConditionLHS_def
  by (intro safe_intros)+

lemma safe_join [safe_intros]: "safe n parse_join"
  unfolding parse_join_def by (intro safe_intros)


text \<open>Parsers that consume at least one token when they succeed.\<close>

lemma takes_bind1:
  assumes "takes p" and "\<And>n x. safe n (f x)"
  shows "takes (bindG p f)"
  unfolding takes_def
proof (intro allI impI)
  fix ts y ts' assume b: "bindG p f ts = (Inr y, ts')"
  then obtain x u where p: "p ts = (Inr x, u)" and f: "f x u = (Inr y, ts')"
    by (auto simp: bindG_def split: sum.splits prod.splits)
  have "length u < length ts" using assms(1) p by (auto simp: takes_def)
  moreover have "length ts' \<le> length u" using safeD [OF assms(2) order_refl f] by simp
  ultimately show "length ts' < length ts" by simp
qed

lemma takes_bind2:
  assumes "\<And>n. safe n p" and "\<And>x. takes (f x)"
  shows "takes (bindG p f)"
  unfolding takes_def
proof (intro allI impI)
  fix ts y ts' assume b: "bindG p f ts = (Inr y, ts')"
  then obtain x u where p: "p ts = (Inr x, u)" and f: "f x u = (Inr y, ts')"
    by (auto simp: bindG_def split: sum.splits prod.splits)
  have "length ts' < length u" using assms(2) f by (auto simp: takes_def)
  moreover have "length u \<le> length ts" using safeD [OF assms(1) order_refl p] by simp
  ultimately show "length ts' < length ts" by simp
qed

lemma takes_expect: "k \<noteq> TokEOF \<Longrightarrow> takes (expect k)"
  by (auto simp: takes_def expect_def bindG_def consume_def peek_def eofToken_def tok_def split: if_splits list.splits)

lemma takes_if_consume:
  assumes "\<not> P TokEOF" and "\<And>n x. safe n (f x)" and "takes q"
  shows "takes (if_peek P (bindG consume f) q)"
  unfolding takes_def
proof (intro allI impI)
  fix ts y ts' assume b: "if_peek P (bindG consume f) q ts = (Inr y, ts')"
  show "length ts' < length ts"
  proof (cases "P (peek_kind ts)")
    case True
    then have "ts \<noteq> []" using assms(1) peek_nonempty [of ts] by metis
    moreover have "f (peek ts) (tl ts) = (Inr y, ts')" using b True by (simp add: if_peek_def bindG_def consume_def)
    then have "length ts' \<le> length (tl ts)" using safeD [OF assms(2) order_refl] by blast
    ultimately show ?thesis by (cases ts) auto
  next
    case False
    then show ?thesis using b assms(3) by (auto simp: if_peek_def takes_def)
  qed
qed

lemma takes_syntax_error: "takes syntax_error"
  by (simp add: takes_def syntax_error_def)

lemma takes_parseValue: "takes parseValue"
  unfolding parseValue_def by (intro takes_if_consume takes_syntax_error safe_intros; simp)

lemma takes_parse_coldef: "takes parse_coldef"
  unfolding parse_coldef_def ident_text_def
  by (rule takes_bind1, rule takes_bind1, rule takes_expect; (intro safe_intros)?) simp

lemma takes_parse_join: "takes parse_join"
  unfolding parse_join_def
  by (rule takes_bind2, (intro safe_intros)[1], rule takes_bind1, rule takes_expect) (simp | intro safe_intros)+

lemma safe_joins_loop:
  "length ts < fuel \<Longrightarrow>
    fst (joins_loop fuel ts) \<noteq> Inl OutOfFuel \<and> length (snd (joins_loop fuel ts)) \<le> length ts"
proof (induction fuel arbitrary: ts)
  case (Suc fuel)
  obtain r u where p: "parse_join ts = (r, u)" by fastforce
  have s: "r \<noteq> Inl OutOfFuel \<and> length u \<le> length ts" using safeD [OF safe_join order_refl p] .
  show ?case
  proof (cases r)
    case (Inr x)
    then have u: "length u < length ts" using takes_parse_join p by (auto simp: takes_def)
    have "fst (joins_loop fuel u) \<noteq> Inl OutOfFuel \<and> length (snd (joins_loop fuel u)) \<le> length u"
      by (rule Suc.IH) (use u Suc.prems in simp)
    then show ?thesis
      using s p Inr u by (auto simp: bindG_def split: sum.splits prod.splits)
  qed (use s p in \<open>auto simp: bindG_def\<close>)
qed simp

lemma safe_from [safe_intros]: "safe n parseFromClause"
proof -
  have "safe n (\<lambda>ts. joins_loop (Suc (length ts)) ts)"
    unfolding safe_def using safe_joins_loop [OF lessI] by blast
  then show ?thesis unfolding parseFromClause_def by (intro safe_intros) simp_all
qed

lemma safe_columns [safe_intros]: "safe n parse_columns" "safe n p \<Longrightarrow> safe n (parse_by k p)"
  unfolding parse_columns_def parse_by_def by (intro safe_intros; simp)+


text \<open>Conditions: the parser of an inner SELECT is called on fewer tokens.\<close>

lemma safe_below_safe: "safe_below n p \<Longrightarrow> m < n \<Longrightarrow> safe m p"
  by (simp add: safe_below_def)

lemma safe_below_all: "(\<And>m. safe m p) \<Longrightarrow> safe_below n p"
  by (simp add: safe_below_def)

lemma safe_below_bind: "safe_below n p \<Longrightarrow> (\<And>m x. safe m (f x)) \<Longrightarrow> safe_below n (bindG p f)"
  by (simp add: safe_below_def safe_bind)

lemma safe_below_if: "safe_below n p \<Longrightarrow> safe_below n q \<Longrightarrow> safe_below n (if_peek P p q)"
  by (simp add: safe_below_def safe_if)

lemma safe_exists:
  assumes "safe_below n sel"
  shows "safe n (parseExistsCond sel negated)"
  unfolding parseExistsCond_def
  by (rule safe_bind [OF safe_consume], rule safe_expect_below, rule safe_below_bind [OF assms])
    (simp | intro safe_intros)+

lemma safe_in:
  assumes "safe_below n sel"
  shows "safe n (parseInCond sel col negated)"
  unfolding parseInCond_def
  by (rule safe_expect_below, rule safe_below_if, rule safe_below_bind [OF assms])
    (simp | intro safe_intros safe_below_all)+

lemma safe_comparison:
  assumes "safe_below n sel"
  shows "safe n (parse_comparison sel lhs)"
  unfolding parse_comparison_def
  by (rule safe_bind [OF safe_names(6)], rule safe_consume_below, rule safe_below_bind [OF assms])
    (simp | intro safe_intros)+

lemma safe_condition:
  assumes "safe_below n sel"
  shows "safe n (parseCondition sel)"
  unfolding parseCondition_def
  by (intro safe_intros safe_exists safe_in safe_comparison assms)

lemma safe_where:
  assumes "safe_below n sel"
  shows "safe n (opt_where k sel)"
  unfolding opt_where_def parseWhere_def parseAndGroup_def
  by (intro safe_intros safe_condition assms) simp_all

lemma safe_select_body:
  assumes "safe_below n sel"
  shows "safe n (select_body sel)"
  unfolding select_body_def by (intro safe_intros safe_where assms)

lemma safe_parseSelect: "safe n (parseSelect (Suc n))"
proof (induction n)
  case 0
  show ?case by (simp del: parseSelect.simps(1)) (rule safe_select_body, simp add: safe_below_def)
next
  case (Suc n)
  have "safe_below (Suc n) (parseSelect (Suc n))"
    using Suc.IH by (auto simp: safe_below_def intro: safe_mono simp del: parseSelect.simps)
  from safe_select_body [OF this] show ?case by simp
qed

lemma safe_parse_select [safe_intros]: "safe n parse_select"
  unfolding safe_def parse_select_def using safe_parseSelect unfolding safe_def by blast

lemma safe_opt_where [safe_intros]: "safe n (opt_where k parse_select)"
  by (rule safe_where) (rule safe_below_all [OF safe_parse_select])

section \<open>Statements\<close>

lemma safe_statement [safe_intros]: "safe n parseStatement"
proof -
  have "safe n parseCreate"
    unfolding parseCreate_def parseCreateTable_def parseCreateIndex_def by (intro safe_intros takes_parse_coldef)
  moreover have "safe n parseDrop" "safe n parseExplain" "safe n parseAnalyze" "safe n parseDelete"
    unfolding parseDrop_def parseExplain_def parseAnalyze_def parseDelete_def by (intro safe_intros)+
  moreover have "safe n parseInsert"
    unfolding parseInsert_def by (intro safe_intros takes_parseValue)
  moreover have "safe n parseUpdate"
    unfolding parseUpdate_def by (intro safe_intros) simp
  moreover have "safe n (bindG parse_select (\<lambda>q. returnG (SelectStatement q)))" "safe n (bindG consume (\<lambda>_. returnG s))" for s :: Statement
    by (intro safe_intros)+
  ultimately show ?thesis
    by (auto simp: safe_def parseStatement_def syntax_error_def split: TokenKind.splits)
qed

lemma safe_parse_all: "safe n parse_all"
  unfolding parse_all_def by (intro safe_intros)


lemma ParseUint_not_fuel: "ParseUint s \<noteq> Inl OutOfFuel"
  by (simp add: ParseUint_def)

lemma bindE_not_fuel: "m \<noteq> Inl OutOfFuel \<Longrightarrow> (\<And>x. f x \<noteq> Inl OutOfFuel) \<Longrightarrow> bindE m f \<noteq> Inl OutOfFuel"
  by (cases m) auto

lemma if_not_fuel:
  "(b \<Longrightarrow> x \<noteq> Inl OutOfFuel) \<Longrightarrow> (\<not> b \<Longrightarrow> y \<noteq> Inl OutOfFuel) \<Longrightarrow> (if b then x else y) \<noteq> Inl OutOfFuel"
  by simp

lemma option_not_fuel:
  "(v = None \<Longrightarrow> x \<noteq> Inl OutOfFuel) \<Longrightarrow> (\<And>k. v = Some k \<Longrightarrow> f k \<noteq> Inl OutOfFuel) \<Longrightarrow>
    (case v of Some k \<Rightarrow> f k | None \<Rightarrow> x) \<noteq> Inl OutOfFuel"
  by (cases v) simp_all

lemma tokenize_not_fuel: "tokenize_at i s \<noteq> Inl OutOfFuel"
proof (induction "length s" arbitrary: i s rule: less_induct)
  case less
  show ?case
  proof (cases s)
    case (Cons c cs)
    have IH: "tokenize_at j s' \<noteq> Inl OutOfFuel" if "length s' \<le> length cs" for j s'
      by (rule less.hyps) (use that Cons in simp)
    have drop: "length (dropWhile P (d # cs)) \<le> length cs" if "P d" for P and d :: char
      using that by (simp add: length_dropWhile_le)
    have tls: "length (tl cs) \<le> length cs" "length (tl (dropWhile P cs)) \<le> length cs" for P
      using length_dropWhile_le [of P cs] by simp_all
    have newline: "not_newline CHR ''-''" "not_newline CHR ''#''"
      by (simp_all add: not_newline_def)
    show ?thesis
      unfolding Cons tokenize_at.simps Let_def
      by (intro if_not_fuel option_not_fuel bindE_not_fuel ParseUint_not_fuel IH)
        (simp_all only: sum.simps not_False_eq_True go_error.simps order_refl tls drop newline word_start_char)
  qed simp
qed

text \<open>
  C1: \<open>Parse\<close> terminates with a statement or a proper error on every input: neither the lexer nor any of
  the parser's loops, nor the recursion through nested subqueries, runs past the number of tokens that
  bounds it in the model. Hence every loop of \<open>parser.go\<close> ends, also on input that ends in the
  middle of a statement.
\<close>

theorem Parse_terminates: "Parse input \<noteq> Inl OutOfFuel"
proof -
  have "fst (parse_all ts) \<noteq> Inl OutOfFuel" for ts
    using safe_parse_all [of "length ts"] by (simp add: safe_def)
  then show ?thesis
    unfolding Parse_def Tokenize_def by (intro bindE_not_fuel tokenize_not_fuel) 
qed

end
