(* ===== verification/Explain.thy ===== *)
theory Explain
  imports Planner Decimal
begin

text \<open>
  The texts of \<open>src/planner/plan.go\<close> (\<open>Explain\<close>) and the formatting verbs that the executor's messages
  use: \<open>%d\<close> and \<open>%q\<close>. \<open>strconv.Quote\<close>, which \<open>%q\<close> calls, is modelled on ASCII.

  The lemmas: EXPLAIN prints one line per node of the plan, indented by twice the depth of the node.
\<close>

definition Value_String :: "Value \<Rightarrow> string" where
  "Value_String v = (if valType v = TypeInt then format_nat (unat (IntVal v)) else TextVal v)"

fun CompareOp_String :: "CompareOp \<Rightarrow> string" where
  "CompareOp_String OpEq = ''=''"
| "CompareOp_String OpGt = ''>''"
| "CompareOp_String OpLt = ''<''"
| "CompareOp_String OpGte = ''>=''"
| "CompareOp_String OpLte = ''<=''"

definition format_int :: "int \<Rightarrow> string" where
  "format_int n = (if n < 0 then CHR ''-'' # format_nat (nat (- n)) else format_nat (nat n))"

definition format_u64 :: "u64 \<Rightarrow> string" where "format_u64 x = format_nat (unat x)"

definition hex_digit :: "nat \<Rightarrow> char" where "hex_digit d = ''0123456789abcdef'' ! (d mod 16)"

definition quote_char :: "char \<Rightarrow> string" where
  "quote_char c =
     (let n = (of_char c :: nat) in
      if c = CHR 0x22 \<or> c = CHR 0x5C then [CHR 0x5C, c]
      else if 32 \<le> n \<and> n < 127 then [c]
      else if n = 7 then [CHR 0x5C, CHR ''a'']
      else if n = 8 then [CHR 0x5C, CHR ''b'']
      else if n = 12 then [CHR 0x5C, CHR ''f'']
      else if n = 10 then [CHR 0x5C, CHR ''n'']
      else if n = 13 then [CHR 0x5C, CHR ''r'']
      else if n = 9 then [CHR 0x5C, CHR ''t'']
      else if n = 11 then [CHR 0x5C, CHR ''v'']
      else [CHR 0x5C, CHR ''x'', hex_digit (n div 16), hex_digit n])"

definition go_quote :: "string \<Rightarrow> string" where
  "go_quote s = CHR 0x22 # concat (map quote_char s) @ [CHR 0x22]"

text \<open>\<open>strings.Join\<close>.\<close>

fun join_strings :: "string \<Rightarrow> string list \<Rightarrow> string" where
  "join_strings sep [] = []"
| "join_strings sep [s] = s"
| "join_strings sep (s # t # ss) = s @ sep @ join_strings sep (t # ss)"

fun indent :: "nat \<Rightarrow> string" where
  "indent 0 = []"
| "indent (Suc n) = ''  '' @ indent n"

definition range_text :: "u64 \<Rightarrow> u64 \<Rightarrow> string" where
  "range_text mn mx =
     (if mn = mx then ''  key='' @ format_u64 mn @ ''  (point lookup)''
      else if mn = 0 \<and> mx = MaxUint64 then ''  range=[full scan]''
      else ''  range=['' @ format_u64 mn @ ''..'' @ format_u64 mx @ '']'')"

definition cond_text :: "Condition \<Rightarrow> string" where
  "cond_text c = Column c @ '' '' @ CompareOp_String (Op c) @ '' '' @ (if IsJoinCond c then RHSCol c else Value_String (Val c))"

definition on_text :: "Condition list \<Rightarrow> string" where
  "on_text on =
     (let s = join_strings '', '' (map (\<lambda>c. Column c @ '' '' @ CompareOp_String (Op c) @ '' '' @ RHSCol c) on)
      in if s = [] then ''cross'' else s)"

fun explainLines :: "nat \<Rightarrow> PhysicalNode \<Rightarrow> string list" where
  "explainLines d (IndexScan t mn mx) = [indent d @ ''IndexScan  table='' @ ToLower (tblName t) @ range_text mn mx]"
| "explainLines d (IndexLookup t idx mn mx) =
     [indent d @ ''IndexLookup  table='' @ ToLower (tblName t) @ ''  index='' @ idxName idx @ range_text mn mx]"
| "explainLines d (FilterNode c ps) =
     (indent d @ ''Filter  ['' @ join_strings '', '' (map cond_text ps) @ '']'') # explainLines (Suc d) c"
| "explainLines d (ProjectNode c cols idxs) =
     (indent d @ ''Project  ['' @ join_strings '', '' cols @ '']'') # explainLines (Suc d) c"
| "explainLines d (LimitNode c n) = (indent d @ ''Limit  '' @ format_int n) # explainLines (Suc d) c"
| "explainLines d (UnionNode cs pk) =
     (indent d @ ''Union  ('' @ format_nat (length cs) @ '' branches, dedup by pk)'') # concat (map (explainLines (Suc d)) cs)"
| "explainLines d (NestedLoopJoin l r on ls rs) =
     (indent d @ ''NestedLoopJoin  on=['' @ on_text on @ '']'') # explainLines (Suc d) l @ explainLines (Suc d) r"

definition plan_Explain :: "PhysicalNode \<Rightarrow> string" where
  "plan_Explain root = join_strings [CHR 0x0A] (explainLines 0 root)"

section \<open>The shape of the output\<close>

text \<open>The depths of the nodes of a plan, in the order in which they are visited.\<close>

fun node_depths :: "nat \<Rightarrow> PhysicalNode \<Rightarrow> nat list" where
  "node_depths d (IndexScan t mn mx) = [d]"
| "node_depths d (IndexLookup t idx mn mx) = [d]"
| "node_depths d (FilterNode c ps) = d # node_depths (Suc d) c"
| "node_depths d (ProjectNode c cols idxs) = d # node_depths (Suc d) c"
| "node_depths d (LimitNode c n) = d # node_depths (Suc d) c"
| "node_depths d (UnionNode cs pk) = d # concat (map (node_depths (Suc d)) cs)"
| "node_depths d (NestedLoopJoin l r on ls rs) = d # node_depths (Suc d) l @ node_depths (Suc d) r"

definition leading_spaces :: "string \<Rightarrow> nat" where
  "leading_spaces s = length (takeWhile (\<lambda>c. c = CHR '' '') s)"

lemma leading_spaces_simps [simp]:
  "leading_spaces [] = 0" "leading_spaces (c # s) = (if c = CHR '' '' then Suc (leading_spaces s) else 0)"
  by (simp_all add: leading_spaces_def)

lemma leading_spaces_indent [simp]: "leading_spaces (indent d @ s) = 2 * d + leading_spaces s"
  by (induction d) simp_all

lemma explain_indentation: "map leading_spaces (explainLines d p) = map ((*) 2) (node_depths d p)"
proof (induction d p rule: explainLines.induct)
  case (6 d cs pk)
  then have "map (\<lambda>p. map leading_spaces (explainLines (Suc d) p)) cs = map (\<lambda>p. map ((*) 2) (node_depths (Suc d) p)) cs"
    by (intro map_cong) auto
  then show ?case by (simp add: map_concat comp_def del: map_eq_conv)
qed simp_all

end
