(* ===== verification/Engine.thy ===== *)
theory Engine
  imports Dml Parser Explain
begin

text \<open>
  The rest of \<open>src/executor/executor.go\<close>: opening and closing a database, the statements
  that change the schema, and the dispatch of \<open>Exec\<close>. \<open>F\<close> is the float64 arithmetic of the cost estimates. \<open>Orders\<close> has the orders of the map loops and
  the growth of slices, which Go leaves open.
\<close>

record Orders =
  oMaps :: MapOrder
  oKeys :: "latest_map \<Rightarrow> (string \<times> u32) list"
  oTables :: "latest_map \<Rightarrow> string list"
  oPages :: "latest_map \<Rightarrow> string \<Rightarrow> u32 list"
  oXids :: "u32 set \<Rightarrow> u32 list"
  oCatalog :: "string set \<Rightarrow> string list"
  oStats :: "string set \<Rightarrow> string list"
  oGrow :: "nat \<Rightarrow> nat"

section \<open>Open and Close\<close>

definition dir_file :: "dir \<Rightarrow> string \<Rightarrow> go_file" where
  "dir_file d fname = (case d fname of None \<Rightarrow> empty_file | Some f \<Rightarrow> f)"

definition log_images :: "WAL \<Rightarrow> latest_map" where
  "log_images w = (case readAllLocked w of Inl _ \<Rightarrow> Map.empty | Inr rs \<Rightarrow> latest_writes rs)"

definition db_Open :: "Orders \<Rightarrow> dir \<Rightarrow> go_error + DB" where
  "db_Open ord d =
     (let w = wal_Open (dir_file d ''wal''); m = log_images w in
      case wal_Recover (oKeys ord m) (oTables ord m) (oPages ord m) w d of
        (Inl e, d) \<Rightarrow> Inl e
      | (Inr _, d) \<Rightarrow>
          bindE (catalog_Load (d ''catalog'')) (\<lambda>cat.
          bindE (LoadStatsDB (d ''stats'')) (\<lambda>sdb.
          bindE (CommittedXIDs (oXids ord) w) (\<lambda>xids.
          Inr \<lparr>dbCatalog = cat, dbWal = w,
               dbBuf = \<lparr>pool = pool_New (int DefaultCapacity), pagers = (\<lambda>_. fresh_pager)\<rparr>, dbNextPager = 0,
               dbTxMgr = fold MarkCommitted xids TxManager_New,
               dbOpenTbls = Map.empty, dbOpenIdxs = Map.empty, dbTxns = Map.empty, dbDir = d, dbStats = sdb\<rparr>))))"

text \<open>Close one open file: unregister it and close its pager, whose error is ignored.\<close>

definition close_file :: "string \<Rightarrow> BufPager \<Rightarrow> DB \<Rightarrow> DB" where
  "close_file fname bp db =
     (let pg = snd (pager_Close (pagers (dbBuf db) (bpg bp))) in
      db\<lparr>dbBuf := \<lparr>pool = pool_Unregister (fid bp) (pool (dbBuf db)), pagers = (pagers (dbBuf db))(bpg bp := pg)\<rparr>,
         dbDir := (dbDir db)(fname \<mapsto> pfile pg)\<rparr>)"

definition close_table :: "DB \<Rightarrow> string \<Rightarrow> DB" where
  "close_table db key =
     (case dbOpenTbls db key of
        None \<Rightarrow> db
      | Some bp \<Rightarrow> (close_file (key @ ''.db'') bp db)\<lparr>dbOpenTbls := (dbOpenTbls db)(key := None)\<rparr>)"

definition close_index :: "DB \<Rightarrow> string \<Rightarrow> DB" where
  "close_index db key =
     (case dbOpenIdxs db key of
        None \<Rightarrow> db
      | Some bp \<Rightarrow> (close_file (key @ ''.idx'') bp db)\<lparr>dbOpenIdxs := (dbOpenIdxs db)(key := None)\<rparr>)"

definition db_Close :: "MapOrder \<Rightarrow> string list \<Rightarrow> string list \<Rightarrow> int \<Rightarrow> DB \<Rightarrow> DB" where
  "db_Close ord tbls idxs gid db =
     (let db = (case goroutineTx gid db of
                  None \<Rightarrow> db
                | Some tx \<Rightarrow> clearGoroutineTx gid (wDB (snd (rollbackTx ord (txXid tx) \<lparr>wDB = db, wPagers = txPagers tx\<rparr>))))
      in foldl close_index (foldl close_table db tbls) idxs)"

section \<open>CREATE TABLE, CREATE INDEX, DROP INDEX\<close>

text \<open>\<open>pager.Open\<close>, \<open>btree.Create\<close>, \<open>pg.Close\<close> on a file that may already be open in another
  pager \<open>h\<close>: the two share the bytes of the file.\<close>

definition create_tree :: "BufPager option \<Rightarrow> string \<Rightarrow> (DB, unit) go" where
  "create_tree h fname db =
     (let f = (case h of Some bp \<Rightarrow> pfile (pagers (dbBuf db) (bpg bp)) | None \<Rightarrow> dir_file (dbDir db) fname);
          save = (\<lambda>pg. case h of
             Some bp \<Rightarrow> db\<lparr>dbBuf := (dbBuf db)\<lparr>pagers :=
                 (pagers (dbBuf db))(bpg bp := (pagers (dbBuf db) (bpg bp))\<lparr>pfile := pfile pg\<rparr>)\<rparr>\<rparr>
           | None \<Rightarrow> db\<lparr>dbDir := (dbDir db)(fname \<mapsto> pfile pg)\<rparr>)
      in case pager_Open f of
           (Inl e, pg) \<Rightarrow> (Inl e, save pg)
         | (Inr _, pg) \<Rightarrow>
             (case btree_Create pager_store pg of
                (Inl e, pg) \<Rightarrow> (Inl e, save (snd (pager_Close pg)))
              | (Inr bt, pg) \<Rightarrow> (case pager_Close pg of (r, pg) \<Rightarrow> (r, save pg))))"

definition on_catalog :: "(Catalog, 'a) go \<Rightarrow> (DB, 'a) go" where
  "on_catalog op db = (case op (dbCatalog db) of (r, c) \<Rightarrow> (r, db\<lparr>dbCatalog := c\<rparr>))"

definition table_keys :: "DB \<Rightarrow> string set" where
  "table_keys db = dom (cat_tables (dbCatalog db))"

definition execCreate :: "Orders \<Rightarrow> string \<Rightarrow> ColumnDef list \<Rightarrow> (DB, unit) go" where
  "execCreate ord tableName cols db =
     (let t = \<lparr>tblName = tableName, tblColumns = cols, tblIndexes = []\<rparr> in
      bindG (liftG (validateSchema t)) (\<lambda>_.
      bindG (create_tree (dbOpenTbls db (ToLower tableName)) (tablePath tableName)) (\<lambda>_.
      on_catalog (CreateTable (oCatalog ord (insert (ToLower tableName) (table_keys db))) t))) db)"

definition execCreateIndex :: "Orders \<Rightarrow> string \<Rightarrow> string \<Rightarrow> string \<Rightarrow> (DB, unit) go" where
  "execCreateIndex ord indexName tableName col db =
     bindG (on_catalog (CreateIndex (oGrow ord) (oCatalog ord (table_keys db))
              \<lparr>idxName = indexName, idxTable = tableName, idxColumn = col\<rparr>)) (\<lambda>_.
     create_tree (dbOpenIdxs db (ToLower indexName)) (indexPath indexName)) db"

definition execDropIndex :: "Orders \<Rightarrow> string \<Rightarrow> (DB, unit) go" where
  "execDropIndex ord indexName db =
     (let db = close_index db (ToLower indexName) in
      bindG (on_catalog (DropIndex (oCatalog ord (table_keys db)) indexName)) (\<lambda>_ db.
        (Inr (), db\<lparr>dbDir := (dbDir db)(indexPath indexName := None)\<rparr>)) db)"

section \<open>Queries on the database\<close>

definition on_buf :: "(BufState, 'a) go \<Rightarrow> (DB, 'a) go" where
  "on_buf op db = (case op (dbBuf db) of (r, st) \<Rightarrow> (r, db\<lparr>dbBuf := st\<rparr>))"

text \<open>\<open>pageStoreFor\<close>: the transaction pager in an explicit transaction, the pool otherwise. The file is
  opened by the first access instead of when the operator is built.\<close>

definition via_table :: "int \<Rightarrow> string \<Rightarrow> (string \<Rightarrow> (Work, 'a) go) \<Rightarrow> (BufPager \<Rightarrow> (BufState, 'a) go) \<Rightarrow> (DB, 'a) go" where
  "via_table gid name tx_op buf_op db =
     (case goroutineTx gid db of
        Some tx \<Rightarrow> in_tx gid tx (bindG (txPagerForTable name) tx_op) db
      | None \<Rightarrow> bindG (getOrOpenTable name) (\<lambda>bp. on_buf (buf_op bp)) db)"

definition pageStoreFor :: "int \<Rightarrow> string \<Rightarrow> DB PageStore" where
  "pageStoreFor gid name =
     \<lparr>ReadPage = (\<lambda>i. via_table gid name (\<lambda>key. ReadPage (work_store key) i) (\<lambda>bp. buf_ReadPage bp i)),
      WritePage = (\<lambda>p. via_table gid name (\<lambda>key. WritePage (work_store key) p) (\<lambda>bp. buf_WritePage bp p)),
      AllocatePage = via_table gid name (\<lambda>key. AllocatePage (work_store key)) (\<lambda>bp. buf_AllocatePage bp)\<rparr>"

definition indexStoreFor :: "string \<Rightarrow> DB PageStore" where
  "indexStoreFor name =
     \<lparr>ReadPage = (\<lambda>i. bindG (getOrOpenIndex name) (\<lambda>bp. on_buf (buf_ReadPage bp i))),
      WritePage = (\<lambda>p. bindG (getOrOpenIndex name) (\<lambda>bp. on_buf (buf_WritePage bp p))),
      AllocatePage = bindG (getOrOpenIndex name) (\<lambda>bp. on_buf (buf_AllocatePage bp))\<rparr>"

definition read_view :: "'c Float64 \<Rightarrow> int \<Rightarrow> DB \<Rightarrow> (DB, 'c) ReadView" where
  "read_view F gid db =
     \<lparr>rvCatalog = dbCatalog db, rvStats = (\<lambda>name. map_option (cost_model F) (stats_Get (dbStats db) name)),
      rvEnv = \<lparr>tblStore = (\<lambda>name. Inr (pageStoreFor gid name)), idxStore = (\<lambda>name. Inr (indexStoreFor name))\<rparr>\<rparr>"

definition tx_snapshot :: "int \<Rightarrow> DB \<Rightarrow> Snapshot option" where
  "tx_snapshot gid db = map_option txSnap (goroutineTx gid db)"

section \<open>ANALYZE\<close>

definition on_stats :: "(StatsDB, 'a) go \<Rightarrow> (DB, 'a) go" where
  "on_stats op db = (case op (dbStats db) of (r, st) \<Rightarrow> (r, db\<lparr>dbStats := st\<rparr>))"

definition set_and_save :: "Orders \<Rightarrow> TableStats \<Rightarrow> (StatsDB, unit) go" where
  "set_and_save ord ts st =
     (let st = stats_Set ts st in stats_Save (oStats ord (dom (st_tables st))) st)"

definition execAnalyze :: "Orders \<Rightarrow> nat \<Rightarrow> string \<Rightarrow> (DB, u64) go" where
  "execAnalyze ord fuel name db =
     (case GetTable (dbCatalog db) name of
        None \<Rightarrow> (Inl (TableMissing name), db)
      | Some t \<Rightarrow>
          bindG (getOrOpenTable name) (\<lambda>bp.
          bindG (on_buf (Collect_stats fuel (buf_store bp) t)) (\<lambda>ts.
          bindG (on_stats (set_and_save ord ts)) (\<lambda>_.
          returnG (RowCount ts)))) db)"

section \<open>Exec\<close>

definition message :: "string \<Rightarrow> Result" where
  "message msg = \<lparr>resColumns = [], resRows = [], resMessage = msg\<rparr>"

definition execExplain :: "'c Float64 \<Rightarrow> int \<Rightarrow> SelectStmt \<Rightarrow> (DB, Result) go" where
  "execExplain F gid q db =
     bindG (liftG (collectTablesForSelect (read_view F gid db) q)) (\<lambda>(tables, statsMap).
     bindG (liftG (Plan q tables statsMap)) (\<lambda>plan.
     returnG (message (plan_Explain plan)))) db"

definition replies :: "(DB, 'a) go \<Rightarrow> ('a \<Rightarrow> string) \<Rightarrow> (DB, Result) go" where
  "replies op msg = bindG op (\<lambda>x. returnG (message (msg x)))"

definition Exec_stmt ::
  "Orders \<Rightarrow> nat \<Rightarrow> 'c Float64 \<Rightarrow> int \<Rightarrow> Statement \<Rightarrow> (DB, Result) go" where
  "Exec_stmt ord fuel F gid stmt db =
     (case stmt of
        SelectStatement q \<Rightarrow> execSelect fuel (read_view F gid db) (tx_snapshot gid db) (dbTxMgr db) q db
      | ExplainStmt q \<Rightarrow> execExplain F gid q db
      | BeginStmt \<Rightarrow> replies (execBegin gid) (\<lambda>_. ''BEGIN'') db
      | CommitStmt \<Rightarrow> replies (execCommit (oMaps ord) gid) (\<lambda>_. ''COMMIT'') db
      | RollbackStmt \<Rightarrow> replies (execRollback (oMaps ord) gid) (\<lambda>_. ''ROLLBACK'') db
      | InsertStmt t vs \<Rightarrow> replies (execInsert (oMaps ord) fuel gid t vs) (\<lambda>_. ''1 row inserted'') db
      | DeleteStmt t wh \<Rightarrow>
          bindG (flattenDMLSubqueries fuel (read_view F gid db) (tx_snapshot gid db) (dbTxMgr db) wh) (\<lambda>wh.
          replies (execDelete (oMaps ord) fuel gid t wh) (\<lambda>n. format_nat n @ '' row(s) deleted'')) db
      | UpdateStmt t asgs wh \<Rightarrow>
          bindG (flattenDMLSubqueries fuel (read_view F gid db) (tx_snapshot gid db) (dbTxMgr db) wh) (\<lambda>wh.
          replies (execUpdate (oMaps ord) fuel gid t asgs wh) (\<lambda>n. format_nat n @ '' row(s) updated'')) db
      | CreateTableStmt t cols \<Rightarrow> replies (execCreate ord t cols) (\<lambda>_. ''table '' @ go_quote t @ '' created'') db
      | CreateIndexStmt i t c \<Rightarrow> replies (execCreateIndex ord i t c) (\<lambda>_. ''index '' @ go_quote i @ '' created on '' @ t @ ''('' @ c @ '')'') db
      | DropIndexStmt i \<Rightarrow> replies (execDropIndex ord i) (\<lambda>_. ''index '' @ go_quote i @ '' dropped'') db
      | AnalyzeStmt t \<Rightarrow> replies (execAnalyze ord fuel t) (\<lambda>n. ''analyzed '' @ go_quote t @ '': '' @ format_u64 n @ '' rows'') db)"

definition Exec ::
  "Orders \<Rightarrow> nat \<Rightarrow> 'c Float64 \<Rightarrow> int \<Rightarrow> string \<Rightarrow> (DB, Result) go" where
  "Exec ord fuel F gid sql =
     bindG (liftG (Parse sql)) (\<lambda>stmt. Exec_stmt ord fuel F gid stmt)"

text \<open>What ends the process instead of being reported: a panic (and a loop that does not end).\<close>

definition crashes :: "go_error \<Rightarrow> bool" where
  "crashes e \<longleftrightarrow> e = Panic \<or> e = OutOfFuel"

end
