(* ===== verification/AnalyzeOk.thy ===== *)
theory AnalyzeOk
  imports DmlCorrect Engine
begin

text \<open>
  ANALYZE on the database: the statistics it stores are the exact counts of what \<open>Table.Decode\<close> reads
  from the entries of the table's tree, no file of the database changes, and the statistics file loads back.
\<close>

lemma page_store_ops_cong:
  assumes "page_store ps ok live view room" and "ReadPage ps' = ReadPage ps" "WritePage ps' = WritePage ps" "AllocatePage ps' = AllocatePage ps"
  shows "page_store ps' ok live view room"
  using assms(1) unfolding page_store_def assms(2-4) .

text \<open>What \<open>Table.Decode\<close> makes of a stored value: it starts at byte 0, in the MVCC header.\<close>

definition raw_row :: "Table \<Rightarrow> byte list \<Rightarrow> Value list" where
  "raw_row t raw = (case Table_Decode t raw of Inr row \<Rightarrow> row | Inl _ \<Rightarrow> [])"

lemma Table_Decode_raw:
  assumes "validateSchema t = Inr ()" and "length raw = ValueSize"
  shows "Table_Decode t raw = Inr (raw_row t raw)"
proof -
  have "0 + sum_list (map col_size (tblColumns t)) \<le> length raw"
    using validateSchema_size [OF assms(1)] assms(2) by (simp add: ValueSize_def)
  from decode_columns_total [OF this] show ?thesis by (auto simp: raw_row_def Table_Decode_def)
qed

definition pool_same :: "(string \<Rightarrow> BufPager) \<Rightarrow> string set \<Rightarrow> BufState \<Rightarrow> BufState \<Rightarrow> bool" where
  "pool_same bp G st st' \<longleftrightarrow> pool_files_ok bp G st' \<and> (\<forall>g\<in>G. pf.kept bp g st st')"

lemma pool_Collect:
  assumes ok: "pool_files_ok bp G st" and f: "f \<in> G"
    and t: "btree_tree (buf_live (bp f) st) (buf_view (bp f) st) n u bt" "headerPage bt = 1" "no_empty_leaf (tl (leaves u))"
    and "n < fuel" and "length (entries u) < fuel" and "wf_entries (entries u)" and "validateSchema t = Inr ()" and "plain_columns t"
  shows "\<exists>st'. Collect_stats fuel (buf_store (bp f)) t st = (Inr (row_summary t (map (\<lambda>e. raw_row t (Value e)) (entries u))), st') \<and> pool_same bp G st st'"
proof -
  have P: "page_store (buf_store (bp f)) (pf.okf G bp f st) (buf_live (bp f)) (buf_view (bp f)) (buf_room (bp f))"
    by (rule page_store_ops_cong [OF pf.framed [OF f]]) (simp_all add: pool_store_def)
  have dec: "\<forall>e\<in>set (entries u). Table_Decode t (Value e) = Inr (raw_row t (Value e))"
    using assms(8,9) Table_Decode_raw by (simp add: wf_entries_def)
  obtain st' where st': "Collect_stats fuel (buf_store (bp f)) t st = (Inr (row_summary t (map (\<lambda>e. raw_row t (Value e)) (entries u))), st')"
    "page_store.same_store (pf.okf G bp f st) (buf_live (bp f)) (buf_view (bp f)) (buf_room (bp f)) st st'"
    using page_store.Collect_spec [OF P pf.okf_self [OF ok] t(1,2,3) assms(6,7) dec assms(10)] by blast
  then show ?thesis using pf.same_store_same [OF f st'(2)] unfolding pf.same_def pool_same_def by blast
qed

lemma same_others_kept:
  assumes "pool_same bp G (dbBuf db) (dbBuf db')"
  shows "others_kept bp G db db'"
proof -
  have "kept bp g (at_rest db) (at_rest db')" if "g \<in> G" for g
    using assms that unfolding kept_def rest_view by (auto simp: pool_same_def pf.kept_def)
  then show ?thesis by (auto simp: others_kept_def file_holds_def intro: kept_has_tree)
qed

lemma GetTable_name:
  assumes "catalog_inv c" and "GetTable c name = Some t"
  shows "ToLower (tblName t) = ToLower name"
  using assms dict_invD(1) [of "cat_tables c" "cat_indexes c" "cat_arrays c" "ToLower name"]
  by (auto simp: catalog_inv_def GetTable_def table_view_def table_ok_def)

lemma set_and_save_ok:
  assumes "faults (st_file st) = []"
  shows "\<exists>f. set_and_save ord ts st = (Inr (), (stats_Set ts st)\<lparr>st_file := f\<rparr>)"
proof -
  have "faults (st_file (stats_Set ts st)) = []" using assms by (simp add: stats_Set_def)
  from stats_Save_ok [OF this] show ?thesis by (auto simp: set_and_save_def Let_def)
qed



section \<open>The statistics file\<close>

text \<open>C36: Saved statistics load back: whatever order the loop over the map takes, the file that \<open>Save\<close> writes is
  read by \<open>LoadStatsDB\<close> as the same statistics for every table, provided names have fewer than 256 bytes, tables
  fewer than 256 columns and there are fewer than 65536 tables.\<close>

theorem stats_save_load:
  assumes "stats_inv db" and "distinct ord" "set ord = dom (st_tables db)" and "length ord < 65536"
    and "\<forall>k ts. st_tables db k = Some ts \<longrightarrow> stats_codable ts" and "faults (st_file db) = []"
  shows "\<exists>db' db''. stats_Save ord db = (Inr (), db') \<and> LoadStatsDB (Some (st_file db')) = Inr db'' \<and>
    (\<forall>n. stats_Get db'' n = stats_Get db n)"
proof -
  let ?ts = "map (\<lambda>k. the (st_tables db k)) ord"
  have cod: "\<forall>t\<in>set ?ts. stats_codable t" using assms(3,5) by auto
  from stats_deserialize_bytes [OF cod, where db = "NewStatsDB f" for f] assms(4)
  show ?thesis using stats_Save_ok [OF assms(6), of ord] stats_reload [OF assms(1-3)]
    by (simp add: LoadStatsDB_def stats_Get_def)
qed

theorem stats_save_load_witness:
  "\<exists>db db' db'' ts. stats_Save [''t''] db = (Inr (), db') \<and> LoadStatsDB (Some (st_file db')) = Inr db'' \<and>
     stats_Get db'' ''T'' = Some ts \<and> RowCount ts = 7"
proof -
  let ?ts = "\<lparr>tsTable = ''t'', RowCount = 7, tsColumns = [\<lparr>csName = ''id'', NDistinct = 7, csMin = 1, csMax = 9\<rparr>]\<rparr>"
  let ?db = "stats_Set ?ts (NewStatsDB empty_file)"
  have low: "ToLower ''T'' = ''t''" "ToLower ''t'' = ''t''" by code_simp+
  have db: "stats_inv ?db" by (intro stats_inv_ops)
  have ord: "distinct [''t'']" "set [''t''] = dom (st_tables ?db)" "length [''t''] < 65536"
    by (auto simp: stats_Set_def NewStatsDB_def low)
  have cod: "\<forall>k ts. st_tables ?db k = Some ts \<longrightarrow> stats_codable ts" "faults (st_file ?db) = []"
    by (auto simp: stats_Set_def NewStatsDB_def stats_codable_def empty_file_def low split: if_splits)
  have "stats_Get ?db ''T'' = Some ?ts" by (simp add: stats_Get_def stats_Set_def low)
  moreover obtain db' db'' where "stats_Save [''t''] ?db = (Inr (), db')" "LoadStatsDB (Some (st_file db')) = Inr db''"
    "\<forall>n. stats_Get db'' n = stats_Get ?db n"
    using stats_save_load [OF db ord cod] by blast
  ultimately show ?thesis by (intro exI [of _ ?db] exI [of _ db'] exI [of _ db''] exI [of _ ?ts]) simp
qed

end
