(* ===== verification/Server.thy ===== *)
theory Server
  imports Engine
begin

text \<open>
  \<open>src/server/proto.go\<close>, \<open>src/server/server.go\<close> and \<open>src/client/client.go\<close>: frames with a big-endian length,
  the loop that serves a connection, and the client. A connection is the bytes still to come from the other side and
  a writer towards it whose writes may fail.

  \<open>encoding/json\<close> is the argument \<open>Json\<close>; the theorems use of it that what \<open>Marshal\<close> writes
  \<open>Unmarshal\<close> reads (\<open>json_ok\<close>). The texts of error messages are the argument \<open>et\<close>. A panic of
  \<open>Exec\<close> ends the process: \<open>Inl\<close>. Sockets are the runtime's.
\<close>

record Response =
  rsColumns :: "string list"
  rsRows :: "string list list"
  rsMessage :: string
  rsError :: string

record Json =
  marshalRequest :: "string \<Rightarrow> go_error + byte list"
  unmarshalRequest :: "byte list \<Rightarrow> go_error + string"
  marshalResponse :: "Response \<Rightarrow> go_error + byte list"
  unmarshalResponse :: "byte list \<Rightarrow> go_error + Response"

definition maxFrameSize :: u32 where "maxFrameSize = push_bit 20 4"

section \<open>Frames\<close>

definition be32 :: "u32 \<Rightarrow> byte list" where "be32 x = rev (le32 x)"

definition from_be32 :: "byte list \<Rightarrow> u32" where "from_be32 bs = from_le (rev bs)"

definition writeFrame :: "go_error + byte list \<Rightarrow> (go_file, unit) go" where
  "writeFrame marshalled =
     bindG (liftG marshalled) (\<lambda>payload.
     bindG (file_Write (be32 (word_of_nat (length payload)))) (\<lambda>_.
     file_Write payload))"

text \<open>\<open>io.ReadFull\<close> on a connection: \<open>io.EOF\<close> only if there is no byte at all.\<close>

definition conn_ReadFull :: "nat \<Rightarrow> (byte list, byte list) go" where
  "conn_ReadFull n bs =
     (if n \<le> length bs then (Inr (take n bs), drop n bs)
      else (Inl (if bs = [] then ReadEOF else UnexpectedEOF), []))"

definition readFrame :: "(byte list \<Rightarrow> go_error + 'a) \<Rightarrow> (byte list, 'a) go" where
  "readFrame unmarshal =
     bindG (conn_ReadFull 4) (\<lambda>hdr.
     let n = from_be32 hdr in
     if n > maxFrameSize then failG (FrameTooLarge n)
     else bindG (conn_ReadFull (unat n)) (\<lambda>buf. liftG (unmarshal buf)))"

section \<open>The server\<close>

definition error_response :: "string \<Rightarrow> Response" where
  "error_response msg = \<lparr>rsColumns = [], rsRows = [], rsMessage = [], rsError = msg\<rparr>"

definition result_response :: "Result \<Rightarrow> Response" where
  "result_response res =
     \<lparr>rsColumns = resColumns res, rsRows = map (map Value_String) (resRows res), rsMessage = resMessage res, rsError = []\<rparr>"

definition execSQL :: "(go_error \<Rightarrow> string) \<Rightarrow> (string \<Rightarrow> ('d, Result) go) \<Rightarrow> string \<Rightarrow> ('d, Response) go" where
  "execSQL et exec sql db =
     (case exec sql db of
        (Inl e, db) \<Rightarrow> if crashes e then (Inl e, db) else (Inr (error_response (et e)), db)
      | (Inr res, db) \<Rightarrow> (Inr (result_response res), db))"

lemma conn_ReadFull_length: "conn_ReadFull n bs = (Inr b, bs') \<Longrightarrow> length bs = n + length bs'"
  by (auto simp: conn_ReadFull_def split: if_splits)

lemma readFrame_length:
  assumes "readFrame u bs = (Inr x, bs')"
  shows "length bs' < length bs"
  using assms
  by (auto simp: readFrame_def bindG_def liftG_def failG_def Let_def split: prod.splits sum.splits if_splits dest!: conn_ReadFull_length)

function handle ::
  "Json \<Rightarrow> (go_error \<Rightarrow> string) \<Rightarrow> (string \<Rightarrow> ('d, Result) go) \<Rightarrow> byte list \<Rightarrow> go_file \<Rightarrow> ('d, go_file) go" where
  "handle J et exec bs out db =
     (case readFrame (unmarshalRequest J) bs of
        (Inl e, bs) \<Rightarrow>
          if e = ReadEOF then (Inr out, db)
          else (Inr (snd (writeFrame (marshalResponse J (error_response (et e))) out)), db)
      | (Inr sql, bs) \<Rightarrow>
          (case execSQL et exec sql db of
             (Inl e, db) \<Rightarrow> (Inl e, db)
           | (Inr resp, db) \<Rightarrow>
               (case writeFrame (marshalResponse J resp) out of
                  (Inl e, out) \<Rightarrow> (Inr out, db)
                | (Inr _, out) \<Rightarrow> handle J et exec bs out db)))"
  by pat_completeness auto

termination
  by (relation "measure (\<lambda>(J, et, exec, bs, out, db). length bs)") (auto dest: readFrame_length [OF sym])

declare handle.simps [simp del]

section \<open>The client\<close>

record Conn =
  toPeer :: go_file
  fromPeer :: "byte list"

definition on_out :: "(go_file, 'a) go \<Rightarrow> (Conn, 'a) go" where
  "on_out op c = (case op (toPeer c) of (r, f) \<Rightarrow> (r, c\<lparr>toPeer := f\<rparr>))"

definition on_in :: "(byte list, 'a) go \<Rightarrow> (Conn, 'a) go" where
  "on_in op c = (case op (fromPeer c) of (r, bs) \<Rightarrow> (r, c\<lparr>fromPeer := bs\<rparr>))"

record ClientResult =
  crColumns :: "string list"
  crRows :: "string list list"
  crMessage :: string

text \<open>The package has its own copies of the frame functions.\<close>

definition client_writeFrame :: "go_error + byte list \<Rightarrow> (go_file, unit) go" where
  "client_writeFrame marshalled =
     bindG (liftG marshalled) (\<lambda>payload.
     bindG (file_Write (be32 (word_of_nat (length payload)))) (\<lambda>_.
     file_Write payload))"

definition client_maxFrameSize :: u32 where "client_maxFrameSize = push_bit 20 4"

definition client_readFrame :: "(byte list \<Rightarrow> go_error + 'a) \<Rightarrow> (byte list, 'a) go" where
  "client_readFrame unmarshal =
     bindG (conn_ReadFull 4) (\<lambda>hdr.
     let n = from_be32 hdr in
     if n > client_maxFrameSize then failG (FrameTooLarge n)
     else bindG (conn_ReadFull (unat n)) (\<lambda>buf. liftG (unmarshal buf)))"

definition client_Exec :: "Json \<Rightarrow> string \<Rightarrow> (Conn, ClientResult) go" where
  "client_Exec J sql =
     bindG (on_out (client_writeFrame (marshalRequest J sql))) (\<lambda>_.
     bindG (on_in (client_readFrame (unmarshalResponse J))) (\<lambda>resp.
     if rsError resp \<noteq> [] then failG (ServerError (rsError resp))
     else returnG \<lparr>crColumns = rsColumns resp, crRows = rsRows resp, crMessage = rsMessage resp\<rparr>))"

lemma client_frames [simp]: "client_writeFrame = writeFrame" "client_readFrame = readFrame"
  by (simp_all add: fun_eq_iff client_writeFrame_def writeFrame_def client_readFrame_def readFrame_def client_maxFrameSize_def maxFrameSize_def)

section \<open>Concurrent connections\<close>

text \<open>\<open>Serve\<close> runs \<open>handle\<close> for every accepted connection in a goroutine of its own. A step accepts a
  connection, is one round of the loop of \<open>handle\<close> on one of the open connections, or is the part of
  \<open>Close\<close> that stops the listener (its second part waits until no connection is open). \<open>Exec\<close> gets the
  goroutine it runs in.\<close>

record 'd Srv =
  srvDb :: 'd
  srvIn :: "int \<Rightarrow> byte list"
  srvOut :: "int \<Rightarrow> go_file"
  srvSeen :: "int set"
  srvOpen :: "int set"
  srvShutdown :: bool

definition srv_Close :: "'d Srv \<Rightarrow> 'd Srv" where
  "srv_Close s = s\<lparr>srvShutdown := True\<rparr>"

inductive srv_step ::
  "Json \<Rightarrow> (go_error \<Rightarrow> string) \<Rightarrow> (int \<Rightarrow> string \<Rightarrow> ('d, Result) go) \<Rightarrow> 'd Srv \<Rightarrow> 'd Srv \<Rightarrow> bool"
  for J et exec where
  accept: "c \<notin> srvSeen s \<Longrightarrow> \<not> srvShutdown s \<Longrightarrow>
    srv_step J et exec s (s\<lparr>srvIn := (srvIn s)(c := bs), srvOut := (srvOut s)(c := out), srvSeen := insert c (srvSeen s), srvOpen := insert c (srvOpen s)\<rparr>)"
| answer: "c \<in> srvOpen s \<Longrightarrow> readFrame (unmarshalRequest J) (srvIn s c) = (Inr sql, bs) \<Longrightarrow>
    execSQL et (exec c) sql (srvDb s) = (Inr resp, db) \<Longrightarrow> writeFrame (marshalResponse J resp) (srvOut s c) = (Inr u, out) \<Longrightarrow>
    srv_step J et exec s (s\<lparr>srvDb := db, srvIn := (srvIn s)(c := bs), srvOut := (srvOut s)(c := out)\<rparr>)"
| unsent: "c \<in> srvOpen s \<Longrightarrow> readFrame (unmarshalRequest J) (srvIn s c) = (Inr sql, bs) \<Longrightarrow>
    execSQL et (exec c) sql (srvDb s) = (Inr resp, db) \<Longrightarrow> writeFrame (marshalResponse J resp) (srvOut s c) = (Inl e, out) \<Longrightarrow>
    srv_step J et exec s (s\<lparr>srvDb := db, srvIn := (srvIn s)(c := bs), srvOut := (srvOut s)(c := out), srvOpen := srvOpen s - {c}\<rparr>)"
| eof: "c \<in> srvOpen s \<Longrightarrow> readFrame (unmarshalRequest J) (srvIn s c) = (Inl ReadEOF, bs) \<Longrightarrow>
    srv_step J et exec s (s\<lparr>srvIn := (srvIn s)(c := bs), srvOpen := srvOpen s - {c}\<rparr>)"
| bad_request: "c \<in> srvOpen s \<Longrightarrow> readFrame (unmarshalRequest J) (srvIn s c) = (Inl e, bs) \<Longrightarrow> e \<noteq> ReadEOF \<Longrightarrow>
    srv_step J et exec s (s\<lparr>srvIn := (srvIn s)(c := bs),
      srvOut := (srvOut s)(c := snd (writeFrame (marshalResponse J (error_response (et e))) (srvOut s c))), srvOpen := srvOpen s - {c}\<rparr>)"
| shutdown: "srv_step J et exec s (srv_Close s)"

inductive_cases srv_stepE: "srv_step J et exec s s'"

section \<open>Frames are read as they are written\<close>

definition frame :: "byte list \<Rightarrow> byte list" where
  "frame p = be32 (word_of_nat (length p)) @ p"

lemma be32_props [simp]: "length (be32 x) = 4" "from_be32 (be32 x) = x"
  by (simp_all add: be32_def from_be32_def)

lemma maxFrameSize_val: "maxFrameSize = 4194304"
  by (simp add: maxFrameSize_def push_bit_eq_mult)

lemma frame_size: "n < 2 ^ 32 \<Longrightarrow> unat (word_of_nat n :: u32) = n"
  by (simp add: unat_of_nat)

lemma readFrame_frame:
  assumes "length p \<le> 4194304"
  shows "readFrame u (frame p @ rest) = (u p, rest)"
proof -
  let ?n = "word_of_nat (length p) :: u32"
  have n: "unat ?n = length p" using assms by (simp add: frame_size)
  then have "\<not> maxFrameSize < ?n" using assms by (simp add: maxFrameSize_val word_less_nat_alt)
  then show ?thesis using n
    by (simp add: readFrame_def frame_def bindG_def conn_ReadFull_def liftG_def Let_def split: sum.split)
qed

lemma readFrame_large:
  assumes "4194304 < length p" "length p < 2 ^ 32"
  shows "readFrame u (frame p @ rest) = (Inl (FrameTooLarge (word_of_nat (length p))), p @ rest)"
proof -
  let ?n = "word_of_nat (length p) :: u32"
  have "maxFrameSize < ?n" using assms frame_size [OF assms(2)] by (simp add: maxFrameSize_val word_less_nat_alt)
  then show ?thesis by (simp add: readFrame_def frame_def bindG_def conn_ReadFull_def failG_def Let_def)
qed

lemma writeFrame_ok:
  "faults f = [] \<Longrightarrow> writeFrame (Inr p) f = (Inr (), f\<lparr>contents := contents f @ frame p\<rparr>)"
  by (simp add: writeFrame_def frame_def bindG_def liftG_def)

lemma readFrame_Nil: "readFrame u [] = (Inl ReadEOF, [])"
  by (simp add: readFrame_def bindG_def conn_ReadFull_def)

text \<open>A statement that JSON carries and that fits into a frame; a response that can be encoded.\<close>

definition sendable :: "Json \<Rightarrow> string \<Rightarrow> bool" where
  "sendable J sql \<longleftrightarrow> (\<exists>p. marshalRequest J sql = Inr p \<and> unmarshalRequest J p = Inr sql \<and> length p \<le> 4194304)"

definition encodable :: "Json \<Rightarrow> Response \<Rightarrow> bool" where
  "encodable J resp \<longleftrightarrow> (\<exists>p. marshalResponse J resp = Inr p)"

definition request_frame :: "Json \<Rightarrow> string \<Rightarrow> byte list" where
  "request_frame J sql = frame (projr (marshalRequest J sql))"

definition response_frame :: "Json \<Rightarrow> Response \<Rightarrow> byte list" where
  "response_frame J resp = frame (projr (marshalResponse J resp))"

lemma read_request: "sendable J sql \<Longrightarrow> readFrame (unmarshalRequest J) (request_frame J sql @ rest) = (Inr sql, rest)"
  by (auto simp: sendable_def request_frame_def readFrame_frame)

lemma write_response:
  "encodable J resp \<Longrightarrow> faults f = [] \<Longrightarrow>
   writeFrame (marshalResponse J resp) f = (Inr (), f\<lparr>contents := contents f @ response_frame J resp\<rparr>)"
  by (auto simp: encodable_def response_frame_def writeFrame_ok)

end
