(* ===== verification/ServerOk.thy ===== *)
theory ServerOk
  imports Server ExampleDb
begin

text \<open>
  The properties of the server and the client: every request is answered, in order, on one connection and on many
  connections that take turns; what the client reads is what the server computed, unless the response is larger than
  a frame may be.
\<close>

section \<open>One connection\<close>

fun answers :: "(go_error \<Rightarrow> string) \<Rightarrow> (string \<Rightarrow> ('d, Result) go) \<Rightarrow> string list \<Rightarrow> ('d, Response list) go" where
  "answers et exec [] = returnG []"
| "answers et exec (sql # sqls) = bindG (execSQL et exec sql) (\<lambda>r. bindG (answers et exec sqls) (\<lambda>rs. returnG (r # rs)))"

lemma answers_total:
  assumes "\<And>sql db e db'. exec sql db = (Inl e, db') \<Longrightarrow> \<not> crashes e"
  shows "\<exists>rs db'. answers et exec sqls db = (Inr rs, db') \<and> length rs = length sqls"
proof (induction sqls arbitrary: db)
  case (Cons sql sqls)
  obtain r db1 where r: "execSQL et exec sql db = (Inr r, db1)"
    using assms [of sql db] by (cases "exec sql db"; cases "fst (exec sql db)") (auto simp: execSQL_def)
  show ?case using Cons [of db1] r by (auto simp: bindG_def)
qed simp

lemma Parse_COMMIT: "Parse ''COMMIT'' = Inr CommitStmt"
  by code_simp

lemma Exec_COMMIT_idle: "Exec ord fuel F 7 ''COMMIT'' ex_db = (Inl NoTransaction, ex_db)"
  by (simp add: Exec_def bindG_def liftG_def Parse_COMMIT Exec_stmt_def replies_def execCommit_def goroutineTx_def ex_db_def)

text \<open>A JSON codec for the examples: statements as they are, responses by their error text.\<close>

definition ex_json :: Json where
  "ex_json = \<lparr>marshalRequest = (\<lambda>sql. Inr (string_bytes sql)), unmarshalRequest = (\<lambda>bs. Inr (bytes_string bs)),
     marshalResponse = (\<lambda>r. Inr (string_bytes (rsError r))), unmarshalResponse = (\<lambda>bs. Inr (error_response (bytes_string bs)))\<rparr>"

definition ex_text :: "go_error \<Rightarrow> string" where
  "ex_text e = ''no active transaction''"

lemma ex_COMMIT_answer:
  "execSQL ex_text (Exec ord fuel F 7) ''COMMIT'' ex_db = (Inr (error_response ''no active transaction''), ex_db)"
  by (simp add: execSQL_def Exec_COMMIT_idle crashes_def ex_text_def)

lemma ex_sendable: "sendable ex_json ''COMMIT''" "encodable ex_json r"
  by (simp_all add: sendable_def encodable_def ex_json_def)

lemma handle_answers:
  assumes "\<forall>sql\<in>set sqls. sendable J sql" and "answers et exec sqls db = (Inr resps, db')"
    and "\<forall>r\<in>set resps. encodable J r" and "faults out = []"
  shows "handle J et exec (concat (map (request_frame J) sqls)) out db =
    (Inr (out\<lparr>contents := contents out @ concat (map (response_frame J) resps)\<rparr>), db')"
  using assms
proof (induction sqls arbitrary: resps out db)
  case Nil
  then show ?case by (simp add: handle.simps [of J et exec "[]"] readFrame_Nil)
next
  case (Cons sql sqls)
  obtain r rs db1 where r: "execSQL et exec sql db = (Inr r, db1)" "answers et exec sqls db1 = (Inr rs, db')" "resps = r # rs"
    using Cons.prems(2) by (auto simp: bindG_def split: prod.splits sum.splits)
  have enc: "encodable J r" "\<forall>r\<in>set rs. encodable J r" using Cons.prems(3) r(3) by auto
  let ?out = "out\<lparr>contents := contents out @ response_frame J r\<rparr>"
  have "handle J et exec (request_frame J sql @ concat (map (request_frame J) sqls)) out db =
      handle J et exec (concat (map (request_frame J) sqls)) ?out db1"
    using Cons.prems(1) r(1) read_request [of J sql] write_response [OF enc(1) Cons.prems(4)]
    by (subst handle.simps) simp
  then show ?case using Cons.IH [of db1 rs ?out] Cons.prems(1,4) r(2,3) enc(2) by simp
qed

text \<open>C18: The server answers every request: for a client that sends any number of statements and closes its side,
  \<open>handle\<close> ends, runs the statements in the order in which they were sent, each exactly once, and writes
  exactly one response per statement, in that order.\<close>

theorem handle_answers_every_request:
  assumes "\<forall>sql\<in>set sqls. sendable J sql" and "answers et exec sqls db = (Inr resps, db')"
    and "\<forall>r\<in>set resps. encodable J r" and "faults out = []"
  shows "handle J et exec (concat (map (request_frame J) sqls)) out db =
    (Inr (out\<lparr>contents := contents out @ concat (map (response_frame J) resps)\<rparr>), db')"
  by (rule handle_answers [OF assms])

theorem handle_answers_every_request_witness:
  "\<forall>ord fuel (F :: nat Float64). handle ex_json ex_text (Exec ord fuel F 7) (concat (map (request_frame ex_json) [''COMMIT'', ''COMMIT''])) empty_file ex_db =
    (Inr (empty_file\<lparr>contents := concat (map (response_frame ex_json) [error_response ''no active transaction'', error_response ''no active transaction''])\<rparr>), ex_db)"
proof (intro allI)
  fix ord fuel and F :: "nat Float64"
  have "answers ex_text (Exec ord fuel F 7) [''COMMIT'', ''COMMIT''] ex_db =
      (Inr [error_response ''no active transaction'', error_response ''no active transaction''], ex_db)"
    by (simp add: bindG_def ex_COMMIT_answer)
  from handle_answers_every_request [OF _ this, of ex_json empty_file] show "handle ex_json ex_text (Exec ord fuel F 7) (concat (map (request_frame ex_json) [''COMMIT'', ''COMMIT''])) empty_file ex_db =
      (Inr (empty_file\<lparr>contents := concat (map (response_frame ex_json) [error_response ''no active transaction'', error_response ''no active transaction''])\<rparr>), ex_db)"
    using ex_sendable by (simp add: empty_file_def)
qed

section \<open>Client and server\<close>

text \<open>C19: What the client's \<open>Exec\<close> returns is what \<open>Exec\<close> returned on the server: when the server reads the
  bytes the client has written and the client reads the bytes the server has written in reply, the client gets the
  columns, the rows with their cells printed and the message of the result, or an error with the text of the
  server's error. The statement and the response must fit into a frame.\<close>

theorem client_server_roundtrip:
  assumes "sendable J sql" and "exec sql db = (r, db')" and "case r of Inl e \<Rightarrow> \<not> crashes e \<and> et e \<noteq> [] | Inr _ \<Rightarrow> True"
    and "marshalResponse J (case r of Inl e \<Rightarrow> error_response (et e) | Inr res \<Rightarrow> result_response res) = Inr p"
    and "unmarshalResponse J p = Inr (case r of Inl e \<Rightarrow> error_response (et e) | Inr res \<Rightarrow> result_response res)"
    and "length p \<le> 4194304"
  shows "\<exists>out. handle J et exec (request_frame J sql) empty_file db = (Inr out, db') \<and>
    client_Exec J sql \<lparr>toPeer = empty_file, fromPeer = contents out\<rparr> =
      (case r of Inl e \<Rightarrow> Inl (ServerError (et e))
       | Inr res \<Rightarrow> Inr \<lparr>crColumns = resColumns res, crRows = map (map Value_String) (resRows res), crMessage = resMessage res\<rparr>,
       \<lparr>toPeer = empty_file\<lparr>contents := request_frame J sql\<rparr>, fromPeer = []\<rparr>)"
proof -
  let ?resp = "case r of Inl e \<Rightarrow> error_response (et e) | Inr res \<Rightarrow> result_response res"
  have "execSQL et exec sql db = (Inr ?resp, db')" using assms(2,3) by (auto simp: execSQL_def split: sum.splits)
  then have ans: "answers et exec [sql] db = (Inr [?resp], db')" by (simp add: bindG_def)
  have enc: "encodable J ?resp" using assms(4) by (simp add: encodable_def)
  have nf: "faults empty_file = []" "contents empty_file = []" by (simp_all add: empty_file_def)
  have h: "handle J et exec (request_frame J sql) empty_file db = (Inr (empty_file\<lparr>contents := frame p\<rparr>), db')"
    using handle_answers [where sqls = "[sql]", OF _ ans _ nf(1), of J] assms(1,4) enc nf(2) by (simp add: response_frame_def)
  obtain q where q: "marshalRequest J sql = Inr q" "request_frame J sql = frame q"
    using assms(1) by (auto simp: sendable_def request_frame_def)
  have rd: "readFrame (unmarshalResponse J) (frame p) = (Inr ?resp, [])"
    using readFrame_frame [OF assms(6), of "unmarshalResponse J" "[]"] assms(5) by simp
  have "client_Exec J sql \<lparr>toPeer = empty_file, fromPeer = frame p\<rparr> =
      (case r of Inl e \<Rightarrow> Inl (ServerError (et e))
       | Inr res \<Rightarrow> Inr \<lparr>crColumns = resColumns res, crRows = map (map Value_String) (resRows res), crMessage = resMessage res\<rparr>,
       \<lparr>toPeer = empty_file\<lparr>contents := request_frame J sql\<rparr>, fromPeer = []\<rparr>)"
    using rd assms(3) writeFrame_ok [OF nf(1), of q] q nf(2)
    by (cases r) (simp_all add: client_Exec_def bindG_def on_out_def on_in_def error_response_def result_response_def failG_def)
  then show ?thesis using h by simp
qed

theorem client_server_roundtrip_witness:
  "\<forall>ord fuel (F :: nat Float64). \<exists>out. handle ex_json ex_text (Exec ord fuel F 7) (request_frame ex_json ''COMMIT'') empty_file ex_db = (Inr out, ex_db) \<and>
     fst (client_Exec ex_json ''COMMIT'' \<lparr>toPeer = empty_file, fromPeer = contents out\<rparr>) = Inl (ServerError ''no active transaction'')"
proof (intro allI)
  fix ord fuel and F :: "nat Float64"
  have r: "case Inl NoTransaction of Inl e \<Rightarrow> \<not> crashes e \<and> ex_text e \<noteq> [] | Inr (x :: Result) \<Rightarrow> True"
    by (simp add: crashes_def ex_text_def)
  show "\<exists>out. handle ex_json ex_text (Exec ord fuel F 7) (request_frame ex_json ''COMMIT'') empty_file ex_db = (Inr out, ex_db) \<and>
     fst (client_Exec ex_json ''COMMIT'' \<lparr>toPeer = empty_file, fromPeer = contents out\<rparr>) = Inl (ServerError ''no active transaction'')"
    using client_server_roundtrip [of ex_json "''COMMIT''" "Exec ord fuel F 7" ex_db "Inl NoTransaction" ex_db ex_text "string_bytes ''no active transaction''",
      OF ex_sendable(1) Exec_COMMIT_idle r]
    by (auto simp: ex_json_def error_response_def ex_text_def)
qed

text \<open>A response larger than 4 MiB is lost: the statement is carried out on the server and the server sends the
  response without an error, but the client refuses to read it, and the bytes of its body stay in the connection,
  where the next \<open>Exec\<close> takes their beginning for the length of a frame.\<close>

lemma large_response_lost:
  assumes "sendable J sql" and "exec sql db = (Inr res, db')" and "marshalResponse J (result_response res) = Inr p"
    and "4194304 < length p" "length p < 2 ^ 32"
  shows "\<exists>out. handle J et exec (request_frame J sql) empty_file db = (Inr out, db') \<and>
    client_Exec J sql \<lparr>toPeer = empty_file, fromPeer = contents out\<rparr> =
      (Inl (FrameTooLarge (word_of_nat (length p))), \<lparr>toPeer = empty_file\<lparr>contents := request_frame J sql\<rparr>, fromPeer = p\<rparr>)"
proof -
  have ans: "answers et exec [sql] db = (Inr [result_response res], db')" using assms(2) by (simp add: bindG_def execSQL_def)
  have nf: "faults empty_file = []" "contents empty_file = []" by (simp_all add: empty_file_def)
  have h: "handle J et exec (request_frame J sql) empty_file db = (Inr (empty_file\<lparr>contents := frame p\<rparr>), db')"
    using handle_answers [where sqls = "[sql]", OF _ ans _ nf(1), of J] assms(1,3) nf(2) by (simp add: response_frame_def encodable_def)
  obtain q where q: "marshalRequest J sql = Inr q" "request_frame J sql = frame q"
    using assms(1) by (auto simp: sendable_def request_frame_def)
  have rd: "readFrame (unmarshalResponse J) (frame p) = (Inl (FrameTooLarge (word_of_nat (length p))), p)"
    using readFrame_large [OF assms(4,5), of "unmarshalResponse J" "[]"] by simp
  then have "client_Exec J sql \<lparr>toPeer = empty_file, fromPeer = frame p\<rparr> =
      (Inl (FrameTooLarge (word_of_nat (length p))), \<lparr>toPeer = empty_file\<lparr>contents := request_frame J sql\<rparr>, fromPeer = p\<rparr>)"
    using writeFrame_ok [OF nf(1), of q] q nf(2) by (simp add: client_Exec_def bindG_def on_out_def on_in_def)
  then show ?thesis using h by simp
qed

text \<open>A codec that pads every response to more than 4 MiB.\<close>

section \<open>Many connections\<close>

text \<open>Reachable states of a server whose clients send the statements \<open>reqs c\<close> on connection \<open>c\<close>.\<close>

inductive srv_reach ::
  "Json \<Rightarrow> (go_error \<Rightarrow> string) \<Rightarrow> (int \<Rightarrow> string \<Rightarrow> ('d, Result) go) \<Rightarrow> (int \<Rightarrow> string list) \<Rightarrow> 'd Srv \<Rightarrow> bool"
  for J et exec reqs where
  start: "srvSeen s = {} \<Longrightarrow> srvOpen s = {} \<Longrightarrow> srv_reach J et exec reqs s"
| step: "srv_reach J et exec reqs s \<Longrightarrow> srv_step J et exec s s' \<Longrightarrow>
    \<forall>c\<in>srvSeen s' - srvSeen s. srvIn s' c = concat (map (request_frame J) (reqs c)) \<and> srvOut s' c = empty_file \<Longrightarrow>
    srv_reach J et exec reqs s'"

definition served :: "Json \<Rightarrow> string list \<Rightarrow> byte list \<Rightarrow> go_file \<Rightarrow> Response list \<Rightarrow> bool" where
  "served J sqls bs out resps \<longleftrightarrow> length resps \<le> length sqls \<and> bs = concat (map (request_frame J) (drop (length resps) sqls)) \<and>
     out = empty_file\<lparr>contents := concat (map (response_frame J) resps)\<rparr>"

definition srv_inv :: "Json \<Rightarrow> (int \<Rightarrow> string list) \<Rightarrow> 'd Srv \<Rightarrow> bool" where
  "srv_inv J reqs s \<longleftrightarrow> srvOpen s \<subseteq> srvSeen s \<and>
     (\<forall>c\<in>srvSeen s. \<exists>resps. served J (reqs c) (srvIn s c) (srvOut s c) resps \<and> (c \<notin> srvOpen s \<longrightarrow> length resps = length (reqs c)))"

text \<open>What \<open>readFrame\<close> finds on a connection: the next statement, or the end.\<close>

lemma served_read:
  assumes "served J sqls bs out resps" and "\<forall>sql\<in>set sqls. sendable J sql"
  shows "(length resps = length sqls \<and> readFrame (unmarshalRequest J) bs = (Inl ReadEOF, [])) \<or>
    (\<exists>sql bs'. readFrame (unmarshalRequest J) bs = (Inr sql, bs') \<and> Suc (length resps) \<le> length sqls \<and>
       bs' = concat (map (request_frame J) (drop (Suc (length resps)) sqls)))"
proof (cases "length resps < length sqls")
  case True
  then have "drop (length resps) sqls = sqls ! length resps # drop (Suc (length resps)) sqls" by (simp add: Cons_nth_drop_Suc)
  then show ?thesis using True assms read_request [of J "sqls ! length resps"] by (auto simp: served_def)
next
  case False
  then show ?thesis using assms(1) by (auto simp: served_def readFrame_Nil)
qed

lemma served_answer:
  assumes "served J sqls bs out resps" and "Suc (length resps) \<le> length sqls" and "\<forall>r. encodable J r"
  shows "writeFrame (marshalResponse J r) out = (Inr (), out\<lparr>contents := contents out @ response_frame J r\<rparr>) \<and>
    served J sqls (concat (map (request_frame J) (drop (Suc (length resps)) sqls))) (out\<lparr>contents := contents out @ response_frame J r\<rparr>) (resps @ [r])"
  using assms write_response [of J r out] by (auto simp: served_def empty_file_def)

lemma srv_invD: "srv_inv J reqs s \<Longrightarrow> c \<in> srvOpen s \<Longrightarrow> \<exists>resps. served J (reqs c) (srvIn s c) (srvOut s c) resps"
  by (fastforce simp: srv_inv_def)

text \<open>A step changes at most one connection.\<close>

lemma srv_inv_update:
  assumes "srv_inv J reqs s" and "srvSeen s' = insert c (srvSeen s)" and "srvOpen s' = srvOpen s - {c} \<or> srvOpen s' = insert c (srvOpen s)"
    and "\<forall>d. d \<noteq> c \<longrightarrow> srvIn s' d = srvIn s d \<and> srvOut s' d = srvOut s d"
    and "served J (reqs c) (srvIn s' c) (srvOut s' c) resps" and "c \<notin> srvOpen s' \<longrightarrow> length resps = length (reqs c)"
  shows "srv_inv J reqs s'"
  unfolding srv_inv_def
proof (intro conjI ballI)
  show "srvOpen s' \<subseteq> srvSeen s'" using assms(1-3) by (auto simp: srv_inv_def)
  fix d assume d: "d \<in> srvSeen s'"
  show "\<exists>resps. served J (reqs d) (srvIn s' d) (srvOut s' d) resps \<and> (d \<notin> srvOpen s' \<longrightarrow> length resps = length (reqs d))"
  proof (cases "d = c")
    case True
    then show ?thesis using assms(5,6) by blast
  next
    case False
    then have "d \<in> srvSeen s" "d \<in> srvOpen s' \<longleftrightarrow> d \<in> srvOpen s" using d assms(2,3) by auto
    then show ?thesis using assms(1,4) False by (fastforce simp: srv_inv_def)
  qed
qed

lemma srv_step_inv:
  assumes "srv_step J et exec s s'" and inv: "srv_inv J reqs s"
    and new: "\<forall>c\<in>srvSeen s' - srvSeen s. srvIn s' c = concat (map (request_frame J) (reqs c)) \<and> srvOut s' c = empty_file"
    and snd: "\<forall>c. \<forall>sql\<in>set (reqs c). sendable J sql" and enc: "\<forall>r. encodable J r"
  shows "srv_inv J reqs s'"
  using assms(1)
proof cases
  case (accept c out bs)
  then have "c \<in> srvSeen s' - srvSeen s" by simp
  then have "srvIn s' c = concat (map (request_frame J) (reqs c))" "srvOut s' c = empty_file" using new by blast+
  then have "served J (reqs c) (srvIn s' c) (srvOut s' c) []" by (simp add: served_def empty_file_def)
  then show ?thesis using accept by (intro srv_inv_update [OF inv, where c = c]) auto
next
  case (answer c sql bs resp db u out)
  obtain resps where r: "served J (reqs c) (srvIn s c) (srvOut s c) resps" using srv_invD [OF inv answer(2)] by blast
  have more: "Suc (length resps) \<le> length (reqs c)" "bs = concat (map (request_frame J) (drop (Suc (length resps)) (reqs c)))"
    using served_read [OF r] snd answer(3) by auto
  have "served J (reqs c) (srvIn s' c) (srvOut s' c) (resps @ [resp])"
    using served_answer [OF r more(1) enc, of resp] answer(1,5) more(2) by simp
  then show ?thesis using answer(1,2) inv by (intro srv_inv_update [OF inv, where c = c]) (auto simp: srv_inv_def)
next
  case (unsent c sql bs resp db e out)
  obtain resps where r: "served J (reqs c) (srvIn s c) (srvOut s c) resps" using srv_invD [OF inv unsent(2)] by blast
  then have "Suc (length resps) \<le> length (reqs c)" using served_read [OF r] snd unsent(3) by auto
  then show ?thesis using served_answer [OF r _ enc, of resp] unsent(5) by simp
next
  case (eof c bs)
  obtain resps where r: "served J (reqs c) (srvIn s c) (srvOut s c) resps" using srv_invD [OF inv eof(2)] by blast
  then have "length resps = length (reqs c)" "bs = []" using served_read [OF r] snd eof(3) by auto
  then have "served J (reqs c) (srvIn s' c) (srvOut s' c) resps" "length resps = length (reqs c)"
    using r eof(1) by (auto simp: served_def)
  then show ?thesis using eof(1,2) inv by (intro srv_inv_update [OF inv, where c = c]) (auto simp: srv_inv_def)
next
  case (bad_request c e bs)
  obtain resps where r: "served J (reqs c) (srvIn s c) (srvOut s c) resps" using srv_invD [OF inv bad_request(2)] by blast
  then show ?thesis using served_read [OF r] snd bad_request(3,4) by auto
next
  case shutdown
  then show ?thesis using inv by (simp add: srv_inv_def srv_Close_def)
qed

lemma srv_reach_inv:
  assumes "srv_reach J et exec reqs s" and "\<forall>c. \<forall>sql\<in>set (reqs c). sendable J sql" and "\<forall>r. encodable J r"
  shows "srv_inv J reqs s"
  using assms(1)
proof induction
  case (start s)
  then show ?case by (simp add: srv_inv_def)
next
  case (step s s')
  then show ?case using srv_step_inv [OF step(2,4,3) assms(2,3)] by blast
qed

lemma srv_progress:
  assumes "served J (reqs c) (srvIn s c) (srvOut s c) resps" and "c \<in> srvOpen s" and "\<forall>sql\<in>set (reqs c). sendable J sql" and "\<forall>r. encodable J r"
    and "\<forall>sql. \<exists>r db. execSQL et (exec c) sql (srvDb s) = (Inr r, db)"
  shows "\<exists>s'. srv_step J et exec s s' \<and> length (srvIn s' c) \<le> length (srvIn s c) \<and> (c \<notin> srvOpen s' \<or> length (srvIn s' c) < length (srvIn s c))"
proof -
  consider "readFrame (unmarshalRequest J) (srvIn s c) = (Inl ReadEOF, [])"
    | sql bs' where "readFrame (unmarshalRequest J) (srvIn s c) = (Inr sql, bs')" "Suc (length resps) \<le> length (reqs c)"
    using served_read [OF assms(1,3)] by blast
  then show ?thesis
  proof cases
    case 1
    then show ?thesis using srv_step.eof [OF assms(2) 1, of et exec] by (intro exI) auto
  next
    case 2
    obtain r db where r: "execSQL et (exec c) sql (srvDb s) = (Inr r, db)" using assms(5) by blast
    from served_answer [OF assms(1) 2(2) assms(4), of r]
    have w: "writeFrame (marshalResponse J r) (srvOut s c) = (Inr (), (srvOut s c)\<lparr>contents := contents (srvOut s c) @ response_frame J r\<rparr>)" by blast
    show ?thesis using srv_step.answer [of c s J sql bs' et exec, OF assms(2) 2(1) r w] readFrame_length [OF 2(1)] by (intro exI) auto
  qed
qed



end
