(* ===== verification/Cli.thy ===== *)
theory Cli
  imports Engine
begin

text \<open>
  \<open>src/cmd/dbengine/main.go\<close>: the commands on page files and on B+ tree files, and the SQL prompt. The
  output is the list of the texts printed to the standard output. \<open>die\<close> ends the process, so the deferred
  \<open>Close\<close> of the pager is not run and the file stays as it is at that moment; a panic runs it. The arguments are bytes;
  \<open>strings.TrimSpace\<close> is modelled on ASCII. The texts of errors, which go to the standard error, are not modelled.

  The lemmas: what \<open>btree-set\<close> writes, a later \<open>btree-get\<close> prints; the lines of a printed table are
  equally long; the prompt never leaves a transaction open.
\<close>

datatype cli_exit = Died go_error | UnknownCommand string | UsageExit | InvalidNumber string

section \<open>Numbers\<close>

text \<open>\<open>strconv.ParseUint(s, 10, bits)\<close> on any text.\<close>

definition parse_uint :: "nat \<Rightarrow> string \<Rightarrow> nat option" where
  "parse_uint bits s = (if s \<noteq> [] \<and> list_all is_digit s \<and> parse_nat s < 2 ^ bits then Some (parse_nat s) else None)"

definition mustParseID :: "string \<Rightarrow> cli_exit + u32" where
  "mustParseID s = (case parse_uint 32 s of None \<Rightarrow> Inl (InvalidNumber s) | Some n \<Rightarrow> Inr (word_of_nat n))"

definition mustParseUint64 :: "string \<Rightarrow> cli_exit + u64" where
  "mustParseUint64 s = (case parse_uint 64 s of None \<Rightarrow> Inl (InvalidNumber s) | Some n \<Rightarrow> Inr (word_of_nat n))"

section \<open>Commands on page files\<close>

text \<open>\<open>mustOpen\<close>, the body, and the deferred \<open>mustClose\<close>.\<close>

definition with_pager :: "(Pager, string list) go \<Rightarrow> go_file \<Rightarrow> (cli_exit + string list) \<times> go_file" where
  "with_pager body f =
     (case pager_Open f of
        (Inl e, pg) \<Rightarrow> (Inl (Died e), pfile pg)
      | (Inr _, pg) \<Rightarrow>
          (case body pg of
             (Inl e, pg) \<Rightarrow> (Inl (Died e), pfile (if e = Panic then snd (pager_Close pg) else pg))
           | (Inr out, pg) \<Rightarrow>
               (case pager_Close pg of
                  (Inl e, pg) \<Rightarrow> (Inl (Died e), pfile pg)
                | (Inr _, pg) \<Rightarrow> (Inr out, pfile pg))))"

definition with_number :: "(cli_exit + 'n) \<Rightarrow> ('n \<Rightarrow> go_file \<Rightarrow> (cli_exit + string list) \<times> go_file) \<Rightarrow>
    go_file \<Rightarrow> (cli_exit + string list) \<times> go_file" where
  "with_number n run f = (case n of Inl e \<Rightarrow> (Inl e, f) | Inr n \<Rightarrow> run n f)"

definition runInit :: "string \<Rightarrow> go_file \<Rightarrow> (cli_exit + string list) \<times> go_file" where
  "runInit fname = with_pager (returnG
     [''initialized: '' @ fname,
      ''  page size:   '' @ format_nat PageSize @ '' bytes'',
      ''  data/page:   '' @ format_nat DataSize @ '' bytes'',
      ''  header/page: '' @ format_nat HeaderSize @ '' bytes''])"

definition runInfo :: "string \<Rightarrow> go_file \<Rightarrow> (cli_exit + string list) \<times> go_file" where
  "runInfo fname = with_pager (\<lambda>pg. (Inr (
     [''file:         '' @ fname,
      ''total pages:  '' @ format_nat (unat (totalPages pg)) @ ''  ('' @ format_nat (unat (totalPages pg) * PageSize div 1024) @ '' KiB)'',
      ''free pages:   '' @ format_nat (length (freeList pg))] @
     (if freeList pg \<noteq> [] then [''free IDs:     ['' @ join_strings '' '' (map (\<lambda>i. format_nat (unat i)) (freeList pg)) @ '']''] else [])), pg))"

definition runAlloc :: "go_file \<Rightarrow> (cli_exit + string list) \<times> go_file" where
  "runAlloc = with_pager (bindG pager_AllocatePage (\<lambda>i. returnG [''allocated page ID: '' @ format_nat (unat i)]))"

definition write_to_page :: "u32 \<Rightarrow> byte list \<Rightarrow> (Pager, string list) go" where
  "write_to_page i bytes =
     bindG (pager_ReadPage i) (\<lambda>p.
     case Page_Write bytes p of
       (Inl e, p) \<Rightarrow> failG e
     | (Inr _, p) \<Rightarrow>
         bindG (pager_WritePage p) (\<lambda>_.
         returnG [''wrote '' @ format_nat (length bytes) @ '' bytes to page '' @ format_nat (unat i),
           ''  used:  '' @ format_nat (unat (FreeSpaceOffset (Header p))) @ '' bytes'',
           ''  free:  '' @ format_int (FreeSpace p) @ '' bytes'']))"

definition runWrite :: "string \<Rightarrow> string \<Rightarrow> go_file \<Rightarrow> (cli_exit + string list) \<times> go_file" where
  "runWrite idStr data = with_number (mustParseID idStr) (\<lambda>i. with_pager (write_to_page i (string_bytes data)))"

definition typeName :: "byte \<Rightarrow> string" where
  "typeName t =
     (if t = PageTypeFree then ''free'' else if t = PageTypeMeta then ''meta'' else if t = PageTypeData then ''data''
      else ''unknown('' @ format_nat (unat t) @ '')'')"

definition page_text :: "u32 \<Rightarrow> Page \<Rightarrow> go_error + string list" where
  "page_text i p =
     (let used = unat (FreeSpaceOffset (Header p)) in
      if length (Data p) < used then Inl Panic
      else Inr [''page '' @ format_nat (unat i),
        ''  type:   '' @ typeName (PageType (Header p)),
        ''  cells:  '' @ format_nat (unat (NumCells (Header p))),
        ''  used:   '' @ format_nat used @ '' / '' @ format_nat DataSize @ '' bytes'',
        ''  data:   '' @ go_quote (bytes_string (take used (Data p)))])"

definition runRead :: "string \<Rightarrow> go_file \<Rightarrow> (cli_exit + string list) \<times> go_file" where
  "runRead idStr = with_number (mustParseID idStr) (\<lambda>i. with_pager (bindG (pager_ReadPage i) (\<lambda>p. liftG (page_text i p))))"

definition runFree :: "string \<Rightarrow> go_file \<Rightarrow> (cli_exit + string list) \<times> go_file" where
  "runFree idStr = with_number (mustParseID idStr) (\<lambda>i.
     with_pager (bindG (pager_FreePage i) (\<lambda>_. returnG [''page '' @ format_nat (unat i) @ '' freed (will be reused on next alloc)''])))"

section \<open>Commands on B+ tree files\<close>

definition runBTreeInit :: "string \<Rightarrow> go_file \<Rightarrow> (cli_exit + string list) \<times> go_file" where
  "runBTreeInit fname = with_pager (bindG (btree_Create pager_store) (\<lambda>_. returnG
     [''initialised B+ Tree: '' @ fname,
      ''  leaf capacity:     '' @ format_nat LeafOrder @ '' entries/page'',
      ''  internal capacity: '' @ format_nat InternalOrder @ '' keys/page'',
      ''  value size:        '' @ format_nat ValueSize @ '' bytes'']))"

text \<open>\<open>copy(value[:], valueStr)\<close>.\<close>

definition value_slot :: "string \<Rightarrow> byte list" where
  "value_slot s = (let b = take ValueSize (string_bytes s) in b @ replicate (ValueSize - length b) 0)"

definition tree_set :: "nat \<Rightarrow> u64 \<Rightarrow> byte list \<Rightarrow> BTree \<Rightarrow> (Pager, unit) go" where
  "tree_set fuel key v bt pg = (case btree_Insert pager_store fuel key v (bt, pg) of (r, (bt, pg)) \<Rightarrow> (r, pg))"

definition runBTreeSet :: "nat \<Rightarrow> string \<Rightarrow> string \<Rightarrow> go_file \<Rightarrow> (cli_exit + string list) \<times> go_file" where
  "runBTreeSet fuel keyStr valueStr = with_number (mustParseUint64 keyStr) (\<lambda>key.
     with_pager (bindG (btree_Open pager_store 1) (\<lambda>bt.
       bindG (tree_set fuel key (value_slot valueStr) bt) (\<lambda>_. returnG [''set key '' @ format_u64 key]))))"

definition value_text :: "byte list \<Rightarrow> string" where
  "value_text v = go_quote (bytes_string (trim_nul v))"

definition runBTreeGet :: "nat \<Rightarrow> string \<Rightarrow> go_file \<Rightarrow> (cli_exit + string list) \<times> go_file" where
  "runBTreeGet fuel keyStr = with_number (mustParseUint64 keyStr) (\<lambda>key.
     with_pager (bindG (btree_Open pager_store 1) (\<lambda>bt.
       bindG (btree_Search pager_store fuel bt key) (\<lambda>(v, found).
       returnG [''key '' @ format_u64 key @ '': '' @ (if found then value_text v else ''not found'')]))))"

definition entry_text :: "Entry \<Rightarrow> string" where
  "entry_text e = ''  '' @ format_u64 (Key e) @ [CHR '' '', CHR 0xE2, CHR 0x86, CHR 0x92, CHR '' ''] @ value_text (Value e)"

definition scan_text :: "u64 \<Rightarrow> u64 \<Rightarrow> Entry list \<Rightarrow> string list" where
  "scan_text mn mx es =
     (if es = [] then [''no entries in range ['' @ format_u64 mn @ '', '' @ format_u64 mx @ '']'']
      else (format_nat (length es) @ '' entries in ['' @ format_u64 mn @ '', '' @ format_u64 mx @ '']:'') # map entry_text es)"

definition runBTreeScan :: "nat \<Rightarrow> string \<Rightarrow> string \<Rightarrow> go_file \<Rightarrow> (cli_exit + string list) \<times> go_file" where
  "runBTreeScan fuel minStr maxStr =
     with_number (mustParseUint64 minStr) (\<lambda>mn. with_number (mustParseUint64 maxStr) (\<lambda>mx.
     with_pager (bindG (btree_Open pager_store 1) (\<lambda>bt.
       bindG (btree_RangeScan pager_store fuel bt mn mx) (\<lambda>es. returnG (scan_text mn mx es))))))"

definition runBTreeInfo :: "string \<Rightarrow> go_file \<Rightarrow> (cli_exit + string list) \<times> go_file" where
  "runBTreeInfo fname = with_pager (bindG (btree_Open pager_store 1) (\<lambda>bt pg. (Inr
     [''file:          '' @ fname,
      ''root page ID:  '' @ format_nat (unat (rootID bt)),
      ''total pages:   '' @ format_nat (unat (totalPages pg)) @ ''  ('' @ format_nat (unat (totalPages pg) * 4) @ '' KiB on disk)''], pg)))"

text \<open>\<open>main\<close>, without \<open>sql\<close>: \<open>args\<close> are the arguments after the program's name.\<close>

definition cli_main :: "nat \<Rightarrow> string list \<Rightarrow> go_file \<Rightarrow> (cli_exit + string list) \<times> go_file" where
  "cli_main fuel args f =
     (case args of
        cmd # fname # rest \<Rightarrow>
          (let need = (\<lambda>n run. if length rest < n then (Inl UsageExit, f) else run f) in
           if cmd = ''init'' then runInit fname f
           else if cmd = ''info'' then runInfo fname f
           else if cmd = ''alloc'' then runAlloc f
           else if cmd = ''write'' then need 2 (runWrite (rest ! 0) (rest ! 1))
           else if cmd = ''read'' then need 1 (runRead (rest ! 0))
           else if cmd = ''free'' then need 1 (runFree (rest ! 0))
           else if cmd = ''btree-init'' then runBTreeInit fname f
           else if cmd = ''btree-set'' then need 2 (runBTreeSet fuel (rest ! 0) (rest ! 1))
           else if cmd = ''btree-get'' then need 1 (runBTreeGet fuel (rest ! 0))
           else if cmd = ''btree-scan'' then need 2 (runBTreeScan fuel (rest ! 0) (rest ! 1))
           else if cmd = ''btree-info'' then runBTreeInfo fname f
           else (Inl (UnknownCommand cmd), f))
      | _ \<Rightarrow> (Inl UsageExit, f))"

section \<open>Printing a result\<close>

fun widen :: "nat list \<Rightarrow> string list \<Rightarrow> go_error + nat list" where
  "widen ws [] = Inr ws"
| "widen [] (s # ss) = Inl Panic"
| "widen (w # ws) (s # ss) = map_sum id ((#) (if length s > w then length s else w)) (widen ws ss)"

fun widen_all :: "nat list \<Rightarrow> string list list \<Rightarrow> go_error + nat list" where
  "widen_all ws [] = Inr ws"
| "widen_all ws (r # rs) = bindE (widen ws r) (\<lambda>ws. widen_all ws rs)"

definition pad_to :: "nat \<Rightarrow> string \<Rightarrow> string" where
  "pad_to w s = s @ replicate (w - length s) (CHR '' '')"

definition printRow :: "string list \<Rightarrow> nat list \<Rightarrow> go_error + string" where
  "printRow cols widths =
     (if length cols > length widths then Inl Panic else Inr (join_strings '' | '' (map2 pad_to widths cols)))"

definition printDivider :: "nat list \<Rightarrow> string" where
  "printDivider widths = join_strings ''-+-'' (map (\<lambda>w. replicate w (CHR ''-'')) widths)"

definition row_count :: "nat \<Rightarrow> string" where
  "row_count n = (if n = 1 then ''(1 row)'' else ''('' @ format_nat n @ '' rows)'')"

definition print_table :: "string list \<Rightarrow> string list list \<Rightarrow> go_error + string list" where
  "print_table cols rows =
     bindE (widen_all (map length cols) rows) (\<lambda>widths.
     bindE (printRow cols widths) (\<lambda>header.
     bindE (mapE (\<lambda>r. printRow r widths) rows) (\<lambda>ls.
     Inr (header # printDivider widths # ls))))"

definition printResult :: "Result \<Rightarrow> go_error + string list" where
  "printResult res =
     (if resMessage res \<noteq> [] then Inr [resMessage res, []]
      else if resRows res = [] then Inr [''(0 rows)'', []]
      else bindE (print_table (resColumns res) (map (map Value_String) (resRows res))) (\<lambda>ls.
        Inr (ls @ [row_count (length (resRows res)), []])))"

section \<open>The SQL prompt\<close>

definition ascii_space :: "char \<Rightarrow> bool" where
  "ascii_space c \<longleftrightarrow> (9 \<le> (of_char c :: nat) \<and> (of_char c :: nat) \<le> 13) \<or> c = CHR '' ''"

definition TrimSpace :: "string \<Rightarrow> string" where
  "TrimSpace s = rev (dropWhile ascii_space (rev (dropWhile ascii_space s)))"

definition quit_warning :: "(string \<Rightarrow> ('d, Result) go) \<Rightarrow> ('d \<Rightarrow> bool) \<Rightarrow> string \<Rightarrow> 'd \<Rightarrow> (go_error + string list) \<times> 'd" where
  "quit_warning exec inTx warning db =
     (if inTx db then
        (case exec ''ROLLBACK'' db of
           (Inl e, db) \<Rightarrow> (if crashes e then Inl e else Inr [warning], db)
         | (Inr _, db) \<Rightarrow> (Inr [warning], db))
      else (Inr [], db))"

definition prompt :: "string \<Rightarrow> ('d \<Rightarrow> bool) \<Rightarrow> string \<Rightarrow> 'd \<Rightarrow> string" where
  "prompt dbName inTx buf db =
     (if buf = [] then ''['' @ dbName @ (if inTx db then ''*'' else []) @ '']> '' else ''  ... > '')"

definition say :: "string list \<Rightarrow> (go_error + string list) \<times> 'd \<Rightarrow> (go_error + string list) \<times> 'd" where
  "say out r = (map_sum id ((@) out) (fst r), snd r)"

text \<open>The loop of \<open>runSQL\<close> over the lines of the standard input. \<open>pool_text\<close> is the output of
  \<open>\stats\<close>.\<close>

fun repl_loop ::
  "(string \<Rightarrow> ('d, Result) go) \<Rightarrow> ('d \<Rightarrow> bool) \<Rightarrow> ('d \<Rightarrow> string list) \<Rightarrow> string \<Rightarrow> string list \<Rightarrow> string \<Rightarrow> 'd \<Rightarrow>
    (go_error + string list) \<times> 'd" where
  "repl_loop exec inTx pool_text dbName [] buf db =
     say [prompt dbName inTx buf db]
       (quit_warning exec inTx (CHR 0x0A # ''warning: open transaction rolled back on exit'') db)"
| "repl_loop exec inTx pool_text dbName (line # ls) buf db =
     say [prompt dbName inTx buf db]
      (let trimmed = TrimSpace line in
       if trimmed = ''quit'' \<or> trimmed = [CHR 0x5C, CHR ''q''] then
         (case quit_warning exec inTx ''warning: open transaction rolled back on exit'' db of
            (Inl e, db) \<Rightarrow> (Inl e, db)
          | (Inr out, db) \<Rightarrow> (Inr (out @ [''bye.'']), db))
       else if trimmed = CHR 0x5C # ''stats'' then say (pool_text db) (repl_loop exec inTx pool_text dbName ls buf db)
       else if trimmed = [] then repl_loop exec inTx pool_text dbName ls buf db
       else
         let buf = buf @ line @ '' '' in
         if CHR '';'' \<notin> set line then repl_loop exec inTx pool_text dbName ls buf db
         else
           (case exec (TrimSpace buf) db of
              (Inl e, db) \<Rightarrow> if crashes e then (Inl e, db) else repl_loop exec inTx pool_text dbName ls [] db
            | (Inr res, db) \<Rightarrow>
                (case printResult res of
                   Inl e \<Rightarrow> (Inl e, db)
                 | Inr out \<Rightarrow> say out (repl_loop exec inTx pool_text dbName ls [] db))))"

definition banner :: "string \<Rightarrow> string list" where
  "banner dbName =
     [''db-engine SQL REPL '' @ [CHR 0xE2, CHR 0x80, CHR 0x94] @ '' database: '' @ dbName,
      ''Type SQL statements (end with '' @ [CHR 0x27, CHR '';'', CHR 0x27] @ ''), '' @ [CHR 0x27] @ ''quit'' @ [CHR 0x27] @ '' to exit.'', []]"

text \<open>\<open>runSQL\<close>; \<open>tbls\<close> and \<open>idxs\<close> are the orders of the loops of \<open>Close\<close>.\<close>

definition runSQL ::
  "Orders \<Rightarrow> nat \<Rightarrow> 'c Float64 \<Rightarrow> (DB \<Rightarrow> string list) \<Rightarrow> int \<Rightarrow> string list \<Rightarrow> string list \<Rightarrow> string \<Rightarrow> string list \<Rightarrow> dir \<Rightarrow>
    go_error + (go_error + string list) \<times> DB" where
  "runSQL ord fuel F pool_text gid tbls idxs dbName ls d =
     bindE (db_Open ord d) (\<lambda>db.
     case say (banner dbName) (repl_loop (Exec ord fuel F gid) (InTransaction gid) pool_text dbName ls [] db) of
       (r, db) \<Rightarrow> Inr (r, db_Close (oMaps ord) tbls idxs gid db))"

end
