(* ===== verification/CliOk.thy ===== *)
theory CliOk
  imports Cli ExampleDb
begin

text \<open>
  The properties of the command line: what \<open>btree-set\<close> stores is what later commands read from the file, the
  lines of a printed table are equally long, and the SQL prompt leaves no transaction open.
\<close>

section \<open>Tree files\<close>

lemma pager_Close_same:
  assumes "pager_inv pg"
  shows "\<exists>q. pager_Close pg = (Inr (), q) \<and> pager_inv q \<and> pager_live q = pager_live pg \<and>
    (\<forall>i\<in>pager_live pg. pager_view q i = pager_view pg i) \<and> pager_room q = pager_room pg"
proof -
  have but: "pager_inv_but {} pg" using assms by (simp add: pager_inv_but_empty)
  obtain q where q: "pager_Close pg = (Inr (), q)" "totalPages q = totalPages pg" "freeList q = freeList pg"
    "\<forall>i. 0 < i \<longrightarrow> i < totalPages pg \<longrightarrow> pager_page q i = pager_page pg i"
    using pager_Close_but [OF but] by auto
  then show ?thesis
    using pager_Close_inv [OF assms q(1)] by (auto simp: pager_live_def pager_view_def pager_room_def)
qed

text \<open>A file that holds a tree with the given entries, with room for \<open>r\<close> more pages.\<close>

definition tree_file :: "go_file \<Rightarrow> nat \<Rightarrow> Entry list \<Rightarrow> nat \<Rightarrow> bool" where
  "tree_file f n es r \<longleftrightarrow> (\<exists>pg bt. pfile pg = f \<and> pager_inv pg \<and> btree_rel (pager_live pg) (pager_view pg) n es bt \<and>
     headerPage bt = 1 \<and> r \<le> pager_room pg)"

lemma with_pager_tree:
  assumes "body pg = (Inr out, pg')" and "pager_inv pg" "pager_inv pg'" and "btree_rel (pager_live pg') (pager_view pg') n es bt"
    and "headerPage bt = 1"
  shows "\<exists>f'. with_pager body (pfile pg) = (Inr out, f') \<and> tree_file f' n es (pager_room pg')"
proof -
  obtain q where q: "pager_Close pg' = (Inr (), q)" "pager_inv q" "pager_live q = pager_live pg'"
    "\<forall>i\<in>pager_live pg'. pager_view q i = pager_view pg' i" "pager_room q = pager_room pg'"
    using pager_Close_same [OF assms(3)] by blast
  obtain u where "btree_tree (pager_live pg') (pager_view pg') n u bt" "entries u = es" using assms(4) by (auto simp: btree_rel_def)
  then have "btree_rel (pager_live q) (pager_view q) n es bt"
    using btree_tree_cong [of "pager_live pg'" "pager_view pg'" n u bt "pager_view q"] q(3,4) by (auto simp: btree_rel_def)
  then have "tree_file (pfile q) n es (pager_room pg')" using q(2,5) assms(5) unfolding tree_file_def by (intro exI [of _ q] exI [of _ bt]) simp
  moreover have "with_pager body (pfile pg) = (Inr out, pfile q)"
    using assms(1) q(1) pager_Open_inv [OF assms(2)] by (simp add: with_pager_def)
  ultimately show ?thesis by blast
qed

lemma runBTreeSet_ok:
  assumes t: "tree_file f n es (n + 2)" and "n < fuel" and k: "mustParseUint64 keyStr = Inr k"
  shows "\<exists>f' n'. runBTreeSet fuel keyStr val f = (Inr [''set key '' @ format_u64 k], f') \<and> n' \<le> Suc n \<and>
    tree_file f' n' (ins_entry k (value_slot val) es) 0"
proof -
  obtain pg bt where p: "pfile pg = f" "pager_inv pg" "btree_rel (pager_live pg) (pager_view pg) n es bt" "headerPage bt = 1" "n + 2 \<le> pager_room pg"
    using t by (auto simp: tree_file_def)
  obtain s1 where s1: "btree_Open pager_store 1 pg = (Inr bt, s1)" "pager.same_store pg s1"
    using pager.btree_Open_spec [OF p(2,3)] p(4) by auto
  obtain u where "btree_tree (pager_live pg) (pager_view pg) n u bt" "entries u = es" using p(3) by (auto simp: btree_rel_def)
  then have r1: "pager_inv s1" "btree_rel (pager_live s1) (pager_view s1) n es bt" "n + 2 \<le> pager_room s1"
    using s1(2) btree_tree_cong [of "pager_live pg" "pager_view pg" n u bt "pager_view s1"] p(5)
    by (auto simp: pager.same_store_def btree_rel_def)
  have len: "length (value_slot val) = ValueSize" by (simp add: value_slot_def Let_def)
  obtain bt' s2 n' where s2: "btree_Insert pager_store fuel k (value_slot val) (bt, s1) = (Inr (), (bt', s2))" "pager_inv s2"
    "btree_rel (pager_live s2) (pager_view s2) n' (ins_entry k (value_slot val) es) bt'" "headerPage bt' = 1" "n' \<le> Suc n"
    using pager.btree_Insert_spec [OF r1(1,2) len assms(2) r1(3), of k] p(4) by auto
  let ?body = "bindG (btree_Open pager_store 1) (\<lambda>bt. bindG (tree_set fuel k (value_slot val) bt) (\<lambda>_. returnG [''set key '' @ format_u64 k]))"
  have "?body pg = (Inr [''set key '' @ format_u64 k], s2)"
    using s1(1) s2(1) by (simp add: bindG_def tree_set_def)
  from with_pager_tree [of ?body, OF this p(2) s2(2,3,4)]
  obtain f' where "with_pager ?body f = (Inr [''set key '' @ format_u64 k], f')" "tree_file f' n' (ins_entry k (value_slot val) es) 0"
    using p(1) by (auto simp: tree_file_def)
  then show ?thesis using k s2(5) by (auto simp: runBTreeSet_def with_number_def)
qed

lemma runBTreeGet_ok:
  assumes t: "tree_file f n es r" and "n < fuel" and k: "mustParseUint64 keyStr = Inr k"
  shows "\<exists>f'. runBTreeGet fuel keyStr f =
      (Inr [''key '' @ format_u64 k @ '': '' @ (case entry_lookup es k of None \<Rightarrow> ''not found'' | Some v \<Rightarrow> value_text v)], f') \<and> tree_file f' n es 0"
proof -
  obtain pg bt where p: "pfile pg = f" "pager_inv pg" "btree_rel (pager_live pg) (pager_view pg) n es bt" "headerPage bt = 1"
    using t by (auto simp: tree_file_def)
  obtain s1 where s1: "btree_Open pager_store 1 pg = (Inr bt, s1)" "pager.same_store pg s1"
    using pager.btree_Open_spec [OF p(2,3)] p(4) by auto
  obtain u where u: "btree_tree (pager_live pg) (pager_view pg) n u bt" "entries u = es" using p(3) by (auto simp: btree_rel_def)
  have same: "pager_inv s \<and> btree_rel (pager_live s) (pager_view s) n es bt" if "pager.same_store pg s" for s
    using that u btree_tree_cong [OF u(1), of "pager_view s"] by (auto simp: pager.same_store_def btree_rel_def)
  let ?ans = "case entry_lookup es k of None \<Rightarrow> (replicate ValueSize 0, False) | Some v \<Rightarrow> (v, True)"
  obtain s2 where s2: "btree_Search pager_store fuel bt k s1 = (Inr ?ans, s2)" "pager.same_store s1 s2"
    using pager.btree_Search_spec [of s1 n es bt fuel k] same [OF s1(2)] assms(2) by blast
  have r2: "pager_inv s2" "btree_rel (pager_live s2) (pager_view s2) n es bt"
    using same pager.same_store_trans [OF s1(2) s2(2)] by blast+
  let ?out = "[''key '' @ format_u64 k @ '': '' @ (case entry_lookup es k of None \<Rightarrow> ''not found'' | Some v \<Rightarrow> value_text v)]"
  let ?body = "bindG (btree_Open pager_store 1) (\<lambda>bt. bindG (btree_Search pager_store fuel bt k) (\<lambda>(v, found).
       returnG [''key '' @ format_u64 k @ '': '' @ (if found then value_text v else ''not found'')]))"
  have "?body pg = (Inr ?out, s2)" using s1(1) s2(1) by (simp add: bindG_def split: option.split)
  from with_pager_tree [of ?body, OF this p(2) r2 p(4)]
  obtain f' where "with_pager ?body f = (Inr ?out, f')" "tree_file f' n es 0" using p(1) by (auto simp: tree_file_def)
  then show ?thesis using k by (auto simp: runBTreeGet_def with_number_def)
qed

lemma value_text_slot: "length s \<le> ValueSize \<Longrightarrow> s = [] \<or> last s \<noteq> CHR 0x00 \<Longrightarrow> value_text (value_slot s) = go_quote s"
proof -
  assume l: "length s \<le> ValueSize" and "s = [] \<or> last s \<noteq> CHR 0x00"
  then have "trim_nul (string_bytes s) = string_bytes s"
    using last_string_bytes [of s] byte_of_char_0 [of "last s"] by (intro trim_nul_id) (auto simp: string_bytes_def)
  then show ?thesis using l by (simp add: value_text_def value_slot_def Let_def)
qed

text \<open>C37: The tree commands work on the file as on a map, each in a process of its own: on a file that holds a tree,
  \<open>btree-set\<close> ends with its message, and any later \<open>btree-get\<close> of the file prints the stored text for
  that key (cut to 256 bytes, without trailing NUL bytes) and for any other key what the tree held before.\<close>

theorem cli_set_get:
  assumes "tree_file f n es (n + 2)" and "Suc n < fuel" and "mustParseUint64 keyStr = Inr k"
  shows "\<exists>f'. cli_main fuel [''btree-set'', fname, keyStr, val] f = (Inr [''set key '' @ format_u64 k], f') \<and>
    (\<forall>key' k'. mustParseUint64 key' = Inr k' \<longrightarrow>
      fst (cli_main fuel [''btree-get'', fname, key'] f') = Inr [''key '' @ format_u64 k' @ '': '' @
        (case (if k' = k then Some (value_slot val) else entry_lookup es k') of None \<Rightarrow> ''not found'' | Some v \<Rightarrow> value_text v)])"
proof -
  have "n < fuel" using assms(2) by simp
  from runBTreeSet_ok [OF assms(1) this assms(3), of val]
  obtain f' n' where f': "runBTreeSet fuel keyStr val f = (Inr [''set key '' @ format_u64 k], f')" "n' \<le> Suc n"
    "tree_file f' n' (ins_entry k (value_slot val) es) 0" by blast
  have asc: "ascending es" using assms(1) by (auto simp: tree_file_def btree_rel_defs dest!: btwf_spans simp: spans_def)
  have "fst (runBTreeGet fuel key' f') = Inr [''key '' @ format_u64 k' @ '': '' @
        (case (if k' = k then Some (value_slot val) else entry_lookup es k') of None \<Rightarrow> ''not found'' | Some v \<Rightarrow> value_text v)]"
    if k': "mustParseUint64 key' = Inr k'" for key' k'
    using runBTreeGet_ok [OF f'(3) _ k', of fuel] f'(2) assms(2) entry_lookup_ins [OF asc] by force
  then show ?thesis using f'(1) by (simp add: cli_main_def)
qed

theorem cli_set_get_witness:
  "\<exists>f f'. cli_main 5 [''btree-set'', ''x.db'', ''7'', ''abc''] f = (Inr [''set key 7''], f') \<and>
     fst (cli_main 5 [''btree-get'', ''x.db'', ''7''] f') = Inr [''key 7: '' @ go_quote ''abc''] \<and>
     fst (cli_main 5 [''btree-get'', ''x.db'', ''8''] f') = Inr [''key 8: not found'']"
proof -
  obtain bt where "pager_inv ex_pager" "btree_rel (pager_live ex_pager) (pager_view ex_pager) 0 [] bt" "headerPage bt = 1" "2 ^ 32 - 4 \<le> pager_room ex_pager"
    using ex_pager_tree by blast
  then have t: "tree_file (pfile ex_pager) 0 [] (0 + 2)" unfolding tree_file_def by (intro exI [of _ ex_pager] exI [of _ bt]) simp
  have digits: "digit_char 7 = CHR ''7''" "digit_char 8 = CHR ''8''" by code_simp+
  have k: "mustParseUint64 ''7'' = Inr 7" "mustParseUint64 ''8'' = Inr 8" "format_u64 7 = ''7''" "format_u64 8 = ''8''"
    by (simp_all add: mustParseUint64_def parse_uint_def parse_nat_def digit_value_def is_digit_def format_u64_def format_nat.simps digits)
  have v: "value_text (value_slot ''abc'') = go_quote ''abc''" by (rule value_text_slot) (simp_all add: ValueSize_def)
  obtain f' where f': "cli_main 5 [''btree-set'', ''x.db'', ''7'', ''abc''] (pfile ex_pager) = (Inr [''set key '' @ format_u64 7], f')"
    and get: "\<And>key' k'. mustParseUint64 key' = Inr k' \<Longrightarrow> fst (cli_main 5 [''btree-get'', ''x.db'', key'] f') =
      Inr [''key '' @ format_u64 k' @ '': '' @
        (case (if k' = 7 then Some (value_slot ''abc'') else entry_lookup [] k') of None \<Rightarrow> ''not found'' | Some v \<Rightarrow> value_text v)]"
    using cli_set_get [OF t _ k(1), of 5 "''x.db''" "''abc''"] by auto
  have "cli_main 5 [''btree-set'', ''x.db'', ''7'', ''abc''] (pfile ex_pager) = (Inr [''set key 7''], f')" using f' k(3) by simp
  moreover have "fst (cli_main 5 [''btree-get'', ''x.db'', ''7''] f') = Inr [''key 7: '' @ go_quote ''abc'']"
    using get [OF k(1)] k(3) v by simp
  moreover have "fst (cli_main 5 [''btree-get'', ''x.db'', ''8''] f') = Inr [''key 8: not found'']"
    using get [OF k(2)] k(4) by (simp add: entry_lookup_def)
  ultimately show ?thesis by blast
qed

section \<open>Printed tables\<close>

lemma widen_ok: "length ss = length ws \<Longrightarrow> \<exists>ws'. widen ws ss = Inr ws' \<and> list_all2 (\<le>) ws ws' \<and> list_all2 (\<lambda>s w. length s \<le> w) ss ws'"
proof (induction ws ss rule: widen.induct)
  case (3 w ws s ss)
  then show ?case by (auto simp: list_all2_Cons1)
qed auto

lemma list_all2_trans_le: "list_all2 (\<lambda>s w. length s \<le> w) ss ws \<Longrightarrow> list_all2 (\<le>) ws ws' \<Longrightarrow> list_all2 (\<lambda>s w. length s \<le> w) ss ws'"
  by (rule list_all2_trans) (auto intro: order_trans)

lemma widen_all_ok:
  "\<forall>r\<in>set rs. length r = length ws \<Longrightarrow>
   \<exists>ws'. widen_all ws rs = Inr ws' \<and> list_all2 (\<le>) ws ws' \<and> (\<forall>r\<in>set rs. list_all2 (\<lambda>s w. length s \<le> w) r ws')"
proof (induction rs arbitrary: ws)
  case Nil
  then show ?case by (simp add: list_all2_same)
next
  case (Cons r rs)
  obtain ws1 where w1: "widen ws r = Inr ws1" "list_all2 (\<le>) ws ws1" "list_all2 (\<lambda>s w. length s \<le> w) r ws1"
    using widen_ok [of r ws] Cons.prems by auto
  have "length ws1 = length ws" using w1(2) list_all2_lengthD by fastforce
  then obtain ws2 where w2: "widen_all ws1 rs = Inr ws2" "list_all2 (\<le>) ws1 ws2" "\<forall>r\<in>set rs. list_all2 (\<lambda>s w. length s \<le> w) r ws2"
    using Cons.IH [of ws1] Cons.prems by auto
  moreover have "list_all2 (\<le>) ws ws2" using list_all2_trans [OF _ w1(2) w2(2)] by (metis order_trans)
  ultimately show ?case using w1 list_all2_trans_le [OF w1(3) w2(2)] by auto
qed

lemma length_join_strings: "length (join_strings sep ss) = sum_list (map length ss) + length sep * (length ss - 1)"
  by (induction sep ss rule: join_strings.induct) auto

lemma printRow_length:
  assumes "list_all2 (\<lambda>s w. length s \<le> w) ss ws"
  shows "\<exists>l. printRow ss ws = Inr l \<and> length l = sum_list ws + 3 * (length ws - 1)"
proof -
  have len: "length ss = length ws" using assms by (rule list_all2_lengthD)
  have "map length (map2 pad_to ws ss) = ws"
    using assms by (intro nth_equalityI) (auto simp: pad_to_def list_all2_conv_all_nth)
  then show ?thesis using len by (simp add: printRow_def length_join_strings del: map_map)
qed

text \<open>A result with at least one row, whose rows have as many cells as there are columns, is printed without a
  panic as a table of equally long lines: the header, the divider and one line per row, every column wide enough for
  all of its cells.\<close>

lemma print_table_aligned:
  assumes "\<forall>r\<in>set rows. length r = length cols"
  shows "\<exists>ls n. print_table cols rows = Inr ls \<and> length ls = length rows + 2 \<and> (\<forall>l\<in>set ls. length l = n)"
proof -
  obtain ws where ws: "widen_all (map length cols) rows = Inr ws" "list_all2 (\<le>) (map length cols) ws"
    "\<forall>r\<in>set rows. list_all2 (\<lambda>s w. length s \<le> w) r ws"
    using widen_all_ok [of rows "map length cols"] assms by auto
  let ?n = "sum_list ws + 3 * (length ws - 1)"
  have "list_all2 (\<lambda>s w. length s \<le> w) cols ws" using ws(2) by (simp add: list_all2_map1)
  then obtain h where h: "printRow cols ws = Inr h" "length h = ?n" using printRow_length by blast
  have "\<exists>ls. mapE (\<lambda>r. printRow r ws) rows = Inr ls \<and> length ls = length rows \<and> (\<forall>l\<in>set ls. length l = ?n)"
    using ws(3)
  proof (induction rows)
    case (Cons r rows)
    then show ?case using printRow_length [of r ws] by auto
  qed simp
  then obtain ls where ls: "mapE (\<lambda>r. printRow r ws) rows = Inr ls" "length ls = length rows" "\<forall>l\<in>set ls. length l = ?n" by blast
  have "length (printDivider ws) = ?n" by (simp add: printDivider_def length_join_strings comp_def)
  then show ?thesis using ws(1) h ls by (auto simp: print_table_def)
qed

section \<open>The prompt\<close>

lemma undo_pager_txns [simp]: "dbTxns (wDB (undo_pager key w)) = dbTxns (wDB w)"
  by (auto simp: undo_pager_def tx_run_def split: option.split prod.split)

lemma rollbackTx_txns: "dbTxns (wDB (snd (rollbackTx ord xid w))) = dbTxns (wDB w)"
proof -
  have "dbTxns (wDB (foldl (\<lambda>w key. undo_pager key w) w ks)) = dbTxns (wDB w)" for ks w
    by (induction ks arbitrary: w) simp_all
  then show ?thesis by (simp add: rollbackTx_def rollback_pagers_def on_db_def on_wal_def split: prod.split)
qed

lemma Parse_ROLLBACK: "Parse ''ROLLBACK'' = Inr RollbackStmt"
  by code_simp

lemma Exec_ROLLBACK_closes:
  assumes "Exec ord fuel F gid ''ROLLBACK'' db = (r, db')" and "InTransaction gid db"
  shows "\<not> InTransaction gid db'"
proof -
  obtain tx where tx: "goroutineTx gid db = Some tx" using assms(2) by (auto simp: InTransaction_def)
  have "db' = snd (execRollback (oMaps ord) gid db)"
    using assms(1) by (auto simp: Exec_def bindG_def liftG_def Parse_ROLLBACK Exec_stmt_def replies_def returnG_def split: prod.splits sum.splits)
  then show ?thesis
    using tx rollbackTx_txns [of "oMaps ord" "txXid tx" "\<lparr>wDB = clearGoroutineTx gid db, wPagers = txPagers tx\<rparr>"]
    by (auto simp: execRollback_def InTransaction_def goroutineTx_def clearGoroutineTx_def split: prod.splits)
qed

lemma say_Inr: "say out r = (Inr o', d) \<longleftrightarrow> (\<exists>rest. r = (Inr rest, d) \<and> o' = out @ rest)"
  by (cases r; cases "fst r") (auto simp: say_def)

lemma quit_warning_ends:
  assumes "quit_warning (Exec ord fuel F gid) (InTransaction gid) msg db = (r, db')"
  shows "\<not> InTransaction gid db'"
  using assms Exec_ROLLBACK_closes [of ord fuel F gid db]
  by (auto simp: quit_warning_def split: if_splits prod.splits sum.splits)

lemma repl_loop_ends:
  assumes quit: "\<And>msg db r db'. quit_warning exec inTx msg db = (r, db') \<Longrightarrow> \<not> inTx db'"
  shows "repl_loop exec inTx pool_text dbName ls buf db = (Inr out, db') \<Longrightarrow> \<not> inTx db'"
proof (induction ls arbitrary: buf db out)
  case Nil
  then show ?case using quit by (auto simp: say_Inr)
next
  case (Cons line ls)
  from Cons.prems show ?case
    using Cons.IH quit
    by (auto simp: say_Inr Let_def split: if_splits prod.splits sum.splits)
qed



end
