(* ===== verification/Dashboard.thy ===== *)
theory Dashboard
  imports Cli
begin

text \<open>
  \<open>src/cmd/dashboard/main.go\<close>: the handlers of the web interface. A request to \<open>/api/query\<close> carries a text
  with several statements; it is split at the semicolons outside of string literals and the statements are run until
  one fails. HTTP and JSON are the runtime's: a handler gives the value that is encoded. The durations in the answers
  are the argument \<open>dur\<close>, the texts of errors the argument \<open>et\<close>.

  The lemma: statements joined by semicolons are split into the same statements.
\<close>

record colInfo =
  ciName :: string
  ciType :: string

record idxInfo =
  iiName :: string
  iiColumn :: string

record tableInfo =
  tiName :: string
  tiColumns :: "colInfo list"
  tiIndexes :: "idxInfo list"
  tiStats :: "TableStats option"

datatype cell = IntCell u64 | TextCell string

record queryResp =
  qrColumns :: "string list"
  qrRows :: "cell list list"
  qrMessage :: string
  qrDuration :: string
  qrRowCount :: nat
  qrError :: string

section \<open>The tables\<close>

definition ColType_String :: "byte \<Rightarrow> string" where
  "ColType_String t = (if t = TypeInt then ''INT'' else ''TEXT'')"

text \<open>\<open>DB.Tables\<close>; the names in lower case are different, so the order is determined.\<close>

definition db_Tables :: "string list \<Rightarrow> DB \<Rightarrow> Table list" where
  "db_Tables ord db = sort_key (\<lambda>t. ToLower (tblName t)) (Tables ord (dbCatalog db))"

definition table_info :: "DB \<Rightarrow> Table \<Rightarrow> tableInfo" where
  "table_info db t =
     \<lparr>tiName = tblName t,
      tiColumns = map (\<lambda>c. \<lparr>ciName = colName c, ciType = ColType_String (colType c)\<rparr>) (tblColumns t),
      tiIndexes = map (\<lambda>i. \<lparr>iiName = idxName i, iiColumn = idxColumn i\<rparr>) (tblIndexes t),
      tiStats = stats_Get (dbStats db) (tblName t)\<rparr>"

definition handleTables :: "string list \<Rightarrow> DB \<Rightarrow> tableInfo list" where
  "handleTables ord db = map (table_info db) (db_Tables ord db)"

section \<open>Queries\<close>

definition trimmed_stmt :: "string \<Rightarrow> string list" where
  "trimmed_stmt buf = (let s = TrimSpace buf in if s \<noteq> [] then [s] else [])"

fun split_loop :: "string \<Rightarrow> string \<Rightarrow> bool \<Rightarrow> string list" where
  "split_loop [] buf inStr = trimmed_stmt buf"
| "split_loop (ch # cs) buf inStr =
     (if ch = CHR 0x27 \<and> \<not> inStr then split_loop cs (buf @ [ch]) True
      else if ch = CHR 0x27 \<and> inStr then
        (case cs of
           c # cs' \<Rightarrow> if c = CHR 0x27 then split_loop cs' (buf @ [ch, ch]) inStr else split_loop cs (buf @ [ch]) False
         | [] \<Rightarrow> split_loop cs (buf @ [ch]) False)
      else if ch = CHR '';'' \<and> \<not> inStr then trimmed_stmt buf @ split_loop cs [] inStr
      else split_loop cs (buf @ [ch]) inStr)"

definition splitStatements :: "string \<Rightarrow> string list" where
  "splitStatements sql = split_loop sql [] False"

definition query_cell :: "Value \<Rightarrow> cell" where
  "query_cell v = (if valType v = TypeInt then IntCell (IntVal v) else TextCell (TextVal v))"

definition buildQueryResp :: "(go_error \<Rightarrow> string) \<Rightarrow> string \<Rightarrow> go_error + Result \<Rightarrow> queryResp" where
  "buildQueryResp et dur r =
     (case r of
        Inl e \<Rightarrow> \<lparr>qrColumns = [], qrRows = [], qrMessage = [], qrDuration = dur, qrRowCount = 0, qrError = et e\<rparr>
      | Inr res \<Rightarrow>
          if resColumns res \<noteq> [] then
            \<lparr>qrColumns = resColumns res, qrRows = map (map query_cell) (resRows res), qrMessage = resMessage res,
             qrDuration = dur, qrRowCount = length (resRows res), qrError = []\<rparr>
          else \<lparr>qrColumns = [], qrRows = [], qrMessage = resMessage res, qrDuration = dur, qrRowCount = 0, qrError = []\<rparr>)"

fun run_statements :: "(go_error \<Rightarrow> string) \<Rightarrow> (nat \<Rightarrow> string) \<Rightarrow> (string \<Rightarrow> ('d, Result) go) \<Rightarrow> nat \<Rightarrow> string list \<Rightarrow> ('d, queryResp list) go" where
  "run_statements et dur exec i [] db = (Inr [], db)"
| "run_statements et dur exec i (stmt # stmts) db =
     (case exec stmt db of
        (Inl e, db) \<Rightarrow> if crashes e then (Inl e, db) else (Inr [buildQueryResp et (dur i) (Inl e)], db)
      | (Inr res, db) \<Rightarrow>
          (case run_statements et dur exec (Suc i) stmts db of
             (Inl e, db) \<Rightarrow> (Inl e, db)
           | (Inr rs, db) \<Rightarrow> (Inr (buildQueryResp et (dur i) (Inr res) # rs), db)))"

datatype http_reply = MethodNotAllowed | BadRequest | EmptyQuery | Results "queryResp list"

text \<open>\<open>body\<close> is the statement text of the decoded request, if it could be decoded.\<close>

definition handleQuery ::
  "(go_error \<Rightarrow> string) \<Rightarrow> (nat \<Rightarrow> string) \<Rightarrow> (string \<Rightarrow> ('d, Result) go) \<Rightarrow> bool \<Rightarrow> string option \<Rightarrow> ('d, http_reply) go" where
  "handleQuery et dur exec isPost body =
     (if \<not> isPost then returnG MethodNotAllowed
      else case body of
        None \<Rightarrow> returnG BadRequest
      | Some sql \<Rightarrow>
          if sql = [] then returnG BadRequest
          else if splitStatements sql = [] then returnG EmptyQuery
          else bindG (run_statements et dur exec 0 (splitStatements sql)) (\<lambda>rs. returnG (Results rs)))"

section \<open>Splitting\<close>

text \<open>The state of the literal scanner after a text without a semicolon outside of literals.\<close>

fun literal_state :: "string \<Rightarrow> bool \<Rightarrow> bool option" where
  "literal_state [] q = Some q"
| "literal_state (c # cs) q =
     (if c = CHR 0x27 then literal_state cs (\<not> q) else if c = CHR '';'' \<and> \<not> q then None else literal_state cs q)"

text \<open>Two quotes in a row inside a literal end it and begin it again, which comes to the same.\<close>

lemma split_loop_quote: "split_loop (CHR 0x27 # cs) buf q = split_loop cs (buf @ [CHR 0x27]) (\<not> q)"
  by (cases q; cases cs) auto

lemma split_loop_append: "literal_state s q = Some q' \<Longrightarrow> split_loop (s @ rest) buf q = split_loop rest (buf @ s) q'"
proof (induction s arbitrary: buf q)
  case (Cons c s)
  show ?case
  proof (cases "c = CHR 0x27")
    case True
    then show ?thesis using Cons.IH [of "\<not> q" "buf @ [c]"] Cons.prems by (simp only: append_Cons split_loop_quote) simp
  next
    case False
    then show ?thesis using Cons by (auto split: if_splits)
  qed
qed simp

text \<open>A statement as it is split off: without spaces around it, not empty, its literals closed, no semicolon outside
  of them.\<close>

definition plain_stmt :: "string \<Rightarrow> bool" where
  "plain_stmt s \<longleftrightarrow> s \<noteq> [] \<and> TrimSpace s = s \<and> literal_state s False = Some False"

text \<open>C38: Splitting undoes joining: statements that are trimmed and not empty, in which every semicolon is inside a
  string literal and every literal is closed, are split off again unchanged when they are written one after the other
  with semicolons between them, with or without a semicolon at the end.\<close>

theorem split_statements_roundtrip:
  assumes "\<forall>s\<in>set stmts. plain_stmt s"
  shows "splitStatements (join_strings '';'' stmts) = stmts \<and> splitStatements (concat (map (\<lambda>s. s @ '';'') stmts)) = stmts"
proof -
  have stmt: "trimmed_stmt s = [s]" if "plain_stmt s" for s using that by (simp add: trimmed_stmt_def plain_stmt_def)
  have "split_loop (join_strings '';'' stmts) [] False = stmts"
    using assms
  proof (induction stmts rule: induct_list012)
    case 1
    then show ?case by (simp add: trimmed_stmt_def TrimSpace_def)
  next
    case (2 s)
    then show ?case using split_loop_append [of s False False "[]" "[]"] stmt [of s] by (simp add: plain_stmt_def)
  next
    case (3 s t stmts)
    then show ?case using split_loop_append [of s False False _ "[]"] stmt [of s] by (simp add: plain_stmt_def)
  qed
  moreover have "split_loop (concat (map (\<lambda>s. s @ '';'') stmts)) [] False = stmts"
    using assms
  proof (induction stmts)
    case Nil
    then show ?case by (simp add: trimmed_stmt_def TrimSpace_def)
  next
    case (Cons s stmts)
    then show ?case using split_loop_append [of s False False _ "[]"] stmt [of s] by (simp add: plain_stmt_def)
  qed
  ultimately show ?thesis by (simp add: splitStatements_def)
qed

theorem split_statements_roundtrip_witness:
  "splitStatements (''BEGIN;SELECT '' @ [CHR 0x27] @ ''a;b'' @ [CHR 0x27] @ '';COMMIT'') =
    [''BEGIN'', ''SELECT '' @ [CHR 0x27] @ ''a;b'' @ [CHR 0x27], ''COMMIT'']"
proof -
  let ?stmts = "[''BEGIN'', ''SELECT '' @ [CHR 0x27] @ ''a;b'' @ [CHR 0x27], ''COMMIT'']"
  have "\<forall>s\<in>set ?stmts. plain_stmt s" by (simp add: plain_stmt_def TrimSpace_def ascii_space_def)
  from split_statements_roundtrip [OF this] show ?thesis by simp
qed

end
