(* ===== verification/Spec2Isabelle.thy ===== *)
theory Spec2Isabelle
  imports WalRecover CommitAtomic TxStmt PlanWellFormed Selects ParserTotal AnalyzeOk ServerOk CliOk Dashboard
begin

text \<open>
  \<^bold>\<open>db-engine: a verification development.\<close>

  db-engine is a relational database in Go: a page file with checksums and a free list, a B+ tree with fixed-size
  nodes, a buffer pool, a redo log, transactions with snapshots, a catalog, a SQL parser, a planner with a cost model,
  an executor with iterators, a TCP server and client, a command line and a web dashboard. This library is a shallow
  embedding of that program. Every definition keeps the name of the Go function where it can, has its branches in the
  same order, and returns errors, panics and early returns as values.

  \<^bold>\<open>Conventions\<close> (\<open>Prelude\<close>, \<open>Bytes\<close>, \<open>Decimal\<close>).
  Integers of the program are words of their width, so their arithmetic wraps. A fallible operation on a state is a
  function \<open>('s, 'a) go = 's \<Rightarrow> (go_error + 'a) \<times> 's\<close>: the state after a failed call is part of the
  result. \<open>Panic\<close> stands for a run-time panic of Go. A file is its bytes together with a schedule of faults
  for the coming writes (\<open>go_file\<close>): a write may fail after a prefix. The order in which Go visits a map and
  the growth of slices are arguments (\<open>MapOrder\<close>, \<open>Orders\<close>); the theorems hold for each of them. Text
  is a list of bytes; case folding and trimming are those of ASCII.

  \<^bold>\<open>Storage.\<close>
  \<^item> \<open>Storage\<close> (\<open>src/storage/page.go\<close>): header, data area and checksum of a page; encoding and
    decoding, detection of damage in the data area.
  \<^item> \<open>PageStore\<close>: the interfaces \<open>PageStore\<close> and \<open>FullPageStore\<close> as records of operations and as
    the locales \<open>page_store\<close> and \<open>full_store\<close>, in which everything above the pager is proved once.
  \<^item> \<open>Pager\<close> (\<open>src/pager/pager.go\<close>), \<open>TxPager\<close> (\<open>src/pager/txpager.go\<close>): page file with meta page and
    free list; the write buffer of a transaction. Both, and the buffer pool's adapter, interpret the locales. Every
    reachable pager is consistent and reopens to itself; a transaction leaves the file alone until \<open>Flush\<close>.
  \<^item> \<open>BufferPool\<close>, \<open>FileStores\<close>, \<open>BufferFiles\<close> (\<open>src/bufferpool/pool.go\<close>): the LRU pool, its coherence
    with the files, and the files of a database side by side over one pool (locale \<open>db_files\<close>).
  \<^item> \<open>BTreeNode\<close>, \<open>BTree\<close>, \<open>BTreeSpec\<close>, \<open>BTreeRefine\<close>, \<open>BTreeReplace\<close>, \<open>BTreeTx\<close>, \<open>BTreeCursor\<close>
    (\<open>src/btree\<close>): node codecs, all operations, the abstract tree, and that insert, search, delete, range scan and
    cursor refine a finite map over any page store.
  \<^item> \<open>Wal\<close>, \<open>WalRecover\<close> (\<open>src/wal/wal.go\<close>): the record codec, opening with a torn or damaged tail, appends
    under write faults, and redo recovery.
  \<^item> \<open>Mvcc\<close> (\<open>src/mvcc/mvcc.go\<close>): committed set, snapshots, visibility.

  \<^bold>\<open>Language and planning.\<close>
  \<^item> \<open>Query\<close>, \<open>Lexer\<close>, \<open>Parser\<close>, \<open>ParserTotal\<close> (\<open>src/query\<close>): syntax tree, lexer, recursive descent
    parser; written-out tokens are read back, and the parser ends on every input.
  \<^item> \<open>Catalog\<close> (\<open>src/catalog/catalog.go\<close>): schemas, the dictionary with the backing arrays its slices share, the
    file. \<open>Statistics\<close> (\<open>src/stats/stats.go\<close>): collection, file and cost estimates.
  \<^item> \<open>Planner\<close>, \<open>PlannerCorrect\<close>, \<open>PlanExec\<close>, \<open>PlanWellFormed\<close>, \<open>Explain\<close> (\<open>src/planner\<close>): plans, the
    planner for one and for several tables, and that plans are well formed and mean what the query says.

  \<^bold>\<open>Execution.\<close>
  \<^item> \<open>Rows\<close>, \<open>Predicates\<close>, \<open>Operators\<close>, \<open>OperatorSpec\<close>, \<open>Aggregates\<close>, \<open>Selects\<close> (\<open>src/executor\<close>:
    \<open>operators.go\<close>, \<open>agg.go\<close>, \<open>subquery.go\<close> and the reading part of \<open>executor.go\<close>): row codec with the MVCC
    header, WHERE, the iterators, grouping, ordering, subqueries. A SELECT over one table returns exactly the visible
    rows for which the WHERE clause holds; plans of any query run to their end.
  \<^item> \<open>Database\<close>, \<open>Dml\<close>, \<open>Engine\<close> (\<open>executor.go\<close>, \<open>dml.go\<close>): the database object with its open files and
    transactions, the commit protocol, INSERT, DELETE, UPDATE, the statements on the schema, ANALYZE, EXPLAIN,
    \<open>Open\<close>, \<open>Close\<close> and \<open>Exec\<close>.
  \<^item> \<open>WorkArea\<close>, \<open>WorkTrees\<close>, \<open>CommitSpec\<close>, \<open>RollbackSpec\<close>, \<open>Statements\<close>, \<open>InsertRows\<close>, \<open>InsertStmt\<close>,
    \<open>DmlScan\<close>, \<open>DmlTrees\<close>, \<open>DeleteRows\<close>, \<open>DeleteStmt\<close>, \<open>DeleteOk\<close>, \<open>UpdateRows\<close>, \<open>UpdateOk\<close>,
    \<open>DmlCorrect\<close>: the writing statements outside explicit transactions refine updates of the map from primary keys to
    the rows that the next statement sees, with their index entries, through transaction pagers, log and commit.
    \<open>CommitAtomic\<close>: a crash between two of a commit's log records leaves nothing of the transaction for recovery, a
    crash after the last one all of it. \<open>TxStmt\<close>: INSERT between BEGIN and COMMIT is isolated and then durable.
    \<open>AnalyzeOk\<close>: ANALYZE computes exact numbers. \<open>ExampleDb\<close> is the database of the witnesses.

  \<^bold>\<open>Front ends.\<close>
  \<^item> \<open>Server\<close>, \<open>ServerOk\<close> (\<open>src/server\<close>, \<open>src/client\<close>): frames, the loop of a connection, connections that
    take turns as a step relation, the client. Every request is answered once and in order.
  \<^item> \<open>Cli\<close>, \<open>CliOk\<close> (\<open>src/cmd/dbengine\<close>): the commands on page and tree files, the SQL prompt, printed tables.
    \<open>Dashboard\<close> (\<open>src/cmd/dashboard\<close>): splitting and running the statements of a request, the table overview.

  \<^bold>\<open>How the parts meet.\<close> A statement is parsed, its subqueries are run and replaced by their values, the planner turns
  it into a tree of nodes, and the iterators read the trees of table and indexes through the buffer pool or, inside a
  transaction, through transaction pagers. A writing statement collects dirty pages in transaction pagers; commit
  appends their images and a commit record to the log before it flushes them to the files; recovery at the next
  \<open>Open\<close> replays the last committed image of every page. Row headers name the writing and the deleting transaction,
  and a snapshot decides which versions a statement sees.

  \<^bold>\<open>Bounds.\<close> Recursions that follow the data are structural or have a termination proof (lexer, parser, server
  loop). Loops over pages and rows take fuel. The height of a tree is below the number of its pages, and page numbers
  have 32 bits, so \<open>2 ^ 32\<close> is enough for a descent; keys have 64 bits and the entries of a tree are strictly
  ascending, so more than \<open>2 ^ 64\<close> is enough for a scan. Theorems state that the result is reached with that fuel;
  no theorem says only what holds if a loop ends. Queries over plans are proved to end with some fuel and then with any
  larger one.

  \<^bold>\<open>Hypotheses.\<close> \<open>db_ok\<close>: the pool is coherent and the open files are different, consistent page files.
  \<open>stmt_open\<close>: the files of the table and its indexes are open. \<open>files_scan\<close>, \<open>files_room\<close>: they hold trees, with
  free page numbers for the new entries; scanned tables have no empty leaf after the first (an empty leaf makes the
  cursor panic, \<open>cursor_empty_leaf_panics\<close>). \<open>log_ready\<close>: the log is readable and its counters are not used up.
  \<open>unused\<close>: the next transaction number occurs in no row. \<open>orders_ok\<close>: the orders enumerate their maps. Each
  property with hypotheses has a witness in which they hold.

  \<^bold>\<open>Not modelled.\<close> Locks and the scheduler: the lock of the database makes a statement one step; statements of explicit
  transactions run without it in the source, and their interleaving inside a statement is outside this model. The
  values of float64 (their operations are the argument \<open>Float64\<close>), \<open>encoding/json\<close> (the argument \<open>Json\<close>), the texts
  of error messages, durations and the pool's hit ratio. Sockets, HTTP, flags and signals
  (\<open>src/cmd/dbserver\<close> and the start of the other programs). \<open>fsync\<close> has no effect in the model: a write is durable
  when it returns. DELETE and UPDATE have their correctness theorem outside of BEGIN and COMMIT;
  inside, the operations are modelled and the transaction pager's properties apply, and INSERT alone has a theorem for
  the statement.
\<close>

end
